(* ===== verification/Somedb_Prelude.thy ===== *)
theory Somedb_Prelude
  imports Main "HOL-Library.Word"
begin

text \<open>
  The prelude of the development: the machine types of \<^verbatim>\<open>include/utils/shared.h\<close>, the result
  type of fallible operations, byte buffers with checked access, the decimal conversions
  \<^verbatim>\<open>sprintf("%d")\<close>, \<^verbatim>\<open>sprintf("%u")\<close> and \<^verbatim>\<open>atoi\<close> the components use to build and hash
  keys, and the lemmas on them that the components share.

  A C pointer into a buffer, \<^verbatim>\<open>data + off\<close>, is the suffix \<open>drop off data\<close>; a store through such
  a pointer is \<open>store off bytes data\<close>, which fails outside the buffer.
\<close>

unbundle bit_operations_syntax

section \<open>Machine types and results\<close>

type_synonym u8 = "8 word"
type_synonym u16 = "16 word"
type_synonym u32 = "32 word"
type_synonym i32 = "32 word" \<comment> \<open>two's complement, read with \<open>sint\<close>\<close>
type_synonym i16 = "16 word" \<comment> \<open>two's complement, read with \<open>sint\<close>\<close>
type_synonym double = "64 word" \<comment> \<open>the IEEE-754 bit pattern\<close>
type_synonym bytes = "u8 list"

type_synonym page_id_t = u32
type_synonym frame_id_t = u32

text \<open>What can go wrong in the program: undefined behaviour, a failed \<^verbatim>\<open>assert\<close>, \<^verbatim>\<open>exit(1)\<close>, a
  C++ exception, or a loop that provably never leaves its current state.\<close>

datatype err =
    NullDeref
  | UseAfterFree
  | DoubleFree
  | OutOfBounds
  | DivByZero
  | IntOverflow
  | BadUnionRead
  | AssertFail
  | ExitFailure
  | StdOutOfRange
  | RuntimeError string
  | Diverges

type_synonym 'a res = "err + 'a"

definition and_then :: "'a res \<Rightarrow> ('a \<Rightarrow> 'b res) \<Rightarrow> 'b res" where
  "and_then m f = (case m of Inl e \<Rightarrow> Inl e | Inr x \<Rightarrow> f x)"

lemma and_then_simps [simp]:
  "and_then (Inl e) f = Inl e"
  "and_then (Inr x) f = f x"
  by (simp_all add: and_then_def)

lemma and_then_Inr_iff:
  "and_then m f = Inr y \<longleftrightarrow> (\<exists>x. m = Inr x \<and> f x = Inr y)"
  by (cases m) auto

lemma and_then_assoc: "and_then (and_then m f) g = and_then m (\<lambda>x. and_then (f x) g)"
  by (cases m) auto

lemma and_then_cong [fundef_cong]:
  assumes "m = m'" and "\<And>x. m' = Inr x \<Longrightarrow> f x = f' x"
  shows "and_then m f = and_then m' f'"
  using assms by (cases m') auto

text \<open>A C condition that must hold for the next step to be defined.\<close>

definition guard :: "err \<Rightarrow> bool \<Rightarrow> unit res" where
  "guard e b = (if b then Inr () else Inl e)"

lemma guard_simps [simp]:
  "guard e True = Inr ()"
  "guard e False = Inl e"
  by (simp_all add: guard_def)

lemma guard_Inr_iff: "guard e b = Inr u \<longleftrightarrow> b"
  by (simp add: guard_def)

lemma and_then_guard: "b \<Longrightarrow> and_then (guard e b) f = f ()"
  by simp

lemma unat_bounds:
  "unat (b :: u8) < 256"
  "unat (h :: u16) < 65536"
  "unat (w :: u32) < 4294967296"
  using unsigned_less [where w = b and 'a = nat] unsigned_less [where w = h and 'a = nat]
    unsigned_less [where w = w and 'a = nat] by simp_all

lemma unat_nonzero: "w \<noteq> 0 \<Longrightarrow> 0 < unat w"
  by (simp add: unat_gt_0)

lemma unat_ucast_small:
  "unat (w :: u32) < 65536 \<Longrightarrow> unat (ucast w :: u16) = unat w"
  by (simp add: unsigned_ucast_eq take_bit_nat_eq_self)

lemma unat_ucast_wider: "unat (ucast (h :: u16) :: u32) = unat h"
  using unat_bounds(2) [of h] by (simp add: unsigned_ucast_eq take_bit_nat_eq_self)

section \<open>Collections of rules\<close>

named_theorems buf_simps \<open>reading back what was stored in a byte buffer\<close>
named_theorems codec_defs \<open>the encoders and decoders of serialize.c\<close>
named_theorems layout_defs \<open>offsets and sizes fixed by the headers\<close>

section \<open>Byte buffers\<close>

definition put :: "nat \<Rightarrow> bytes \<Rightarrow> bytes \<Rightarrow> bytes" where
  "put off src buf = take off buf @ src @ drop (off + length src) buf"

definition store :: "nat \<Rightarrow> bytes \<Rightarrow> bytes \<Rightarrow> bytes res" where
  "store off src buf =
     (if off + length src \<le> length buf then Inr (put off src buf) else Inl OutOfBounds)"

definition load :: "nat \<Rightarrow> nat \<Rightarrow> bytes \<Rightarrow> bytes res" where
  "load off n buf =
     (if off + n \<le> length buf then Inr (take n (drop off buf)) else Inl OutOfBounds)"

definition byte_at :: "nat \<Rightarrow> bytes \<Rightarrow> u8 res" where
  "byte_at off buf = (if off < length buf then Inr (buf ! off) else Inl OutOfBounds)"

lemma length_put [simp, buf_simps]:
  "off + length src \<le> length buf \<Longrightarrow> length (put off src buf) = length buf"
  by (simp add: put_def)

lemma put_nth [buf_simps]:
  "off + length src \<le> length buf \<Longrightarrow> i < length buf \<Longrightarrow>
     put off src buf ! i =
       (if i < off then buf ! i else if i < off + length src then src ! (i - off) else buf ! i)"
  by (auto simp: put_def nth_append)

lemma store_ok: "off + length src \<le> length buf \<Longrightarrow> store off src buf = Inr (put off src buf)"
  by (simp add: store_def)

lemma load_ok: "off + n \<le> length buf \<Longrightarrow> load off n buf = Inr (take n (drop off buf))"
  by (simp add: load_def)

lemma byte_at_ok: "off < length buf \<Longrightarrow> byte_at off buf = Inr (buf ! off)"
  by (simp add: byte_at_def)

lemma drop_put_same:
  "off \<le> length buf \<Longrightarrow> drop off (put off src buf) = src @ drop (off + length src) buf"
  by (simp add: put_def)

lemma drop_put_after:
  assumes "off + length src \<le> length buf" and "off + length src \<le> o'"
  shows "drop o' (put off src buf) = drop o' buf"
  using assms by (simp add: put_def)

lemma take_put_before: "n \<le> off \<Longrightarrow> off \<le> length buf \<Longrightarrow> take n (put off src buf) = take n buf"
  by (simp add: put_def)

lemma take_drop_put_before:
  assumes "off + length src \<le> length buf" and "o' + n \<le> off"
  shows "take n (drop o' (put off src buf)) = take n (drop o' buf)"
  using assms by (simp add: put_def drop_take take_drop [symmetric] add.commute)

lemma put_put_disjoint:
  assumes "o1 + length s1 \<le> o2" and "o2 + length s2 \<le> length b"
  shows "put o1 s1 (put o2 s2 b) = put o2 s2 (put o1 s1 b)"
  by (rule nth_equalityI) (use assms in \<open>auto simp: put_nth\<close>)

lemma put_append: "put off (a @ b) buf = put (off + length a) b (put off a buf)"
  if "off + length a + length b \<le> length buf"
  by (rule nth_equalityI) (use that in \<open>auto simp: put_nth nth_append\<close>)

section \<open>Decimal strings\<close>

definition digit_char :: "nat \<Rightarrow> char" where
  "digit_char d = char_of (48 + d)"

definition is_digit :: "char \<Rightarrow> bool" where
  "is_digit c \<longleftrightarrow> 48 \<le> (of_char c :: nat) \<and> (of_char c :: nat) \<le> 57"

definition digit_val :: "char \<Rightarrow> nat" where
  "digit_val c = of_char c - 48"

fun dec :: "nat \<Rightarrow> string" where
  "dec n = (if n < 10 then [digit_char n] else dec (n div 10) @ [digit_char (n mod 10)])"

declare dec.simps [simp del]

definition int_dec :: "int \<Rightarrow> string" where
  "int_dec i = (if i < 0 then CHR ''-'' # dec (nat (- i)) else dec (nat i))"

text \<open>\<^verbatim>\<open>sprintf(buf, "%d", x)\<close> and \<^verbatim>\<open>sprintf(buf, "%u", x)\<close> of a 32-bit argument into a buffer
  of \<open>cap\<close> bytes; the terminating zero takes one of them.\<close>

definition sprintf_d :: "nat \<Rightarrow> u32 \<Rightarrow> string res" where
  "sprintf_d cap w =
     (let s = int_dec (sint w) in if length s < cap then Inr s else Inl OutOfBounds)"

definition sprintf_u :: "nat \<Rightarrow> u32 \<Rightarrow> string res" where
  "sprintf_u cap w =
     (let s = dec (unat w) in if length s < cap then Inr s else Inl OutOfBounds)"

text \<open>\<^verbatim>\<open>atoi\<close>: leading white space, an optional sign, then the longest run of digits.\<close>

definition is_space :: "char \<Rightarrow> bool" where
  "is_space c \<longleftrightarrow> (of_char c :: nat) = 32 \<or> (9 \<le> (of_char c :: nat) \<and> (of_char c :: nat) \<le> 13)"

fun atoi_digits :: "nat \<Rightarrow> string \<Rightarrow> nat" where
  "atoi_digits acc [] = acc"
| "atoi_digits acc (c # cs) = (if is_digit c then atoi_digits (10 * acc + digit_val c) cs else acc)"

definition atoi :: "string \<Rightarrow> int" where
  "atoi s =
     (case dropWhile is_space s of
        [] \<Rightarrow> 0
      | c # cs \<Rightarrow> (if c = CHR ''-'' then - int (atoi_digits 0 cs)
                  else if c = CHR ''+'' then int (atoi_digits 0 cs)
                  else int (atoi_digits 0 (c # cs))))"

lemma of_char_digit_char [simp]: "d < 10 \<Longrightarrow> (of_char (digit_char d) :: nat) = 48 + d"
  by (simp add: digit_char_def)

lemma is_digit_digit_char [simp]: "d < 10 \<Longrightarrow> is_digit (digit_char d)"
  by (simp add: is_digit_def)

lemma digit_val_digit_char [simp]: "d < 10 \<Longrightarrow> digit_val (digit_char d) = d"
  by (simp add: digit_val_def)

lemma digit_not_space: "is_digit c \<Longrightarrow> \<not> is_space c"
  by (simp add: is_digit_def is_space_def)

lemma digit_not_sign: "is_digit c \<Longrightarrow> c \<noteq> CHR ''-'' \<and> c \<noteq> CHR ''+''"
  by (auto simp: is_digit_def)

lemma dec_all_digits: "list_all is_digit (dec n)"
  by (induction n rule: dec.induct) (subst dec.simps, simp)

lemma dec_not_Nil [simp]: "dec n \<noteq> []"
  by (subst dec.simps) simp

lemma atoi_digits_append:
  "list_all is_digit xs \<Longrightarrow> atoi_digits acc (xs @ ys) = atoi_digits (atoi_digits acc xs) ys"
  by (induction xs arbitrary: acc) auto

lemma atoi_digits_dec: "atoi_digits 0 (dec n) = n"
proof (induction n rule: dec.induct)
  case (1 n)
  then show ?case
    by (subst dec.simps) (simp add: atoi_digits_append dec_all_digits)
qed

lemma atoi_dec [simp]: "atoi (dec n) = int n"
proof -
  obtain c cs where dn: "dec n = c # cs"
    by (cases "dec n") auto
  with dec_all_digits [of n] have "is_digit c" by simp
  then show ?thesis
    using dn digit_not_space [of c] digit_not_sign [of c] atoi_digits_dec [of n]
    by (simp add: atoi_def)
qed

lemma dec_inject [simp]: "dec m = dec n \<longleftrightarrow> m = n"
  by (metis atoi_dec of_nat_eq_iff)

lemma less_dec_length: "n < 10 ^ length (dec n)"
proof (induction n rule: dec.induct)
  case (1 n)
  show ?case
  proof (cases "n < 10")
    case False
    have "n < 10 * (n div 10 + 1)" by presburger
    also have "\<dots> \<le> 10 * 10 ^ length (dec (n div 10))" using 1 [OF False] by (intro mult_le_mono2) simp
    finally show ?thesis using False by (simp add: dec.simps [of n])
  qed (simp add: dec.simps [of n])
qed

lemma length_dec_less: "n < 10 ^ k \<Longrightarrow> 0 < k \<Longrightarrow> length (dec n) \<le> k"
proof (induction n arbitrary: k rule: dec.induct)
  case (1 n)
  show ?case
  proof (cases "n < 10")
    case True
    with "1.prems" show ?thesis by (subst dec.simps) simp
  next
    case False
    obtain j where k: "k = Suc j" using "1.prems"(2) by (cases k) auto
    with False "1.prems" have j: "n div 10 < 10 ^ j" "0 < j"
      by (auto simp: less_mult_imp_div_less mult.commute intro: Nat.gr0I)
    from "1.IH" [OF False j] have "length (dec (n div 10)) \<le> j" .
    with False k show ?thesis by (subst dec.simps) simp
  qed
qed

lemma sint_nonneg_eq: "unat (w :: u32) < 2 ^ 31 \<Longrightarrow> sint w = int (unat w)"
proof -
  assume less: "unat w < 2 ^ 31"
  have nat: "uint w = int (unat w)" by simp
  from less have "int (unat w) < int (2 ^ 31)" by (simp only: of_nat_less_iff)
  with nat have "uint w < 2 ^ 31" by simp
  then have "signed_take_bit 31 (uint w) = uint w"
    using uint_ge_0 [of w] by (intro signed_take_bit_int_eq_self) linarith+
  with nat show ?thesis by (simp add: sint_uint)
qed

lemma sprintf_d_eq:
  assumes "unat w < 2 ^ 31" and "11 \<le> cap"
  shows "sprintf_d cap w = Inr (dec (unat w))"
proof -
  from assms(1) have "unat w < 10 ^ 10" by simp
  then have "length (dec (unat w)) \<le> 10" by (rule length_dec_less) simp
  with assms show ?thesis
    by (simp add: sprintf_d_def Let_def int_dec_def sint_nonneg_eq)
qed

lemma sprintf_u_eq:
  assumes "unat w < 10 ^ k" and "0 < k" and "k < cap"
  shows "sprintf_u cap w = Inr (dec (unat w))"
  using length_dec_less [OF assms(1,2)] assms(3) by (simp add: sprintf_u_def Let_def)

end
