(* ===== verification/Serialize.thy ===== *)
theory Serialize
  imports Somedb_Prelude
begin

text \<open>
  \<^verbatim>\<open>src/utils/serialize.c\<close>: the encodings of the values that go to disk. An encoder is the list
  of bytes the C function stores at \<^verbatim>\<open>buf\<close>; a decoder reads its bytes from the front of the
  buffer it is given and fails where the C function would read past its end.

  The locale \<open>codec\<close> is the contract every other component relies on: a fixed width, and
  decoding what was encoded gives it back whatever follows in the buffer. Its lemmas say what a
  field of a page holds after a store to it and after a store elsewhere.
\<close>

section \<open>Encoders and decoders\<close>

definition encode_uint32 :: "u32 \<Rightarrow> bytes" where
  "encode_uint32 data =
     [ucast (drop_bit 24 data AND 0xFF), ucast (drop_bit 16 data AND 0xFF),
      ucast (drop_bit 8 data AND 0xFF), ucast (data AND 0xFF)]"

fun decode_uint32 :: "bytes \<Rightarrow> u32 res" where
  "decode_uint32 (b0 # b1 # b2 # b3 # _) =
     Inr (push_bit 24 (ucast b0) OR push_bit 16 (ucast b1) OR push_bit 8 (ucast b2) OR ucast b3)"
| "decode_uint32 _ = Inl OutOfBounds"

definition encode_uint16 :: "u16 \<Rightarrow> bytes" where
  "encode_uint16 data = [ucast (drop_bit 8 data AND 0xFF), ucast (data AND 0xFF)]"

fun decode_uint16 :: "bytes \<Rightarrow> u16 res" where
  "decode_uint16 (b0 # b1 # _) = Inr (push_bit 8 (ucast b0) OR ucast b1)"
| "decode_uint16 _ = Inl OutOfBounds"

definition encode_int32 :: "i32 \<Rightarrow> bytes" where
  "encode_int32 data = encode_uint32 data"

definition decode_int32 :: "bytes \<Rightarrow> i32 res" where
  "decode_int32 buf = decode_uint32 buf"

text \<open>The argument of \<^verbatim>\<open>encode_int16\<close> is an \<^verbatim>\<open>int\<close>; the cast to \<^verbatim>\<open>uint16_t\<close> drops its upper half.\<close>

definition encode_int16 :: "i32 \<Rightarrow> bytes" where
  "encode_int16 data = encode_uint16 (ucast data)"

definition decode_int16 :: "bytes \<Rightarrow> i16 res" where
  "decode_int16 buf = decode_uint16 buf"

text \<open>\<^verbatim>\<open>memcpy\<close> of the object representation of a double, on the little-endian host the build
  targets.\<close>

definition encode_double :: "double \<Rightarrow> bytes" where
  "encode_double data = map (\<lambda>i. ucast (drop_bit (8 * i) data)) [0, 1, 2, 3, 4, 5, 6, 7]"

fun decode_double :: "bytes \<Rightarrow> double res" where
  "decode_double (b0 # b1 # b2 # b3 # b4 # b5 # b6 # b7 # _) =
     Inr (ucast b0 OR push_bit 8 (ucast b1) OR push_bit 16 (ucast b2) OR push_bit 24 (ucast b3) OR
          push_bit 32 (ucast b4) OR push_bit 40 (ucast b5) OR push_bit 48 (ucast b6) OR
          push_bit 56 (ucast b7))"
| "decode_double _ = Inl OutOfBounds"

definition encode_bool :: "bool \<Rightarrow> bytes" where
  "encode_bool data = [if data then 1 else 0]"

fun decode_bool :: "bytes \<Rightarrow> bool res" where
  "decode_bool (b # _) = Inr (b \<noteq> 0)"
| "decode_bool [] = Inl OutOfBounds"

lemmas [codec_defs] = encode_uint32_def encode_uint16_def encode_int32_def decode_int32_def
  encode_double_def encode_bool_def

section \<open>The contract of an encoding\<close>

text \<open>Storing \<open>src\<close> at an offset succeeds, changes only the bytes it covers, and decoding there gives \<open>x\<close>.\<close>

definition field_stored :: "nat \<Rightarrow> bytes \<Rightarrow> bytes \<Rightarrow> (bytes \<Rightarrow> 'a res) \<Rightarrow> 'a \<Rightarrow> bool" where
  "field_stored off src buf decode x \<longleftrightarrow>
     (case store off src buf of
        Inl e \<Rightarrow> False
      | Inr b \<Rightarrow> length b = length buf \<and> take off b = take off buf \<and>
                 drop (off + length src) b = drop (off + length src) buf \<and> decode (drop off b) = Inr x)"

locale codec =
  fixes enc :: "'a \<Rightarrow> bytes"
    and decode :: "bytes \<Rightarrow> 'a res"
    and width :: nat
  assumes decode_enc: "decode (enc x @ rest) = Inr x"
    and length_enc: "length (enc x) = width"
    and decode_short: "length bs < width \<Longrightarrow> decode bs = Inl OutOfBounds"
    and decode_prefix: "width \<le> length bs \<Longrightarrow> decode bs = decode (take width bs)"
begin

lemma decode_enc_exact: "decode (enc x) = Inr x"
  using decode_enc [of x "[]"] by simp

lemma enc_inject: "enc x = enc y \<longleftrightarrow> x = y"
  by (metis decode_enc_exact sum.inject(2))

lemma decode_stored:
  assumes "off + width \<le> length buf"
  shows "decode (drop off (put off (enc x) buf)) = Inr x"
  using assms by (simp add: drop_put_same decode_enc length_enc)

lemma decode_stored_elsewhere:
  assumes in_buf: "off + length src \<le> length buf" "fld + width \<le> length buf"
    and disjoint: "fld + width \<le> off \<or> off + length src \<le> fld"
  shows "decode (drop fld (put off src buf)) = decode (drop fld buf)"
  using disjoint
proof
  assume before: "fld + width \<le> off"
  with in_buf have "take width (drop fld (put off src buf)) = take width (drop fld buf)"
    by (simp add: take_drop_put_before)
  with in_buf show ?thesis
    using decode_prefix [of "drop fld (put off src buf)"] decode_prefix [of "drop fld buf"]
    by simp
next
  assume "off + length src \<le> fld"
  with in_buf show ?thesis by (simp add: drop_put_after)
qed

lemma stored_field:
  assumes "off + width \<le> length buf"
  shows "field_stored off (enc x) buf decode x"
  using assms decode_stored [OF assms, of x] by (simp add: field_stored_def store_ok length_enc put_def)

lemma store_enc_ok:
  "off + width \<le> length buf \<Longrightarrow> store off (enc x) buf = Inr (put off (enc x) buf)"
  by (simp add: store_ok length_enc)

end

section \<open>The encodings meet the contract\<close>

lemma ucast_and_FF:
  "(ucast ((w :: 32 word) AND 0xFF) :: u8) = ucast w"
  "(ucast ((v :: 16 word) AND 0xFF) :: u8) = ucast v"
proof -
  have m32: "(0xFF :: 32 word) = mask 8" and m16: "(0xFF :: 16 word) = mask 8"
    by (simp_all add: mask_eq_exp_minus_1)
  show "(ucast (w AND 0xFF) :: u8) = ucast w"
    unfolding m32 by (auto simp: bit_simps intro!: bit_word_eqI)
  show "(ucast (v AND 0xFF) :: u8) = ucast v"
    unfolding m16 by (auto simp: bit_simps intro!: bit_word_eqI)
qed

lemma bit_of_byte:
  "bit (push_bit k (ucast (ucast (drop_bit k x) :: u8)) :: 'a::len word) n \<longleftrightarrow>
     k \<le> n \<and> n < k + 8 \<and> bit x n"
  for x :: "'a::len word"
  using bit_imp_le_length [of x n] by (auto simp: bit_simps)

lemma bit_of_low_byte:
  "bit (ucast (ucast x :: u8) :: 'a::len word) n \<longleftrightarrow> n < 8 \<and> bit x n"
  for x :: "'a::len word"
  using bit_imp_le_length [of x n] by (auto simp: bit_simps)

lemma decode_encode_uint32: "decode_uint32 (encode_uint32 x @ rest) = Inr x"
proof -
  have "bit x n \<Longrightarrow> n < 32" for n using bit_imp_le_length [of x n] by simp
  then show ?thesis
    by (auto simp: encode_uint32_def ucast_and_FF bit_of_byte bit_of_low_byte bit_or_iff
             intro!: bit_word_eqI)
qed

lemma decode_encode_uint16: "decode_uint16 (encode_uint16 x @ rest) = Inr x"
proof -
  have "bit x n \<Longrightarrow> n < 16" for n using bit_imp_le_length [of x n] by simp
  then show ?thesis
    by (auto simp: encode_uint16_def ucast_and_FF bit_of_byte bit_of_low_byte bit_or_iff
             intro!: bit_word_eqI)
qed

lemma decode_encode_double: "decode_double (encode_double x @ rest) = Inr x"
proof -
  have "bit x n \<Longrightarrow> n < 64" for n using bit_imp_le_length [of x n] by simp
  then show ?thesis
    by (auto simp: encode_double_def bit_of_byte bit_of_low_byte bit_or_iff
             intro!: bit_word_eqI)
qed

lemma decode_uint32_prefix: "4 \<le> length bs \<Longrightarrow> decode_uint32 bs = decode_uint32 (take 4 bs)"
  by (cases bs rule: decode_uint32.cases) auto

lemma decode_uint16_prefix: "2 \<le> length bs \<Longrightarrow> decode_uint16 bs = decode_uint16 (take 2 bs)"
  by (cases bs rule: decode_uint16.cases) auto

lemma decode_double_prefix: "8 \<le> length bs \<Longrightarrow> decode_double bs = decode_double (take 8 bs)"
  by (cases bs rule: decode_double.cases) auto

lemma decode_uint32_short: "length bs < 4 \<Longrightarrow> decode_uint32 bs = Inl OutOfBounds"
  by (cases bs rule: decode_uint32.cases) auto

lemma decode_uint16_short: "length bs < 2 \<Longrightarrow> decode_uint16 bs = Inl OutOfBounds"
  by (cases bs rule: decode_uint16.cases) auto

lemma decode_double_short: "length bs < 8 \<Longrightarrow> decode_double bs = Inl OutOfBounds"
  by (cases bs rule: decode_double.cases) auto

interpretation u32c: codec encode_uint32 decode_uint32 4
  by (rule codec.intro [OF decode_encode_uint32 _ decode_uint32_short decode_uint32_prefix])
    (simp_all add: encode_uint32_def)

interpretation u16c: codec encode_uint16 decode_uint16 2
  by (rule codec.intro [OF decode_encode_uint16 _ decode_uint16_short decode_uint16_prefix])
    (simp_all add: encode_uint16_def)

interpretation i32c: codec encode_int32 decode_int32 4
  unfolding encode_int32_def [abs_def] decode_int32_def [abs_def] by (rule u32c.codec_axioms)

interpretation dblc: codec encode_double decode_double 8
  by (rule codec.intro [OF decode_encode_double _ decode_double_short decode_double_prefix])
    (simp_all add: encode_double_def)

interpretation boolc: codec encode_bool decode_bool 1
proof unfold_locales
  fix bs :: bytes
  show "1 \<le> length bs \<Longrightarrow> decode_bool bs = decode_bool (take 1 bs)"
    by (cases bs) simp_all
qed (simp_all add: encode_bool_def)

lemmas length_encodings [simp, buf_simps] =
  u32c.length_enc u16c.length_enc i32c.length_enc dblc.length_enc boolc.length_enc

text \<open>
  \<^verbatim>\<open>encode_int16\<close> takes an \<^verbatim>\<open>int\<close>: decoding gives the low half, and sign-extending it
  gives the argument back exactly when the argument fits 16 bits.
\<close>

lemma int16_round_trip_iff_fits:
  "decode_int16 (encode_int16 d) = Inr (ucast d) \<and>
   (sint (ucast d :: i16) = sint d \<longleftrightarrow> - (2 ^ 15) \<le> sint d \<and> sint d < 2 ^ 15)"
proof
  show "decode_int16 (encode_int16 d) = Inr (ucast d)"
    by (simp add: decode_int16_def encode_int16_def u16c.decode_enc_exact)
  have low: "sint (ucast d :: i16) = signed_take_bit 15 (sint d)"
    by (simp add: sint_uint signed_take_bit_signed_take_bit unsigned_ucast_eq
        signed_take_bit_take_bit)
  show "sint (ucast d :: i16) = sint d \<longleftrightarrow> - (2 ^ 15) \<le> sint d \<and> sint d < 2 ^ 15"
    unfolding low by (simp add: signed_take_bit_int_eq_self_iff)
qed

lemma stored_int16:
  assumes "off + 2 \<le> length buf"
  shows "\<exists>r. field_stored off (encode_int16 n) buf decode_int16 r \<and>
    (sint r = sint n \<longleftrightarrow> - (2 ^ 15) \<le> sint n \<and> sint n < 2 ^ 15)"
proof (intro exI conjI)
  have d: "decode_int16 = decode_uint16" by (rule ext) (simp add: decode_int16_def)
  show "field_stored off (encode_int16 n) buf decode_int16 (ucast n)"
    using u16c.stored_field [OF assms, of "ucast n"] by (simp only: d encode_int16_def)
qed (simp only: int16_round_trip_iff_fits)

section \<open>Properties\<close>

text \<open>
  C26. A field of a page survives the trip through its bytes. For each of the encodings of \<^verbatim>\<open>serialize.c\<close>, storing a
  value at an offset where the width of this encoding still fits the buffer succeeds, keeps the buffer's length and
  every byte outside the field, and decoding at the offset gives the value back. \<^verbatim>\<open>encode_int16\<close> takes an
  \<^verbatim>\<open>int\<close>: what is decoded is equal to it exactly when it fits 16 bits.
\<close>

theorem stored_field_reads_back:
  "(off + 4 \<le> length buf \<longrightarrow> field_stored off (encode_uint32 a) buf decode_uint32 a) \<and>
   (off + 2 \<le> length buf \<longrightarrow> field_stored off (encode_uint16 c) buf decode_uint16 c) \<and>
   (off + 4 \<le> length buf \<longrightarrow> field_stored off (encode_int32 i) buf decode_int32 i) \<and>
   (off + 2 \<le> length buf \<longrightarrow> (\<exists>r. field_stored off (encode_int16 n) buf decode_int16 r \<and>
      (sint r = sint n \<longleftrightarrow> - (2 ^ 15) \<le> sint n \<and> sint n < 2 ^ 15))) \<and>
   (off + 8 \<le> length buf \<longrightarrow> field_stored off (encode_double d) buf decode_double d) \<and>
   (off + 1 \<le> length buf \<longrightarrow> field_stored off (encode_bool t) buf decode_bool t)"
  by (intro conjI impI) (erule u32c.stored_field u16c.stored_field i32c.stored_field stored_int16
      dblc.stored_field boolc.stored_field)+

theorem stored_field_reads_back_witness:
  "field_stored 3 (encode_uint32 0x951F6C01) (replicate 7 0) decode_uint32 0x951F6C01 \<and>
   (\<exists>r. field_stored 3 (encode_int16 (- 300)) (replicate 7 0) decode_int16 r \<and> sint r = - 300) \<and>
   field_stored 6 (encode_bool True) (replicate 7 0) decode_bool True"
  using stored_field_reads_back [of 3 "replicate 7 0" "0x951F6C01" 0 0 "- 300" 0 False]
    stored_field_reads_back [of 6 "replicate 7 0" 0 0 0 0 0 True] by simp

end
