(* ===== verification/C_Memory.thy ===== *)
theory C_Memory
  imports Somedb_Prelude
begin

text \<open>
  The part of the C heap the components share: the strings, integers and flags that one component
  allocates with \<^verbatim>\<open>malloc\<close> and another one frees. A cell that was freed is absent, so a read
  through a dangling pointer and a second \<^verbatim>\<open>free\<close> are errors of the model. An address is never
  handed out twice, which only makes such errors visible; \<open>brk\<close> is the next address.
\<close>

type_synonym addr = nat

datatype cell = CStr string | CU32 u32 | CU16 u16 | CBool bool

record cmem =
  cells :: "addr \<rightharpoonup> cell"
  brk :: addr

definition malloc :: "cell \<Rightarrow> cmem \<Rightarrow> addr \<times> cmem" where
  "malloc c m = (brk m, m\<lparr>cells := (cells m)(brk m \<mapsto> c), brk := Suc (brk m)\<rparr>)"

definition free :: "addr option \<Rightarrow> cmem \<Rightarrow> cmem res" where
  "free p m =
     (case p of
        None \<Rightarrow> Inr m
      | Some a \<Rightarrow> (case cells m a of
                    None \<Rightarrow> Inl DoubleFree
                  | Some _ \<Rightarrow> Inr (m\<lparr>cells := (cells m)(a := None)\<rparr>)))"

definition deref :: "addr option \<Rightarrow> cmem \<Rightarrow> cell res" where
  "deref p m =
     (case p of
        None \<Rightarrow> Inl NullDeref
      | Some a \<Rightarrow> (case cells m a of None \<Rightarrow> Inl UseAfterFree | Some c \<Rightarrow> Inr c))"

fun as_str :: "cell \<Rightarrow> string res" where
  "as_str (CStr s) = Inr s"
| "as_str _ = Inl BadUnionRead"

fun as_u32 :: "cell \<Rightarrow> u32 res" where
  "as_u32 (CU32 w) = Inr w"
| "as_u32 _ = Inl BadUnionRead"

fun as_u16 :: "cell \<Rightarrow> u16 res" where
  "as_u16 (CU16 w) = Inr w"
| "as_u16 _ = Inl BadUnionRead"

fun as_bool :: "cell \<Rightarrow> bool res" where
  "as_bool (CBool b) = Inr b"
| "as_bool _ = Inl BadUnionRead"

definition deref_str :: "addr option \<Rightarrow> cmem \<Rightarrow> string res" where
  "deref_str p m = and_then (deref p m) as_str"

definition cmem_wf :: "cmem \<Rightarrow> bool" where
  "cmem_wf m \<longleftrightarrow> (\<forall>a \<ge> brk m. cells m a = None)"

text \<open>An allocated cell stays as it is: what one allocation or store keeps of the old cells.\<close>

definition extends :: "cmem \<Rightarrow> cmem \<Rightarrow> bool" where
  "extends m m' \<longleftrightarrow> (\<forall>a c. cells m a = Some c \<longrightarrow> cells m' a = Some c) \<and> brk m \<le> brk m'"

lemma cmem_wf_fresh: "cmem_wf m \<Longrightarrow> brk m \<le> a \<Longrightarrow> cells m a = None"
  by (simp add: cmem_wf_def)

lemma cmem_wf_less: "cmem_wf m \<Longrightarrow> cells m a = Some c \<Longrightarrow> a < brk m"
  using cmem_wf_fresh [of m a] by (cases "a < brk m") auto

lemma malloc_fst [simp]: "fst (malloc c m) = brk m"
  by (simp add: malloc_def)

lemma malloc_snd_simps [simp]:
  "cells (snd (malloc c m)) = (cells m)(brk m \<mapsto> c)"
  "brk (snd (malloc c m)) = Suc (brk m)"
  by (simp_all add: malloc_def)

lemma malloc_wf [simp]: "cmem_wf m \<Longrightarrow> cmem_wf (snd (malloc c m))"
  by (auto simp: cmem_wf_def)

lemma malloc_extends: "cmem_wf m \<Longrightarrow> extends m (snd (malloc c m))"
  by (auto simp: extends_def cmem_wf_def)

lemma extends_refl [simp]: "extends m m"
  by (simp add: extends_def)

lemma extends_trans: "extends a b \<Longrightarrow> extends b c \<Longrightarrow> extends a c"
  by (auto simp: extends_def)

lemma extendsD: "extends m m' \<Longrightarrow> cells m a = Some c \<Longrightarrow> cells m' a = Some c"
  by (simp add: extends_def)

lemma deref_simps [simp]:
  "deref None m = Inl NullDeref"
  "cells m a = Some c \<Longrightarrow> deref (Some a) m = Inr c"
  "cells m a = None \<Longrightarrow> deref (Some a) m = Inl UseAfterFree"
  by (simp_all add: deref_def)

lemma deref_str_simps [simp]:
  "deref_str None m = Inl NullDeref"
  "cells m a = Some (CStr s) \<Longrightarrow> deref_str (Some a) m = Inr s"
  "cells m a = None \<Longrightarrow> deref_str (Some a) m = Inl UseAfterFree"
  by (simp_all add: deref_str_def)

lemma free_simps [simp]:
  "free None m = Inr m"
  "cells m a = Some c \<Longrightarrow> free (Some a) m = Inr (m\<lparr>cells := (cells m)(a := None)\<rparr>)"
  "cells m a = None \<Longrightarrow> free (Some a) m = Inl DoubleFree"
  by (simp_all add: free_def)

lemma cells_remove_wf [simp]: "cmem_wf m \<Longrightarrow> cmem_wf (m\<lparr>cells := (cells m)(a := None)\<rparr>)"
  by (simp add: cmem_wf_def)

text \<open>What is kept when some of the cells in \<open>A\<close> are freed.\<close>

definition extends_but :: "addr set \<Rightarrow> cmem \<Rightarrow> cmem \<Rightarrow> bool" where
  "extends_but A m m' \<longleftrightarrow> (\<forall>a c. cells m a = Some c \<longrightarrow> a \<notin> A \<longrightarrow> cells m' a = Some c) \<and> brk m \<le> brk m'"

lemma extends_but_extends: "extends m m' \<Longrightarrow> extends_but A m m'"
  by (simp add: extends_but_def extends_def)

lemma extends_butD: "extends_but A m m' \<Longrightarrow> cells m a = Some c \<Longrightarrow> a \<notin> A \<Longrightarrow> cells m' a = Some c"
  by (simp add: extends_but_def)

lemma extends_but_trans:
  "extends_but A l m \<Longrightarrow> extends_but B m n \<Longrightarrow> A \<subseteq> C \<Longrightarrow> B \<subseteq> C \<Longrightarrow> extends_but C l n"
  unfolding extends_but_def by (meson order_trans subsetD)

end
