(* ===== verification/Hash_Table.thy ===== *)
theory Hash_Table
  imports C_Memory "HOL-Library.Signed_Division"
begin

text \<open>
  \<^verbatim>\<open>src/utils/hash.c\<close>: the chained hash table keyed by C strings. A bucket is the list of the
  elements of its chain; the array slot is the first of them and a zeroed slot is the empty list.
  The table stores pointers only: the strings and the data live in the C heap, where
  \<open>hash_remove\<close> and \<open>destroy_hash\<close> free some of them. Each operation is
  one function here; \<open>Hash_Threads\<close> shows that threads under the latch cannot tell the difference.

  The locale \<open>dictionary\<close> is what the clients rely on: lookups after an update and after a
  removal. The table meets it on the keys that get a bucket of their own, the decimal numbers
  below its size, which is how the page directory and the frame table use it.
\<close>

section \<open>The table and its operations\<close>

record HashEl =
  el_key :: addr
  el_data :: addr

record HashTable =
  ht_arr :: "HashEl list list"
  ht_size :: u16

definition init_hash :: "u32 \<Rightarrow> HashTable" where
  "init_hash sz = \<lparr>ht_arr = replicate (unat sz) [], ht_size = ucast sz\<rparr>"

text \<open>\<^verbatim>\<open>atoi(key) % ht->size\<close> is an \<^verbatim>\<open>int\<close> remainder, truncated towards zero, then cut to 16 bits.\<close>

definition hash :: "string \<Rightarrow> HashTable \<Rightarrow> u16 res" where
  "hash k ht =
     (if atoi k < - (2 ^ 31) \<or> 2 ^ 31 \<le> atoi k then Inl IntOverflow
      else if ht_size ht = 0 then Inl DivByZero
      else Inr (word_of_int (atoi k smod uint (ht_size ht))))"

definition bucket_at :: "u16 \<Rightarrow> HashTable \<Rightarrow> HashEl list res" where
  "bucket_at idx ht =
     (if unat idx < length (ht_arr ht) then Inr (ht_arr ht ! unat idx) else Inl OutOfBounds)"

fun chain_find :: "string \<Rightarrow> cmem \<Rightarrow> HashEl list \<Rightarrow> HashEl option res" where
  "chain_find k m [] = Inr None"
| "chain_find k m (temp # rest) =
     and_then (deref_str (Some (el_key temp)) m) (\<lambda>s.
       if s = k then Inr (Some temp) else chain_find k m rest)"

definition hash_find :: "string \<Rightarrow> cmem \<Rightarrow> HashTable \<Rightarrow> HashEl option res" where
  "hash_find k m ht =
     and_then (hash k ht) (\<lambda>idx.
     and_then (bucket_at idx ht) (\<lambda>b.
       chain_find k m b))"

fun chain_insert :: "string \<Rightarrow> HashEl \<Rightarrow> cmem \<Rightarrow> HashEl list \<Rightarrow> HashEl list res" where
  "chain_insert k el m [] = Inr [el]"
| "chain_insert k el m (temp # rest) =
     and_then (deref_str (Some (el_key temp)) m) (\<lambda>s.
       if s = k then Inr (el # rest)
       else and_then (chain_insert k el m rest) (\<lambda>rest'. Inr (temp # rest')))"

definition set_bucket :: "u16 \<Rightarrow> HashEl list \<Rightarrow> HashTable \<Rightarrow> HashTable" where
  "set_bucket idx b ht = ht\<lparr>ht_arr := (ht_arr ht)[unat idx := b]\<rparr>"

fun hash_insert :: "addr option \<Rightarrow> addr option \<Rightarrow> cmem \<Rightarrow> HashTable \<Rightarrow> HashTable res" where
  "hash_insert (Some k) (Some d) m ht =
     and_then (deref_str (Some k) m) (\<lambda>s.
     and_then (hash s ht) (\<lambda>idx.
     and_then (bucket_at idx ht) (\<lambda>b.
     and_then (chain_insert s \<lparr>el_key = k, el_data = d\<rparr> m b) (\<lambda>b'.
       Inr (set_bucket idx b' ht)))))"
| "hash_insert _ _ m ht = Inr ht"

text \<open>The chain after its head: the first element with the key, the ones before it, the rest.\<close>

fun chain_split :: "string \<Rightarrow> cmem \<Rightarrow> HashEl list \<Rightarrow>
    (HashEl list \<times> HashEl \<times> HashEl list) option res" where
  "chain_split k m [] = Inr None"
| "chain_split k m (temp # rest) =
     and_then (deref_str (Some (el_key temp)) m) (\<lambda>s.
       if s = k then Inr (Some ([], temp, rest))
       else and_then (chain_split k m rest) (\<lambda>r.
         Inr (map_option (\<lambda>(pre, el, post). (temp # pre, el, post)) r)))"

definition free_hash_el :: "HashEl \<Rightarrow> cmem \<Rightarrow> cmem res" where
  "free_hash_el el m = and_then (free (Some (el_key el)) m) (free (Some (el_data el)))"

text \<open>The value stored through \<^verbatim>\<open>success_out\<close>, the heap and the table. A zeroed slot has a null key, so
  the loop stops at it and the removal "succeeds". Removing the first element of a longer chain
  copies its successor into the slot and then frees the key and data of the slot, which by then
  are the successor's.\<close>

definition hash_remove :: "string \<Rightarrow> cmem \<Rightarrow> HashTable \<Rightarrow> (bool \<times> cmem \<times> HashTable) res" where
  "hash_remove k m ht =
     and_then (hash k ht) (\<lambda>idx.
     and_then (bucket_at idx ht) (\<lambda>b.
       if b = [] then Inr (True, m, set_bucket idx [] ht)
       else and_then (chain_split k m b) (\<lambda>r.
         case r of
           None \<Rightarrow> Inr (False, m, ht)
         | Some ([], temp, []) \<Rightarrow> Inr (True, m, set_bucket idx [] ht)
         | Some ([], temp, next # rest) \<Rightarrow>
             and_then (free_hash_el next m) (\<lambda>m'. Inr (True, m', set_bucket idx (next # rest) ht))
         | Some (pre, temp, post) \<Rightarrow>
             and_then (free_hash_el temp m) (\<lambda>m'. Inr (True, m', set_bucket idx (pre @ post) ht)))))"

text \<open>\<^verbatim>\<open>destroy_hash\<close> steps over a chain two elements at a time and frees every second one.\<close>

fun destroy_chain :: "HashEl list \<Rightarrow> cmem \<Rightarrow> cmem res" where
  "destroy_chain (cur # temp # rest) m = and_then (free_hash_el temp m) (destroy_chain rest)"
| "destroy_chain _ m = Inr m"

fun destroy_buckets :: "HashEl list list \<Rightarrow> cmem \<Rightarrow> cmem res" where
  "destroy_buckets [] m = Inr m"
| "destroy_buckets (b # bs) m = and_then (destroy_chain b m) (destroy_buckets bs)"

definition destroy_hash :: "HashTable \<Rightarrow> cmem \<Rightarrow> cmem res" where
  "destroy_hash ht m = destroy_buckets (take (unat (ht_size ht)) (ht_arr ht)) m"

section \<open>Chains\<close>

definition el_str :: "cmem \<Rightarrow> HashEl \<Rightarrow> string" where
  "el_str m e = (case cells m (el_key e) of Some (CStr s) \<Rightarrow> s | _ \<Rightarrow> [])"

definition live_el :: "cmem \<Rightarrow> HashEl \<Rightarrow> bool" where
  "live_el m e \<longleftrightarrow>
     cells m (el_key e) = Some (CStr (el_str m e)) \<and> (\<exists>c. cells m (el_data e) = Some c)"

lemma live_el_deref [simp]: "live_el m e \<Longrightarrow> deref_str (Some (el_key e)) m = Inr (el_str m e)"
  by (simp add: live_el_def)

lemma live_elI:
  assumes "cells m (el_key e) = Some (CStr s)" and "cells m (el_data e) = Some c"
  shows "live_el m e" and "el_str m e = s"
  using assms by (simp_all add: live_el_def el_str_def)

lemma chain_find_live:
  "list_all (live_el m) b \<Longrightarrow> chain_find k m b = Inr (find (\<lambda>e. el_str m e = k) b)"
  by (induction b) auto

lemma chain_insert_live:
  assumes "list_all (live_el m) b" and "live_el m el" and "el_str m el = k"
  shows "\<exists>b'. chain_insert k el m b = Inr b' \<and> list_all (live_el m) b' \<and>
              (\<forall>j. find (\<lambda>e. el_str m e = j) b' =
                   (if j = k then Some el else find (\<lambda>e. el_str m e = j) b))"
  using assms by (induction b) auto

lemma chain_split_live:
  assumes "list_all (live_el m) b"
  shows "(\<exists>pre el post. chain_split k m b = Inr (Some (pre, el, post)) \<and> b = pre @ el # post \<and>
            el_str m el = k \<and> k \<notin> el_str m ` set pre) \<or>
         (chain_split k m b = Inr None \<and> k \<notin> el_str m ` set b)"
  using assms
proof (induction b)
  case (Cons e b)
  then show ?case by (cases "el_str m e = k") fastforce+
qed simp

section \<open>Keys and buckets\<close>

definition int_key :: "string \<Rightarrow> bool" where
  "int_key k \<longleftrightarrow> 0 \<le> atoi k \<and> atoi k < 2 ^ 31"

definition slot_of :: "string \<Rightarrow> HashTable \<Rightarrow> nat" where
  "slot_of k ht = nat (atoi k) mod unat (ht_size ht)"

lemma int_key_dec: "n < 2 ^ 31 \<Longrightarrow> int_key (dec n)"
  by (simp add: int_key_def)

lemma smod_nonneg_eq: "0 \<le> a \<Longrightarrow> 0 \<le> b \<Longrightarrow> a smod b = a mod (b :: int)"
  by (cases "a = 0"; cases "b = 0") (simp_all add: signed_modulo_int_def)

lemma hash_int_key:
  assumes "int_key k" and "ht_size ht \<noteq> 0"
  shows "\<exists>w. hash k ht = Inr w \<and> unat w = slot_of k ht"
proof -
  have pos: "0 < unat (ht_size ht)" using assms(2) by (rule unat_nonzero)
  have "atoi k smod uint (ht_size ht) = atoi k mod uint (ht_size ht)"
    using assms(1) by (simp add: int_key_def smod_nonneg_eq)
  also have "\<dots> = int (slot_of k ht)"
    using assms(1) by (simp add: int_key_def slot_of_def zmod_int)
  finally have eq: "atoi k smod uint (ht_size ht) = int (slot_of k ht)" .
  have "slot_of k ht < unat (ht_size ht)" using pos by (simp add: slot_of_def)
  then have "slot_of k ht < 2 ^ 16" using unat_bounds(2) [of "ht_size ht"] by simp
  then have "unat (word_of_int (int (slot_of k ht)) :: u16) = slot_of k ht"
    by (simp add: unat_of_nat)
  then show ?thesis
    using assms eq by (auto simp: hash_def int_key_def)
qed

lemma slot_of_set_bucket [simp]: "slot_of k (set_bucket i b ht) = slot_of k ht"
  by (simp add: slot_of_def set_bucket_def)

definition table_wf :: "cmem \<Rightarrow> HashTable \<Rightarrow> bool" where
  "table_wf m ht \<longleftrightarrow>
     cmem_wf m \<and> ht_size ht \<noteq> 0 \<and> length (ht_arr ht) = unat (ht_size ht) \<and>
     (\<forall>b \<in> set (ht_arr ht). list_all (live_el m) b)"

lemma table_wf_slot:
  assumes "table_wf m ht"
  shows "slot_of k ht < length (ht_arr ht)"
  using assms unat_nonzero [of "ht_size ht"] by (simp add: table_wf_def slot_of_def)

lemma table_wf_bucket:
  assumes "table_wf m ht" and "int_key k"
  obtains w where "hash k ht = Inr w" and "unat w = slot_of k ht"
    and "bucket_at w ht = Inr (ht_arr ht ! slot_of k ht)"
    and "list_all (live_el m) (ht_arr ht ! slot_of k ht)"
proof -
  from assms have "ht_size ht \<noteq> 0" by (simp add: table_wf_def)
  from hash_int_key [OF assms(2) this] obtain w
    where w: "hash k ht = Inr w" "unat w = slot_of k ht" by blast
  moreover have "slot_of k ht < length (ht_arr ht)" using assms(1) by (rule table_wf_slot)
  ultimately show thesis
    using that [of w] assms(1) by (simp add: bucket_at_def table_wf_def)
qed

lemma hash_find_wf:
  assumes "table_wf m ht" and "int_key k"
  shows "hash_find k m ht = Inr (find (\<lambda>e. el_str m e = k) (ht_arr ht ! slot_of k ht))"
proof -
  from assms obtain w where "hash k ht = Inr w"
    "bucket_at w ht = Inr (ht_arr ht ! slot_of k ht)"
    "list_all (live_el m) (ht_arr ht ! slot_of k ht)" by (rule table_wf_bucket)
  then show ?thesis by (simp add: hash_find_def chain_find_live)
qed

lemma set_bucket_wf:
  assumes "table_wf m ht" and "list_all (live_el m) b"
  shows "table_wf m (set_bucket i b ht)"
  using assms set_update_subset_insert [of "ht_arr ht" "unat i" b]
  by (auto simp: table_wf_def set_bucket_def)

lemma set_bucket_nth:
  assumes "unat i = slot_of k ht" and "table_wf m ht"
  shows "ht_arr (set_bucket i b ht) ! slot_of j ht =
         (if slot_of j ht = slot_of k ht then b else ht_arr ht ! slot_of j ht)"
  using assms table_wf_slot [OF assms(2), of k] by (simp add: set_bucket_def nth_list_update)

section \<open>The dictionary contract\<close>

locale dictionary =
  fixes inv :: "'s \<Rightarrow> bool"
    and keys :: "'s \<Rightarrow> string set"
    and lookup :: "string \<Rightarrow> 's \<Rightarrow> cell option res"
    and upd :: "string \<Rightarrow> cell \<Rightarrow> 's \<Rightarrow> 's res"
    and del :: "string \<Rightarrow> 's \<Rightarrow> 's res"
  assumes upd_ok: "inv s \<Longrightarrow> k \<in> keys s \<Longrightarrow>
      \<exists>s'. upd k c s = Inr s' \<and> inv s' \<and> keys s' = keys s \<and> lookup k s' = Inr (Some c) \<and>
           (\<forall>j \<in> keys s. j \<noteq> k \<longrightarrow> lookup j s' = lookup j s)"
    and del_ok: "inv s \<Longrightarrow> k \<in> keys s \<Longrightarrow>
      \<exists>s'. del k s = Inr s' \<and> inv s' \<and> keys s' = keys s \<and> lookup k s' = Inr None \<and>
           (\<forall>j \<in> keys s. j \<noteq> k \<longrightarrow> lookup j s' = lookup j s)"
begin

lemma replace_ok:
  assumes "inv s" and "k \<in> keys s"
  shows "\<exists>s'. and_then (del k s) (upd k c) = Inr s' \<and> inv s' \<and> keys s' = keys s \<and>
              lookup k s' = Inr (Some c) \<and> (\<forall>j \<in> keys s. j \<noteq> k \<longrightarrow> lookup j s' = lookup j s)"
proof -
  from del_ok [OF assms] obtain s1 where s1: "del k s = Inr s1" "inv s1" "keys s1 = keys s"
    "\<forall>j \<in> keys s. j \<noteq> k \<longrightarrow> lookup j s1 = lookup j s" by blast
  with assms(2) upd_ok [of s1 k c] obtain s2 where "upd k c s1 = Inr s2" "inv s2" "keys s2 = keys s"
    "lookup k s2 = Inr (Some c)" "\<forall>j \<in> keys s. j \<noteq> k \<longrightarrow> lookup j s2 = lookup j s1" by auto
  with s1 show ?thesis by auto
qed

end

section \<open>A table whose keys have a bucket each\<close>

text \<open>The decimal numbers below the size of the table. On them no chain ever grows past its slot.\<close>

definition own_keys :: "HashTable \<Rightarrow> string set" where
  "own_keys ht = dec ` {..< unat (ht_size ht)}"

definition slot_ok :: "cmem \<Rightarrow> nat \<Rightarrow> HashEl list \<Rightarrow> bool" where
  "slot_ok m i b \<longleftrightarrow> b = [] \<or> (\<exists>e. b = [e] \<and> live_el m e \<and> el_str m e = dec i)"

definition slot_inv :: "cmem \<Rightarrow> HashTable \<Rightarrow> bool" where
  "slot_inv m ht \<longleftrightarrow>
     cmem_wf m \<and> ht_size ht \<noteq> 0 \<and> length (ht_arr ht) = unat (ht_size ht) \<and>
     (\<forall>i < length (ht_arr ht). slot_ok m i (ht_arr ht ! i))"

lemma slot_ok_live: "slot_ok m i b \<Longrightarrow> list_all (live_el m) b"
  by (auto simp: slot_ok_def)

lemma slot_inv_table_wf: "slot_inv m ht \<Longrightarrow> table_wf m ht"
  unfolding slot_inv_def table_wf_def by (metis in_set_conv_nth slot_ok_live)

lemma slot_inv_set_bucket:
  assumes "slot_inv m ht" and "slot_ok m (unat i) b"
  shows "slot_inv m (set_bucket i b ht)"
proof -
  have "slot_ok m j ((ht_arr ht)[unat i := b] ! j)" if "j < length (ht_arr ht)" for j
    using assms that by (cases "unat i = j") (auto simp: slot_inv_def)
  with assms(1) show ?thesis by (simp add: slot_inv_def set_bucket_def)
qed

lemma slot_inv_init:
  assumes "cmem_wf m" and "0 < unat sz" and "unat sz < 65536"
  shows "slot_inv m (init_hash sz)"
proof -
  have eq: "unat (ucast sz :: u16) = unat sz"
    using assms(3) by (rule unat_ucast_small)
  with assms(2) have "(ucast sz :: u16) \<noteq> 0" by (metis less_irrefl unsigned_0)
  with eq assms show ?thesis
    by (simp add: slot_inv_def init_hash_def slot_ok_def)
qed

lemma slot_of_dec: "n < unat (ht_size ht) \<Longrightarrow> slot_of (dec n) ht = n"
  by (simp add: slot_of_def)

lemma slot_inv_int_key: "n < unat (ht_size ht) \<Longrightarrow> int_key (dec n)"
  using unat_bounds(2) [of "ht_size ht"] by (intro int_key_dec) simp

lemma slot_inv_find:
  assumes "slot_inv m ht" and "n < unat (ht_size ht)"
  shows "hash_find (dec n) m ht =
         Inr (case ht_arr ht ! n of [] \<Rightarrow> None | e # _ \<Rightarrow> Some e)"
proof -
  from assms have "slot_ok m n (ht_arr ht ! n)" by (simp add: slot_inv_def)
  then show ?thesis
    using hash_find_wf [OF slot_inv_table_wf [OF assms(1)] slot_inv_int_key [OF assms(2)]]
      slot_of_dec [OF assms(2)]
    by (auto simp: slot_ok_def)
qed

lemma slot_inv_insert:
  assumes inv: "slot_inv m ht" and n: "n < unat (ht_size ht)"
    and k: "cells m k = Some (CStr (dec n))" and d: "cells m d = Some c"
  shows "\<exists>ht'. hash_insert (Some k) (Some d) m ht = Inr ht' \<and> slot_inv m ht' \<and>
               ht_size ht' = ht_size ht \<and>
               ht_arr ht' = (ht_arr ht)[n := [\<lparr>el_key = k, el_data = d\<rparr>]]"
proof -
  let ?el = "\<lparr>el_key = k, el_data = d\<rparr>"
  have el: "live_el m ?el" "el_str m ?el = dec n"
    using live_elI [of m ?el "dec n" c] k d by simp_all
  from table_wf_bucket [OF slot_inv_table_wf [OF inv] slot_inv_int_key [OF n]]
  obtain w where w: "hash (dec n) ht = Inr w" "unat w = n" "bucket_at w ht = Inr (ht_arr ht ! n)"
    using slot_of_dec [OF n] by metis
  from inv n have "slot_ok m n (ht_arr ht ! n)" by (simp add: slot_inv_def)
  then have "chain_insert (dec n) ?el m (ht_arr ht ! n) = Inr [?el]"
    by (auto simp: slot_ok_def)
  with w k have "hash_insert (Some k) (Some d) m ht = Inr (set_bucket w [?el] ht)"
    by simp
  moreover have "slot_inv m (set_bucket w [?el] ht)"
    by (rule slot_inv_set_bucket [OF inv]) (simp add: slot_ok_def el w(2))
  ultimately show ?thesis using w(2) by (auto simp: set_bucket_def)
qed

lemma slot_inv_remove:
  assumes inv: "slot_inv m ht" and n: "n < unat (ht_size ht)"
  shows "\<exists>ht'. hash_remove (dec n) m ht = Inr (True, m, ht') \<and> slot_inv m ht' \<and>
               ht_size ht' = ht_size ht \<and> ht_arr ht' = (ht_arr ht)[n := []]"
proof -
  from table_wf_bucket [OF slot_inv_table_wf [OF inv] slot_inv_int_key [OF n]]
  obtain w where w: "hash (dec n) ht = Inr w" "unat w = n" "bucket_at w ht = Inr (ht_arr ht ! n)"
    using slot_of_dec [OF n] by metis
  from inv n have "slot_ok m n (ht_arr ht ! n)" by (simp add: slot_inv_def)
  with w have "hash_remove (dec n) m ht = Inr (True, m, set_bucket w [] ht)"
    by (auto simp: hash_remove_def slot_ok_def)
  moreover have "slot_inv m (set_bucket w [] ht)"
    by (rule slot_inv_set_bucket [OF inv]) (simp add: slot_ok_def)
  ultimately show ?thesis using w(2) by (auto simp: set_bucket_def)
qed

text \<open>Cells that are only added keep every element of the table as it is.\<close>

lemma live_el_extends:
  assumes "live_el m e" and "extends m m'"
  shows "live_el m' e" and "el_str m' e = el_str m e"
  using assms by (auto simp: live_el_def el_str_def dest: extendsD)

lemma slot_ok_extends: "slot_ok m i b \<Longrightarrow> extends m m' \<Longrightarrow> slot_ok m' i b"
  unfolding slot_ok_def by (metis live_el_extends)

lemma slot_inv_extends:
  assumes "slot_inv m ht" and "extends m m'" and "cmem_wf m'"
  shows "slot_inv m' ht"
  using assms unfolding slot_inv_def by (metis slot_ok_extends)

section \<open>The table as a dictionary\<close>

text \<open>The three patterns in which the program uses a table: reading the data of the element found,
  allocating a key and its data and inserting them, and removing a key.\<close>

definition dict_lookup :: "string \<Rightarrow> cmem \<times> HashTable \<Rightarrow> cell option res" where
  "dict_lookup k st =
     and_then (hash_find k (fst st) (snd st)) (\<lambda>r.
       case r of
         None \<Rightarrow> Inr None
       | Some e \<Rightarrow> and_then (deref (Some (el_data e)) (fst st)) (\<lambda>c. Inr (Some c)))"

definition dict_insert :: "string \<Rightarrow> cell \<Rightarrow> cmem \<times> HashTable \<Rightarrow> (cmem \<times> HashTable) res" where
  "dict_insert k c st =
     (let (d, m1) = malloc c (fst st); (ka, m2) = malloc (CStr k) m1
      in and_then (hash_insert (Some ka) (Some d) m2 (snd st)) (\<lambda>ht'. Inr (m2, ht')))"

definition dict_remove :: "string \<Rightarrow> cmem \<times> HashTable \<Rightarrow> (cmem \<times> HashTable) res" where
  "dict_remove k st =
     and_then (hash_remove k (fst st) (snd st)) (\<lambda>(ok, m', ht'). Inr (m', ht'))"

definition dict_inv :: "cmem \<times> HashTable \<Rightarrow> bool" where
  "dict_inv st \<longleftrightarrow> slot_inv (fst st) (snd st)"

definition dict_keys :: "cmem \<times> HashTable \<Rightarrow> string set" where
  "dict_keys st = own_keys (snd st)"

lemma dict_lookup_slot:
  assumes "slot_inv m ht" and "n < unat (ht_size ht)"
  shows "dict_lookup (dec n) (m, ht) =
         Inr (case ht_arr ht ! n of [] \<Rightarrow> None | e # _ \<Rightarrow> cells m (el_data e))"
proof -
  from assms have "slot_ok m n (ht_arr ht ! n)" by (simp add: slot_inv_def)
  then show ?thesis
    by (auto simp: dict_lookup_def slot_inv_find [OF assms] slot_ok_def live_el_def)
qed

lemma dict_lookup_extends:
  assumes "slot_inv m ht" and "n < unat (ht_size ht)" and "extends m m'" and "cmem_wf m'"
  shows "dict_lookup (dec n) (m', ht) = dict_lookup (dec n) (m, ht)"
proof -
  from assms(1,2) have "slot_ok m n (ht_arr ht ! n)" by (simp add: slot_inv_def)
  with assms show ?thesis
    using slot_inv_extends [OF assms(1,3,4)]
    by (auto simp: dict_lookup_slot slot_ok_def live_el_def dest: extendsD)
qed

lemma dict_insert_arr:
  assumes slots: "slot_inv m ht" and n: "n < unat (ht_size ht)"
  shows "\<exists>m' ht'. dict_insert (dec n) c (m, ht) = Inr (m', ht') \<and> slot_inv m' ht' \<and>
           ht_size ht' = ht_size ht \<and> extends m m' \<and> cmem_wf m' \<and> cells m' (brk m) = Some c \<and>
           ht_arr ht' = (ht_arr ht)[n := [\<lparr>el_key = Suc (brk m), el_data = brk m\<rparr>]]"
proof -
  from slots have wf: "cmem_wf m" by (simp add: slot_inv_def)
  let ?m1 = "snd (malloc c m)"
  let ?m2 = "snd (malloc (CStr (dec n)) ?m1)"
  have wf2: "cmem_wf ?m2" using wf by simp
  have ext: "extends m ?m2"
    using malloc_extends [OF wf] malloc_extends [of ?m1] wf by (meson extends_trans malloc_wf)
  have slots2: "slot_inv ?m2 ht" using slots ext wf2 by (rule slot_inv_extends)
  from slot_inv_insert [OF slots2 n, of "Suc (brk m)" "brk m" c]
  obtain ht' where ht': "hash_insert (Some (Suc (brk m))) (Some (brk m)) ?m2 ht = Inr ht'"
    "slot_inv ?m2 ht'" "ht_size ht' = ht_size ht"
    "ht_arr ht' = (ht_arr ht)[n := [\<lparr>el_key = Suc (brk m), el_data = brk m\<rparr>]]"
    by auto
  moreover have "dict_insert (dec n) c (m, ht) = Inr (?m2, ht')"
    using ht'(1) by (simp add: dict_insert_def malloc_def)
  moreover have "cells ?m2 (brk m) = Some c" by simp
  ultimately show ?thesis using ext wf2 by blast
qed

lemma dict_insert_slot:
  assumes slots: "slot_inv m ht" and n: "n < unat (ht_size ht)"
  shows "\<exists>m' ht'. dict_insert (dec n) c (m, ht) = Inr (m', ht') \<and> slot_inv m' ht' \<and>
           ht_size ht' = ht_size ht \<and> dict_lookup (dec n) (m', ht') = Inr (Some c) \<and>
           (\<forall>j < unat (ht_size ht). j \<noteq> n \<longrightarrow>
              dict_lookup (dec j) (m', ht') = dict_lookup (dec j) (m, ht))"
proof -
  from slots have len: "length (ht_arr ht) = unat (ht_size ht)" by (simp add: slot_inv_def)
  from dict_insert_arr [OF assms, of c] obtain m' ht' where
    r: "dict_insert (dec n) c (m, ht) = Inr (m', ht')" "slot_inv m' ht'" "ht_size ht' = ht_size ht"
       "extends m m'" "cmem_wf m'" "cells m' (brk m) = Some c"
       "ht_arr ht' = (ht_arr ht)[n := [\<lparr>el_key = Suc (brk m), el_data = brk m\<rparr>]]" by blast
  have slots': "slot_inv m' ht" using slots r(4,5) by (rule slot_inv_extends)
  have "dict_lookup (dec j) (m', ht') = dict_lookup (dec j) (m, ht)"
    if "j < unat (ht_size ht)" "j \<noteq> n" for j
    using that dict_lookup_slot [OF r(2), of j] dict_lookup_slot [OF slots', of j] r(3,7)
      dict_lookup_extends [OF slots _ r(4,5), of j] by simp
  moreover have "dict_lookup (dec n) (m', ht') = Inr (Some c)"
    using dict_lookup_slot [OF r(2), of n] r(3,6,7) n len by simp
  ultimately show ?thesis using r(1-3) by auto
qed

lemma dict_remove_slot:
  assumes slots: "slot_inv m ht" and n: "n < unat (ht_size ht)"
  shows "\<exists>m' ht'. dict_remove (dec n) (m, ht) = Inr (m', ht') \<and> slot_inv m' ht' \<and>
           ht_size ht' = ht_size ht \<and> dict_lookup (dec n) (m', ht') = Inr None \<and>
           (\<forall>j < unat (ht_size ht). j \<noteq> n \<longrightarrow>
              dict_lookup (dec j) (m', ht') = dict_lookup (dec j) (m, ht))"
proof -
  from slot_inv_remove [OF assms] obtain ht'
    where rm: "hash_remove (dec n) m ht = Inr (True, m, ht')" "slot_inv m ht'"
      "ht_size ht' = ht_size ht" "ht_arr ht' = (ht_arr ht)[n := []]" by blast
  have "dict_lookup (dec j) (m, ht') = (if j = n then Inr None else dict_lookup (dec j) (m, ht))"
    if "j < unat (ht_size ht)" for j
    using that rm n slots dict_lookup_slot [OF rm(2), of j] dict_lookup_slot [OF slots, of j]
    by (simp add: slot_inv_def)
  with rm n show ?thesis by (auto simp: dict_remove_def)
qed

interpretation dict: dictionary dict_inv dict_keys dict_lookup dict_insert dict_remove
proof
  fix s :: "cmem \<times> HashTable" and k :: string and c :: cell
  assume inv: "dict_inv s" and k: "k \<in> dict_keys s"
  obtain m ht where s: "s = (m, ht)" by (cases s)
  from k s obtain n where n: "k = dec n" "n < unat (ht_size ht)"
    by (auto simp: dict_keys_def own_keys_def)
  from inv s have slots: "slot_inv m ht" by (simp add: dict_inv_def)
  show "\<exists>s'. dict_insert k c s = Inr s' \<and> dict_inv s' \<and> dict_keys s' = dict_keys s \<and>
          dict_lookup k s' = Inr (Some c) \<and>
          (\<forall>j \<in> dict_keys s. j \<noteq> k \<longrightarrow> dict_lookup j s' = dict_lookup j s)"
    using dict_insert_slot [OF slots n(2), of c] n(1) s
    by (force simp: dict_inv_def dict_keys_def own_keys_def)
  show "\<exists>s'. dict_remove k s = Inr s' \<and> dict_inv s' \<and> dict_keys s' = dict_keys s \<and>
          dict_lookup k s' = Inr None \<and>
          (\<forall>j \<in> dict_keys s. j \<noteq> k \<longrightarrow> dict_lookup j s' = dict_lookup j s)"
    using dict_remove_slot [OF slots n(2)] n(1) s
    by (force simp: dict_inv_def dict_keys_def own_keys_def)
qed

section \<open>Properties\<close>

text \<open>A table of two buckets that holds the keys 1 and 3 in one chain, and the key 5 not yet
  inserted: the inputs of the witnesses.\<close>

definition ex_mem :: cmem where
  "ex_mem = \<lparr>cells = [0 \<mapsto> CStr ''1'', 1 \<mapsto> CU32 7, 2 \<mapsto> CStr ''3'', 3 \<mapsto> CU32 9,
                      4 \<mapsto> CStr ''5'', 5 \<mapsto> CU32 11], brk = 6\<rparr>"

definition ex_table :: HashTable where
  "ex_table = \<lparr>ht_arr = [[], [\<lparr>el_key = 0, el_data = 1\<rparr>, \<lparr>el_key = 2, el_data = 3\<rparr>]], ht_size = 2\<rparr>"

lemma ex_atoi: "atoi ''1'' = 1" "atoi ''3'' = 3" "atoi ''5'' = 5"
  by code_simp+

lemma ex_table_wf: "table_wf ex_mem ex_table"
  by (simp add: table_wf_def cmem_wf_def ex_mem_def ex_table_def live_el_def el_str_def)

lemma hash_insert_wf:
  assumes wf: "table_wf m ht" and k: "int_key k"
    and cells: "cells m ka = Some (CStr k)" "cells m d = Some c"
  shows "\<exists>ht'. hash_insert (Some ka) (Some d) m ht = Inr ht' \<and> table_wf m ht' \<and>
           (\<forall>j. int_key j \<longrightarrow> hash_find j m ht' =
              (if j = k then Inr (Some \<lparr>el_key = ka, el_data = d\<rparr>) else hash_find j m ht))"
proof -
  let ?el = "\<lparr>el_key = ka, el_data = d\<rparr>"
  have el: "live_el m ?el" "el_str m ?el = k"
    using live_elI [of m ?el k c] cells by simp_all
  from wf k obtain w where w: "hash k ht = Inr w" "unat w = slot_of k ht"
    "bucket_at w ht = Inr (ht_arr ht ! slot_of k ht)"
    "list_all (live_el m) (ht_arr ht ! slot_of k ht)" by (rule table_wf_bucket)
  from chain_insert_live [OF w(4) el] obtain b where b:
    "chain_insert k ?el m (ht_arr ht ! slot_of k ht) = Inr b" "list_all (live_el m) b"
    "\<forall>j. find (\<lambda>e. el_str m e = j) b =
         (if j = k then Some ?el else find (\<lambda>e. el_str m e = j) (ht_arr ht ! slot_of k ht))" by blast
  have ins: "hash_insert (Some ka) (Some d) m ht = Inr (set_bucket w b ht)"
    using w b(1) cells(1) by simp
  have wf': "table_wf m (set_bucket w b ht)" using wf b(2) by (rule set_bucket_wf)
  have "hash_find j m (set_bucket w b ht) =
      (if j = k then Inr (Some ?el) else hash_find j m ht)" if "int_key j" for j
    using that b(3) hash_find_wf [OF wf' that] hash_find_wf [OF wf that]
      set_bucket_nth [OF w(2) wf, of b j] by auto
  with ins wf' show ?thesis by blast
qed

text \<open>
  C16. A find after an insert sees exactly the insert: in a well-formed table, colliding keys
  included, inserting a key with its data succeeds, keeps the table well-formed, makes the key
  find the new element and leaves what every other key finds unchanged.
\<close>

theorem hash_insert_then_find:
  assumes wf: "table_wf m ht" and k: "int_key k"
    and cells: "cells m ka = Some (CStr k)" "cells m d = Some c"
  shows "\<exists>ht'. hash_insert (Some ka) (Some d) m ht = Inr ht' \<and> table_wf m ht' \<and>
           (\<forall>j. int_key j \<longrightarrow> hash_find j m ht' =
              (if j = k then Inr (Some \<lparr>el_key = ka, el_data = d\<rparr>) else hash_find j m ht))"
  using assms by (rule hash_insert_wf)

theorem hash_insert_then_find_witness:
  "\<exists>ht'. hash_insert (Some 4) (Some 5) ex_mem ex_table = Inr ht' \<and>
         hash_find ''5'' ex_mem ht' = Inr (Some \<lparr>el_key = 4, el_data = 5\<rparr>) \<and>
         hash_find ''3'' ex_mem ht' = hash_find ''3'' ex_mem ex_table"
proof -
  have keys: "int_key ''5''" "int_key ''3''" by (simp_all add: int_key_def ex_atoi)
  from hash_insert_then_find [OF ex_table_wf keys(1), of 4 5 "CU32 11"]
  obtain ht' where "hash_insert (Some 4) (Some 5) ex_mem ex_table = Inr ht'"
    "\<forall>j. int_key j \<longrightarrow> hash_find j ex_mem ht' =
       (if j = ''5'' then Inr (Some \<lparr>el_key = 4, el_data = 5\<rparr>) else hash_find j ex_mem ex_table)"
    by (auto simp: ex_mem_def)
  with keys show ?thesis by auto
qed

text \<open>
  Removing the first element of a longer chain breaks the bucket: \<^verbatim>\<open>hash_remove\<close> reports
  success, but it has freed the key of the element it keeps, so every later lookup in that bucket
  reads freed memory.
\<close>

lemma hash_remove_head_of_chain_dangles:
  assumes wf: "table_wf m ht" and k: "int_key k"
    and bucket: "ht_arr ht ! slot_of k ht = e # n # rest" and e: "el_str m e = k"
    and own: "el_key n \<noteq> el_data n"
  shows "\<exists>m' ht'. hash_remove k m ht = Inr (True, m', ht') \<and>
           (\<forall>j. int_key j \<and> slot_of j ht = slot_of k ht \<longrightarrow>
                hash_find j m' ht' = Inl UseAfterFree)"
proof -
  from wf k obtain w where w: "hash k ht = Inr w" "unat w = slot_of k ht"
    "bucket_at w ht = Inr (ht_arr ht ! slot_of k ht)"
    "list_all (live_el m) (ht_arr ht ! slot_of k ht)" by (rule table_wf_bucket)
  from w(4) bucket have live: "live_el m e" "live_el m n" by simp_all
  then obtain c where n: "cells m (el_key n) = Some (CStr (el_str m n))" "cells m (el_data n) = Some c"
    by (auto simp: live_el_def)
  let ?m' = "m\<lparr>cells := (cells m)(el_key n := None, el_data n := None)\<rparr>"
  let ?ht' = "set_bucket w (n # rest) ht"
  have "free_hash_el n m = Inr ?m'"
    using n own by (simp add: free_hash_el_def)
  then have "hash_remove k m ht = Inr (True, ?m', ?ht')"
    using w(1,3) bucket live(1) e by (simp add: hash_remove_def)
  moreover have "hash_find j ?m' ?ht' = Inl UseAfterFree"
    if j: "int_key j" "slot_of j ht = slot_of k ht" for j
  proof -
    have "ht_size ?ht' \<noteq> 0" using wf by (simp add: table_wf_def set_bucket_def)
    from hash_int_key [OF j(1) this] j(2) obtain v
      where v: "hash j ?ht' = Inr v" "unat v = slot_of k ht" by auto
    have "ht_arr ?ht' ! unat v = n # rest" and "unat v < length (ht_arr ?ht')"
      using w(2) v(2) table_wf_slot [OF wf, of k] by (simp_all add: set_bucket_def)
    with v(1) show ?thesis by (simp add: hash_find_def bucket_at_def)
  qed
  ultimately show ?thesis by blast
qed

end
