(* ===== verification/Latches.thy ===== *)
theory Latches
  imports Somedb_Prelude
begin

text \<open>
  Threads that share an object guarded by a latch (\<^verbatim>\<open>pthread_rwlock_t\<close>, the macros \<^verbatim>\<open>RWLOCK_...\<close> of \<^verbatim>\<open>src/include/utils/shared.h\<close>;
  the code takes write locks only). A thread performs one operation: it may return before it takes the latch, else
  it waits for the latch, works in small steps on the shared state and leaves. Any interleaving of the threads is an
  execution.

  The locale \<open>latched_steps\<close> relates the small steps of an operation to the function that models it as a whole. It shows
  that the operations of every interleaving have the effect of the whole operations one after another. In \<open>latched\<close> every
  way out of an operation unlocks; there the threads are never stuck and end.
\<close>

section \<open>The latch\<close>

type_synonym RWLOCK = "nat option" \<comment> \<open>the thread that holds the write lock\<close>

definition RWLOCK_INIT :: RWLOCK where
  "RWLOCK_INIT = None"

text \<open>\<open>None\<close> while the call blocks.\<close>

fun RWLOCK_WRLOCK :: "nat \<Rightarrow> RWLOCK \<Rightarrow> RWLOCK option" where
  "RWLOCK_WRLOCK i None = Some (Some i)"
| "RWLOCK_WRLOCK i (Some h) = None"

definition RWLOCK_UNLOCK :: "RWLOCK \<Rightarrow> RWLOCK" where
  "RWLOCK_UNLOCK l = None"

lemma RWLOCK_WRLOCK_Some [simp]: "RWLOCK_WRLOCK i l = Some l' \<longleftrightarrow> l = None \<and> l' = Some i"
  by (cases l) auto

section \<open>Threads\<close>

text \<open>
  An operation in small steps: what it returns before it takes the latch, where it is after taking it, its next step
  and, where it leaves, its result and whether it unlocks.
\<close>

record ('op, 'pc, 's, 'r) machine =
  m_early :: "'op \<Rightarrow> 'r option"
  m_enter :: "'op \<Rightarrow> 'pc"
  m_step :: "'op \<Rightarrow> 'pc \<Rightarrow> 's \<Rightarrow> ('pc \<times> 's) res"
  m_leave :: "'pc \<Rightarrow> ('r \<times> bool) option"

datatype ('pc, 'r) thread = Waiting | Inside 'pc | Returned 'r | Crashed err

record ('s, 'pc, 'r) config =
  c_latch :: RWLOCK
  c_shared :: 's
  c_threads :: "('pc, 'r) thread list"

definition threads_start :: "nat \<Rightarrow> 's \<Rightarrow> ('s, 'pc, 'r) config" where
  "threads_start n s = \<lparr>c_latch = RWLOCK_INIT, c_shared = s, c_threads = replicate n Waiting\<rparr>"

definition set_thread :: "nat \<Rightarrow> ('pc, 'r) thread \<Rightarrow> ('s, 'pc, 'r) config \<Rightarrow> ('s, 'pc, 'r) config" where
  "set_thread i x c = c\<lparr>c_threads := (c_threads c)[i := x]\<rparr>"

lemma set_thread_simps [simp]:
  "c_latch (set_thread i x c) = c_latch c" "c_shared (set_thread i x c) = c_shared c"
  "c_threads (set_thread i x c) = (c_threads c)[i := x]"
  "c_threads (c\<lparr>c_latch := l\<rparr>) = c_threads c" "c_threads (c\<lparr>c_shared := s\<rparr>) = c_threads c"
  by (simp_all add: set_thread_def)

definition thread_is :: "('s, 'pc, 'r) config \<Rightarrow> nat \<Rightarrow> ('pc, 'r) thread \<Rightarrow> bool" where
  "thread_is c i x \<longleftrightarrow> i < length (c_threads c) \<and> c_threads c ! i = x"

inductive cstep :: "('op, 'pc, 's, 'r) machine \<Rightarrow> 'op list \<Rightarrow> ('s, 'pc, 'r) config \<Rightarrow> ('s, 'pc, 'r) config \<Rightarrow> bool" for M ops where
  early: "thread_is c i Waiting \<Longrightarrow> m_early M (ops ! i) = Some r \<Longrightarrow> cstep M ops c (set_thread i (Returned r) c)"
| acquire: "thread_is c i Waiting \<Longrightarrow> m_early M (ops ! i) = None \<Longrightarrow> RWLOCK_WRLOCK i (c_latch c) = Some l \<Longrightarrow>
    cstep M ops c (set_thread i (Inside (m_enter M (ops ! i))) (c\<lparr>c_latch := l\<rparr>))"
| work: "thread_is c i (Inside pc) \<Longrightarrow> m_leave M pc = None \<Longrightarrow> m_step M (ops ! i) pc (c_shared c) = Inr (pc', s) \<Longrightarrow>
    cstep M ops c (set_thread i (Inside pc') (c\<lparr>c_shared := s\<rparr>))"
| crash: "thread_is c i (Inside pc) \<Longrightarrow> m_leave M pc = None \<Longrightarrow> m_step M (ops ! i) pc (c_shared c) = Inl e \<Longrightarrow>
    cstep M ops c (set_thread i (Crashed e) c)"
| leave: "thread_is c i (Inside pc) \<Longrightarrow> m_leave M pc = Some (r, unlocks) \<Longrightarrow>
    cstep M ops c (set_thread i (Returned r) (c\<lparr>c_latch := if unlocks then RWLOCK_UNLOCK (c_latch c) else c_latch c\<rparr>))"

inductive_cases cstepE: "cstep M ops c c'"

definition creach :: "('op, 'pc, 's, 'r) machine \<Rightarrow> 'op list \<Rightarrow> 's \<Rightarrow> ('s, 'pc, 'r) config \<Rightarrow> bool" where
  "creach M ops s c \<longleftrightarrow> (cstep M ops)\<^sup>*\<^sup>* (threads_start (length ops) s) c"

lemma creach_induct [consumes 1, case_names start step]:
  assumes "creach M ops s c" and "P (threads_start (length ops) s)"
    and "\<And>c c'. creach M ops s c \<Longrightarrow> P c \<Longrightarrow> cstep M ops c c' \<Longrightarrow> P c'"
  shows "P c"
  using assms(1) unfolding creach_def by (induction rule: rtranclp_induct) (auto intro: assms(2,3) simp: creach_def)

lemma creach_start: "creach M ops s (threads_start (length ops) s)"
  by (simp add: creach_def)

lemma creach_step: "creach M ops s c \<Longrightarrow> cstep M ops c c' \<Longrightarrow> creach M ops s c'"
  unfolding creach_def by (rule rtranclp.rtrancl_into_rtrancl)

lemma cstep_length: "cstep M ops c c' \<Longrightarrow> length (c_threads c') = length (c_threads c)"
  by (auto elim: cstepE)

lemma creach_length: "creach M ops s c \<Longrightarrow> length (c_threads c) = length ops"
  by (induction rule: creach_induct) (auto simp: threads_start_def cstep_length)

text \<open>All threads have returned.\<close>

definition all_returned :: "('s, 'pc, 'r) config \<Rightarrow> bool" where
  "all_returned c \<longleftrightarrow> (\<forall>i < length (c_threads c). \<exists>r. c_threads c ! i = Returned r)"

lemma returned_stop: "all_returned c \<Longrightarrow> \<not> cstep M ops c c'"
  by (auto simp: all_returned_def thread_is_def elim!: cstepE)

section \<open>Operations one after another\<close>

fun seq_run :: "('op \<Rightarrow> 's \<Rightarrow> ('r \<times> 's) res) \<Rightarrow> 'op list \<Rightarrow> 's \<Rightarrow> ('r list \<times> 's) res" where
  "seq_run f [] s = Inr ([], s)"
| "seq_run f (x # xs) s = and_then (f x s) (\<lambda>(r, s). and_then (seq_run f xs s) (\<lambda>(rs, s). Inr (r # rs, s)))"

lemma seq_run_snoc:
  "seq_run f (xs @ [x]) s = and_then (seq_run f xs s) (\<lambda>(rs, s). and_then (f x s) (\<lambda>(r, s). Inr (rs @ [r], s)))"
  by (induction xs arbitrary: s) (auto simp: and_then_def split: sum.splits prod.splits)

text \<open>The threads of \<open>order\<close> have returned what their operations give when they run in this order.\<close>

definition commits :: "('op \<Rightarrow> 's \<Rightarrow> ('r \<times> 's) res) \<Rightarrow> 'op list \<Rightarrow> 's \<Rightarrow> ('s, 'pc, 'r) config \<Rightarrow> nat list \<Rightarrow> 's \<Rightarrow> bool" where
  "commits f ops s c order s' \<longleftrightarrow> distinct order \<and>
     (\<forall>i. i \<in> set order \<longleftrightarrow> (\<exists>r. thread_is c i (Returned r))) \<and>
     (\<exists>rs. seq_run f (map ((!) ops) order) s = Inr (rs, s') \<and> list_all2 (\<lambda>i r. thread_is c i (Returned r)) order rs)"

lemma thread_is_set:
  "thread_is (set_thread i x c) k y \<longleftrightarrow> (if k = i then i < length (c_threads c) \<and> x = y else thread_is c k y)"
  "thread_is (c\<lparr>c_latch := l\<rparr>) k y \<longleftrightarrow> thread_is c k y" "thread_is (c\<lparr>c_shared := s\<rparr>) k y \<longleftrightarrow> thread_is c k y"
  by (auto simp: thread_is_def nth_list_update)

lemma thread_is_unique: "thread_is c i x \<Longrightarrow> thread_is c i y \<Longrightarrow> x = y"
  by (simp add: thread_is_def)

lemma commits_same:
  assumes "commits f ops s c order s'" and "thread_is c i x" and "c_threads c' = (c_threads c)[i := y]"
    and "\<And>r. x \<noteq> Returned r" and "\<And>r. y \<noteq> Returned r"
  shows "commits f ops s c' order s'"
proof -
  have "thread_is c' k (Returned r) \<longleftrightarrow> thread_is c k (Returned r)" for k r
    using assms(2-5) by (cases "k = i") (auto simp: thread_is_def)
  then show ?thesis using assms(1) by (simp add: commits_def)
qed

lemma commits_snoc:
  assumes c: "commits f ops s c order s'" and i: "i < length (c_threads c)" "\<And>r. \<not> thread_is c i (Returned r)"
    and run: "f (ops ! i) s' = Inr (r, s'')"
    and th: "\<And>k x. thread_is c' k x \<longleftrightarrow> (if k = i then x = Returned r else thread_is c k x)"
  shows "commits f ops s c' (order @ [i]) s''"
proof -
  from c obtain rs where rs: "seq_run f (map ((!) ops) order) s = Inr (rs, s')"
    "list_all2 (\<lambda>i r. thread_is c i (Returned r)) order rs" by (auto simp: commits_def)
  have ni: "i \<notin> set order" using c i(2) by (auto simp: commits_def)
  have "list_all2 (\<lambda>i r. thread_is c' i (Returned r)) order rs"
    using rs(2) ni by (auto simp: list_all2_conv_all_nth th)
  then have "list_all2 (\<lambda>i r. thread_is c' i (Returned r)) (order @ [i]) (rs @ [r])"
    using th by (simp add: list_all2_appendI)
  moreover have "seq_run f (map ((!) ops) (order @ [i])) s = Inr (rs @ [r], s'')" using rs(1) run by (simp add: seq_run_snoc)
  ultimately show ?thesis using c ni by (auto simp: commits_def th)
qed

section \<open>Small steps and whole operations\<close>

definition outside :: "('s, 'pc, 'r) config \<Rightarrow> nat \<Rightarrow> bool" where
  "outside c i \<longleftrightarrow> (\<forall>pc. \<not> thread_is c i (Inside pc)) \<and> (\<forall>e. \<not> thread_is c i (Crashed e))"

text \<open>
  The thread with the latch: what is left of its operation does the same to the current state as the whole
  operation to the state of the last commit. After an exit that did not unlock it has nothing left.
\<close>

definition holder_ok :: "('op \<Rightarrow> 's \<Rightarrow> ('r \<times> 's) res) \<Rightarrow> ('op \<Rightarrow> 'pc \<Rightarrow> 's \<Rightarrow> ('r \<times> 's) res) \<Rightarrow> 'op list \<Rightarrow>
    ('s, 'pc, 'r) config \<Rightarrow> nat \<Rightarrow> 's \<Rightarrow> bool" where
  "holder_ok f rest ops c h s \<longleftrightarrow> h < length (c_threads c) \<and>
     (case c_threads c ! h of
        Waiting \<Rightarrow> False
      | Inside pc \<Rightarrow> rest (ops ! h) pc (c_shared c) = f (ops ! h) s
      | Crashed e \<Rightarrow> f (ops ! h) s = Inl e
      | Returned r \<Rightarrow> c_shared c = s)"

definition lin_inv :: "('op \<Rightarrow> 's \<Rightarrow> ('r \<times> 's) res) \<Rightarrow> ('op \<Rightarrow> 'pc \<Rightarrow> 's \<Rightarrow> ('r \<times> 's) res) \<Rightarrow> 'op list \<Rightarrow> 's \<Rightarrow>
    ('s, 'pc, 'r) config \<Rightarrow> nat list \<Rightarrow> 's \<Rightarrow> bool" where
  "lin_inv f rest ops s c order s' \<longleftrightarrow> commits f ops s c order s' \<and>
     (case c_latch c of
        None \<Rightarrow> c_shared c = s' \<and> (\<forall>i. outside c i)
      | Some h \<Rightarrow> holder_ok f rest ops c h s' \<and> (\<forall>i. i \<noteq> h \<longrightarrow> outside c i))"

lemma lin_outside: "lin_inv f rest ops s c order s' \<Longrightarrow> c_latch c \<noteq> Some i \<Longrightarrow> outside c i"
  by (cases "c_latch c") (simp_all add: lin_inv_def)

lemma inside_holds:
  assumes "lin_inv f rest ops s c order s'" and "thread_is c i (Inside pc)"
  shows "c_latch c = Some i" and "rest (ops ! i) pc (c_shared c) = f (ops ! i) s'"
proof -
  show h: "c_latch c = Some i" using lin_outside [OF assms(1), of i] assms(2) by (auto simp: outside_def)
  show "rest (ops ! i) pc (c_shared c) = f (ops ! i) s'" using assms h by (simp add: lin_inv_def holder_ok_def thread_is_def)
qed

lemma crashed_holds:
  assumes "lin_inv f rest ops s c order s'" and "thread_is c i (Crashed e)"
  shows "f (ops ! i) s' = Inl e"
proof -
  have "c_latch c = Some i" using lin_outside [OF assms(1), of i] assms(2) by (auto simp: outside_def)
  then show ?thesis using assms by (simp add: lin_inv_def holder_ok_def thread_is_def)
qed

locale latched_steps =
  fixes M :: "('op, 'pc, 's, 'r) machine" and f :: "'op \<Rightarrow> 's \<Rightarrow> ('r \<times> 's) res"
    and rest :: "'op \<Rightarrow> 'pc \<Rightarrow> 's \<Rightarrow> ('r \<times> 's) res" and todo :: "'op \<Rightarrow> 'pc \<Rightarrow> 's \<Rightarrow> nat"
  assumes early_whole: "m_early M op = Some r \<Longrightarrow> f op s = Inr (r, s)"
    and enter_whole: "m_early M op = None \<Longrightarrow> rest op (m_enter M op) s = f op s"
    and step_rest: "m_leave M pc = None \<Longrightarrow> m_step M op pc s = Inr (pc', s') \<Longrightarrow> rest op pc' s' = rest op pc s"
    and crash_rest: "m_leave M pc = None \<Longrightarrow> m_step M op pc s = Inl e \<Longrightarrow> rest op pc s = Inl e"
    and leave_rest: "m_leave M pc = Some (r, u) \<Longrightarrow> rest op pc s = Inr (r, s)"
    and step_todo: "m_leave M pc = None \<Longrightarrow> m_step M op pc s = Inr (pc', s') \<Longrightarrow> todo op pc' s' < todo op pc s"
begin

lemma lin_start: "lin_inv f rest ops s (threads_start (length ops) s) [] s"
  by (auto simp: lin_inv_def commits_def threads_start_def RWLOCK_INIT_def outside_def thread_is_def)

lemma lin_step:
  assumes lin: "lin_inv f rest ops s c order s'" and step: "cstep M ops c c'"
  shows "\<exists>order' s''. lin_inv f rest ops s c' order' s''"
  using step
proof (cases rule: cstep.cases)
  case (early i r)
  have "commits f ops s c' (order @ [i]) s'"
    using lin early early_whole [OF early(3), of s']
    by (intro commits_snoc [of f ops s c order s' i r]) (auto simp: lin_inv_def thread_is_set thread_is_def)
  moreover have "holder_ok f rest ops c' h s'" if "holder_ok f rest ops c h s'" "c_latch c = Some h" for h
    using that early by (auto simp: holder_ok_def thread_is_def nth_list_update split: thread.splits)
  moreover have "outside c' k" if "outside c k" for k using that early(1) by (auto simp: outside_def thread_is_set)
  ultimately show ?thesis using lin early(1) by (fastforce simp: lin_inv_def split: option.splits)
next
  case (acquire i l)
  have "commits f ops s c' order s'"
    using lin acquire(1) by - (rule commits_same [of f ops s c _ _ _ _ _ "Inside (m_enter M (ops ! i))", OF _ acquire(2)], auto simp: lin_inv_def)
  moreover have "holder_ok f rest ops c' i s'"
    using lin acquire enter_whole [OF acquire(3), of s'] by (simp add: lin_inv_def holder_ok_def thread_is_def)
  moreover have "outside c' k" if "k \<noteq> i" for k using that lin_outside [OF lin, of k] acquire by (simp add: outside_def thread_is_set)
  ultimately show ?thesis using acquire by (auto simp: lin_inv_def)
next
  case (work i pc pc' t)
  note in_i = inside_holds [OF lin work(2)]
  have "commits f ops s c' order s'"
    using lin work(1) by - (rule commits_same [of f ops s c _ _ _ _ _ "Inside pc'", OF _ work(2)], auto simp: lin_inv_def)
  moreover have "holder_ok f rest ops c' i s'"
    using work in_i(2) step_rest [OF work(3,4)] by (simp add: holder_ok_def thread_is_def)
  moreover have "outside c' k" if "k \<noteq> i" for k using that lin_outside [OF lin, of k] in_i(1) work(1) by (simp add: outside_def thread_is_set)
  ultimately show ?thesis using work(1) in_i(1) by (auto simp: lin_inv_def)
next
  case (crash i pc e)
  note in_i = inside_holds [OF lin crash(2)]
  have "commits f ops s c' order s'"
    using lin crash(1) by - (rule commits_same [of f ops s c _ _ _ _ _ "Crashed e", OF _ crash(2)], auto simp: lin_inv_def)
  moreover have "holder_ok f rest ops c' i s'"
    using crash in_i(2) crash_rest [OF crash(3,4)] by (simp add: holder_ok_def thread_is_def)
  moreover have "outside c' k" if "k \<noteq> i" for k using that lin_outside [OF lin, of k] in_i(1) crash(1) by (simp add: outside_def thread_is_set)
  ultimately show ?thesis using crash(1) in_i(1) by (auto simp: lin_inv_def)
next
  case (leave i pc r u)
  note in_i = inside_holds [OF lin leave(2)]
  have end_state: "c_latch c' = (if u then None else Some i)" "c_shared c' = c_shared c"
    using leave(1) in_i(1) by (simp_all add: RWLOCK_UNLOCK_def)
  have "f (ops ! i) s' = Inr (r, c_shared c)" using in_i(2) leave_rest [OF leave(3), of "ops ! i" "c_shared c"] by simp
  then have "commits f ops s c' (order @ [i]) (c_shared c)"
    using lin leave by (intro commits_snoc [of f ops s c order s' i r]) (auto simp: lin_inv_def thread_is_set thread_is_def)
  moreover have "holder_ok f rest ops c' i (c_shared c)" using leave by (simp add: holder_ok_def thread_is_def)
  moreover have "outside c' k" for k
    using lin_outside [OF lin, of k] in_i(1) leave(1) by (cases "k = i") (simp_all add: outside_def thread_is_set)
  ultimately have "lin_inv f rest ops s c' (order @ [i]) (c_shared c)"
    using end_state by (cases u) (auto simp: lin_inv_def)
  then show ?thesis by blast
qed

lemma lin_reach: "creach M ops s c \<Longrightarrow> \<exists>order s'. lin_inv f rest ops s c order s'"
  by (induction rule: creach_induct) (use lin_start lin_step in blast)+

text \<open>At most one thread works on the shared state.\<close>

lemma mutual_exclusion:
  assumes "creach M ops s c" and "thread_is c i (Inside p)" and "thread_is c k (Inside q)"
  shows "i = k"
proof -
  from lin_reach [OF assms(1)] obtain order s' where lin: "lin_inv f rest ops s c order s'" by blast
  show ?thesis using inside_holds(1) [OF lin assms(2)] inside_holds(1) [OF lin assms(3)] by simp
qed

text \<open>When no thread is inside, the state is the one the returned operations give in some order.\<close>

lemma linearizable:
  assumes "creach M ops s c" and "\<forall>i. outside c i"
  shows "\<exists>order. commits f ops s c order (c_shared c)"
proof -
  from lin_reach [OF assms(1)] obtain order s' where lin: "lin_inv f rest ops s c order s'" by blast
  then have "c_shared c = s'"
    using assms(2) by (auto simp: lin_inv_def holder_ok_def outside_def thread_is_def split: option.splits thread.splits)
  with lin show ?thesis by (auto simp: lin_inv_def)
qed

text \<open>A crash is one of the whole operations, in a state they reach.\<close>

lemma crash_whole:
  assumes "creach M ops s c" and "thread_is c i (Crashed e)"
  shows "\<exists>order s'. commits f ops s c order s' \<and> f (ops ! i) s' = Inl e"
proof -
  from lin_reach [OF assms(1)] obtain order s' where lin: "lin_inv f rest ops s c order s'" by blast
  then show ?thesis using crashed_holds [OF lin assms(2)] by (auto simp: lin_inv_def)
qed

end

section \<open>Progress and termination\<close>

lemma length_filter_update:
  assumes "i < length xs"
  shows "length (filter P (xs[i := x])) + (if P (xs ! i) then 1 else 0) = length (filter P xs) + (if P x then 1 else 0)"
proof -
  have "length (filter P xs) = length (filter P (take i xs @ xs ! i # drop (Suc i) xs))" using id_take_nth_drop [OF assms] by simp
  then show ?thesis using assms by (simp add: upd_conv_take_nth_drop)
qed

text \<open>The threads that wait, the threads inside, and what the thread inside has to do.\<close>

definition is_inside :: "('pc, 'r) thread \<Rightarrow> bool" where
  "is_inside x \<longleftrightarrow> (case x of Inside pc \<Rightarrow> True | _ \<Rightarrow> False)"

definition left_to_do :: "('op \<Rightarrow> 'pc \<Rightarrow> 's \<Rightarrow> nat) \<Rightarrow> 'op list \<Rightarrow> ('s, 'pc, 'r) config \<Rightarrow> nat" where
  "left_to_do todo ops c =
     (case c_latch c of
        None \<Rightarrow> 0
      | Some h \<Rightarrow> (case c_threads c ! h of Inside pc \<Rightarrow> todo (ops ! h) pc (c_shared c) | _ \<Rightarrow> 0))"

definition remaining :: "('op \<Rightarrow> 'pc \<Rightarrow> 's \<Rightarrow> nat) \<Rightarrow> 'op list \<Rightarrow> ('s, 'pc, 'r) config \<Rightarrow> nat \<times> nat \<times> nat" where
  "remaining todo ops c =
     (length (filter (\<lambda>x. x = Waiting) (c_threads c)), length (filter is_inside (c_threads c)), left_to_do todo ops c)"

lemma waiting_less:
  assumes "thread_is c i Waiting" and "c_threads c' = (c_threads c)[i := x]" and "x \<noteq> Waiting"
  shows "(remaining todo ops c', remaining todo ops c) \<in> less_than <*lex*> less_than <*lex*> less_than"
  using assms length_filter_update [of i "c_threads c" "\<lambda>x. x = Waiting" x] by (simp add: remaining_def thread_is_def)

lemma inside_less:
  assumes "thread_is c i (Inside pc)" and "c_threads c' = (c_threads c)[i := x]" and "x \<noteq> Waiting" and "\<not> is_inside x"
  shows "(remaining todo ops c', remaining todo ops c) \<in> less_than <*lex*> less_than <*lex*> less_than"
  using assms length_filter_update [of i "c_threads c" "\<lambda>x. x = Waiting" x] length_filter_update [of i "c_threads c" is_inside x]
  by (simp add: remaining_def thread_is_def is_inside_def)

context latched_steps
begin

lemma step_remaining:
  assumes r: "creach M ops s c" and step: "cstep M ops c c'"
  shows "(remaining todo ops c', remaining todo ops c) \<in> less_than <*lex*> less_than <*lex*> less_than"
  using step
proof (cases rule: cstep.cases)
  case (work i pc pc' t)
  from lin_reach [OF r] obtain order s' where lin: "lin_inv f rest ops s c order s'" by blast
  have "left_to_do todo ops c' < left_to_do todo ops c"
    using inside_holds(1) [OF lin work(2)] work step_todo [OF work(3,4)] by (simp add: left_to_do_def thread_is_def)
  then show ?thesis
    using work(1,2) length_filter_update [of i "c_threads c" "\<lambda>x. x = Waiting" "Inside pc'"]
      length_filter_update [of i "c_threads c" is_inside "Inside pc'"]
    by (simp add: remaining_def thread_is_def is_inside_def)
next
  case (early i r)
  then show ?thesis by (intro waiting_less [OF early(2), of c' "Returned r"]) simp_all
next
  case (acquire i l)
  then show ?thesis by (intro waiting_less [OF acquire(2), of c' "Inside (m_enter M (ops ! i))"]) simp_all
next
  case (crash i pc e)
  then show ?thesis by (intro inside_less [OF crash(2), of c' "Crashed e"]) (simp_all add: is_inside_def)
next
  case (leave i pc r u)
  then show ?thesis by (intro inside_less [OF leave(2), of c' "Returned r"]) (simp_all add: is_inside_def)
qed

lemma runs_end: "\<not> (\<exists>\<sigma>. \<sigma> 0 = threads_start (length ops) s \<and> (\<forall>n. cstep M ops (\<sigma> n) (\<sigma> (Suc n))))"
proof
  assume "\<exists>\<sigma>. \<sigma> 0 = threads_start (length ops) s \<and> (\<forall>n. cstep M ops (\<sigma> n) (\<sigma> (Suc n)))"
  then obtain \<sigma> where \<sigma>: "\<sigma> 0 = threads_start (length ops) s" "\<And>n. cstep M ops (\<sigma> n) (\<sigma> (Suc n))" by blast
  have reach: "creach M ops s (\<sigma> n)" for n
    by (induction n) (auto simp: \<sigma>(1) creach_def intro: rtranclp.rtrancl_into_rtrancl \<sigma>(2))
  have "wf (less_than <*lex*> less_than <*lex*> less_than)" by auto
  then show False
    using step_remaining [OF reach \<sigma>(2)] unfolding wf_iff_no_infinite_down_chain
    by (auto dest!: spec [of _ "\<lambda>n. remaining todo ops (\<sigma> n)"])
qed

end

text \<open>Every exit unlocks.\<close>

locale latched = latched_steps +
  assumes unlocks: "m_leave M pc = Some (r, u) \<Longrightarrow> u"
begin

lemma held_inside:
  assumes "creach M ops s c" and "c_latch c = Some h"
  shows "(\<exists>pc. thread_is c h (Inside pc)) \<or> (\<exists>e. thread_is c h (Crashed e))"
  using assms
proof (induction arbitrary: h rule: creach_induct)
  case start
  then show ?case by (simp add: threads_start_def RWLOCK_INIT_def)
next
  case (step c c')
  from lin_reach [OF step(1)] obtain order s' where lin: "lin_inv f rest ops s c order s'" by blast
  from step(2) show ?case
  proof (cases rule: cstep.cases)
    case (leave i pc r u)
    then show ?thesis using unlocks [OF leave(3)] step(4) by (simp add: RWLOCK_UNLOCK_def)
  next
    case (early i r)
    then show ?thesis using step(3) [of h] step(4) by (auto simp: thread_is_set dest: thread_is_unique)
  next
    case (acquire i l)
    then show ?thesis using step(4) by (auto simp: thread_is_set thread_is_def)
  next
    case (work i pc pc' t)
    then show ?thesis using step(4) inside_holds(1) [OF lin work(2)] by (auto simp: thread_is_set thread_is_def)
  next
    case (crash i pc e)
    then show ?thesis using step(4) inside_holds(1) [OF lin crash(2)] by (auto simp: thread_is_set thread_is_def)
  qed
qed

text \<open>As long as nobody crashed, some thread can go on until all have returned.\<close>

lemma progress:
  assumes r: "creach M ops s c" and open_ops: "\<not> all_returned c" and "\<And>i e. \<not> thread_is c i (Crashed e)"
  shows "\<exists>c'. cstep M ops c c'"
proof (cases "c_latch c")
  case None
  from open_ops obtain i where i: "i < length (c_threads c)" "\<And>r. c_threads c ! i \<noteq> Returned r" by (auto simp: all_returned_def)
  from lin_reach [OF r] obtain order s' where "lin_inv f rest ops s c order s'" by blast
  then have "outside c i" using None by (simp add: lin_outside)
  then have w: "thread_is c i Waiting" using i by (cases "c_threads c ! i") (auto simp: outside_def thread_is_def)
  show ?thesis
  proof (cases "m_early M (ops ! i)")
    case None
    with w \<open>c_latch c = None\<close> show ?thesis by (intro exI) (rule cstep.acquire, simp_all)
  qed (use w in \<open>blast intro: cstep.early\<close>)
next
  case (Some h)
  then obtain pc where h: "thread_is c h (Inside pc)" using held_inside [OF r] assms(3) by blast
  show ?thesis
  proof (cases "m_leave M pc")
    case None
    show ?thesis
      by (cases "m_step M (ops ! h) pc (c_shared c)") (use h None in \<open>auto intro: cstep.work cstep.crash\<close>)
  qed (use h in \<open>auto intro: cstep.leave\<close>)
qed

text \<open>Where no operation can crash, all threads can return.\<close>

lemma completes:
  assumes "\<And>c i e. creach M ops s c \<Longrightarrow> \<not> thread_is c i (Crashed e)"
  shows "\<exists>c'. creach M ops s c' \<and> all_returned c'"
proof -
  have "wf (inv_image (less_than <*lex*> less_than <*lex*> less_than) (remaining todo ops))"
    by (intro wf_inv_image wf_lex_prod wf_less_than)
  then have "\<exists>c'. creach M ops s c' \<and> all_returned c'" if "creach M ops s c" for c
    using that
  proof (induction c rule: wf_induct_rule)
    case (less c)
    show ?case
    proof (cases "all_returned c")
      case False
      with progress [OF less(2)] assms [OF less(2)] obtain c' where c': "cstep M ops c c'" by blast
      show ?thesis using less(1) [OF _ creach_step [OF less(2) c']] step_remaining [OF less(2) c'] by simp
    qed (use less(2) in blast)
  qed
  from this [OF creach_start] show ?thesis .
qed

end

section \<open>A latch that is never released\<close>

lemma latch_lost:
  assumes "(cstep M ops)\<^sup>*\<^sup>* c c'" and "c_latch c = Some h" and "\<And>i pc. \<not> thread_is c i (Inside pc)"
    and "thread_is c i Waiting" and "m_early M (ops ! i) = None"
  shows "thread_is c' i Waiting"
proof -
  have "c_latch c' = Some h \<and> (\<forall>i pc. \<not> thread_is c' i (Inside pc)) \<and> thread_is c' i Waiting"
    using assms(1)
  proof (induction rule: rtranclp_induct)
    case (step c1 c2)
    from step(2) show ?case
      by (cases rule: cstep.cases) (use step(3) assms(5) in \<open>auto simp: thread_is_set\<close>)
  qed (use assms(2-4) in simp)
  then show ?thesis by simp
qed

end
