(* ===== verification/Hash_Threads.thy ===== *)
theory Hash_Threads
  imports Hash_Table Latches
begin

text \<open>
  \<^verbatim>\<open>hash_insert\<close> and \<^verbatim>\<open>hash_remove\<close> of \<^verbatim>\<open>src/utils/hash.c\<close> as threads run them: one step for the hash, one for each element of
  the chain that is compared, one for the change of the chain. Both take the latch of the table after the check of
  their arguments and release it on every path, so the functions \<open>hash_insert\<close> and \<open>hash_remove\<close> of \<open>Hash_Table\<close> describe them as a whole.
  \<^verbatim>\<open>hash_find\<close> does not take the latch and is not among the operations.
\<close>

section \<open>The operations in steps\<close>

datatype hash_op = HashInsert "addr option" "addr option" | HashRemove string

datatype hash_pc =
    Hashing \<comment> \<open>the latch is taken\<close>
  | AtSlot u16 \<comment> \<open>at the slot of the array\<close>
  | Walking u16 nat \<comment> \<open>\<^verbatim>\<open>temp\<close> is this element of the chain, or null\<close>
  | Unlinking u16 nat \<comment> \<open>the element to remove\<close>
  | Leaving bool \<comment> \<open>before the latch is released\<close>

type_synonym hash_state = "cmem \<times> HashTable"

fun hash_early :: "hash_op \<Rightarrow> bool option" where
  "hash_early (HashInsert (Some k) (Some d)) = None"
| "hash_early (HashInsert _ _) = Some True"
| "hash_early (HashRemove k) = None"

fun insert_step :: "addr \<Rightarrow> addr \<Rightarrow> hash_pc \<Rightarrow> hash_state \<Rightarrow> (hash_pc \<times> hash_state) res" where
  "insert_step k d Hashing (m, ht) =
     and_then (deref_str (Some k) m) (\<lambda>key. and_then (hash key ht) (\<lambda>idx. Inr (AtSlot idx, m, ht)))"
| "insert_step k d (AtSlot idx) (m, ht) =
     and_then (bucket_at idx ht) (\<lambda>b.
       if b = [] then Inr (Leaving True, m, set_bucket idx [\<lparr>el_key = k, el_data = d\<rparr>] ht)
       else Inr (Walking idx 0, m, ht))"
| "insert_step k d (Walking idx i) (m, ht) =
     and_then (bucket_at idx ht) (\<lambda>b.
     and_then (deref_str (Some k) m) (\<lambda>key.
       if i < length b then
         and_then (deref_str (Some (el_key (b ! i))) m) (\<lambda>s.
           if s = key then Inr (Leaving True, m, set_bucket idx (b[i := \<lparr>el_key = k, el_data = d\<rparr>]) ht)
           else Inr (Walking idx (Suc i), m, ht))
       else Inr (Leaving True, m, set_bucket idx (b @ [\<lparr>el_key = k, el_data = d\<rparr>]) ht)))"
| "insert_step k d pc (m, ht) = Inl OutOfBounds"

fun remove_step :: "string \<Rightarrow> hash_pc \<Rightarrow> hash_state \<Rightarrow> (hash_pc \<times> hash_state) res" where
  "remove_step key Hashing (m, ht) = and_then (hash key ht) (\<lambda>idx. Inr (AtSlot idx, m, ht))"
| "remove_step key (AtSlot idx) (m, ht) =
     and_then (bucket_at idx ht) (\<lambda>b.
       if b = [] then Inr (Leaving True, m, set_bucket idx [] ht) else Inr (Walking idx 0, m, ht))"
| "remove_step key (Walking idx i) (m, ht) =
     and_then (bucket_at idx ht) (\<lambda>b.
       if i < length b then
         and_then (deref_str (Some (el_key (b ! i))) m) (\<lambda>s.
           if s = key then Inr (Unlinking idx i, m, ht) else Inr (Walking idx (Suc i), m, ht))
       else Inr (Leaving False, m, ht))"
| "remove_step key (Unlinking idx i) (m, ht) =
     and_then (bucket_at idx ht) (\<lambda>b.
       case (take i b, drop i b) of
         ([], temp # []) \<Rightarrow> Inr (Leaving True, m, set_bucket idx [] ht)
       | ([], temp # next # rest) \<Rightarrow>
           and_then (free_hash_el next m) (\<lambda>m'. Inr (Leaving True, m', set_bucket idx (next # rest) ht))
       | (pre, temp # post) \<Rightarrow>
           and_then (free_hash_el temp m) (\<lambda>m'. Inr (Leaving True, m', set_bucket idx (pre @ post) ht))
       | (_, []) \<Rightarrow> Inl OutOfBounds)"
| "remove_step key (Leaving ok) (m, ht) = Inl OutOfBounds"

fun hash_step :: "hash_op \<Rightarrow> hash_pc \<Rightarrow> hash_state \<Rightarrow> (hash_pc \<times> hash_state) res" where
  "hash_step (HashInsert (Some k) (Some d)) pc s = insert_step k d pc s"
| "hash_step (HashRemove key) pc s = remove_step key pc s"
| "hash_step _ pc s = Inl NullDeref"

fun hash_leave :: "hash_pc \<Rightarrow> (bool \<times> bool) option" where
  "hash_leave (Leaving ok) = Some (ok, True)"
| "hash_leave _ = None"

definition hash_machine :: "(hash_op, hash_pc, hash_state, bool) machine" where
  "hash_machine = \<lparr>m_early = hash_early, m_enter = (\<lambda>_. Hashing), m_step = hash_step, m_leave = hash_leave\<rparr>"

section \<open>The operations as a whole\<close>

fun hash_whole :: "hash_op \<Rightarrow> hash_state \<Rightarrow> (bool \<times> hash_state) res" where
  "hash_whole (HashInsert k d) (m, ht) = and_then (hash_insert k d m ht) (\<lambda>ht. Inr (True, m, ht))"
| "hash_whole (HashRemove key) (m, ht) = hash_remove key m ht"

text \<open>What is left of an operation, in one go.\<close>

definition unlink :: "u16 \<Rightarrow> HashEl list \<Rightarrow> HashEl \<Rightarrow> HashEl list \<Rightarrow> hash_state \<Rightarrow> (bool \<times> hash_state) res" where
  "unlink idx pre temp post = (\<lambda>(m, ht).
     case (pre, post) of
       ([], []) \<Rightarrow> Inr (True, m, set_bucket idx [] ht)
     | ([], next # rest) \<Rightarrow> and_then (free_hash_el next m) (\<lambda>m'. Inr (True, m', set_bucket idx (next # rest) ht))
     | (pre, post) \<Rightarrow> and_then (free_hash_el temp m) (\<lambda>m'. Inr (True, m', set_bucket idx (pre @ post) ht)))"

definition insert_walk :: "addr \<Rightarrow> addr \<Rightarrow> u16 \<Rightarrow> nat \<Rightarrow> hash_state \<Rightarrow> (bool \<times> hash_state) res" where
  "insert_walk k d idx i = (\<lambda>(m, ht).
     and_then (bucket_at idx ht) (\<lambda>b.
     and_then (deref_str (Some k) m) (\<lambda>key.
     and_then (chain_insert key \<lparr>el_key = k, el_data = d\<rparr> m (drop i b)) (\<lambda>b'.
       Inr (True, m, set_bucket idx (take i b @ b') ht)))))"

definition remove_walk :: "string \<Rightarrow> u16 \<Rightarrow> nat \<Rightarrow> hash_state \<Rightarrow> (bool \<times> hash_state) res" where
  "remove_walk key idx i = (\<lambda>(m, ht).
     and_then (bucket_at idx ht) (\<lambda>b.
     and_then (chain_split key m (drop i b)) (\<lambda>r.
       case r of None \<Rightarrow> Inr (False, m, ht) | Some (pre, temp, post) \<Rightarrow> unlink idx (take i b @ pre) temp post (m, ht))))"

fun insert_rest :: "addr \<Rightarrow> addr \<Rightarrow> hash_pc \<Rightarrow> hash_state \<Rightarrow> (bool \<times> hash_state) res" where
  "insert_rest k d Hashing (m, ht) = and_then (hash_insert (Some k) (Some d) m ht) (\<lambda>ht. Inr (True, m, ht))"
| "insert_rest k d (AtSlot idx) (m, ht) =
     and_then (bucket_at idx ht) (\<lambda>b.
       if b = [] then Inr (True, m, set_bucket idx [\<lparr>el_key = k, el_data = d\<rparr>] ht) else insert_walk k d idx 0 (m, ht))"
| "insert_rest k d (Walking idx i) s = insert_walk k d idx i s"
| "insert_rest k d (Leaving ok) s = Inr (ok, s)"
| "insert_rest k d pc s = Inl OutOfBounds"

fun remove_rest :: "string \<Rightarrow> hash_pc \<Rightarrow> hash_state \<Rightarrow> (bool \<times> hash_state) res" where
  "remove_rest key Hashing (m, ht) = hash_remove key m ht"
| "remove_rest key (AtSlot idx) (m, ht) =
     and_then (bucket_at idx ht) (\<lambda>b.
       if b = [] then Inr (True, m, set_bucket idx [] ht) else remove_walk key idx 0 (m, ht))"
| "remove_rest key (Walking idx i) s = remove_walk key idx i s"
| "remove_rest key (Unlinking idx i) (m, ht) =
     and_then (bucket_at idx ht) (\<lambda>b.
       case drop i b of [] \<Rightarrow> Inl OutOfBounds | temp # post \<Rightarrow> unlink idx (take i b) temp post (m, ht))"
| "remove_rest key (Leaving ok) s = Inr (ok, s)"

fun hash_rest :: "hash_op \<Rightarrow> hash_pc \<Rightarrow> hash_state \<Rightarrow> (bool \<times> hash_state) res" where
  "hash_rest (HashInsert (Some k) (Some d)) pc s = insert_rest k d pc s"
| "hash_rest (HashRemove key) pc s = remove_rest key pc s"
| "hash_rest _ (Leaving ok) s = Inr (ok, s)"
| "hash_rest _ pc s = Inl NullDeref"

text \<open>The elements of the chain that are still to be compared bound the number of steps.\<close>

fun hash_todo :: "hash_op \<Rightarrow> hash_pc \<Rightarrow> hash_state \<Rightarrow> nat" where
  "hash_todo op Hashing s = Suc (Suc (Suc (Suc (\<Sum>b\<leftarrow>ht_arr (snd s). length b))))"
| "hash_todo op (AtSlot idx) s = Suc (Suc (Suc (\<Sum>b\<leftarrow>ht_arr (snd s). length b)))"
| "hash_todo op (Walking idx i) s = Suc (Suc (length (ht_arr (snd s) ! unat idx) - i))"
| "hash_todo op (Unlinking idx i) s = 1"
| "hash_todo op (Leaving ok) s = 0"

section \<open>The steps make up the operations\<close>

lemma insert_hashing: "insert_step k d Hashing (m, ht) = Inr (pc, s) \<Longrightarrow> insert_rest k d pc s = insert_rest k d Hashing (m, ht)"
  by (auto simp: and_then_Inr_iff) (auto simp: insert_walk_def and_then_def split: sum.splits)

lemma insert_walking:
  assumes "i < length b" and "bucket_at idx ht = Inr b" and "deref_str (Some k) m = Inr key"
  shows "insert_walk k d idx i (m, ht) =
    and_then (deref_str (Some (el_key (b ! i))) m) (\<lambda>s.
      if s = key then Inr (True, m, set_bucket idx (b[i := \<lparr>el_key = k, el_data = d\<rparr>]) ht)
      else insert_walk k d idx (Suc i) (m, ht))"
  using assms by (auto simp: insert_walk_def and_then_assoc Cons_nth_drop_Suc [symmetric] take_Suc_conv_app_nth upd_conv_take_nth_drop
      and_then_def split: sum.splits)

lemma insert_step_rest: "insert_step k d pc s = Inr (pc', s') \<Longrightarrow> insert_rest k d pc' s' = insert_rest k d pc s"
proof (cases s)
  case (Pair m ht)
  assume step: "insert_step k d pc s = Inr (pc', s')"
  show ?thesis
  proof (cases pc)
    case Hashing
    then show ?thesis using step Pair insert_hashing by simp
  next
    case (AtSlot idx)
    then show ?thesis using step Pair by (auto simp: and_then_Inr_iff split: if_splits)
  next
    case (Walking idx i)
    from step Pair Walking obtain b key where b: "bucket_at idx ht = Inr b" "deref_str (Some k) m = Inr key"
      by (auto simp: and_then_Inr_iff)
    show ?thesis
    proof (cases "i < length b")
      case True
      then show ?thesis using step Pair Walking b insert_walking [OF True b, of d] by (auto simp: and_then_Inr_iff split: if_splits)
    qed (use step Pair Walking b in \<open>auto simp: insert_walk_def\<close>)
  qed (use step Pair in simp_all)
qed

lemma insert_step_crash: "insert_step k d pc s = Inl e \<Longrightarrow> hash_leave pc = None \<Longrightarrow> insert_rest k d pc s = Inl e"
proof (cases s)
  case (Pair m ht)
  assume step: "insert_step k d pc s = Inl e" and inside: "hash_leave pc = None"
  show ?thesis
  proof (cases pc)
    case (Walking idx i)
    then show ?thesis using step Pair
      by (auto simp: insert_walk_def Cons_nth_drop_Suc [symmetric] and_then_def split: sum.splits if_splits)
  qed (use step Pair inside in \<open>auto simp: and_then_def split: sum.splits if_splits\<close>)
qed

lemma hash_remove_slot: "hash_remove key m ht = and_then (hash key ht) (\<lambda>idx. remove_rest key (AtSlot idx) (m, ht))"
  by (auto simp: hash_remove_def remove_walk_def unlink_def and_then_def split: sum.splits option.splits list.splits)

lemma remove_walking:
  assumes "i < length b" and "bucket_at idx ht = Inr b"
  shows "remove_walk key idx i (m, ht) =
    and_then (deref_str (Some (el_key (b ! i))) m) (\<lambda>s.
      if s = key then unlink idx (take i b) (b ! i) (drop (Suc i) b) (m, ht) else remove_walk key idx (Suc i) (m, ht))"
  using assms by (auto simp: remove_walk_def and_then_assoc Cons_nth_drop_Suc [symmetric] take_Suc_conv_app_nth and_then_def
      split: sum.splits option.splits)

lemma remove_unlinking:
  "remove_step key (Unlinking idx i) s = and_then (remove_rest key (Unlinking idx i) s) (\<lambda>(ok, s). Inr (Leaving ok, s))"
  by (cases s) (auto simp: unlink_def and_then_def split: sum.splits list.splits)

lemma remove_step_rest: "remove_step key pc s = Inr (pc', s') \<Longrightarrow> remove_rest key pc' s' = remove_rest key pc s"
proof (cases s)
  case (Pair m ht)
  assume step: "remove_step key pc s = Inr (pc', s')"
  show ?thesis
  proof (cases pc)
    case Hashing
    then show ?thesis using step Pair by (auto simp: and_then_Inr_iff hash_remove_slot simp del: remove_rest.simps(2))
  next
    case (AtSlot idx)
    then show ?thesis using step Pair by (auto simp: and_then_Inr_iff split: if_splits)
  next
    case (Walking idx i)
    from step Pair Walking obtain b where b: "bucket_at idx ht = Inr b" by (auto simp: and_then_Inr_iff)
    show ?thesis
    proof (cases "i < length b")
      case True
      then show ?thesis using step Pair Walking b remove_walking [OF True b, of key m]
        by (auto simp: and_then_Inr_iff Cons_nth_drop_Suc [symmetric] split: if_splits)
    qed (use step Pair Walking b in \<open>auto simp: remove_walk_def\<close>)
  next
    case (Unlinking idx i)
    then show ?thesis using step remove_unlinking [of key idx i s] by (auto simp: and_then_Inr_iff simp del: remove_step.simps)
  qed (use step Pair in simp)
qed

lemma remove_step_crash: "remove_step key pc s = Inl e \<Longrightarrow> hash_leave pc = None \<Longrightarrow> remove_rest key pc s = Inl e"
proof (cases s)
  case (Pair m ht)
  assume step: "remove_step key pc s = Inl e" and inside: "hash_leave pc = None"
  show ?thesis
  proof (cases pc)
    case Hashing
    then show ?thesis using step Pair by (auto simp: hash_remove_slot and_then_def split: sum.splits)
  next
    case (Walking idx i)
    then show ?thesis using step Pair
      by (auto simp: remove_walk_def Cons_nth_drop_Suc [symmetric] and_then_def split: sum.splits if_splits)
  next
    case (Unlinking idx i)
    then show ?thesis using step remove_unlinking [of key idx i s] by (auto simp: and_then_def simp del: remove_step.simps split: sum.splits)
  qed (use step Pair inside in \<open>auto simp: and_then_def split: sum.splits if_splits\<close>)
qed

text \<open>A chain is no longer than all chains together.\<close>

lemma bucket_length:
  assumes "bucket_at idx ht = Inr b"
  shows "ht_arr ht ! unat idx = b" and "length b \<le> (\<Sum>b\<leftarrow>ht_arr ht. length b)"
proof -
  show "ht_arr ht ! unat idx = b" using assms by (auto simp: bucket_at_def split: if_splits)
  have "b \<in> set (ht_arr ht)" using assms by (auto simp: bucket_at_def split: if_splits)
  then show "length b \<le> (\<Sum>b\<leftarrow>ht_arr ht. length b)" by (simp add: member_le_sum_list)
qed

lemma insert_step_todo: "insert_step k d pc s = Inr (pc', s') \<Longrightarrow> hash_todo op pc' s' < hash_todo op pc s"
  by (cases s; cases pc)
    (auto simp: and_then_Inr_iff less_Suc_eq_le bucket_length(1) split: if_splits intro: bucket_length(2))

lemma remove_step_todo:
  assumes "remove_step key pc s = Inr (pc', s')"
  shows "hash_todo op pc' s' < hash_todo op pc s"
proof (cases s)
  case (Pair m ht)
  show ?thesis
  proof (cases pc)
    case (Unlinking idx i)
    from assms have "\<exists>ok. pc' = Leaving ok"
      unfolding Unlinking remove_unlinking by (auto simp: and_then_Inr_iff simp del: remove_rest.simps)
    then show ?thesis using Unlinking by auto
  next
    case (AtSlot idx)
    then show ?thesis using assms Pair
      by (auto simp: and_then_Inr_iff less_Suc_eq_le bucket_length(1) split: if_splits intro: bucket_length(2))
  next
    case (Walking idx i)
    then show ?thesis using assms Pair by (auto simp: and_then_Inr_iff bucket_length(1) split: if_splits)
  qed (use assms Pair in \<open>auto simp: and_then_Inr_iff\<close>)
qed

interpretation hash_threads: latched hash_machine hash_whole hash_rest hash_todo
proof
  fix op r s
  assume "m_early hash_machine op = Some r"
  then show "hash_whole op s = Inr (r, s)" by (cases s; cases op rule: hash_early.cases) (auto simp: hash_machine_def)
next
  fix op s
  assume "m_early hash_machine op = None"
  then show "hash_rest op (m_enter hash_machine op) s = hash_whole op s"
    by (cases s; cases op rule: hash_early.cases) (auto simp: hash_machine_def)
next
  fix pc op s pc' s'
  assume "m_leave hash_machine pc = None" and "m_step hash_machine op pc s = Inr (pc', s')"
  then show "hash_rest op pc' s' = hash_rest op pc s" and "hash_todo op pc' s' < hash_todo op pc s"
    by (cases op rule: hash_early.cases;
        simp add: hash_machine_def insert_step_rest remove_step_rest insert_step_todo remove_step_todo)+
next
  fix pc op s e
  assume "m_leave hash_machine pc = None" and "m_step hash_machine op pc s = Inl e"
  then show "hash_rest op pc s = Inl e"
    by (cases "(op, pc, s)" rule: hash_rest.cases) (auto simp: hash_machine_def insert_step_crash remove_step_crash)
next
  fix pc op s r u
  assume "m_leave hash_machine pc = Some (r, u)"
  then show "hash_rest op pc s = Inr (r, s)" and u
    by (cases op rule: hash_early.cases; cases pc; simp add: hash_machine_def)+
qed

section \<open>Linearizability\<close>

text \<open>
  C14. The operations of threads on one table are linearizable. Whatever the interleaving of their steps, when all have
  returned, their results and the table are those of the whole operations \<^verbatim>\<open>hash_insert\<close> and \<^verbatim>\<open>hash_remove\<close> one after
  another in some order.
\<close>

theorem hash_operations_linearizable:
  assumes "creach hash_machine ops (m, ht) c" and "all_returned c"
  shows "\<exists>order rs. distinct order \<and> set order = {..<length ops} \<and>
    seq_run hash_whole (map ((!) ops) order) (m, ht) = Inr (rs, c_shared c) \<and>
    list_all2 (\<lambda>i r. c_threads c ! i = Returned r) order rs"
proof -
  have len: "length (c_threads c) = length ops" using creach_length [OF assms(1)] .
  have "\<forall>i. outside c i" using assms(2) by (auto simp: all_returned_def outside_def thread_is_def)
  from hash_threads.linearizable [OF assms(1) this] obtain order where c: "commits hash_whole ops (m, ht) c order (c_shared c)" by blast
  then obtain rs where "seq_run hash_whole (map ((!) ops) order) (m, ht) = Inr (rs, c_shared c)"
    "list_all2 (\<lambda>i r. c_threads c ! i = Returned r) order rs"
    by (auto simp: commits_def thread_is_def list_all2_conv_all_nth)
  moreover have "i \<in> set order \<longleftrightarrow> i < length ops" for i
    using c assms(2) len by (auto simp: commits_def thread_is_def all_returned_def)
  ultimately show ?thesis using c by (intro exI [of _ order] exI [of _ rs]) (auto simp: commits_def)
qed

section \<open>Insertions by several threads\<close>

type_synonym entry = "string \<times> addr \<times> addr" \<comment> \<open>the key, the address of the key and the address of the data\<close>

fun insert_op :: "entry \<Rightarrow> hash_op" where
  "insert_op (s, k, d) = HashInsert (Some k) (Some d)"

fun entry_el :: "entry \<Rightarrow> HashEl" where
  "entry_el (s, k, d) = \<lparr>el_key = k, el_data = d\<rparr>"

fun insertable :: "cmem \<Rightarrow> entry \<Rightarrow> bool" where
  "insertable m (s, k, d) \<longleftrightarrow> int_key s \<and> cells m k = Some (CStr s) \<and> cells m d \<noteq> None"

lemma insert_entry:
  assumes "table_wf m ht" and "insertable m e"
  shows "\<exists>ht'. hash_whole (insert_op e) (m, ht) = Inr (True, m, ht') \<and> table_wf m ht' \<and>
    (\<forall>j. int_key j \<longrightarrow> hash_find j m ht' = (if j = fst e then Inr (Some (entry_el e)) else hash_find j m ht))"
proof -
  obtain s k d where e: "e = (s, k, d)" by (cases e)
  from assms(2) obtain x where "int_key s" "cells m k = Some (CStr s)" "cells m d = Some x" by (auto simp: e)
  from hash_insert_wf [OF assms(1) this] show ?thesis by (auto simp: e)
qed

lemma inserts_in_a_row:
  assumes "table_wf m ht" and "list_all (insertable m) es" and "distinct (map fst es)"
  shows "\<exists>rs ht'. seq_run hash_whole (map insert_op es) (m, ht) = Inr (rs, m, ht') \<and> table_wf m ht' \<and>
    (\<forall>e \<in> set es. hash_find (fst e) m ht' = Inr (Some (entry_el e))) \<and>
    (\<forall>j. int_key j \<longrightarrow> j \<notin> fst ` set es \<longrightarrow> hash_find j m ht' = hash_find j m ht)"
  using assms
proof (induction es arbitrary: ht)
  case (Cons e es)
  from Cons.prems insert_entry [of m ht e] obtain h1 where
    h1: "hash_whole (insert_op e) (m, ht) = Inr (True, m, h1)" "table_wf m h1"
      "\<forall>j. int_key j \<longrightarrow> hash_find j m h1 = (if j = fst e then Inr (Some (entry_el e)) else hash_find j m ht)" by auto
  from Cons.IH [OF h1(2)] Cons.prems obtain rs h2 where
    h2: "seq_run hash_whole (map insert_op es) (m, h1) = Inr (rs, m, h2)" "table_wf m h2"
      "\<forall>e \<in> set es. hash_find (fst e) m h2 = Inr (Some (entry_el e))"
      "\<forall>j. int_key j \<longrightarrow> j \<notin> fst ` set es \<longrightarrow> hash_find j m h2 = hash_find j m h1" by auto
  have k: "int_key (fst e)" using Cons.prems(2) by (cases e) simp
  have "hash_find (fst e) m h2 = Inr (Some (entry_el e))" using h2(4) h1(3) k Cons.prems(3) by simp
  then show ?case using h1 h2 by (intro exI [of _ "True # rs"] exI [of _ h2]) simp
qed simp

lemma inserts_commit:
  assumes wf: "table_wf m ht" and es: "list_all (insertable m) es" "distinct (map fst es)"
    and c: "commits hash_whole (map insert_op es) (m, ht) c order s'" and len: "length (c_threads c) = length es"
  shows "\<exists>ht'. s' = (m, ht') \<and> table_wf m ht' \<and> (\<forall>i \<in> set order. hash_find (fst (es ! i)) m ht' = Inr (Some (entry_el (es ! i)))) \<and>
    (\<forall>j. int_key j \<longrightarrow> j \<notin> fst ` set es \<longrightarrow> hash_find j m ht' = hash_find j m ht)"
proof -
  let ?es = "map ((!) es) order"
  have o: "distinct order" "\<And>i. i \<in> set order \<Longrightarrow> i < length es" using c len by (auto simp: commits_def thread_is_def)
  from c obtain rs where rs: "seq_run hash_whole (map ((!) (map insert_op es)) order) (m, ht) = Inr (rs, s')" by (auto simp: commits_def)
  moreover have "map ((!) (map insert_op es)) order = map insert_op ?es" using o(2) by simp
  moreover have "list_all (insertable m) ?es" using es(1) o(2) by (auto simp: list_all_iff)
  moreover have "inj_on (\<lambda>i. fst (es ! i)) (set order)"
    using o(2) nth_eq_iff_index_eq [OF es(2)] by (auto simp: inj_on_def)
  then have "distinct (map fst ?es)" using o(1) by (simp add: distinct_map o_def)
  ultimately obtain ht' where "s' = (m, ht')" "table_wf m ht'" "\<forall>e \<in> set ?es. hash_find (fst e) m ht' = Inr (Some (entry_el e))"
    "\<forall>j. int_key j \<longrightarrow> j \<notin> fst ` set ?es \<longrightarrow> hash_find j m ht' = hash_find j m ht"
    using inserts_in_a_row [OF wf, of ?es] by auto
  moreover have "j \<notin> fst ` set ?es" if "j \<notin> fst ` set es" for j using that o(2) by auto
  ultimately show ?thesis by simp
qed

lemma inserts_never_crash:
  assumes wf: "table_wf m ht" and es: "list_all (insertable m) es" "distinct (map fst es)"
    and r: "creach hash_machine (map insert_op es) (m, ht) c"
  shows "\<not> thread_is c i (Crashed e)"
proof
  assume i: "thread_is c i (Crashed e)"
  have len: "length (c_threads c) = length es" using creach_length [OF r] by simp
  from hash_threads.crash_whole [OF r i] obtain order s' where
    s': "commits hash_whole (map insert_op es) (m, ht) c order s'" "hash_whole (map insert_op es ! i) s' = Inl e" by blast
  have il: "i < length es" using i len by (simp add: thread_is_def)
  from inserts_commit [OF wf es s'(1) len] obtain ht' where "s' = (m, ht')" "table_wf m ht'" by blast
  moreover have "insertable m (es ! i)" using es(1) il by (simp add: list_all_length)
  ultimately show False using s'(2) insert_entry [of m ht' "es ! i"] il by auto
qed

lemma inserts_all_found:
  assumes wf: "table_wf m ht" and es: "list_all (insertable m) es" "distinct (map fst es)"
    and r: "creach hash_machine (map insert_op es) (m, ht) c" and all: "all_returned c"
  shows "\<exists>ht'. c_shared c = (m, ht') \<and> table_wf m ht' \<and>
    (\<forall>(s, k, d) \<in> set es. hash_find s m ht' = Inr (Some \<lparr>el_key = k, el_data = d\<rparr>)) \<and>
    (\<forall>j. int_key j \<longrightarrow> j \<notin> fst ` set es \<longrightarrow> hash_find j m ht' = hash_find j m ht)"
proof -
  have len: "length (c_threads c) = length es" using creach_length [OF r] by simp
  from all have "\<forall>i. outside c i" by (auto simp: all_returned_def outside_def thread_is_def)
  from hash_threads.linearizable [OF r this] obtain order where
    o: "commits hash_whole (map insert_op es) (m, ht) c order (c_shared c)" by blast
  from inserts_commit [OF wf es o len] obtain ht' where
    ht': "c_shared c = (m, ht')" "table_wf m ht'" "\<forall>i \<in> set order. hash_find (fst (es ! i)) m ht' = Inr (Some (entry_el (es ! i)))"
      "\<forall>j. int_key j \<longrightarrow> j \<notin> fst ` set es \<longrightarrow> hash_find j m ht' = hash_find j m ht" by blast
  have "i \<in> set order" if "i < length es" for i
    using that o all len by (auto simp: commits_def thread_is_def all_returned_def)
  then have "hash_find s m ht' = Inr (Some \<lparr>el_key = k, el_data = d\<rparr>)" if "(s, k, d) \<in> set es" for s k d
    using that ht'(3) by (metis entry_el.simps fst_conv in_set_conv_nth)
  then show ?thesis using ht'(1,2,4) by auto
qed

text \<open>
  C17. Threads that insert different keys into one table. No interleaving crashes, blocks for ever or runs for ever: as
  long as a thread has not returned some thread can go on, every run is finite, and when all have returned, every
  key finds its element and every other key finds what it found before, colliding keys included.
\<close>

theorem concurrent_inserts_complete:
  assumes wf: "table_wf m ht" and es: "list_all (insertable m) es" "distinct (map fst es)"
  shows "(\<forall>c. creach hash_machine (map insert_op es) (m, ht) c \<longrightarrow>
      (\<exists>c'. cstep hash_machine (map insert_op es) c c') \<or>
      (all_returned c \<and> (\<exists>ht'. c_shared c = (m, ht') \<and> table_wf m ht' \<and>
        (\<forall>(s, k, d) \<in> set es. hash_find s m ht' = Inr (Some \<lparr>el_key = k, el_data = d\<rparr>)) \<and>
        (\<forall>j. int_key j \<longrightarrow> j \<notin> fst ` set es \<longrightarrow> hash_find j m ht' = hash_find j m ht)))) \<and>
    \<not> (\<exists>\<sigma>. \<sigma> 0 = threads_start (length es) (m, ht) \<and> (\<forall>n. cstep hash_machine (map insert_op es) (\<sigma> n) (\<sigma> (Suc n))))"
  using hash_threads.progress [OF _ _ inserts_never_crash [OF assms]] inserts_all_found [OF assms]
    hash_threads.runs_end [of "map insert_op es" "(m, ht)"] by fastforce

section \<open>Witnesses\<close>

text \<open>A table with two slots, and the keys 1 and 3, which collide.\<close>

definition two_slots :: HashTable where
  "two_slots = \<lparr>ht_arr = [[], []], ht_size = 2\<rparr>"

definition two_entries :: "entry list" where
  "two_entries = [(''1'', 0, 1), (''3'', 2, 3)]"

lemma two_entries_ok: "table_wf ex_mem two_slots" "list_all (insertable ex_mem) two_entries" "distinct (map fst two_entries)"
  by (simp_all add: table_wf_def cmem_wf_def ex_mem_def two_slots_def two_entries_def int_key_def ex_atoi)

lemma two_entries_complete:
  "\<exists>c. creach hash_machine (map insert_op two_entries) (ex_mem, two_slots) c \<and> all_returned c"
  using hash_threads.completes [OF inserts_never_crash [OF two_entries_ok]] .

theorem hash_operations_linearizable_witness:
  "\<exists>c order rs. creach hash_machine (map insert_op two_entries) (ex_mem, two_slots) c \<and> set order = {..<2 :: nat} \<and>
    seq_run hash_whole (map ((!) (map insert_op two_entries)) order) (ex_mem, two_slots) = Inr (rs, c_shared c)"
proof -
  from two_entries_complete obtain c where
    c: "creach hash_machine (map insert_op two_entries) (ex_mem, two_slots) c" "all_returned c" by blast
  from hash_operations_linearizable [OF this] obtain order rs where
    "set order = {..<length (map insert_op two_entries)}"
    "seq_run hash_whole (map ((!) (map insert_op two_entries)) order) (ex_mem, two_slots) = Inr (rs, c_shared c)" by blast
  moreover have "length (map insert_op two_entries) = 2" by (simp add: two_entries_def)
  ultimately show ?thesis using c(1) by auto
qed

theorem concurrent_inserts_complete_witness:
  "\<exists>c ht'. creach hash_machine (map insert_op two_entries) (ex_mem, two_slots) c \<and> c_shared c = (ex_mem, ht') \<and>
    hash_find ''1'' ex_mem ht' = Inr (Some \<lparr>el_key = 0, el_data = 1\<rparr>) \<and>
    hash_find ''3'' ex_mem ht' = Inr (Some \<lparr>el_key = 2, el_data = 3\<rparr>)"
proof -
  from two_entries_complete obtain c where
    c: "creach hash_machine (map insert_op two_entries) (ex_mem, two_slots) c" "all_returned c" by blast
  then obtain ht' where "c_shared c = (ex_mem, ht')"
    "\<forall>(s, k, d) \<in> set two_entries. hash_find s ex_mem ht' = Inr (Some \<lparr>el_key = k, el_data = d\<rparr>)"
    using concurrent_inserts_complete [OF two_entries_ok] returned_stop by blast
  with c(1) show ?thesis by (auto simp: two_entries_def)
qed

text \<open>The order in which the threads get the latch is the order of the chain.\<close>

lemma chain_order_depends_on_schedule:
  "(case seq_run hash_whole (map insert_op two_entries) (ex_mem, two_slots) of
      Inl e \<Rightarrow> False
    | Inr (rs, m, ht) \<Rightarrow> ht_arr ht = [[], [\<lparr>el_key = 0, el_data = 1\<rparr>, \<lparr>el_key = 2, el_data = 3\<rparr>]])"
  "(case seq_run hash_whole (map insert_op (rev two_entries)) (ex_mem, two_slots) of
      Inl e \<Rightarrow> False
    | Inr (rs, m, ht) \<Rightarrow> ht_arr ht = [[], [\<lparr>el_key = 2, el_data = 3\<rparr>, \<lparr>el_key = 0, el_data = 1\<rparr>]])"
  by code_simp+

end
