(* ===== verification/Circular_List.thy ===== *)
theory Circular_List
  imports C_Memory
begin

text \<open>
  \<^verbatim>\<open>src/utils/circular_list.c\<close>: the bounded singly linked list the clock replacer keeps its frames
  in. The chain from \<^verbatim>\<open>head\<close> is a list of nodes, each with its own address and the pointer to its
  value. A node is live exactly while it is in the chain, since only \<^verbatim>\<open>circular_list_remove\<close>
  frees one; a pointer to a node that left the chain dangles.
\<close>

section \<open>The list and its operations\<close>

record CircularListNode =
  cl_addr :: addr
  cl_value :: addr

record CircularList =
  cl_capacity :: nat
  cl_size :: nat
  cl_nodes :: "CircularListNode list"

definition circular_list_init :: "nat \<Rightarrow> CircularList" where
  "circular_list_init capacity = \<lparr>cl_capacity = capacity, cl_size = 0, cl_nodes = []\<rparr>"

definition cl_head :: "CircularList \<Rightarrow> addr option" where
  "cl_head cl = (case cl_nodes cl of [] \<Rightarrow> None | n # _ \<Rightarrow> Some (cl_addr n))"

text \<open>The node a pointer leads to, with the nodes after it.\<close>

definition node_at :: "addr option \<Rightarrow> CircularList \<Rightarrow> (CircularListNode \<times> CircularListNode list) res" where
  "node_at p cl =
     (case p of
        None \<Rightarrow> Inl NullDeref
      | Some a \<Rightarrow> (case dropWhile (\<lambda>n. cl_addr n \<noteq> a) (cl_nodes cl) of
                    [] \<Rightarrow> Inl UseAfterFree
                  | n # ns \<Rightarrow> Inr (n, ns)))"

definition circular_list_next :: "addr option \<Rightarrow> CircularList \<Rightarrow> addr option res" where
  "circular_list_next cur cl =
     (if cl_size cl = 0 then Inr None
      else and_then (node_at cur cl) (\<lambda>(n, ns).
        case ns of [] \<Rightarrow> Inr (cl_head cl) | n' # _ \<Rightarrow> Inr (Some (cl_addr n'))))"

definition circular_list_insert ::
    "addr option \<Rightarrow> cmem \<Rightarrow> CircularList \<Rightarrow> addr option \<times> cmem \<times> CircularList" where
  "circular_list_insert v m cl =
     (case v of
        None \<Rightarrow> (None, m, cl)
      | Some a \<Rightarrow>
          (if cl_size cl = cl_capacity cl then (None, m, cl)
           else (Some (brk m), m\<lparr>brk := Suc (brk m)\<rparr>,
                 cl\<lparr>cl_nodes := \<lparr>cl_addr = brk m, cl_value = a\<rparr> # cl_nodes cl,
                    cl_size := Suc (cl_size cl)\<rparr>)))"

definition are_equal :: "addr option \<Rightarrow> addr option \<Rightarrow> cmem \<Rightarrow> bool res" where
  "are_equal v1 v2 m =
     (if v1 = v2 then Inr True
      else and_then (deref_str v1 m) (\<lambda>s1. and_then (deref_str v2 m) (\<lambda>s2. Inr (s1 = s2))))"

text \<open>The search loop of \<^verbatim>\<open>circular_list_remove\<close>. Its condition compares the value of the
  \<^emph>\<open>head\<close>, not of \<^verbatim>\<open>curr\<close>; \<open>pre\<close> are the nodes up to \<^verbatim>\<open>prev\<close>.\<close>

fun remove_loop :: "CircularListNode \<Rightarrow> addr option \<Rightarrow> cmem \<Rightarrow> CircularListNode list \<Rightarrow>
    CircularListNode list \<Rightarrow> (CircularListNode list \<times> CircularListNode list) res" where
  "remove_loop h v m pre [] = Inr (pre, [])"
| "remove_loop h v m pre (c # cs) =
     and_then (are_equal (Some (cl_value h)) v m) (\<lambda>eq.
       if eq then remove_loop h v m (pre @ [c]) cs else Inr (pre, c # cs))"

text \<open>The node is gone once the list no longer has it; its value is an allocation of its own.\<close>

definition free_cl_node :: "CircularListNode \<Rightarrow> cmem \<Rightarrow> cmem res" where
  "free_cl_node n m = free (Some (cl_value n)) m"

definition circular_list_remove ::
    "addr option \<Rightarrow> cmem \<Rightarrow> CircularList \<Rightarrow> (bool \<times> cmem \<times> CircularList) res" where
  "circular_list_remove v m cl =
     (case cl_nodes cl of
        [] \<Rightarrow> Inr (False, m, cl)
      | h # ns \<Rightarrow>
          and_then (are_equal (Some (cl_value h)) v m) (\<lambda>eq.
            if eq then
              and_then (free_cl_node h m) (\<lambda>m'.
                Inr (True, m', cl\<lparr>cl_nodes := ns, cl_size := cl_size cl - 1\<rparr>))
            else
              and_then (remove_loop h v m [h] ns) (\<lambda>(pre, cur).
                case cur of
                  [] \<Rightarrow> Inl NullDeref
                | c # cs \<Rightarrow>
                    and_then (free_cl_node c m) (\<lambda>m'.
                      Inr (True, m', cl\<lparr>cl_nodes := pre @ cs, cl_size := cl_size cl - 1\<rparr>)))))"

fun destroy_loop :: "CircularListNode list \<Rightarrow> cmem \<Rightarrow> CircularList \<Rightarrow> (cmem \<times> CircularList) res" where
  "destroy_loop [] m cl = Inr (m, cl)"
| "destroy_loop (temp # rest) m cl =
     and_then (circular_list_remove (Some (cl_value temp)) m cl) (\<lambda>(ok, m', cl').
       destroy_loop rest m' cl')"

definition circular_list_destroy :: "cmem \<Rightarrow> CircularList \<Rightarrow> (cmem \<times> CircularList) res" where
  "circular_list_destroy m cl = destroy_loop (cl_nodes cl) m cl"

section \<open>Invariant\<close>

definition cl_wf :: "cmem \<Rightarrow> CircularList \<Rightarrow> bool" where
  "cl_wf m cl \<longleftrightarrow>
     cl_size cl = length (cl_nodes cl) \<and> cl_size cl \<le> cl_capacity cl \<and>
     distinct (map cl_addr (cl_nodes cl)) \<and> distinct (map cl_value (cl_nodes cl)) \<and>
     (\<forall>n \<in> set (cl_nodes cl). cl_addr n < brk m \<and> (\<exists>s. cells m (cl_value n) = Some (CStr s)))"

lemma cl_wf_init: "cl_wf m (circular_list_init capacity)"
  by (simp add: cl_wf_def circular_list_init_def)

lemma cl_wf_insert:
  assumes "cl_wf m cl" and "cells m a = Some (CStr s)" and "a \<notin> cl_value ` set (cl_nodes cl)"
    and "circular_list_insert (Some a) m cl = (p, m', cl')"
  shows "cl_wf m' cl'"
  using assms by (fastforce simp: cl_wf_def circular_list_insert_def split: if_splits)

lemma dropWhile_addr:
  assumes "distinct (map cl_addr (xs @ n # ys))"
  shows "dropWhile (\<lambda>m. cl_addr m \<noteq> cl_addr n) (xs @ n # ys) = n # ys"
  using assms by (induction xs) auto

lemma node_at_append:
  assumes "cl_wf m cl" and "cl_nodes cl = xs @ n # ys"
  shows "node_at (Some (cl_addr n)) cl = Inr (n, ys)"
  using assms dropWhile_addr [of xs n ys] by (simp add: node_at_def cl_wf_def)

lemma circular_list_next_append:
  assumes "cl_wf m cl" and "cl_nodes cl = xs @ n # ys"
  shows "circular_list_next (Some (cl_addr n)) cl =
         Inr (case ys of [] \<Rightarrow> cl_head cl | y # _ \<Rightarrow> Some (cl_addr y))"
  using assms node_at_append [OF assms]
  by (auto simp: circular_list_next_def cl_wf_def split: list.splits)

text \<open>The loop of \<^verbatim>\<open>circular_list_remove\<close> never moves: it is reached only when the head differs.\<close>

lemma remove_loop_stays:
  "are_equal (Some (cl_value h)) v m = Inr False \<Longrightarrow> remove_loop h v m pre cur = Inr (pre, cur)"
  by (cases cur) simp_all

lemma remove_head:
  assumes "cl_wf m cl" and "cl_nodes cl = n # ns" and "are_equal (Some (cl_value n)) v m = Inr True"
  shows "circular_list_remove v m cl =
    Inr (True, m\<lparr>cells := (cells m)(cl_value n := None)\<rparr>,
         cl\<lparr>cl_nodes := ns, cl_size := cl_size cl - 1\<rparr>)"
  using assms by (auto simp: circular_list_remove_def free_cl_node_def cl_wf_def)

lemma remove_not_head:
  assumes "cl_wf m cl" and "cl_nodes cl = n # n' # ns"
    and "are_equal (Some (cl_value n)) v m = Inr False"
  shows "circular_list_remove v m cl =
    Inr (True, m\<lparr>cells := (cells m)(cl_value n' := None)\<rparr>,
         cl\<lparr>cl_nodes := n # ns, cl_size := cl_size cl - 1\<rparr>)"
  using assms by (auto simp: circular_list_remove_def free_cl_node_def cl_wf_def remove_loop_stays)

lemma cl_wf_drop:
  assumes "cl_wf m cl" and "cl_nodes cl = pre @ n # post"
  shows "cl_wf (m\<lparr>cells := (cells m)(cl_value n := None)\<rparr>)
               (cl\<lparr>cl_nodes := pre @ post, cl_size := cl_size cl - 1\<rparr>)"
  using assms by (auto simp: cl_wf_def) (metis imageI)+

lemma destroy_loop_frees:
  assumes "cl_wf m cl" and "cl_nodes cl = ns"
  shows "\<exists>m' cl'. destroy_loop ns m cl = Inr (m', cl') \<and> cl_nodes cl' = [] \<and> cl_size cl' = 0 \<and>
           (\<forall>a. cells m' a = (if a \<in> cl_value ` set ns then None else cells m a))"
  using assms
proof (induction ns arbitrary: m cl)
  case Nil
  then show ?case by (simp add: cl_wf_def)
next
  case (Cons n ns)
  let ?m' = "m\<lparr>cells := (cells m)(cl_value n := None)\<rparr>"
  let ?cl' = "cl\<lparr>cl_nodes := ns, cl_size := cl_size cl - 1\<rparr>"
  have rm: "circular_list_remove (Some (cl_value n)) m cl = Inr (True, ?m', ?cl')"
    using Cons.prems by (intro remove_head) (auto simp: are_equal_def)
  have "cl_wf ?m' ?cl'" using cl_wf_drop [of m cl "[]" n ns] Cons.prems by simp
  from Cons.IH [OF this] rm show ?case by auto
qed

section \<open>Properties\<close>

text \<open>
  \<^verbatim>\<open>circular_list_next\<close> walks the ring: from the node at position \<open>i\<close> of a well-formed list
  it leads to the node at position \<open>(i + 1) mod size\<close>, so the last node leads back to the head.
\<close>

lemma circular_list_next_ring:
  assumes wf: "cl_wf m cl" and i: "i < cl_size cl"
  shows "circular_list_next (Some (cl_addr (cl_nodes cl ! i))) cl =
         Inr (Some (cl_addr (cl_nodes cl ! (Suc i mod cl_size cl))))"
proof -
  from wf have size: "cl_size cl = length (cl_nodes cl)" by (simp add: cl_wf_def)
  let ?xs = "take i (cl_nodes cl)" and ?ys = "drop (Suc i) (cl_nodes cl)"
  from i size have split: "cl_nodes cl = ?xs @ cl_nodes cl ! i # ?ys"
    by (simp add: id_take_nth_drop)
  show ?thesis
  proof (cases ?ys)
    case Nil
    with i size have "Suc i = cl_size cl" by simp
    moreover from i size have "cl_head cl = Some (cl_addr (cl_nodes cl ! 0))"
      by (cases "cl_nodes cl") (simp_all add: cl_head_def)
    ultimately show ?thesis using circular_list_next_append [OF wf split] Nil by simp
  next
    case (Cons y ys)
    then have "Suc i < length (cl_nodes cl)" and "y = cl_nodes cl ! Suc i"
      by (metis drop_all leI list.discI, metis nth_via_drop)
    then show ?thesis using circular_list_next_append [OF wf split] Cons size by simp
  qed
qed

text \<open>
  What \<^verbatim>\<open>circular_list_remove\<close> removes. If the head holds the value, the head goes. Otherwise
  the loop compares the head again and stops at once: the second node goes, whatever it holds; and
  if there is no second node the code dereferences a null pointer instead of returning false.
\<close>

lemma circular_list_remove_removes:
  assumes wf: "cl_wf m cl" and v: "cells m v = Some (CStr s)"
    and h: "cl_nodes cl = h # ns" "cells m (cl_value h) = Some (CStr hs)"
  shows "circular_list_remove (Some v) m cl =
    (if hs = s then
       Inr (True, m\<lparr>cells := (cells m)(cl_value h := None)\<rparr>,
            cl\<lparr>cl_nodes := ns, cl_size := cl_size cl - 1\<rparr>)
     else case ns of
       [] \<Rightarrow> Inl NullDeref
     | c # cs \<Rightarrow>
         Inr (True, m\<lparr>cells := (cells m)(cl_value c := None)\<rparr>,
              cl\<lparr>cl_nodes := h # cs, cl_size := cl_size cl - 1\<rparr>))"
proof -
  have eq: "are_equal (Some (cl_value h)) (Some v) m = Inr (hs = s)"
    using v h(2) by (auto simp: are_equal_def)
  show ?thesis
  proof (cases "hs = s")
    case True
    with eq show ?thesis using remove_head [OF wf h(1)] by simp
  next
    case False
    with eq have "are_equal (Some (cl_value h)) (Some v) m = Inr False" by simp
    then show ?thesis
      using False remove_not_head [of m cl h] wf h(1)
      by (cases ns) (auto simp: circular_list_remove_def free_cl_node_def)
  qed
qed

text \<open>
  \<^verbatim>\<open>circular_list_destroy\<close> empties a well-formed list: it runs without error and frees the
  values of its nodes and nothing else.
\<close>

lemma circular_list_destroy_frees_all:
  assumes "cl_wf m cl"
  shows "\<exists>m' cl'. circular_list_destroy m cl = Inr (m', cl') \<and> cl_nodes cl' = [] \<and> cl_size cl' = 0 \<and>
           (\<forall>a. cells m' a = (if a \<in> cl_value ` set (cl_nodes cl) then None else cells m a))"
  using destroy_loop_frees [OF assms refl] by (simp add: circular_list_destroy_def)

text \<open>A list of three frames, the input of the witnesses.\<close>

definition ring_mem :: cmem where
  "ring_mem = \<lparr>cells = [0 \<mapsto> CStr ''0'', 2 \<mapsto> CStr ''1'', 4 \<mapsto> CStr ''2'', 6 \<mapsto> CStr ''0''], brk = 7\<rparr>"

definition ring_list :: CircularList where
  "ring_list = \<lparr>cl_capacity = 4, cl_size = 3,
     cl_nodes = [\<lparr>cl_addr = 5, cl_value = 4\<rparr>, \<lparr>cl_addr = 3, cl_value = 2\<rparr>, \<lparr>cl_addr = 1, cl_value = 0\<rparr>]\<rparr>"

lemma ring_wf: "cl_wf ring_mem ring_list"
  by (simp add: cl_wf_def ring_mem_def ring_list_def)

end
