(* ===== verification/Clock_Replacer.thy ===== *)
theory Clock_Replacer
  imports Hash_Table Circular_List
begin

text \<open>
  \<^verbatim>\<open>src/disk/clock_replacer.c\<close>: the replacement policy of the buffer pool. A frame that may be
  evicted is a node of the circular list \<open>frames\<close> and an entry of \<open>frame_table\<close>, which maps it to
  its reference bit; both hold the \<^emph>\<open>same\<close> pointer to the frame's decimal string. \<open>hand\<close> is a
  pointer to a list node, \<open>latch\<close> says whether the latch is held (a second lock by the thread that
  holds it fails with \<^verbatim>\<open>EDEADLK\<close>, which the code ignores).

  The abstract state is the list of tracked frames with their reference bits, in list order;
  \<open>tracks\<close> relates it to the concrete one and the lemmas refine each operation against it.
\<close>

section \<open>The replacer and its operations\<close>

record ClockReplacer =
  num_pages :: nat
  frames :: CircularList
  frame_table :: HashTable
  hand :: "addr option"
  latch :: bool

definition UINT32_MAX :: u32 where
  "UINT32_MAX = 0xFFFFFFFF"

definition clock_replacer_init :: "nat \<Rightarrow> ClockReplacer" where
  "clock_replacer_init capacity =
     \<lparr>num_pages = capacity, frames = circular_list_init capacity,
      frame_table = init_hash (of_nat capacity), hand = None, latch = False\<rparr>"

text \<open>\<^verbatim>\<open>snprintf(str, 11, "%d", frame_id)\<close> keeps at most ten characters.\<close>

definition frame_to_str :: "frame_id_t \<Rightarrow> string" where
  "frame_to_str fid = take 10 (int_dec (sint fid))"

text \<open>The sweep of \<^verbatim>\<open>evict\<close>; the first argument counts the iterations that are left.\<close>

fun evict_loop :: "nat \<Rightarrow> cmem \<Rightarrow> ClockReplacer \<Rightarrow> (frame_id_t \<times> cmem \<times> ClockReplacer) res" where
  "evict_loop 0 m r = Inr (UINT32_MAX, m, r\<lparr>latch := False\<rparr>)"
| "evict_loop (Suc i) m r =
     and_then (node_at (hand r) (frames r)) (\<lambda>(n, ns).
     and_then (deref_str (Some (cl_value n)) m) (\<lambda>curr_frame.
     and_then (hash_find curr_frame m (frame_table r)) (\<lambda>found.
       case found of
         None \<Rightarrow> Inl NullDeref
       | Some frame_info \<Rightarrow>
           and_then (and_then (deref (Some (el_data frame_info)) m) as_bool) (\<lambda>ref.
             if ref then
               (let (ref_bit, m1) = malloc (CBool False) m in
                and_then (hash_insert (Some (cl_value n)) (Some ref_bit) m1 (frame_table r)) (\<lambda>ft.
                and_then (circular_list_next (hand r) (frames r)) (\<lambda>h.
                  evict_loop i m1 (r\<lparr>frame_table := ft, hand := h\<rparr>))))
             else
               and_then (deref_str (Some (el_key frame_info)) m) (\<lambda>key.
               and_then (hash_remove curr_frame m (frame_table r)) (\<lambda>(ok, m1, ft).
               and_then (circular_list_remove (Some (cl_value n)) m1 (frames r)) (\<lambda>(ok', m2, cl).
                 Inr (word_of_int (atoi key), m2,
                      r\<lparr>frame_table := ft, frames := cl, latch := False\<rparr>))))))))"

declare evict_loop.simps(2) [simp del]

definition evict :: "cmem \<Rightarrow> ClockReplacer \<Rightarrow> (frame_id_t \<times> cmem \<times> ClockReplacer) res" where
  "evict m r =
     (let r = r\<lparr>latch := True\<rparr> in
      if cl_size (frames r) = 0 then Inr (UINT32_MAX, m, r)
      else
        let r = (if hand r = None then r\<lparr>hand := cl_head (frames r)\<rparr> else r)
        in evict_loop (cl_size (frames r)) m r)"

definition clock_replacer_unpin :: "frame_id_t \<Rightarrow> cmem \<Rightarrow> ClockReplacer \<Rightarrow> (cmem \<times> ClockReplacer) res" where
  "clock_replacer_unpin fid m r =
     (let (frame_str, m1) = malloc (CStr (frame_to_str fid)) m;
          (node, m2, cl) = circular_list_insert (Some frame_str) m1 (frames r)
      in if node = None then Inr (m2, r\<lparr>latch := False\<rparr>)
         else
           let (unpinned, m3) = malloc (CBool True) m2
           in and_then (hash_insert (Some frame_str) (Some unpinned) m3 (frame_table r)) (\<lambda>ft.
                Inr (m3, r\<lparr>frames := cl, frame_table := ft, latch := False\<rparr>)))"

text \<open>\<^verbatim>\<open>if (ok)\<close> tests the pointer, not what it points to: the list removal always runs.\<close>

definition clock_replacer_pin :: "frame_id_t \<Rightarrow> cmem \<Rightarrow> ClockReplacer \<Rightarrow> (cmem \<times> ClockReplacer) res" where
  "clock_replacer_pin fid m r =
     (let (frame_str, m1) = malloc (CStr (frame_to_str fid)) m
      in and_then (hash_remove (frame_to_str fid) m1 (frame_table r)) (\<lambda>(ok, m2, ft).
         and_then (circular_list_remove (Some frame_str) m2 (frames r)) (\<lambda>(ok', m3, cl).
           Inr (m3, r\<lparr>frame_table := ft, frames := cl, latch := False\<rparr>))))"

section \<open>Abstract state\<close>

type_synonym tracked = "(nat \<times> bool) list" \<comment> \<open>frame and reference bit, head of the list first\<close>

definition node_tracks :: "cmem \<Rightarrow> HashTable \<Rightarrow> CircularListNode \<Rightarrow> nat \<times> bool \<Rightarrow> bool" where
  "node_tracks m ft n fb \<longleftrightarrow>
     fst fb < unat (ht_size ft) \<and>
     (\<exists>d. ht_arr ft ! fst fb = [\<lparr>el_key = cl_value n, el_data = d\<rparr>] \<and>
          cells m d = Some (CBool (snd fb)))"

definition tracks :: "cmem \<Rightarrow> ClockReplacer \<Rightarrow> tracked \<Rightarrow> bool" where
  "tracks m r fs \<longleftrightarrow>
     slot_inv m (frame_table r) \<and> cl_wf m (frames r) \<and>
     list_all2 (node_tracks m (frame_table r)) (cl_nodes (frames r)) fs \<and>
     distinct (map fst fs) \<and>
     (\<forall>f < unat (ht_size (frame_table r)). f \<notin> fst ` set fs \<longrightarrow> ht_arr (frame_table r) ! f = [])"

lemma tracksD:
  assumes "tracks m r fs"
  shows "slot_inv m (frame_table r)" and "cl_wf m (frames r)"
    and "list_all2 (node_tracks m (frame_table r)) (cl_nodes (frames r)) fs"
    and "distinct (map fst fs)"
    and "f < unat (ht_size (frame_table r)) \<Longrightarrow> f \<notin> fst ` set fs \<Longrightarrow> ht_arr (frame_table r) ! f = []"
  using assms unfolding tracks_def by blast+

lemma tracksI:
  assumes "slot_inv m (frame_table r)" and "cl_wf m (frames r)"
    and "list_all2 (node_tracks m (frame_table r)) (cl_nodes (frames r)) fs"
    and "distinct (map fst fs)"
    and "\<And>f. f < unat (ht_size (frame_table r)) \<Longrightarrow> f \<notin> fst ` set fs \<Longrightarrow> ht_arr (frame_table r) ! f = []"
  shows "tracks m r fs"
  using assms unfolding tracks_def by blast

lemma node_tracks_str:
  assumes "slot_inv m ft" and "node_tracks m ft n fb"
  shows "cells m (cl_value n) = Some (CStr (dec (fst fb)))"
proof -
  from assms obtain d where f: "fst fb < length (ht_arr ft)"
    and slot: "ht_arr ft ! fst fb = [\<lparr>el_key = cl_value n, el_data = d\<rparr>]"
    by (auto simp: node_tracks_def slot_inv_def)
  have "slot_ok m (fst fb) (ht_arr ft ! fst fb)"
    using assms(1) f unfolding slot_inv_def by blast
  with slot show ?thesis by (auto simp: slot_ok_def live_el_def)
qed

lemma tracks_size: "tracks m r fs \<Longrightarrow> cl_size (frames r) = length fs"
  by (auto simp: tracks_def cl_wf_def dest: list_all2_lengthD)

lemma frame_to_str_dec: "unat fid < 2 ^ 31 \<Longrightarrow> frame_to_str fid = dec (unat fid)"
  using length_dec_less [of "unat fid" 10]
  by (simp add: frame_to_str_def int_dec_def sint_nonneg_eq)

lemma tracks_init:
  assumes "cmem_wf m" and "0 < capacity" and "capacity < 65536"
  shows "tracks m (clock_replacer_init capacity) []"
proof -
  have "unat (of_nat capacity :: u32) = capacity"
    using assms(3) by (simp add: unat_of_nat)
  with assms have "slot_inv m (init_hash (of_nat capacity))"
    by (intro slot_inv_init) simp_all
  moreover have "ht_arr (init_hash sz) ! f = []" if "f < unat (ht_size (init_hash sz))"
    "unat sz < 65536" for f sz
    using that unat_ucast_small [of sz] by (simp add: init_hash_def)
  ultimately show ?thesis
    using assms(3) cl_wf_init [of m capacity]
    by (simp add: tracks_def clock_replacer_init_def circular_list_init_def unat_of_nat)
qed

section \<open>Changing one tracked frame\<close>

lemma tracks_split:
  assumes "tracks m r (pre @ (f, b) # post)"
  obtains xs n ys where "cl_nodes (frames r) = xs @ n # ys" and "length xs = length pre"
    and "list_all2 (node_tracks m (frame_table r)) xs pre"
    and "node_tracks m (frame_table r) n (f, b)"
    and "list_all2 (node_tracks m (frame_table r)) ys post"
  using assms
  by (auto simp: tracks_def list_all2_append2 list_all2_Cons2 dest: list_all2_lengthD)

lemma node_tracks_mono:
  assumes "node_tracks m ft n fb"
    and "\<And>d b. cells m d = Some (CBool b) \<Longrightarrow> cells m' d = Some (CBool b)"
    and "ht_size ft' = ht_size ft" and "ht_arr ft' ! fst fb = ht_arr ft ! fst fb"
  shows "node_tracks m' ft' n fb"
  using assms unfolding node_tracks_def by metis

lemma nodes_track_mono:
  assumes "list_all2 (node_tracks m ft) ns fs"
    and "\<And>d b. cells m d = Some (CBool b) \<Longrightarrow> cells m' d = Some (CBool b)"
    and "ht_size ft' = ht_size ft"
    and "\<And>g. g \<in> fst ` set fs \<Longrightarrow> ht_arr ft' ! g = ht_arr ft ! g"
  shows "list_all2 (node_tracks m' ft') ns fs"
  using assms(1,4)
  by (induction rule: list_all2_induct) (auto intro: node_tracks_mono [OF _ assms(2,3)])

lemma nth_update_Nil: "xs ! f = [] \<Longrightarrow> xs[g := []] ! f = []"
  by (cases "g = f"; cases "f < length xs") (auto simp: list_update_beyond)

lemma nth_update_untracked: "f \<notin> A \<Longrightarrow> g \<in> A \<Longrightarrow> xs[f := v] ! g = xs ! g"
  by (metis nth_list_update_neq)

lemma cl_wf_extends:
  assumes "cl_wf m cl" and "extends m m'"
  shows "cl_wf m' cl"
  using assms unfolding cl_wf_def extends_def by (meson order_less_le_trans)

lemma tracks_extends:
  assumes "tracks m r fs" and "extends m m'" and "cmem_wf m'"
  shows "tracks m' r fs"
proof -
  have "list_all2 (node_tracks m' (frame_table r)) (cl_nodes (frames r)) fs"
    using tracksD(3) [OF assms(1)] by (rule nodes_track_mono) (simp_all add: extendsD [OF assms(2)])
  then show ?thesis
    by (rule tracksI [OF slot_inv_extends [OF tracksD(1) [OF assms(1)] assms(2,3)]
          cl_wf_extends [OF tracksD(2) [OF assms(1)] assms(2)]])
      (fact tracksD(4,5) [OF assms(1)])+
qed

text \<open>Giving a tracked frame a new cell for its reference bit.\<close>

lemma tracks_set_bit:
  assumes tr: "tracks m r (pre @ (f, b) # post)"
    and n: "cl_nodes (frames r) = xs @ n # ys" "length xs = length pre"
    and d: "cells m d = Some (CBool b')"
    and ft: "slot_inv m ft" "ht_size ft = ht_size (frame_table r)"
      "ht_arr ft = (ht_arr (frame_table r))[f := [\<lparr>el_key = cl_value n, el_data = d\<rparr>]]"
  shows "tracks m (r\<lparr>frame_table := ft\<rparr>) (pre @ (f, b') # post)"
proof -
  from tr obtain xs' n' ys' where n': "cl_nodes (frames r) = xs' @ n' # ys'" "length xs' = length pre"
    and all: "list_all2 (node_tracks m (frame_table r)) xs' pre"
      "node_tracks m (frame_table r) n' (f, b)"
      "list_all2 (node_tracks m (frame_table r)) ys' post"
    by (rule tracks_split)
  from n n' have same: "xs' = xs" "n' = n" "ys' = ys" by simp_all
  from tr have f: "f \<notin> fst ` set pre" "f \<notin> fst ` set post" by (auto simp: tracks_def)
  have len: "f < length (ht_arr (frame_table r))"
    using all(2) tr by (simp add: node_tracks_def tracks_def slot_inv_def)
  have other: "ht_arr ft ! g = ht_arr (frame_table r) ! g" if "g \<noteq> f" for g
    using that by (simp add: ft(3))
  have "list_all2 (node_tracks m ft) xs pre"
    using all(1) [unfolded same] by (rule nodes_track_mono) (use f(1) other ft(2) in \<open>metis\<close>)+
  moreover have "list_all2 (node_tracks m ft) ys post"
    using all(3) [unfolded same] by (rule nodes_track_mono) (use f(2) other ft(2) in \<open>metis\<close>)+
  moreover have "node_tracks m ft n (f, b')"
    using len ft(2,3) d all(2) by (simp add: node_tracks_def)
  ultimately have "list_all2 (node_tracks m ft) (cl_nodes (frames r)) (pre @ (f, b') # post)"
    unfolding n(1) by (simp add: list_all2_append n(2))
  moreover have "ht_arr ft ! g = []"
    if "g < unat (ht_size ft)" "g \<notin> fst ` set (pre @ (f, b') # post)" for g
    using that other [of g] tracksD(5) [OF tr, of g] by (simp add: ft(2))
  ultimately show ?thesis
    using ft(1) tracksD(2,4) [OF tr] by (intro tracksI) simp_all
qed

text \<open>Dropping a tracked frame: its slot is cleared, its node leaves the list, its string is freed.\<close>

lemma slot_inv_drop:
  assumes tr: "tracks m r (pre @ (f, b) # post)"
    and n: "cl_nodes (frames r) = xs @ n # ys" "length xs = length pre"
    and ft: "ht_size ft = ht_size (frame_table r)"
      "ht_arr ft = (ht_arr (frame_table r))[f := []]"
  shows "slot_inv (m\<lparr>cells := (cells m)(cl_value n := None)\<rparr>) ft"
proof -
  let ?m = "m\<lparr>cells := (cells m)(cl_value n := None)\<rparr>"
  note inv = tracksD(1) [OF tr]
  have "slot_ok ?m g (ht_arr ft ! g)" if g: "g < length (ht_arr ft)" for g
  proof (cases "ht_arr ft ! g = []")
    case False
    with g have gf: "g \<noteq> f" by (auto simp: ft(2))
    then have same: "ht_arr ft ! g = ht_arr (frame_table r) ! g" by (simp add: ft(2))
    have lt: "g < unat (ht_size (frame_table r))" using g ft inv by (simp add: slot_inv_def)
    with False same have "g \<in> fst ` set (pre @ (f, b) # post)"
      using tracksD(5) [OF tr, of g] by metis
    then obtain i where i: "i < length (pre @ (f, b) # post)" "g = fst ((pre @ (f, b) # post) ! i)"
      by (metis imageE in_set_conv_nth)
    with gf have "i \<noteq> length pre" by (metis fst_conv nth_append_length)
    have len: "length (cl_nodes (frames r)) = length (pre @ (f, b) # post)"
      using tracksD(3) [OF tr] by (rule list_all2_lengthD)
    have "node_tracks m (frame_table r) (cl_nodes (frames r) ! i) ((pre @ (f, b) # post) ! i)"
      using tracksD(3) [OF tr] i(1) len by (simp add: list_all2_conv_all_nth)
    then obtain d where slot: "ht_arr ft ! g = [\<lparr>el_key = cl_value (cl_nodes (frames r) ! i), el_data = d\<rparr>]"
      and d: "cells m d = Some (CBool (snd ((pre @ (f, b) # post) ! i)))"
      and key: "cells m (cl_value (cl_nodes (frames r) ! i)) = Some (CStr (dec g))"
      using node_tracks_str [OF inv] i(2) same by (auto simp: node_tracks_def)
    have "cl_nodes (frames r) ! length pre = n" using n by (metis nth_append_length)
    moreover have "distinct (map cl_value (cl_nodes (frames r)))"
      using tracksD(2) [OF tr] by (simp add: cl_wf_def)
    ultimately have "cl_value (cl_nodes (frames r) ! i) \<noteq> cl_value n"
      using \<open>i \<noteq> length pre\<close> i(1) len by (auto simp: distinct_conv_nth)
    moreover have "d \<noteq> cl_value n"
      using d node_tracks_str [OF inv, of n] tracksD(3) [OF tr] n
      by (auto simp: list_all2_append list_all2_Cons2)
    ultimately show ?thesis
      using slot d key by (auto simp: slot_ok_def live_el_def el_str_def)
  qed (simp add: slot_ok_def)
  with inv ft show ?thesis by (simp add: slot_inv_def)
qed

lemma tracks_drop:
  assumes tr: "tracks m r (pre @ (f, b) # post)"
    and n: "cl_nodes (frames r) = xs @ n # ys" "length xs = length pre"
    and ft: "ht_size ft = ht_size (frame_table r)"
      "ht_arr ft = (ht_arr (frame_table r))[f := []]"
  shows "tracks (m\<lparr>cells := (cells m)(cl_value n := None)\<rparr>)
     (r\<lparr>frame_table := ft,
        frames := (frames r)\<lparr>cl_nodes := xs @ ys, cl_size := cl_size (frames r) - 1\<rparr>\<rparr>) (pre @ post)"
    (is "tracks ?m ?r _")
proof (rule tracksI)
  show "slot_inv ?m (frame_table ?r)" using slot_inv_drop [OF tr n ft] by simp
  show "cl_wf ?m (frames ?r)" using cl_wf_drop [OF tracksD(2) [OF tr] n(1)] by simp
  show "distinct (map fst (pre @ post))" using tracksD(4) [OF tr] by simp
  have f: "f \<notin> fst ` set (pre @ post)" using tracksD(4) [OF tr] by auto
  show "ht_arr (frame_table ?r) ! g = []"
    if "g < unat (ht_size (frame_table ?r))" "g \<notin> fst ` set (pre @ post)" for g
    using that tracksD(5) [OF tr, of g] tracksD(1) [OF tr] ft
    by (cases "g = f") (auto simp: slot_inv_def)
  have all: "list_all2 (node_tracks m (frame_table r)) (xs @ ys) (pre @ post)"
    and nt: "node_tracks m (frame_table r) n (f, b)"
    using tracksD(3) [OF tr] n by (auto simp: list_all2_append)
  have str: "cells m (cl_value n) = Some (CStr (dec f))"
    using node_tracks_str [OF tracksD(1) [OF tr] nt] by simp
  have "list_all2 (node_tracks ?m ft) (xs @ ys) (pre @ post)"
    using all by (rule nodes_track_mono) (use str in \<open>auto simp: ft nth_update_untracked [OF f] simp del: set_append\<close>)
  then show "list_all2 (node_tracks ?m (frame_table ?r)) (cl_nodes (frames ?r)) (pre @ post)"
    by simp
qed

section \<open>Pin and unpin\<close>

lemma tracks_latch [simp]: "tracks m (r\<lparr>latch := l\<rparr>) fs = tracks m r fs"
  by (simp add: tracks_def)

lemma tracks_hand [simp]: "tracks m (r\<lparr>hand := h\<rparr>) fs = tracks m r fs"
  by (simp add: tracks_def)

text \<open>The strings of the list nodes: the cells the replacer may free.\<close>

definition node_values :: "ClockReplacer \<Rightarrow> addr set" where
  "node_values r = cl_value ` set (cl_nodes (frames r))"

definition same_sizes :: "ClockReplacer \<Rightarrow> ClockReplacer \<Rightarrow> bool" where
  "same_sizes r r' \<longleftrightarrow> ht_size (frame_table r') = ht_size (frame_table r) \<and> cl_capacity (frames r') = cl_capacity (frames r)"

lemma unpin_tracks:
  assumes tr: "tracks m r fs" and f: "unat fid < unat (ht_size (frame_table r))"
    "unat fid \<notin> fst ` set fs" and room: "length fs < cl_capacity (frames r)"
  shows "\<exists>m' r'. clock_replacer_unpin fid m r = Inr (m', r') \<and>
           tracks m' r' ((unat fid, True) # fs) \<and> hand r' = hand r \<and> extends m m' \<and>
           ht_size (frame_table r') = ht_size (frame_table r) \<and>
           cl_capacity (frames r') = cl_capacity (frames r) \<and>
           node_values r' = insert (brk m) (node_values r)"
proof -
  let ?a = "brk m" and ?n = "\<lparr>cl_addr = Suc (brk m), cl_value = brk m\<rparr>"
  let ?m1 = "snd (malloc (CStr (dec (unat fid))) m)"
  let ?m2 = "?m1\<lparr>brk := Suc (brk ?m1)\<rparr>"
  let ?m3 = "snd (malloc (CBool True) ?m2)"
  let ?cl = "(frames r)\<lparr>cl_nodes := ?n # cl_nodes (frames r), cl_size := Suc (cl_size (frames r))\<rparr>"
  have fid: "frame_to_str fid = dec (unat fid)"
    using f(1) unat_bounds(2) [of "ht_size (frame_table r)"] by (intro frame_to_str_dec) simp
  have wf: "cmem_wf m" using tracksD(1) [OF tr] by (simp add: slot_inv_def)
  then have wf3: "cmem_wf ?m3" and ext: "extends m ?m3"
    by (auto simp: cmem_wf_def extends_def)
  have tr3: "tracks ?m3 r fs" using tr ext wf3 by (rule tracks_extends)
  have cells3: "cells ?m3 ?a = Some (CStr (dec (unat fid)))" "cells ?m3 (brk ?m2) = Some (CBool True)"
    by simp_all
  from slot_inv_insert [OF tracksD(1) [OF tr3] f(1) cells3] obtain ft where ft:
    "hash_insert (Some ?a) (Some (brk ?m2)) ?m3 (frame_table r) = Inr ft" "slot_inv ?m3 ft"
    "ht_size ft = ht_size (frame_table r)"
    "ht_arr ft = (ht_arr (frame_table r))[unat fid := [\<lparr>el_key = ?a, el_data = brk ?m2\<rparr>]]" by blast
  have "clock_replacer_unpin fid m r =
      Inr (?m3, r\<lparr>frames := ?cl, frame_table := ft, latch := False\<rparr>)"
    using ft(1) room tracks_size [OF tr]
    by (simp add: clock_replacer_unpin_def fid malloc_def circular_list_insert_def)
  moreover have "tracks ?m3 (r\<lparr>frames := ?cl, frame_table := ft, latch := False\<rparr>) ((unat fid, True) # fs)"
  proof (rule tracksI)
    have old: "\<forall>n \<in> set (cl_nodes (frames r)). cl_addr n < brk m \<and> cl_value n < brk m"
      using tracksD(2) [OF tr] wf by (auto simp: cl_wf_def dest: cmem_wf_less)
    then show "cl_wf ?m3 (frames (r\<lparr>frames := ?cl, frame_table := ft, latch := False\<rparr>))"
      using tracksD(2) [OF tr3] room tracks_size [OF tr] by (auto simp: cl_wf_def)
    have "list_all2 (node_tracks ?m3 ft) (cl_nodes (frames r)) fs"
      using tracksD(3) [OF tr3] by (rule nodes_track_mono)
        (simp_all add: ft(3,4) nth_update_untracked [OF f(2)])
    moreover have "node_tracks ?m3 ft ?n (unat fid, True)"
      using f(1) ft(3,4) tracksD(1) [OF tr] cells3(2) by (simp add: node_tracks_def slot_inv_def)
    ultimately show "list_all2 (node_tracks ?m3 (frame_table (r\<lparr>frames := ?cl, frame_table := ft, latch := False\<rparr>)))
        (cl_nodes (frames (r\<lparr>frames := ?cl, frame_table := ft, latch := False\<rparr>))) ((unat fid, True) # fs)"
      by simp
  qed (use ft f(2) tracksD(4,5) [OF tr] in auto)
  ultimately show ?thesis using ext ft(3) by (auto simp: node_values_def)
qed

lemma malloc_str_tracks:
  assumes tr: "tracks m r fs"
  shows "tracks (snd (malloc c m)) r fs"
proof -
  have "cmem_wf m" using tracksD(1) [OF tr] by (simp add: slot_inv_def)
  then show ?thesis using tr by (intro tracks_extends [OF tr malloc_extends malloc_wf])
qed

lemma are_equal_tracked:
  assumes tr: "tracks m r fs" and "node_tracks m (frame_table r) n (g, b)"
    and "cells m v = Some (CStr (dec f))"
  shows "are_equal (Some (cl_value n)) (Some v) m = Inr (g = f)"
  using node_tracks_str [OF tracksD(1) [OF tr] assms(2)] assms(3) by (auto simp: are_equal_def)

text \<open>Pinning removes the frame when it is one of the first two of the list.\<close>

lemma pin_tracks:
  assumes tr: "tracks m r (pre @ (unat fid, b) # post)" and pre: "length pre \<le> 1"
  shows "\<exists>m' r'. clock_replacer_pin fid m r = Inr (m', r') \<and> tracks m' r' (pre @ post) \<and>
           hand r' = hand r \<and> same_sizes r r' \<and> extends_but (node_values r) m m' \<and> node_values r' \<subseteq> node_values r"
proof -
  let ?m1 = "snd (malloc (CStr (dec (unat fid))) m)" and ?f = "unat fid"
  have tr1: "tracks ?m1 r (pre @ (?f, b) # post)" using tr by (rule malloc_str_tracks)
  then obtain xs n ys where n: "cl_nodes (frames r) = xs @ n # ys" "length xs = length pre"
    and xs: "list_all2 (node_tracks ?m1 (frame_table r)) xs pre"
    and nt: "node_tracks ?m1 (frame_table r) n (?f, b)" by (rule tracks_split)
  then have lt: "?f < unat (ht_size (frame_table r))" by (simp add: node_tracks_def)
  have fid: "frame_to_str fid = dec ?f"
    using lt unat_bounds(2) [of "ht_size (frame_table r)"] by (intro frame_to_str_dec) simp
  from slot_inv_remove [OF tracksD(1) [OF tr1] lt] obtain ft where ft:
    "hash_remove (dec ?f) ?m1 (frame_table r) = Inr (True, ?m1, ft)"
    "ht_size ft = ht_size (frame_table r)" "ht_arr ft = (ht_arr (frame_table r))[?f := []]" by blast
  have v: "cells ?m1 (brk m) = Some (CStr (dec ?f))" by simp
  have "circular_list_remove (Some (brk m)) ?m1 (frames r) =
    Inr (True, ?m1\<lparr>cells := (cells ?m1)(cl_value n := None)\<rparr>,
         (frames r)\<lparr>cl_nodes := xs @ ys, cl_size := cl_size (frames r) - 1\<rparr>)"
  proof (cases xs)
    case Nil
    with n are_equal_tracked [OF tr1 nt v] show ?thesis
      using remove_head [OF tracksD(2) [OF tr1]] by simp
  next
    case (Cons x xs')
    with xs pre n(2) obtain g c where pre': "pre = [(g, c)]" "xs' = []"
      and x: "node_tracks ?m1 (frame_table r) x (g, c)"
      by (cases pre) auto
    then have "g \<noteq> ?f" using tracksD(4) [OF tr] by simp
    with are_equal_tracked [OF tr1 x v] n Cons pre' show ?thesis
      using remove_not_head [OF tracksD(2) [OF tr1]] by simp
  qed
  then have "clock_replacer_pin fid m r = Inr (?m1\<lparr>cells := (cells ?m1)(cl_value n := None)\<rparr>,
      r\<lparr>frame_table := ft, frames := (frames r)\<lparr>cl_nodes := xs @ ys, cl_size := cl_size (frames r) - 1\<rparr>,
        latch := False\<rparr>)"
    using ft(1) by (simp add: clock_replacer_pin_def fid malloc_def)
  moreover have "extends_but (node_values r) m (?m1\<lparr>cells := (cells ?m1)(cl_value n := None)\<rparr>)"
    using n(1) tracksD(1) [OF tr] by (auto simp: extends_but_def node_values_def slot_inv_def dest: cmem_wf_less)
  ultimately show ?thesis
    using tracks_drop [OF tr1 n ft(2,3)] n(1) ft(2) by (auto simp: same_sizes_def node_values_def)
qed

text \<open>With no tracked frame at all, pinning changes nothing.\<close>

lemma pin_untracked:
  assumes tr: "tracks m r []" and lt: "unat fid < unat (ht_size (frame_table r))"
  shows "\<exists>m' r'. clock_replacer_pin fid m r = Inr (m', r') \<and> tracks m' r' [] \<and> hand r' = hand r \<and>
           extends m m' \<and> same_sizes r r' \<and> node_values r' = node_values r"
proof -
  let ?m1 = "snd (malloc (CStr (dec (unat fid))) m)"
  have wf: "cmem_wf m" using tracksD(1) [OF tr] by (simp add: slot_inv_def)
  have tr1: "tracks ?m1 r []" using tr by (rule malloc_str_tracks)
  have fid: "frame_to_str fid = dec (unat fid)"
    using lt unat_bounds(2) [of "ht_size (frame_table r)"] by (intro frame_to_str_dec) simp
  from slot_inv_remove [OF tracksD(1) [OF tr1] lt] obtain ft where ft:
    "hash_remove (dec (unat fid)) ?m1 (frame_table r) = Inr (True, ?m1, ft)" "slot_inv ?m1 ft"
    "ht_size ft = ht_size (frame_table r)" "ht_arr ft = (ht_arr (frame_table r))[unat fid := []]"
    by blast
  have empty: "cl_nodes (frames r) = []" using tracksD(3) [OF tr] by simp
  then have "clock_replacer_pin fid m r =
      Inr (?m1, r\<lparr>frame_table := ft, frames := frames r, latch := False\<rparr>)"
    using ft(1) by (simp add: clock_replacer_pin_def fid malloc_def circular_list_remove_def)
  moreover have "tracks ?m1 (r\<lparr>frame_table := ft, frames := frames r, latch := False\<rparr>) []"
    using ft(2-4) tracksD(2) [OF tr1] empty tracksD(5) [OF tr1]
    by (intro tracksI) (auto simp: nth_update_Nil)
  ultimately show ?thesis using malloc_extends [OF wf] ft(3) by (auto simp: same_sizes_def node_values_def)
qed

section \<open>Eviction\<close>

text \<open>The clock hand points at position \<open>p\<close> of the ring.\<close>

definition hand_at :: "ClockReplacer \<Rightarrow> nat \<Rightarrow> bool" where
  "hand_at r p \<longleftrightarrow>
     hand r = Some (cl_addr (cl_nodes (frames r) ! (p mod cl_size (frames r))))"

definition clear_bits :: "tracked \<Rightarrow> tracked" where
  "clear_bits fs = map (\<lambda>(f, b). (f, False)) fs"

lemma clear_bits_simps [simp]:
  "clear_bits [] = []"
  "clear_bits ((f, b) # fs) = (f, False) # clear_bits fs"
  "clear_bits (xs @ ys) = clear_bits xs @ clear_bits ys"
  "length (clear_bits fs) = length fs"
  by (simp_all add: clear_bits_def)

text \<open>The element the sweep looks at: the node under the hand and its entry in the frame table.\<close>

lemma hand_entry:
  assumes tr: "tracks m r (pre @ (f, b) # post)" and hand: "hand_at r (length pre)"
  obtains xs n ys d where "cl_nodes (frames r) = xs @ n # ys" and "length xs = length pre"
    and "hand r = Some (cl_addr n)" and "node_at (hand r) (frames r) = Inr (n, ys)"
    and "deref_str (Some (cl_value n)) m = Inr (dec f)"
    and "hash_find (dec f) m (frame_table r) = Inr (Some \<lparr>el_key = cl_value n, el_data = d\<rparr>)"
    and "cells m d = Some (CBool b)" and "f < unat (ht_size (frame_table r))"
    and "cells m (cl_value n) = Some (CStr (dec f))"
proof -
  from tr obtain xs n ys where n: "cl_nodes (frames r) = xs @ n # ys" "length xs = length pre"
    and nt: "node_tracks m (frame_table r) n (f, b)" by (rule tracks_split)
  from nt obtain d where d: "f < unat (ht_size (frame_table r))"
    "ht_arr (frame_table r) ! f = [\<lparr>el_key = cl_value n, el_data = d\<rparr>]" "cells m d = Some (CBool b)"
    by (auto simp: node_tracks_def)
  have str: "cells m (cl_value n) = Some (CStr (dec f))"
    using node_tracks_str [OF tracksD(1) [OF tr] nt] by simp
  have "hand r = Some (cl_addr n)"
    using hand n tracks_size [OF tr] by (simp add: hand_at_def) (metis nth_append_length)
  then show thesis
    using that [OF n, of d] node_at_append [OF tracksD(2) [OF tr] n(1)] str d
      slot_inv_find [OF tracksD(1) [OF tr] d(1)] by simp
qed

lemma evict_step_referenced:
  assumes tr: "tracks m r (pre @ (f, True) # post)" and hand: "hand_at r (length pre)"
  shows "\<exists>m' r'. evict_loop (Suc i) m r = evict_loop i m' r' \<and>
           tracks m' r' (pre @ (f, False) # post) \<and> hand_at r' (Suc (length pre)) \<and>
           frames r' = frames r \<and> extends m m' \<and> ht_size (frame_table r') = ht_size (frame_table r)"
proof -
  from tr hand obtain xs n ys d where n: "cl_nodes (frames r) = xs @ n # ys" "length xs = length pre"
    and h: "hand r = Some (cl_addr n)" "node_at (hand r) (frames r) = Inr (n, ys)"
    and look: "deref_str (Some (cl_value n)) m = Inr (dec f)"
      "hash_find (dec f) m (frame_table r) = Inr (Some \<lparr>el_key = cl_value n, el_data = d\<rparr>)"
      "cells m d = Some (CBool True)"
    and f: "f < unat (ht_size (frame_table r))" and str: "cells m (cl_value n) = Some (CStr (dec f))"
    by (rule hand_entry)
  have wf: "cmem_wf m" using tracksD(1) [OF tr] by (simp add: slot_inv_def)
  let ?m1 = "snd (malloc (CBool False) m)"
  have tr1: "tracks ?m1 r (pre @ (f, True) # post)" using tr by (rule malloc_str_tracks)
  have str1: "cells ?m1 (cl_value n) = Some (CStr (dec f))"
    using malloc_extends [OF wf] str by (rule extendsD)
  have bit1: "cells ?m1 (brk m) = Some (CBool False)" by simp
  from slot_inv_insert [OF tracksD(1) [OF tr1] f str1 bit1] obtain ft where ft:
    "hash_insert (Some (cl_value n)) (Some (brk m)) ?m1 (frame_table r) = Inr ft" "slot_inv ?m1 ft"
    "ht_size ft = ht_size (frame_table r)"
    "ht_arr ft = (ht_arr (frame_table r))[f := [\<lparr>el_key = cl_value n, el_data = brk m\<rparr>]]" by blast
  let ?h = "Some (cl_addr (cl_nodes (frames r) ! (Suc (length pre) mod cl_size (frames r))))"
  have pos: "cl_nodes (frames r) ! length pre = n" "length pre < cl_size (frames r)"
    using n tracks_size [OF tr] by (metis nth_append_length, simp)
  have "circular_list_next (hand r) (frames r) = Inr ?h"
    using circular_list_next_ring [OF tracksD(2) [OF tr] pos(2)] pos(1) h(1) by simp
  then have "evict_loop (Suc i) m r = evict_loop i ?m1 (r\<lparr>frame_table := ft, hand := ?h\<rparr>)"
    using h look ft(1) by (simp add: evict_loop.simps(2) malloc_def)
  moreover have "tracks ?m1 (r\<lparr>frame_table := ft, hand := ?h\<rparr>) (pre @ (f, False) # post)"
    using tracks_set_bit [OF tr1 n bit1 ft(2,3,4)] by (simp add: tracks_def)
  moreover have "hand_at (r\<lparr>frame_table := ft, hand := ?h\<rparr>) (Suc (length pre))"
    by (simp add: hand_at_def)
  moreover have "frames (r\<lparr>frame_table := ft, hand := ?h\<rparr>) = frames r"
    "ht_size (frame_table (r\<lparr>frame_table := ft, hand := ?h\<rparr>)) = ht_size (frame_table r)" using ft(3) by simp_all
  ultimately show ?thesis using malloc_extends [OF wf] by blast
qed

lemma evict_sweep:
  assumes "tracks m r (pre @ mid @ post)" and "hand_at r (length pre)"
    and "list_all snd mid"
  shows "\<exists>m' r'. evict_loop (length mid + i) m r = evict_loop i m' r' \<and>
           tracks m' r' (pre @ clear_bits mid @ post) \<and> hand_at r' (length pre + length mid) \<and>
           frames r' = frames r \<and> extends m m' \<and> ht_size (frame_table r') = ht_size (frame_table r)"
  using assms
proof (induction mid arbitrary: m r pre)
  case Nil
  then show ?case by (intro exI [of _ m] exI [of _ r]) simp
next
  case (Cons fb mid)
  obtain f where fb: "fb = (f, True)" using Cons.prems(3) by (cases fb) simp
  from evict_step_referenced [of m r pre f "mid @ post" "length mid + i"] Cons.prems fb
  obtain m1 r1 where step: "evict_loop (Suc (length mid + i)) m r = evict_loop (length mid + i) m1 r1"
    "tracks m1 r1 (pre @ (f, False) # mid @ post)" "hand_at r1 (Suc (length pre))"
    "frames r1 = frames r" "extends m m1" "ht_size (frame_table r1) = ht_size (frame_table r)" by auto
  from Cons.IH [of m1 r1 "pre @ [(f, False)]"] step Cons.prems(3)
  obtain m' r' where rest: "evict_loop (length mid + i) m1 r1 = evict_loop i m' r'"
    "tracks m' r' (pre @ (f, False) # clear_bits mid @ post)"
    "hand_at r' (Suc (length pre + length mid))" "frames r' = frames r1" "extends m1 m'"
    "ht_size (frame_table r') = ht_size (frame_table r1)" by auto
  have "evict_loop (length (fb # mid) + i) m r = evict_loop i m' r'"
    using step(1) rest(1) by (simp only: length_Cons add_Suc)
  then show ?case
    using rest step fb extends_trans [OF step(5) rest(5)] by fastforce
qed

text \<open>The hand has reached a frame whose bit is clear, at one of the first two positions.\<close>

lemma evict_step_victim:
  assumes tr: "tracks m r (pre @ (f, False) # post)" and hand: "hand_at r (length pre)"
    and pre: "length pre \<le> 1"
  shows "\<exists>m' r'. evict_loop (Suc i) m r = Inr (of_nat f, m', r') \<and> tracks m' r' (pre @ post) \<and>
           hand r' = hand r \<and> \<not> latch r' \<and>
           (\<exists>n xs ys. cl_nodes (frames r) = xs @ n # ys \<and> cl_nodes (frames r') = xs @ ys \<and>
              hand r = Some (cl_addr n)) \<and>
           same_sizes r r' \<and> extends_but (node_values r) m m' \<and> node_values r' \<subseteq> node_values r"
proof -
  from tr hand obtain xs n ys d where n: "cl_nodes (frames r) = xs @ n # ys" "length xs = length pre"
    and h: "hand r = Some (cl_addr n)" "node_at (hand r) (frames r) = Inr (n, ys)"
    and look: "deref_str (Some (cl_value n)) m = Inr (dec f)"
      "hash_find (dec f) m (frame_table r) = Inr (Some \<lparr>el_key = cl_value n, el_data = d\<rparr>)"
      "cells m d = Some (CBool False)"
    and f: "f < unat (ht_size (frame_table r))" and str: "cells m (cl_value n) = Some (CStr (dec f))"
    by (rule hand_entry)
  from slot_inv_remove [OF tracksD(1) [OF tr] f] obtain ft where ft:
    "hash_remove (dec f) m (frame_table r) = Inr (True, m, ft)"
    "ht_size ft = ht_size (frame_table r)" "ht_arr ft = (ht_arr (frame_table r))[f := []]" by blast
  let ?m' = "m\<lparr>cells := (cells m)(cl_value n := None)\<rparr>"
  let ?cl = "(frames r)\<lparr>cl_nodes := xs @ ys, cl_size := cl_size (frames r) - 1\<rparr>"
  have rm: "circular_list_remove (Some (cl_value n)) m (frames r) = Inr (True, ?m', ?cl)"
  proof (cases xs)
    case Nil
    with n show ?thesis
      using remove_head [OF tracksD(2) [OF tr]] by (simp add: are_equal_def)
  next
    case (Cons x xs')
    from pre have "length xs' = 0" unfolding n(2) [symmetric] Cons by simp
    with n(1) Cons have x: "cl_nodes (frames r) = x # n # ys" "xs' = []" by simp_all
    from tr obtain g c pre' where "pre = (g, c) # pre'" "node_tracks m (frame_table r) x (g, c)"
      using n Cons by (cases pre) (auto simp: tracks_def list_all2_append list_all2_Cons2)
    with are_equal_tracked [OF tr _ str] tracksD(4) [OF tr]
    have "are_equal (Some (cl_value x)) (Some (cl_value n)) m = Inr False" by auto
    with x show ?thesis using remove_not_head [OF tracksD(2) [OF tr] x(1)] Cons by simp
  qed
  let ?r' = "r\<lparr>frame_table := ft, frames := ?cl, latch := False\<rparr>"
  have "evict_loop (Suc i) m r = Inr (of_nat f, ?m', ?r')"
    using h look ft(1) rm by (simp add: evict_loop.simps(2))
  moreover have "tracks ?m' ?r' (pre @ post)"
    using tracks_drop [OF tr n ft(2,3)] by simp
  moreover have "hand ?r' = hand r \<and> \<not> latch ?r'" by simp
  moreover have "\<exists>n xs ys. cl_nodes (frames r) = xs @ n # ys \<and> cl_nodes (frames ?r') = xs @ ys \<and>
      hand r = Some (cl_addr n)"
    using n(1) h(1) by (intro exI [of _ n] exI [of _ xs] exI [of _ ys]) simp
  moreover have "same_sizes r ?r' \<and> extends_but (node_values r) m ?m' \<and> node_values ?r' \<subseteq> node_values r"
    using ft(2) n(1) by (auto simp: same_sizes_def extends_but_def node_values_def)
  ultimately show ?thesis by blast
qed

text \<open>A sweep starts at the head when there is no hand yet, and where the hand is otherwise.\<close>

definition sweep_starts_at :: "ClockReplacer \<Rightarrow> nat \<Rightarrow> bool" where
  "sweep_starts_at r p \<longleftrightarrow> (if hand r = None then p = 0 else hand_at r p)"

lemma evict_starts:
  assumes "tracks m r fs" and "fs \<noteq> []" and "sweep_starts_at r p"
  obtains r0 where "evict m r = evict_loop (length fs) m r0" and "tracks m r0 fs"
    and "hand_at r0 p" and "frames r0 = frames r" and "frame_table r0 = frame_table r"
proof (cases "hand r")
  case None
  have size: "cl_size (frames r) = length fs" using tracks_size [OF assms(1)] .
  have "cl_nodes (frames r) \<noteq> []"
    using assms(2) size tracksD(2) [OF assms(1)] by (auto simp: cl_wf_def)
  then have "hand_at (r\<lparr>latch := True, hand := cl_head (frames r)\<rparr>) p"
    using assms(3) None
    by (cases "cl_nodes (frames r)") (simp_all add: hand_at_def cl_head_def sweep_starts_at_def)
  then show thesis
    using that [of "r\<lparr>latch := True, hand := cl_head (frames r)\<rparr>"] size assms(1,2) None
    by (simp add: evict_def Let_def tracks_def)
next
  case (Some a)
  then show thesis
    using that [of "r\<lparr>latch := True\<rparr>"] tracks_size [OF assms(1)] assms
    by (simp add: evict_def Let_def sweep_starts_at_def hand_at_def)
qed

lemma evict_victim:
  assumes tr: "tracks m r (pre @ mid @ (f, False) # post)" and hand: "sweep_starts_at r (length pre)"
    and mid: "list_all snd mid" "length (pre @ mid) \<le> 1"
  shows "\<exists>m' r'. evict m r = Inr (of_nat f, m', r') \<and> tracks m' r' (pre @ clear_bits mid @ post) \<and>
           \<not> latch r' \<and> (\<exists>a. hand r' = Some a \<and> a \<notin> cl_addr ` set (cl_nodes (frames r'))) \<and>
           same_sizes r r' \<and> extends_but (node_values r) m m' \<and> node_values r' \<subseteq> node_values r"
proof -
  let ?k = "length pre + length post"
  obtain r0 where start: "evict m r = evict_loop (length mid + Suc ?k) m r0"
    "tracks m r0 (pre @ mid @ (f, False) # post)" "hand_at r0 (length pre)"
    "frames r0 = frames r" "frame_table r0 = frame_table r"
    by (rule evict_starts [OF tr _ hand]) (simp_all add: ac_simps)
  from evict_sweep [OF start(2,3) mid(1), of "Suc ?k"]
  obtain m1 r1 where sweep: "evict_loop (length mid + Suc ?k) m r0 = evict_loop (Suc ?k) m1 r1"
    "tracks m1 r1 (pre @ clear_bits mid @ (f, False) # post)"
    "hand_at r1 (length pre + length mid)" "frames r1 = frames r0" "extends m m1"
    "ht_size (frame_table r1) = ht_size (frame_table r0)" by blast
  have pos: "tracks m1 r1 ((pre @ clear_bits mid) @ (f, False) # post)"
    "hand_at r1 (length (pre @ clear_bits mid))" "length (pre @ clear_bits mid) \<le> 1"
    using sweep mid(2) by simp_all
  from evict_step_victim [OF pos, of ?k]
  obtain m' r' where victim: "evict_loop (Suc ?k) m1 r1 = Inr (of_nat f, m', r')"
    "tracks m' r' ((pre @ clear_bits mid) @ post)" "hand r' = hand r1" "\<not> latch r'"
    "\<exists>n xs ys. cl_nodes (frames r1) = xs @ n # ys \<and> cl_nodes (frames r') = xs @ ys \<and>
       hand r1 = Some (cl_addr n)"
    "same_sizes r1 r'" "extends_but (node_values r1) m1 m'" "node_values r' \<subseteq> node_values r1"
    by blast
  have "evict m r = Inr (of_nat f, m', r')"
    using start(1) sweep(1) victim(1) by simp
  moreover have "\<exists>a. hand r' = Some a \<and> a \<notin> cl_addr ` set (cl_nodes (frames r'))"
    using victim(3,5) tracksD(2) [OF sweep(2)] by (auto simp: cl_wf_def)
  moreover have nv: "node_values r1 = node_values r" using sweep(4) start(4) by (simp add: node_values_def)
  then have "extends_but (node_values r) m m'"
    using extends_but_trans [OF extends_but_extends [OF sweep(5), of "{}"] victim(7)] by simp
  moreover have "same_sizes r r'" using victim(6) sweep(4,6) start(4,5) by (simp add: same_sizes_def)
  ultimately show ?thesis using victim(2,4,8) nv by auto
qed

lemma evict_all_referenced:
  assumes tr: "tracks m r fs" and fs: "fs \<noteq> []" "list_all snd fs" and hand: "sweep_starts_at r 0"
  shows "\<exists>m' r'. evict m r = Inr (UINT32_MAX, m', r') \<and> tracks m' r' (clear_bits fs) \<and>
           sweep_starts_at r' 0 \<and> \<not> latch r' \<and> same_sizes r r' \<and> extends m m' \<and> node_values r' = node_values r"
proof -
  obtain r0 where start: "evict m r = evict_loop (length fs) m r0" "tracks m r0 ([] @ fs @ [])"
    "hand_at r0 (length ([] :: tracked))" "frames r0 = frames r" "frame_table r0 = frame_table r"
    by (rule evict_starts [OF tr fs(1) hand]) simp
  from evict_sweep [OF start(2,3) fs(2), of 0] obtain m1 r1 where
    sweep: "evict_loop (length fs) m r0 = Inr (UINT32_MAX, m1, r1\<lparr>latch := False\<rparr>)"
    "tracks m1 r1 (clear_bits fs)" "hand_at r1 (length fs)" "frames r1 = frames r0" "extends m m1"
    "ht_size (frame_table r1) = ht_size (frame_table r0)" by auto
  have "length fs mod cl_size (frames r1) = 0" using tracks_size [OF sweep(2)] by simp
  with sweep(3) have "sweep_starts_at (r1\<lparr>latch := False\<rparr>) 0"
    by (simp add: sweep_starts_at_def hand_at_def)
  with start sweep show ?thesis by (auto simp: same_sizes_def node_values_def)
qed

lemma dangling_hand:
  assumes "a \<notin> cl_addr ` set (cl_nodes cl)"
  shows "node_at (Some a) cl = Inl UseAfterFree"
proof -
  from assms have none: "dropWhile (\<lambda>n. cl_addr n \<noteq> a) (cl_nodes cl) = []"
    by (auto simp: dropWhile_eq_Nil_conv)
  show ?thesis by (simp only: node_at_def none option.case list.case)
qed

section \<open>Properties\<close>

text \<open>
  C24. Unpinning refines "put the frame at the front with its bit set": for a frame the table has a
  slot for, not tracked yet, and a list that is not full, \<^verbatim>\<open>clock_replacer_unpin\<close> succeeds, the
  frame is tracked first with its reference bit set, and the other frames keep their order and bits.
\<close>

theorem clock_unpin_refines:
  assumes "tracks m r fs" and "unat fid < unat (ht_size (frame_table r))"
    and "unat fid \<notin> fst ` set fs" and "length fs < cl_capacity (frames r)"
  shows "\<exists>m' r'. clock_replacer_unpin fid m r = Inr (m', r') \<and>
           tracks m' r' ((unat fid, True) # fs)"
  using unpin_tracks [OF assms] by blast

text \<open>
  C25. Second chance: when the frames between the start of the sweep and the victim have their bit
  set, the victim has not, and it is one of the first two frames of the list, \<^verbatim>\<open>evict\<close> returns the
  victim, stops tracking it, clears the bits it passed, keeps the rest and releases the latch.
\<close>

theorem evict_second_chance:
  assumes "tracks m r (pre @ mid @ (f, False) # post)" and "sweep_starts_at r (length pre)"
    and "list_all snd mid" and "length (pre @ mid) \<le> 1"
  shows "\<exists>m' r'. evict m r = Inr (of_nat f, m', r') \<and> tracks m' r' (pre @ clear_bits mid @ post) \<and>
           \<not> latch r'"
  using evict_victim [OF assms] by blast

text \<open>
  When every tracked frame has its bit set, one call of \<^verbatim>\<open>evict\<close> finds no victim: it returns
  \<^verbatim>\<open>UINT32_MAX\<close>, clears every bit and leaves the hand at the head, so that the next call finds
  one.
\<close>

lemma evict_clears_all_bits:
  assumes "tracks m r fs" and "fs \<noteq> []" and "list_all snd fs" and "sweep_starts_at r 0"
  shows "\<exists>m' r'. evict m r = Inr (UINT32_MAX, m', r') \<and> tracks m' r' (clear_bits fs) \<and>
           sweep_starts_at r' 0 \<and> \<not> latch r'"
  using evict_all_referenced [OF assms] by blast

text \<open>
  A successful eviction leaves the hand on the node it has just freed: the next call of
  \<^verbatim>\<open>evict\<close> with any frame still tracked reads freed memory.
\<close>

lemma evict_leaves_dangling_hand:
  assumes "tracks m r (pre @ mid @ (f, False) # post)" and "sweep_starts_at r (length pre)"
    and "list_all snd mid" and "length (pre @ mid) \<le> 1" and more: "pre @ mid @ post \<noteq> []"
  shows "\<exists>m' r'. evict m r = Inr (of_nat f, m', r') \<and> evict m' r' = Inl UseAfterFree"
proof -
  from evict_victim [OF assms(1-4)] obtain m' r' a where
    ev: "evict m r = Inr (of_nat f, m', r')" "tracks m' r' (pre @ clear_bits mid @ post)"
      "hand r' = Some a" "a \<notin> cl_addr ` set (cl_nodes (frames r'))" by blast
  have "cl_size (frames r') = length (pre @ mid @ post)" using tracks_size [OF ev(2)] by simp
  with more obtain k where "cl_size (frames r') = Suc k" by (cases "length (pre @ mid @ post)") auto
  then have "evict m' r' = Inl UseAfterFree"
    using ev(3) dangling_hand [OF ev(4)] by (simp add: evict_def Let_def evict_loop.simps(2))
  with ev(1) show ?thesis by blast
qed

text \<open>
  \<^verbatim>\<open>evict\<close> on an empty replacer returns \<^verbatim>\<open>UINT32_MAX\<close> with the latch still held.
\<close>

lemma evict_empty_keeps_latch:
  assumes "tracks m r []"
  shows "evict m r = Inr (UINT32_MAX, m, r\<lparr>latch := True\<rparr>)"
  using tracks_size [OF assms] by (simp add: evict_def Let_def)

text \<open>
  Pinning a frame that is one of the first two tracked ones refines "stop tracking it": the
  call succeeds and the other frames keep their order and bits.
\<close>

lemma clock_pin_refines:
  assumes "tracks m r (pre @ (unat fid, b) # post)" and "length pre \<le> 1"
  shows "\<exists>m' r'. clock_replacer_pin fid m r = Inr (m', r') \<and> tracks m' r' (pre @ post)"
  using pin_tracks [OF assms] by blast

text \<open>
  Pinning a frame the replacer does not track, while it tracks exactly one other frame,
  dereferences a null pointer: the list removal runs although the frame is not in the list.
\<close>

lemma clock_pin_untracked_crashes:
  assumes tr: "tracks m r [(g, b)]" and fid: "unat fid < unat (ht_size (frame_table r))" "unat fid \<noteq> g"
  shows "clock_replacer_pin fid m r = Inl NullDeref"
proof -
  let ?m1 = "snd (malloc (CStr (dec (unat fid))) m)"
  have tr1: "tracks ?m1 r [(g, b)]" using tr by (rule malloc_str_tracks)
  have str: "frame_to_str fid = dec (unat fid)"
    using fid(1) unat_bounds(2) [of "ht_size (frame_table r)"] by (intro frame_to_str_dec) simp
  obtain ft where ft: "hash_remove (dec (unat fid)) ?m1 (frame_table r) = Inr (True, ?m1, ft)"
    using slot_inv_remove [OF tracksD(1) [OF tr1] fid(1)] by blast
  obtain n where n: "cl_nodes (frames r) = [n]" "node_tracks ?m1 (frame_table r) n (g, b)"
    using tracksD(3) [OF tr1] by (auto simp: list_all2_Cons2)
  have v: "cells ?m1 (brk m) = Some (CStr (dec (unat fid)))" by simp
  have "circular_list_remove (Some (brk m)) ?m1 (frames r) = Inl NullDeref"
    using are_equal_tracked [OF tr1 n(2) v] fid(2) n(1) by (simp add: circular_list_remove_def)
  with ft show ?thesis by (simp add: clock_replacer_pin_def str malloc_def)
qed

section \<open>Witnesses\<close>

definition start_mem :: cmem where
  "start_mem = \<lparr>cells = Map.empty, brk = 65536\<rparr>"

lemma start_mem_wf: "cmem_wf start_mem"
  by (simp add: start_mem_def cmem_wf_def)

lemma start_tracks: "tracks start_mem (clock_replacer_init 3) []"
  using start_mem_wf by (rule tracks_init) simp_all

lemma start_sizes:
  "unat (ht_size (frame_table (clock_replacer_init 3))) = 3"
  "cl_capacity (frames (clock_replacer_init 3)) = 3" "hand (clock_replacer_init 3) = None"
  by (simp_all add: clock_replacer_init_def init_hash_def circular_list_init_def)

lemma one_frame:
  "\<exists>m r. clock_replacer_unpin 0 start_mem (clock_replacer_init 3) = Inr (m, r) \<and>
     tracks m r [(0, True)] \<and> hand r = None \<and> unat (ht_size (frame_table r)) = 3 \<and>
     cl_capacity (frames r) = 3"
  using unpin_tracks [OF start_tracks, of 0] start_sizes by auto

lemma two_frames:
  "\<exists>m r. tracks m r [(1, True), (0, True)] \<and> hand r = None"
proof -
  from one_frame obtain m r where r: "tracks m r [(0, True)]" "hand r = None"
    "unat (ht_size (frame_table r)) = 3" "cl_capacity (frames r) = 3" by blast
  from unpin_tracks [OF r(1), of 1] r(2-4) show ?thesis by auto
qed

theorem clock_unpin_refines_witness:
  "\<exists>m' r'. clock_replacer_unpin 2 start_mem (clock_replacer_init 3) = Inr (m', r') \<and>
           tracks m' r' [(2, True)]"
  using clock_unpin_refines [OF start_tracks, of 2] start_sizes by simp

lemma two_frames_cleared:
  "\<exists>m r. tracks m r [(1, False), (0, False)] \<and> sweep_starts_at r 0"
proof -
  from two_frames obtain m r where r: "tracks m r ([] @ [(1, True), (0, True)] @ [])" "hand r = None"
    by auto
  then have "sweep_starts_at r (length ([] :: tracked))" by (simp add: sweep_starts_at_def)
  from evict_starts [OF r(1) _ this] obtain r0
    where r0: "tracks m r0 ([] @ [(1, True), (0, True)] @ [])" "hand_at r0 (length ([] :: tracked))"
    by auto
  from evict_sweep [OF r0, of 0] obtain m1 r1 where r1: "tracks m1 r1 [(1, False), (0, False)]"
    "hand_at r1 (Suc (Suc 0))" by auto
  with tracks_size [OF r1(1)] have "sweep_starts_at r1 0"
    by (simp add: sweep_starts_at_def hand_at_def)
  with r1(1) show ?thesis by blast
qed

theorem evict_second_chance_witness:
  "\<exists>m r m' r'. tracks m r [(1, False), (0, False)] \<and> evict m r = Inr (1, m', r') \<and>
           tracks m' r' [(0, False)]"
proof -
  from two_frames_cleared obtain m r
    where r: "tracks m r ([] @ [] @ (1, False) # [(0, False)])" "sweep_starts_at r (length ([] :: tracked))"
    by auto
  from evict_second_chance [OF r] r(1) show ?thesis by fastforce
qed

end
