(* ===== verification/Clock_Threads.thy ===== *)
theory Clock_Threads
  imports Clock_Replacer Latches
begin

text \<open>
  The operations of \<^verbatim>\<open>src/disk/clock_replacer.c\<close> as threads run them under the latch of the replacer: \<^verbatim>\<open>evict\<close> in one step for
  each frame of the sweep, \<^verbatim>\<open>clock_replacer_unpin\<close> and \<^verbatim>\<open>clock_replacer_pin\<close> in one step for the list and one for the table. The
  calls on the frame table take the latch of that table, which nobody else uses, inside a step.

  The operations are linearizable. They do not always end: \<^verbatim>\<open>evict\<close> on an empty replacer returns with the latch held.
\<close>

section \<open>The operations in steps\<close>

datatype clock_op = ClockEvict | ClockUnpin frame_id_t | ClockPin frame_id_t

datatype clock_pc =
    Entered \<comment> \<open>the latch is taken\<close>
  | Sweeping nat \<comment> \<open>iterations of the sweep that are left\<close>
  | Tracking addr \<comment> \<open>the frame is in the list, not yet in the table\<close>
  | Untracking addr \<comment> \<open>the frame is no longer in the table\<close>
  | Exit "frame_id_t option" bool \<comment> \<open>the result and whether the latch is released\<close>

type_synonym clock_state = "cmem \<times> ClockReplacer"

text \<open>One iteration of the sweep.\<close>

definition evict_round :: "nat \<Rightarrow> clock_state \<Rightarrow> (clock_pc \<times> clock_state) res" where
  "evict_round i = (\<lambda>(m, r).
     and_then (node_at (hand r) (frames r)) (\<lambda>(n, ns).
     and_then (deref_str (Some (cl_value n)) m) (\<lambda>curr_frame.
     and_then (hash_find curr_frame m (frame_table r)) (\<lambda>found.
       case found of
         None \<Rightarrow> Inl NullDeref
       | Some frame_info \<Rightarrow>
           and_then (and_then (deref (Some (el_data frame_info)) m) as_bool) (\<lambda>ref.
             if ref then
               (let (ref_bit, m1) = malloc (CBool False) m in
                and_then (hash_insert (Some (cl_value n)) (Some ref_bit) m1 (frame_table r)) (\<lambda>ft.
                and_then (circular_list_next (hand r) (frames r)) (\<lambda>h.
                  Inr (Sweeping i, m1, r\<lparr>frame_table := ft, hand := h\<rparr>))))
             else
               and_then (deref_str (Some (el_key frame_info)) m) (\<lambda>key.
               and_then (hash_remove curr_frame m (frame_table r)) (\<lambda>(ok, m1, ft).
               and_then (circular_list_remove (Some (cl_value n)) m1 (frames r)) (\<lambda>(ok', m2, cl).
                 Inr (Exit (Some (word_of_int (atoi key))) True, m2,
                      r\<lparr>frame_table := ft, frames := cl, latch := False\<rparr>)))))))))"

fun clock_step :: "clock_op \<Rightarrow> clock_pc \<Rightarrow> clock_state \<Rightarrow> (clock_pc \<times> clock_state) res" where
  "clock_step ClockEvict Entered (m, r) =
     (let r = r\<lparr>latch := True\<rparr> in
      if cl_size (frames r) = 0 then Inr (Exit (Some UINT32_MAX) False, m, r)
      else
        let r = (if hand r = None then r\<lparr>hand := cl_head (frames r)\<rparr> else r)
        in Inr (Sweeping (cl_size (frames r)), m, r))"
| "clock_step op (Sweeping 0) (m, r) = Inr (Exit (Some UINT32_MAX) True, m, r\<lparr>latch := False\<rparr>)"
| "clock_step op (Sweeping (Suc i)) s = evict_round i s"
| "clock_step (ClockUnpin fid) Entered (m, r) =
     (let (frame_str, m1) = malloc (CStr (frame_to_str fid)) m;
          (node, m2, cl) = circular_list_insert (Some frame_str) m1 (frames r)
      in if node = None then Inr (Exit None True, m2, r\<lparr>latch := False\<rparr>)
         else Inr (Tracking frame_str, m2, r\<lparr>frames := cl\<rparr>))"
| "clock_step op (Tracking frame_str) (m, r) =
     (let (unpinned, m1) = malloc (CBool True) m
      in and_then (hash_insert (Some frame_str) (Some unpinned) m1 (frame_table r)) (\<lambda>ft.
           Inr (Exit None True, m1, r\<lparr>frame_table := ft, latch := False\<rparr>)))"
| "clock_step (ClockPin fid) Entered (m, r) =
     (let (frame_str, m1) = malloc (CStr (frame_to_str fid)) m
      in and_then (hash_remove (frame_to_str fid) m1 (frame_table r)) (\<lambda>(ok, m2, ft).
           Inr (Untracking frame_str, m2, r\<lparr>frame_table := ft\<rparr>)))"
| "clock_step op (Untracking frame_str) (m, r) =
     and_then (circular_list_remove (Some frame_str) m (frames r)) (\<lambda>(ok, m1, cl).
       Inr (Exit None True, m1, r\<lparr>frames := cl, latch := False\<rparr>))"
| "clock_step op (Exit x u) s = Inl OutOfBounds"

fun clock_leave :: "clock_pc \<Rightarrow> (frame_id_t option \<times> bool) option" where
  "clock_leave (Exit x u) = Some (x, u)"
| "clock_leave _ = None"

definition clock_machine :: "(clock_op, clock_pc, clock_state, frame_id_t option) machine" where
  "clock_machine = \<lparr>m_early = (\<lambda>_. None), m_enter = (\<lambda>_. Entered), m_step = clock_step, m_leave = clock_leave\<rparr>"

section \<open>The operations as a whole\<close>

fun clock_whole :: "clock_op \<Rightarrow> clock_state \<Rightarrow> (frame_id_t option \<times> clock_state) res" where
  "clock_whole ClockEvict (m, r) = and_then (evict m r) (\<lambda>(fid, s). Inr (Some fid, s))"
| "clock_whole (ClockUnpin fid) (m, r) = and_then (clock_replacer_unpin fid m r) (\<lambda>s. Inr (None, s))"
| "clock_whole (ClockPin fid) (m, r) = and_then (clock_replacer_pin fid m r) (\<lambda>s. Inr (None, s))"

definition exit_of :: "(clock_pc \<times> clock_state) res \<Rightarrow> (frame_id_t option \<times> clock_state) res" where
  "exit_of x = and_then x (\<lambda>(pc, s). case pc of Exit fid u \<Rightarrow> Inr (fid, s) | _ \<Rightarrow> Inl OutOfBounds)"

fun clock_rest :: "clock_op \<Rightarrow> clock_pc \<Rightarrow> clock_state \<Rightarrow> (frame_id_t option \<times> clock_state) res" where
  "clock_rest op Entered s = clock_whole op s"
| "clock_rest op (Sweeping n) (m, r) = and_then (evict_loop n m r) (\<lambda>(fid, s). Inr (Some fid, s))"
| "clock_rest op (Tracking a) s = exit_of (clock_step op (Tracking a) s)"
| "clock_rest op (Untracking a) s = exit_of (clock_step op (Untracking a) s)"
| "clock_rest op (Exit x u) s = Inr (x, s)"

fun clock_todo :: "clock_op \<Rightarrow> clock_pc \<Rightarrow> clock_state \<Rightarrow> nat" where
  "clock_todo op Entered s = Suc (Suc (cl_size (frames (snd s))))"
| "clock_todo op (Sweeping n) s = Suc n"
| "clock_todo op (Exit x u) s = 0"
| "clock_todo op pc s = 1"

section \<open>The steps make up the operations\<close>

lemma evict_loop_round:
  "clock_rest op (Sweeping (Suc i)) s = and_then (evict_round i s) (\<lambda>(pc, s). clock_rest op pc s)"
  by (cases s) (auto simp: evict_loop.simps evict_round_def and_then_def Let_def split: sum.splits option.splits prod.splits)

lemma clock_step_rest: "clock_step op pc s = Inr (pc', s') \<Longrightarrow> clock_rest op pc' s' = clock_rest op pc s"
  by (cases "(op, pc, s)" rule: clock_step.cases)
    (auto simp: evict_loop_round evict_def clock_replacer_unpin_def clock_replacer_pin_def exit_of_def Let_def and_then_Inr_iff
      and_then_assoc split: if_splits prod.splits, auto simp: and_then_def split: sum.splits)

lemma clock_step_crash: "clock_step op pc s = Inl e \<Longrightarrow> clock_leave pc = None \<Longrightarrow> clock_rest op pc s = Inl e"
  by (cases "(op, pc, s)" rule: clock_step.cases)
    (auto simp: evict_loop_round clock_replacer_pin_def exit_of_def Let_def and_then_def split: if_splits prod.splits sum.splits)

lemma clock_step_todo: "clock_step op pc s = Inr (pc', s') \<Longrightarrow> clock_todo op pc' s' < clock_todo op pc s"
  by (cases "(op, pc, s)" rule: clock_step.cases)
    (auto simp: evict_round_def Let_def and_then_Inr_iff split: if_splits prod.splits option.splits)

interpretation clock_threads: latched_steps clock_machine clock_whole clock_rest clock_todo
proof
  fix op r s
  assume "m_early clock_machine op = Some r"
  then show "clock_whole op s = Inr (r, s)" by (simp add: clock_machine_def)
next
  fix pc op s pc' s'
  assume "m_step clock_machine op pc s = Inr (pc', s')"
  then show "clock_rest op pc' s' = clock_rest op pc s" and "clock_todo op pc' s' < clock_todo op pc s"
    by (simp_all add: clock_machine_def clock_step_rest clock_step_todo)
next
  fix pc op s e
  assume "m_leave clock_machine pc = None" and "m_step clock_machine op pc s = Inl e"
  then show "clock_rest op pc s = Inl e" by (simp add: clock_machine_def clock_step_crash)
next
  fix pc op s r u
  assume "m_leave clock_machine pc = Some (r, u)"
  then show "clock_rest op pc s = Inr (r, s)" by (cases pc) (simp_all add: clock_machine_def)
qed (simp add: clock_machine_def)

section \<open>Properties\<close>

text \<open>
  The operations of threads on one replacer are linearizable: whenever no thread is inside, the replacer and the
  results of the threads that have returned are those of \<^verbatim>\<open>evict\<close>, \<^verbatim>\<open>clock_replacer_unpin\<close> and \<^verbatim>\<open>clock_replacer_pin\<close> one after another.
\<close>

lemma clock_operations_linearizable:
  assumes "creach clock_machine ops (m, r) c" and "\<forall>i < length ops. \<forall>pc e. c_threads c ! i \<noteq> Inside pc \<and> c_threads c ! i \<noteq> Crashed e"
  shows "\<exists>order rs. distinct order \<and> (\<forall>i. i \<in> set order \<longleftrightarrow> i < length ops \<and> c_threads c ! i \<noteq> Waiting) \<and>
    seq_run clock_whole (map ((!) ops) order) (m, r) = Inr (rs, c_shared c) \<and>
    list_all2 (\<lambda>i x. c_threads c ! i = Returned x) order rs"
proof -
  have len: "length (c_threads c) = length ops" using creach_length [OF assms(1)] .
  then have "\<forall>i. outside c i" using assms(2) by (simp add: outside_def thread_is_def)
  from clock_threads.linearizable [OF assms(1) this] obtain order where c: "commits clock_whole ops (m, r) c order (c_shared c)" by blast
  then obtain rs where "seq_run clock_whole (map ((!) ops) order) (m, r) = Inr (rs, c_shared c)"
    "list_all2 (\<lambda>i x. c_threads c ! i = Returned x) order rs"
    by (auto simp: commits_def thread_is_def list_all2_conv_all_nth)
  moreover have "(\<exists>x. c_threads c ! i = Returned x) \<longleftrightarrow> c_threads c ! i \<noteq> Waiting" if "i < length ops" for i
    using assms(2) that by (cases "c_threads c ! i") auto
  ultimately show ?thesis using c len by (intro exI [of _ order] exI [of _ rs]) (auto simp: commits_def thread_is_def)
qed

text \<open>The run of a thread through \<^verbatim>\<open>evict\<close> on an empty replacer.\<close>

definition after_evict :: "nat \<Rightarrow> (clock_state, clock_pc, frame_id_t option) config \<Rightarrow> (clock_state, clock_pc, frame_id_t option) config" where
  "after_evict i c = c\<lparr>c_latch := Some i, c_shared := (fst (c_shared c), (snd (c_shared c))\<lparr>latch := True\<rparr>),
     c_threads := (c_threads c)[i := Returned (Some UINT32_MAX)]\<rparr>"

lemma evict_empty_runs:
  assumes "thread_is c i Waiting" and "ops ! i = ClockEvict" and "c_latch c = None" and "cl_size (frames (snd (c_shared c))) = 0"
  shows "(cstep clock_machine ops)\<^sup>*\<^sup>* c (after_evict i c)"
proof -
  obtain m r where s: "c_shared c = (m, r)" by (cases "c_shared c")
  have i: "i < length (c_threads c)" using assms(1) by (simp add: thread_is_def)
  let ?ca = "set_thread i (Inside Entered) (c\<lparr>c_latch := Some i\<rparr>)"
  let ?cb = "set_thread i (Inside (Exit (Some UINT32_MAX) False)) (?ca\<lparr>c_shared := (m, r\<lparr>latch := True\<rparr>)\<rparr>)"
  let ?cc = "set_thread i (Returned (Some UINT32_MAX)) (?cb\<lparr>c_latch := c_latch ?cb\<rparr>)"
  have a: "cstep clock_machine ops c ?ca"
    using cstep.acquire [of c i clock_machine ops "Some i"] assms(1,3) by (simp add: clock_machine_def)
  have b: "cstep clock_machine ops ?ca ?cb"
    using assms(2,4) s i by (intro cstep.work [where pc = Entered]) (simp_all add: thread_is_set clock_machine_def)
  have cc: "cstep clock_machine ops ?cb ?cc"
    using cstep.leave [of ?cb i "Exit (Some UINT32_MAX) False" clock_machine "Some UINT32_MAX" False ops] i
    by (simp add: thread_is_set clock_machine_def)
  have "?cc = after_evict i c" using s by (simp add: after_evict_def set_thread_def)
  then show ?thesis
    using converse_rtranclp_into_rtranclp [of "cstep clock_machine ops", OF a
        converse_rtranclp_into_rtranclp [of "cstep clock_machine ops", OF b r_into_rtranclp [of "cstep clock_machine ops", OF cc]]] by simp
qed

text \<open>
  C37. \<^verbatim>\<open>evict\<close> on an empty replacer blocks every other thread. The thread that calls it returns \<open>UINT32_MAX\<close> with the
  latch still held; from then on a thread that waits for the latch waits in every continuation.
\<close>

theorem evict_on_empty_blocks_all:
  assumes "thread_is c i Waiting" and "ops ! i = ClockEvict" and "c_latch c = None" and "\<And>k pc. \<not> thread_is c k (Inside pc)"
    and "cl_size (frames (snd (c_shared c))) = 0"
  shows "\<exists>c1. (cstep clock_machine ops)\<^sup>*\<^sup>* c c1 \<and> thread_is c1 i (Returned (Some UINT32_MAX)) \<and>
    (\<forall>k c2. k \<noteq> i \<longrightarrow> thread_is c k Waiting \<longrightarrow> (cstep clock_machine ops)\<^sup>*\<^sup>* c1 c2 \<longrightarrow> thread_is c2 k Waiting)"
proof -
  let ?c = "after_evict i c"
  have i: "i < length (c_threads c)" using assms(1) by (simp add: thread_is_def)
  have t: "thread_is ?c k x \<longleftrightarrow> (if k = i then x = Returned (Some UINT32_MAX) else thread_is c k x)" for k x
    using i by (auto simp: after_evict_def thread_is_def)
  have l: "c_latch ?c = Some i" by (simp add: after_evict_def)
  have "thread_is c2 k Waiting" if "k \<noteq> i" "thread_is c k Waiting" "(cstep clock_machine ops)\<^sup>*\<^sup>* ?c c2" for k c2
    by (rule latch_lost [OF that(3) l]) (use that(1,2) assms(4) in \<open>auto simp: t clock_machine_def\<close>)
  then show ?thesis using evict_empty_runs [OF assms(1-3,5)] t by (intro exI [of _ ?c]) simp
qed

section \<open>Witnesses\<close>

definition clock_start :: "(clock_state, clock_pc, frame_id_t option) config" where
  "clock_start = threads_start 2 (start_mem, clock_replacer_init 3)"

lemma clock_start_ok:
  "thread_is clock_start 0 Waiting" "thread_is clock_start 1 Waiting" "c_latch clock_start = None" "\<not> thread_is clock_start k (Inside pc)"
  "cl_size (frames (snd (c_shared clock_start))) = 0"
  by (auto simp: clock_start_def threads_start_def RWLOCK_INIT_def thread_is_def clock_replacer_init_def circular_list_init_def nth_Cons')

theorem evict_on_empty_blocks_all_witness:
  "\<exists>c1. (cstep clock_machine [ClockEvict, ClockUnpin 1])\<^sup>*\<^sup>* clock_start c1 \<and> thread_is c1 0 (Returned (Some UINT32_MAX)) \<and>
    (\<forall>c2. (cstep clock_machine [ClockEvict, ClockUnpin 1])\<^sup>*\<^sup>* c1 c2 \<longrightarrow> thread_is c2 1 Waiting)"
proof -
  have op: "[ClockEvict, ClockUnpin 1] ! 0 = ClockEvict" by simp
  from evict_on_empty_blocks_all [OF clock_start_ok(1) op clock_start_ok(3,4,5)] clock_start_ok(2) show ?thesis by (metis zero_neq_one)
qed

end
