(* ===== verification/Disk_Manager.thy ===== *)
theory Disk_Manager
  imports Serialize Hash_Table
begin

text \<open>
  \<^verbatim>\<open>src/disk/disk_manager.c\<close>: pages of database files. The file system maps a path to the bytes of
  a regular file; \<^verbatim>\<open>open\<close> with \<^verbatim>\<open>O_CREAT\<close> makes a missing file empty, a \<^verbatim>\<open>write\<close> past the end fills
  the gap with zeros. Device errors and the exhaustion of file descriptors are not modelled, so the
  branches that report them are not taken. \<open>junk\<close> is the content of the fresh \<^verbatim>\<open>malloc\<close> buffer a
  page is read into: what a short read leaves of it.

  The locale \<open>page_store\<close> is what the users of a page file rely on: a page reads back what was
  written to it last, whatever happened to other pages in between.
\<close>

section \<open>Files\<close>

type_synonym fs = "string \<rightharpoonup> bytes"

definition PAGE_SIZE :: nat where
  "PAGE_SIZE = 4096"

definition MAX_PAGES :: nat where
  "MAX_PAGES = 500"

definition DBFILES_DIR :: string where
  "DBFILES_DIR = ''db_files''"

lemmas [layout_defs] = PAGE_SIZE_def MAX_PAGES_def

definition file_write :: "nat \<Rightarrow> bytes \<Rightarrow> bytes \<Rightarrow> bytes" where
  "file_write off data f =
     (let p = f @ replicate (off - length f) 0
      in take off p @ data @ drop (off + length data) p)"

datatype PageType = HEAP_PAGE | BTREE_INDEX_PAGE | INVALID

record DiskManager =
  page_directory :: "HashTable option" \<comment> \<open>\<open>None\<close>: never initialised\<close>
  page_type :: "PageType option" \<comment> \<open>\<open>None\<close>: never initialised\<close>
  table_name :: string

text \<open>\<^verbatim>\<open>table_file\<close> builds the path in a buffer of 40 bytes; the result stands for the descriptor.\<close>

definition table_file :: "string \<Rightarrow> fs \<Rightarrow> (string \<times> fs) res" where
  "table_file name files =
     (let path = DBFILES_DIR @ ''/'' @ name @ ''.db''
      in if length path < 40
         then Inr (path, if files path = None then files(path \<mapsto> []) else files)
         else Inl OutOfBounds)"

definition contents :: "string \<Rightarrow> fs \<Rightarrow> bytes" where
  "contents path files = (case files path of None \<Rightarrow> [] | Some b \<Rightarrow> b)"

text \<open>\<^verbatim>\<open>page_id * PAGE_SIZE\<close> is computed in 32 unsigned bits.\<close>

definition write_page :: "page_id_t \<Rightarrow> DiskManager \<Rightarrow> bytes \<Rightarrow> fs \<Rightarrow> fs res" where
  "write_page page_id dm data files =
     and_then (sprintf_d 11 page_id) (\<lambda>pid_str.
     and_then (table_file (table_name dm) files) (\<lambda>(path, files).
     and_then (load 0 PAGE_SIZE data) (\<lambda>page.
       Inr (files(path \<mapsto> file_write (unat (page_id * 4096)) page (contents path files))))))"

text \<open>\<^verbatim>\<open>int offset\<close> reads the same product as a signed number; a negative one makes \<^verbatim>\<open>lseek\<close> fail.\<close>

definition read_page :: "bytes \<Rightarrow> page_id_t \<Rightarrow> DiskManager \<Rightarrow> fs \<Rightarrow> (bytes \<times> fs) res" where
  "read_page junk page_id dm files =
     and_then (table_file (table_name dm) files) (\<lambda>(path, files).
       let off = sint (page_id * 4096); f = contents path files
       in if int (length f) \<le> off then Inl ExitFailure
          else if off < 0 then Inl ExitFailure
          else let got = take PAGE_SIZE (drop (nat off) f)
               in Inr (got @ drop (length got) junk, files))"

definition remove_table :: "string \<Rightarrow> fs \<Rightarrow> fs res" where
  "remove_table name files =
     (let path = DBFILES_DIR @ ''/'' @ name @ ''.db''
      in if length path < 40 then Inr (files(path := None)) else Inl OutOfBounds)"

section \<open>The index file\<close>

definition BTREE_INDEX :: u32 where
  "BTREE_INDEX = 0x951F6C01"

definition NODE_COUNT_OFFSET :: nat where
  "NODE_COUNT_OFFSET = 4"

definition MAX_KEYSIZE_OFFSET :: nat where
  "MAX_KEYSIZE_OFFSET = 6"

definition CURR_ROOT_PID_OFFSET :: nat where
  "CURR_ROOT_PID_OFFSET = 7"

definition IS_LEAF_OFFSET :: nat where
  "IS_LEAF_OFFSET = 13"

lemmas [layout_defs] = NODE_COUNT_OFFSET_def MAX_KEYSIZE_OFFSET_def CURR_ROOT_PID_OFFSET_def
  IS_LEAF_OFFSET_def

definition new_btree_index_page :: "bytes \<Rightarrow> DiskManager \<Rightarrow> bool \<Rightarrow> fs \<Rightarrow> (page_id_t \<times> fs) res" where
  "new_btree_index_page junk dm is_leaf files =
     and_then (read_page junk 0 dm files) (\<lambda>(metadata_page, files).
     and_then (decode_uint32 metadata_page) (\<lambda>magic.
     and_then (guard AssertFail (magic = BTREE_INDEX)) (\<lambda>_.
     and_then (decode_uint16 (drop NODE_COUNT_OFFSET metadata_page)) (\<lambda>curr_node_num.
       let new_node_num = curr_node_num + 1 in
       and_then (store NODE_COUNT_OFFSET (encode_uint16 new_node_num) metadata_page) (\<lambda>metadata_page.
       and_then (write_page 0 dm metadata_page files) (\<lambda>files.
       and_then (store IS_LEAF_OFFSET (encode_bool is_leaf) (replicate PAGE_SIZE 0)) (\<lambda>page.
       and_then (write_page (ucast new_node_num) dm page files) (\<lambda>files.
         Inr (ucast new_node_num, files)))))))))"

text \<open>The name is copied into a buffer of 25 bytes; \<open>None\<close> is the null pointer returned when the file
  exists already.\<close>

definition create_btree_index :: "string \<Rightarrow> u8 \<Rightarrow> fs \<Rightarrow> (DiskManager option \<times> fs) res" where
  "create_btree_index idx_name max_keys files =
     (if 25 \<le> length idx_name then Inl OutOfBounds
      else
        and_then (table_file idx_name files) (\<lambda>(path, files).
          if contents path files \<noteq> [] then Inr (None, files)
          else
            and_then (store 0 (encode_uint32 BTREE_INDEX) (replicate PAGE_SIZE 0)) (\<lambda>buf.
            and_then (store 4 (encode_uint16 0) buf) (\<lambda>buf.
            and_then (store 6 [max_keys] buf) (\<lambda>buf.
              Inr (Some \<lparr>page_directory = None, page_type = None, table_name = idx_name\<rparr>,
                   files(path \<mapsto> file_write 0 buf (contents path files))))))))"

section \<open>Reading and writing files\<close>

lemma length_file_write:
  "length (file_write off data f) = max (off + length data) (length f)"
  by (simp add: file_write_def Let_def)

lemma take_drop_file_write_same:
  "take (length data) (drop off (file_write off data f)) = data"
  by (simp add: file_write_def Let_def)

lemma nth_file_write_other:
  assumes "i < length f" and "i < off \<or> off + length data \<le> i"
  shows "file_write off data f ! i = f ! i"
  using assms by (auto simp: file_write_def Let_def nth_append)

lemma take_drop_file_write_other:
  assumes "o' + n \<le> length f" and "o' + n \<le> off \<or> off + length data \<le> o'"
  shows "take n (drop o' (file_write off data f)) = take n (drop o' f)"
proof (rule nth_equalityI)
  fix i assume "i < length (take n (drop o' (file_write off data f)))"
  then have "i < n" by simp
  with assms show "take n (drop o' (file_write off data f)) ! i = take n (drop o' f) ! i"
    using nth_file_write_other [of "o' + i" f off data] by (auto simp: length_file_write)
qed (use assms in \<open>simp add: length_file_write\<close>)

section \<open>The contract of a page file\<close>

locale page_store =
  fixes inv :: "'s \<Rightarrow> bool"
    and pages :: "'s \<Rightarrow> page_id_t set"
    and valid :: "page_id_t \<Rightarrow> bool"
    and rd :: "page_id_t \<Rightarrow> 's \<Rightarrow> bytes res"
    and wr :: "page_id_t \<Rightarrow> bytes \<Rightarrow> 's \<Rightarrow> 's res"
    and psize :: nat
  assumes rd_ok: "inv s \<Longrightarrow> p \<in> pages s \<Longrightarrow> \<exists>b. rd p s = Inr b \<and> length b = psize"
    and wr_ok: "inv s \<Longrightarrow> valid p \<Longrightarrow> length b = psize \<Longrightarrow>
      \<exists>s'. wr p b s = Inr s' \<and> inv s' \<and> insert p (pages s) \<subseteq> pages s' \<and> rd p s' = Inr b \<and>
           (\<forall>q \<in> pages s. q \<noteq> p \<longrightarrow> rd q s' = rd q s)"
begin

text \<open>Changing a page in place, as every operation on a page does.\<close>

lemma modify_ok:
  assumes "inv s" and "p \<in> pages s" and "valid p"
    and "\<And>b. length b = psize \<Longrightarrow> length (f b) = psize"
  shows "\<exists>b s'. rd p s = Inr b \<and> wr p (f b) s = Inr s' \<and> inv s' \<and> pages s \<subseteq> pages s' \<and>
           rd p s' = Inr (f b) \<and> (\<forall>q \<in> pages s. q \<noteq> p \<longrightarrow> rd q s' = rd q s)"
proof -
  from rd_ok [OF assms(1,2)] obtain b where b: "rd p s = Inr b" "length b = psize" by blast
  from wr_ok [OF assms(1,3) assms(4) [OF b(2)]] b(1) show ?thesis by auto
qed

text \<open>Two writes to different pages both last.\<close>

lemma two_writes_ok:
  assumes "inv s" and "valid p" and "valid q" and "p \<noteq> q" and "length a = psize" and "length b = psize"
  shows "\<exists>s'. and_then (wr p a s) (wr q b) = Inr s' \<and> inv s' \<and> insert p (insert q (pages s)) \<subseteq> pages s' \<and>
           rd p s' = Inr a \<and> rd q s' = Inr b \<and>
           (\<forall>x \<in> pages s. x \<noteq> p \<and> x \<noteq> q \<longrightarrow> rd x s' = rd x s)"
proof -
  from wr_ok [OF assms(1,2,5)] obtain s1 where s1: "wr p a s = Inr s1" "inv s1"
    "insert p (pages s) \<subseteq> pages s1" "rd p s1 = Inr a" "\<forall>x \<in> pages s. x \<noteq> p \<longrightarrow> rd x s1 = rd x s" by blast
  from wr_ok [OF s1(2) assms(3,6)] obtain s2 where s2: "wr q b s1 = Inr s2" "inv s2"
    "insert q (pages s1) \<subseteq> pages s2" "rd q s2 = Inr b" "\<forall>x \<in> pages s1. x \<noteq> q \<longrightarrow> rd x s2 = rd x s1" by blast
  with s1 assms(4) show ?thesis by auto
qed

end

section \<open>A database file meets the contract\<close>

definition dm_path :: "DiskManager \<Rightarrow> string" where
  "dm_path dm = DBFILES_DIR @ ''/'' @ table_name dm @ ''.db''"

definition dm_inv :: "DiskManager \<Rightarrow> bytes \<Rightarrow> fs \<Rightarrow> bool" where
  "dm_inv dm junk files \<longleftrightarrow>
     length (dm_path dm) < 40 \<and> length junk = PAGE_SIZE \<and> (\<exists>f. files (dm_path dm) = Some f)"

definition dm_valid :: "page_id_t \<Rightarrow> bool" where
  "dm_valid p \<longleftrightarrow> unat p < 2 ^ 19"

definition dm_pages :: "DiskManager \<Rightarrow> fs \<Rightarrow> page_id_t set" where
  "dm_pages dm files =
     {p. dm_valid p \<and> (unat p + 1) * PAGE_SIZE \<le> length (contents (dm_path dm) files)}"

definition page_of :: "page_id_t \<Rightarrow> DiskManager \<Rightarrow> fs \<Rightarrow> bytes" where
  "page_of p dm files = take PAGE_SIZE (drop (unat p * PAGE_SIZE) (contents (dm_path dm) files))"

definition dm_rd :: "bytes \<Rightarrow> DiskManager \<Rightarrow> page_id_t \<Rightarrow> fs \<Rightarrow> bytes res" where
  "dm_rd junk dm p files = and_then (read_page junk p dm files) (\<lambda>(b, _). Inr b)"

definition dm_wr :: "DiskManager \<Rightarrow> page_id_t \<Rightarrow> bytes \<Rightarrow> fs \<Rightarrow> fs res" where
  "dm_wr dm p b files = write_page p dm b files"

lemma page_offset:
  assumes "dm_valid p"
  shows "unat (p * 4096) = unat p * PAGE_SIZE" and "sint (p * 4096) = int (unat p * PAGE_SIZE)"
proof -
  from assms have lt: "unat p * 4096 < 2 ^ 31" by (simp add: dm_valid_def)
  then show u: "unat (p * 4096) = unat p * PAGE_SIZE"
    by (simp add: unat_word_ariths PAGE_SIZE_def)
  with lt show "sint (p * 4096) = int (unat p * PAGE_SIZE)"
    using sint_nonneg_eq [of "p * 4096"] by (simp add: PAGE_SIZE_def)
qed

lemma table_file_dm:
  "dm_inv dm junk files \<Longrightarrow> table_file (table_name dm) files = Inr (dm_path dm, files)"
  by (auto simp: table_file_def dm_inv_def dm_path_def Let_def)

lemma read_page_in_file:
  assumes "dm_inv dm junk files" and "p \<in> dm_pages dm files"
  shows "read_page junk p dm files = Inr (page_of p dm files, files)"
    and "length (page_of p dm files) = PAGE_SIZE"
proof -
  from assms(2) have v: "dm_valid p" and len: "unat p * PAGE_SIZE + PAGE_SIZE \<le> length (contents (dm_path dm) files)"
    by (simp_all add: dm_pages_def)
  show l: "length (page_of p dm files) = PAGE_SIZE" using len by (simp add: page_of_def)
  have "\<not> int (length (contents (dm_path dm) files)) \<le> int (unat p * PAGE_SIZE)"
    using len by (simp only: of_nat_le_iff) (simp add: PAGE_SIZE_def)
  with assms(1) l show "read_page junk p dm files = Inr (page_of p dm files, files)"
    unfolding read_page_def table_file_dm [OF assms(1)] and_then_simps prod.case Let_def
      page_offset(2) [OF v] nat_int page_of_def [symmetric]
    by (simp add: dm_inv_def mult_less_0_iff)
qed

lemma write_page_in_file:
  assumes "dm_inv dm junk files" and "dm_valid p" and "length b = PAGE_SIZE"
  shows "write_page p dm b files =
    Inr (files(dm_path dm \<mapsto> file_write (unat p * PAGE_SIZE) b (contents (dm_path dm) files)))"
proof -
  have "sprintf_d 11 p = Inr (dec (unat p))"
    using assms(2) by (intro sprintf_d_eq) (simp_all add: dm_valid_def)
  with assms(3) show ?thesis
    by (simp add: write_page_def table_file_dm [OF assms(1)] load_ok page_offset(1) [OF assms(2)])
qed

lemma page_of_write:
  fixes files :: fs and dm :: DiskManager and p q :: page_id_t and b :: bytes
  assumes b: "length b = PAGE_SIZE"
  defines "f \<equiv> contents (dm_path dm) files"
  defines "files' \<equiv> files(dm_path dm \<mapsto> file_write (unat p * PAGE_SIZE) b f)"
  shows "page_of p dm files' = b"
    and "q \<in> dm_pages dm files \<Longrightarrow> q \<noteq> p \<Longrightarrow> page_of q dm files' = page_of q dm files"
    and "dm_valid p \<Longrightarrow> insert p (dm_pages dm files) \<subseteq> dm_pages dm files'"
proof -
  have f': "contents (dm_path dm) files' = file_write (unat p * PAGE_SIZE) b f"
    by (simp add: files'_def contents_def)
  show "page_of p dm files' = b"
    using take_drop_file_write_same [of b] b by (simp add: page_of_def f')
  show "page_of q dm files' = page_of q dm files" if "q \<in> dm_pages dm files" "q \<noteq> p"
  proof -
    from that(2) have "unat q \<noteq> unat p" by (simp add: word_unat_eq_iff)
    then have "unat q * PAGE_SIZE + PAGE_SIZE \<le> unat p * PAGE_SIZE \<or>
        unat p * PAGE_SIZE + PAGE_SIZE \<le> unat q * PAGE_SIZE"
      unfolding PAGE_SIZE_def by linarith
    with that(1) b show ?thesis
      unfolding page_of_def f' f_def
      by (intro take_drop_file_write_other) (auto simp: dm_pages_def)
  qed
  show "insert p (dm_pages dm files) \<subseteq> dm_pages dm files'" if "dm_valid p"
    using that b by (auto simp: dm_pages_def f' length_file_write f_def)
qed

interpretation pf: page_store "dm_inv dm junk" "dm_pages dm" dm_valid "dm_rd junk dm" "dm_wr dm" PAGE_SIZE
  for dm junk
proof
  fix s :: fs and p :: page_id_t and b :: bytes
  assume inv: "dm_inv dm junk s"
  show "\<exists>b. dm_rd junk dm p s = Inr b \<and> length b = PAGE_SIZE" if "p \<in> dm_pages dm s"
    using read_page_in_file [OF inv that] by (simp add: dm_rd_def)
  assume v: "dm_valid p" and b: "length b = PAGE_SIZE"
  let ?s' = "s(dm_path dm \<mapsto> file_write (unat p * PAGE_SIZE) b (contents (dm_path dm) s))"
  have w: "dm_wr dm p b s = Inr ?s'" using write_page_in_file [OF inv v b] by (simp add: dm_wr_def)
  have inv': "dm_inv dm junk ?s'" using inv by (simp add: dm_inv_def)
  have sub: "insert p (dm_pages dm s) \<subseteq> dm_pages dm ?s'" using page_of_write(3) [OF b v] .
  then have "dm_rd junk dm q ?s' = Inr (page_of q dm ?s')" if "q \<in> insert p (dm_pages dm s)" for q
    using read_page_in_file [OF inv', of q] that by (auto simp: dm_rd_def)
  moreover have "dm_rd junk dm q s = Inr (page_of q dm s)" if "q \<in> dm_pages dm s" for q
    using read_page_in_file [OF inv that] by (simp add: dm_rd_def)
  ultimately show "\<exists>s'. dm_wr dm p b s = Inr s' \<and> dm_inv dm junk s' \<and> insert p (dm_pages dm s) \<subseteq> dm_pages dm s' \<and>
      dm_rd junk dm p s' = Inr b \<and> (\<forall>q \<in> dm_pages dm s. q \<noteq> p \<longrightarrow> dm_rd junk dm q s' = dm_rd junk dm q s)"
    using w inv' sub page_of_write(1,2) [OF b] by auto
qed

section \<open>Allocating index pages\<close>

text \<open>What the file of an index says of itself: the magic number and the number of node pages.\<close>

definition index_meta :: "u16 \<Rightarrow> bytes \<Rightarrow> bool" where
  "index_meta n meta \<longleftrightarrow> length meta = PAGE_SIZE \<and> decode_uint32 meta = Inr BTREE_INDEX \<and>
     decode_uint16 (drop NODE_COUNT_OFFSET meta) = Inr n"

definition blank_node :: "bool \<Rightarrow> bytes" where
  "blank_node is_leaf = put IS_LEAF_OFFSET (encode_bool is_leaf) (replicate PAGE_SIZE 0)"

definition with_node_count :: "u16 \<Rightarrow> bytes \<Rightarrow> bytes" where
  "with_node_count n meta = put NODE_COUNT_OFFSET (encode_uint16 n) meta"

lemma word_minus_one_u16: "(- 1 :: u16) = 65535"
  by simp

lemma length_blank_node: "length (blank_node l) = PAGE_SIZE"
  by (simp add: blank_node_def layout_defs)

lemma blank_inner_node: "blank_node False = replicate PAGE_SIZE 0"
  by (rule nth_equalityI) (auto simp: blank_node_def layout_defs put_nth encode_bool_def nth_Cons')

lemma index_meta_with_node_count:
  assumes "index_meta n meta"
  shows "index_meta k (with_node_count k meta)"
proof -
  have "decode_uint32 (drop 0 (put 4 (encode_uint16 k) meta)) = decode_uint32 (drop 0 meta)"
    using assms by (intro u32c.decode_stored_elsewhere) (simp_all add: index_meta_def layout_defs)
  with assms show ?thesis
    by (simp add: index_meta_def with_node_count_def layout_defs u16c.decode_stored)
qed

lemma new_btree_index_page_writes:
  assumes inv: "dm_inv dm junk files" and "0 \<in> dm_pages dm files" and meta: "index_meta n (page_of 0 dm files)"
  shows "new_btree_index_page junk dm is_leaf files =
    and_then (and_then (dm_wr dm 0 (with_node_count (n + 1) (page_of 0 dm files)) files)
        (dm_wr dm (ucast (n + 1)) (blank_node is_leaf)))
      (\<lambda>files. Inr (ucast (n + 1), files))"
proof -
  have "store NODE_COUNT_OFFSET (encode_uint16 (n + 1)) (page_of 0 dm files) =
      Inr (with_node_count (n + 1) (page_of 0 dm files))"
    using meta by (simp add: index_meta_def with_node_count_def store_ok layout_defs)
  moreover have "store IS_LEAF_OFFSET (encode_bool is_leaf) (replicate PAGE_SIZE 0) = Inr (blank_node is_leaf)"
    by (simp add: blank_node_def store_ok layout_defs)
  ultimately show ?thesis
    using meta
    by (simp add: new_btree_index_page_def read_page_in_file(1) [OF assms(1,2)] index_meta_def
        Let_def dm_wr_def and_then_assoc)
qed

lemma index_page_allocated:
  assumes "dm_inv dm junk files" and "0 \<in> dm_pages dm files" and "index_meta n (page_of 0 dm files)"
    and "n \<noteq> 65535"
  shows "\<exists>files'. new_btree_index_page junk dm is_leaf files = Inr (ucast (n + 1), files') \<and>
    dm_inv dm junk files' \<and> insert 0 (insert (ucast (n + 1)) (dm_pages dm files)) \<subseteq> dm_pages dm files' \<and>
    page_of 0 dm files' = with_node_count (n + 1) (page_of 0 dm files) \<and>
    page_of (ucast (n + 1)) dm files' = blank_node is_leaf \<and>
    (\<forall>q \<in> dm_pages dm files. q \<noteq> 0 \<and> q \<noteq> ucast (n + 1) \<longrightarrow> page_of q dm files' = page_of q dm files)"
proof -
  let ?new = "ucast (n + 1) :: page_id_t"
  let ?meta = "with_node_count (n + 1) (page_of 0 dm files)"
  have "n + 1 \<noteq> 0" using assms(4) by (simp add: add_eq_0_iff2 [of n] word_minus_one_u16)
  then have ne: "0 \<noteq> ?new" by (metis unat_ucast_wider unat_0 word_unat_eq_iff)
  have v: "dm_valid 0" "dm_valid ?new" using unat_bounds(2) [of "n + 1"] by (simp_all add: dm_valid_def unat_ucast_wider)
  have len: "length ?meta = PAGE_SIZE"
    using index_meta_with_node_count [OF assms(3)] by (simp add: index_meta_def)
  from pf.two_writes_ok [OF assms(1) v ne len length_blank_node] obtain files' where
    w: "and_then (dm_wr dm 0 ?meta files) (dm_wr dm ?new (blank_node is_leaf)) = Inr files'"
    and inv': "dm_inv dm junk files'" and sub: "insert 0 (insert ?new (dm_pages dm files)) \<subseteq> dm_pages dm files'"
    and rd: "dm_rd junk dm 0 files' = Inr ?meta" "dm_rd junk dm ?new files' = Inr (blank_node is_leaf)"
      "\<forall>q \<in> dm_pages dm files. q \<noteq> 0 \<and> q \<noteq> ?new \<longrightarrow> dm_rd junk dm q files' = dm_rd junk dm q files"
    by blast
  have new: "dm_rd junk dm q files' = Inr (page_of q dm files')"
    if "q \<in> insert 0 (insert ?new (dm_pages dm files))" for q
    using read_page_in_file(1) [OF inv'] that sub unfolding dm_rd_def by fastforce
  have old: "dm_rd junk dm q files = Inr (page_of q dm files)" if "q \<in> dm_pages dm files" for q
    using read_page_in_file(1) [OF assms(1) that] by (simp add: dm_rd_def)
  have "new_btree_index_page junk dm is_leaf files = Inr (?new, files')"
    unfolding new_btree_index_page_writes [OF assms(1-3)] w by simp
  then show ?thesis using rd new old inv' sub by auto
qed

text \<open>An index file with \<open>n\<close> counted nodes, for concrete instances.\<close>

definition demo_dm :: DiskManager where
  "demo_dm = \<lparr>page_directory = None, page_type = None, table_name = ''idx''\<rparr>"

definition demo_index :: "u16 \<Rightarrow> fs" where
  "demo_index n =
     [dm_path demo_dm \<mapsto> with_node_count n (put 0 (encode_uint32 BTREE_INDEX) (replicate PAGE_SIZE 0))]"

lemma demo_index_ok:
  "dm_inv demo_dm (replicate PAGE_SIZE 7) (demo_index n)"
  "0 \<in> dm_pages demo_dm (demo_index n)"
  "index_meta n (page_of 0 demo_dm (demo_index n))"
proof -
  let ?magic = "put 0 (encode_uint32 BTREE_INDEX) (replicate PAGE_SIZE 0)"
  have len: "length ?magic = PAGE_SIZE" by (simp add: layout_defs)
  have "index_meta 0 ?magic"
    using u32c.decode_stored [of 0 "replicate PAGE_SIZE 0" BTREE_INDEX]
      u16c.decode_stored_elsewhere [of 0 "encode_uint32 BTREE_INDEX" "replicate PAGE_SIZE 0" 4]
    by (simp add: index_meta_def len) (simp add: layout_defs numeral_eq_Suc)
  then have meta: "index_meta n (with_node_count n ?magic)" by (rule index_meta_with_node_count)
  then have len': "length (with_node_count n ?magic) = PAGE_SIZE" by (simp add: index_meta_def)
  show "dm_inv demo_dm (replicate PAGE_SIZE 7) (demo_index n)"
    by (simp add: dm_inv_def demo_index_def dm_path_def DBFILES_DIR_def demo_dm_def)
  show "0 \<in> dm_pages demo_dm (demo_index n)"
    using len' by (simp add: dm_pages_def demo_index_def contents_def dm_valid_def)
  have "page_of 0 demo_dm (demo_index n) = with_node_count n ?magic"
    using len' by (simp add: page_of_def demo_index_def contents_def)
  with meta show "index_meta n (page_of 0 demo_dm (demo_index n))" by simp
qed

section \<open>Properties\<close>

text \<open>
  C12. A page that \<^verbatim>\<open>write_page\<close> wrote is what \<^verbatim>\<open>read_page\<close> returns, and every other page of the file
  reads as it did before. The page number must be below \<open>2 ^ 19\<close>, where \<^verbatim>\<open>page_id * PAGE_SIZE\<close> fits
  the signed \<^verbatim>\<open>int offset\<close> of \<^verbatim>\<open>read_page\<close>.
\<close>

theorem page_write_then_read:
  assumes "dm_inv dm junk files" and "dm_valid p" and "length b = PAGE_SIZE"
  shows "\<exists>files'. write_page p dm b files = Inr files' \<and> read_page junk p dm files' = Inr (b, files') \<and>
    (\<forall>q \<in> dm_pages dm files. q \<noteq> p \<longrightarrow>
       (\<exists>c. read_page junk q dm files = Inr (c, files) \<and> read_page junk q dm files' = Inr (c, files')))"
proof -
  from pf.wr_ok [OF assms] obtain files' where w: "write_page p dm b files = Inr files'"
    and inv': "dm_inv dm junk files'" and sub: "insert p (dm_pages dm files) \<subseteq> dm_pages dm files'"
    and rd: "dm_rd junk dm p files' = Inr b"
      "\<forall>q \<in> dm_pages dm files. q \<noteq> p \<longrightarrow> dm_rd junk dm q files' = dm_rd junk dm q files"
    by (auto simp: dm_wr_def)
  have new: "read_page junk q dm files' = Inr (page_of q dm files', files')"
    if "q \<in> insert p (dm_pages dm files)" for q
    using read_page_in_file(1) [OF inv'] that sub by blast
  have old: "read_page junk q dm files = Inr (page_of q dm files, files)" if "q \<in> dm_pages dm files" for q
    using read_page_in_file(1) [OF assms(1) that] .
  show ?thesis using w rd new old by (auto simp: dm_rd_def)
qed

theorem page_write_then_read_witness:
  "\<exists>files'. write_page 2 demo_dm (replicate PAGE_SIZE 1) (demo_index 0) = Inr files' \<and>
     read_page (replicate PAGE_SIZE 7) 2 demo_dm files' = Inr (replicate PAGE_SIZE 1, files')"
proof -
  have "dm_valid 2" "length (replicate PAGE_SIZE (1 :: u8)) = PAGE_SIZE" by (simp_all add: dm_valid_def)
  from page_write_then_read [OF demo_index_ok(1) this] show ?thesis by blast
qed

text \<open>
  \<^verbatim>\<open>create_btree_index\<close> on a name with no file yet leaves a file of one page that says it is an
  index with no nodes and the given number of keys per node.
\<close>

lemma create_btree_index_metadata:
  assumes "length idx_name < 25" and "files (DBFILES_DIR @ ''/'' @ idx_name @ ''.db'') = None"
    and "length junk = PAGE_SIZE"
  shows "\<exists>dm files'. create_btree_index idx_name max_keys files = Inr (Some dm, files') \<and>
    table_name dm = idx_name \<and> dm_inv dm junk files' \<and> dm_pages dm files' = {0} \<and>
    index_meta 0 (page_of 0 dm files') \<and> byte_at MAX_KEYSIZE_OFFSET (page_of 0 dm files') = Inr max_keys"
proof -
  let ?dm = "\<lparr>page_directory = None, page_type = None, table_name = idx_name\<rparr>"
  let ?magic = "put 0 (encode_uint32 BTREE_INDEX) (replicate PAGE_SIZE 0)"
  let ?count = "put 4 (encode_uint16 0) ?magic"
  let ?b = "put 6 [max_keys] ?count"
  let ?path = "DBFILES_DIR @ ''/'' @ idx_name @ ''.db''"
  let ?files' = "(files(?path \<mapsto> []))(?path \<mapsto> file_write 0 ?b [])"
  have len: "length ?b = PAGE_SIZE" by (simp add: layout_defs)
  have path: "dm_path ?dm = ?path" "length ?path < 40" using assms(1) by (simp_all add: dm_path_def DBFILES_DIR_def)
  have run: "create_btree_index idx_name max_keys files = Inr (Some ?dm, ?files')"
    using assms(1,2) path(2)
    by (simp add: create_btree_index_def table_file_def Let_def contents_def store_ok layout_defs)
  have f: "contents ?path ?files' = ?b" by (simp add: contents_def file_write_def)
  then have page: "page_of 0 ?dm ?files' = ?b" using len by (simp add: page_of_def path)
  have "decode_uint32 (drop 0 ?b) = decode_uint32 (drop 0 ?count)"
    by (rule u32c.decode_stored_elsewhere) (simp_all add: layout_defs)
  also have "\<dots> = decode_uint32 (drop 0 ?magic)"
    by (rule u32c.decode_stored_elsewhere) (simp_all add: layout_defs)
  finally have "decode_uint32 ?b = Inr BTREE_INDEX"
    using u32c.decode_stored [of 0 "replicate PAGE_SIZE 0" BTREE_INDEX] by (simp add: layout_defs)
  moreover have "decode_uint16 (drop 4 ?b) = decode_uint16 (drop 4 ?count)"
    by (rule u16c.decode_stored_elsewhere) (simp_all add: layout_defs)
  then have "decode_uint16 (drop 4 ?b) = Inr 0"
    using u16c.decode_stored [of 4 ?magic 0] by (simp add: layout_defs)
  moreover have "byte_at 6 ?b = Inr max_keys" by (simp add: byte_at_ok layout_defs put_nth)
  moreover have "dm_pages ?dm ?files' = {0}"
    unfolding dm_pages_def path f len by (auto simp: dm_valid_def PAGE_SIZE_def word_unat_eq_iff)
  ultimately show ?thesis
    using run page len path assms(3) by (auto simp: index_meta_def layout_defs dm_inv_def)
qed

text \<open>
  Allocating a node of an index with fewer than 65535 nodes returns the next page number, leaves
  a blank page with the leaf flag there, counts it on the metadata page and touches nothing else.
\<close>

lemma new_btree_index_page_allocates:
  assumes "dm_inv dm junk files" and "0 \<in> dm_pages dm files" and "index_meta n (page_of 0 dm files)"
    and "n \<noteq> 65535"
  shows "\<exists>files'. new_btree_index_page junk dm is_leaf files = Inr (ucast (n + 1), files') \<and>
    read_page junk 0 dm files' = Inr (with_node_count (n + 1) (page_of 0 dm files), files') \<and>
    index_meta (n + 1) (with_node_count (n + 1) (page_of 0 dm files)) \<and>
    read_page junk (ucast (n + 1)) dm files' = Inr (blank_node is_leaf, files') \<and>
    (\<forall>q \<in> dm_pages dm files. q \<noteq> 0 \<and> q \<noteq> ucast (n + 1) \<longrightarrow>
       (\<exists>c. read_page junk q dm files = Inr (c, files) \<and> read_page junk q dm files' = Inr (c, files')))"
proof -
  from index_page_allocated [OF assms] obtain files' where
    f: "new_btree_index_page junk dm is_leaf files = Inr (ucast (n + 1), files')" "dm_inv dm junk files'"
      "insert 0 (insert (ucast (n + 1)) (dm_pages dm files)) \<subseteq> dm_pages dm files'"
      "page_of 0 dm files' = with_node_count (n + 1) (page_of 0 dm files)"
      "page_of (ucast (n + 1)) dm files' = blank_node is_leaf"
      "\<forall>q \<in> dm_pages dm files. q \<noteq> 0 \<and> q \<noteq> ucast (n + 1) \<longrightarrow> page_of q dm files' = page_of q dm files" by blast
  have "read_page junk q dm files' = Inr (page_of q dm files', files')"
    if "q \<in> insert 0 (insert (ucast (n + 1)) (dm_pages dm files))" for q
    using read_page_in_file(1) [OF f(2)] that f(3) by blast
  then show ?thesis
    using f index_meta_with_node_count [OF assms(3)] read_page_in_file(1) [OF assms(1)] by auto
qed

text \<open>
  C40. The node count is 16 bits wide: allocating the next node of an index with 65535 nodes returns
  page 0 and overwrites the metadata page with the blank node, so the allocation after it fails its
  assertion.
\<close>

theorem node_count_wraps_onto_metadata:
  assumes "dm_inv dm junk files" and "0 \<in> dm_pages dm files" and "index_meta 65535 (page_of 0 dm files)"
  shows "\<exists>files'. new_btree_index_page junk dm is_leaf files = Inr (0, files') \<and>
    read_page junk 0 dm files' = Inr (blank_node is_leaf, files') \<and>
    new_btree_index_page junk dm is_leaf' files' = Inl AssertFail"
proof -
  let ?meta = "with_node_count (65535 + 1) (page_of 0 dm files)"
  have z: "(65535 :: u16) + 1 = 0" by simp
  have len: "length ?meta = PAGE_SIZE"
    using index_meta_with_node_count [OF assms(3)] by (simp add: index_meta_def)
  have v: "dm_valid 0" by (simp add: dm_valid_def)
  from pf.wr_ok [OF assms(1) v len] obtain f1 where f1: "dm_wr dm 0 ?meta files = Inr f1" "dm_inv dm junk f1" by blast
  from pf.wr_ok [OF f1(2) v length_blank_node] obtain f2 where f2: "dm_wr dm 0 (blank_node is_leaf) f1 = Inr f2"
    "dm_inv dm junk f2" "0 \<in> dm_pages dm f2" "dm_rd junk dm 0 f2 = Inr (blank_node is_leaf)" by blast
  have run: "new_btree_index_page junk dm is_leaf files = Inr (0, f2)"
    unfolding new_btree_index_page_writes [OF assms] using f1(1) f2(1) by simp
  have rd: "read_page junk 0 dm f2 = Inr (blank_node is_leaf, f2)"
    using read_page_in_file(1) [OF f2(2,3)] f2(4) by (simp add: dm_rd_def)
  have "decode_uint32 (blank_node is_leaf) = decode_uint32 (take 4 (blank_node is_leaf))"
    by (rule decode_uint32_prefix) (simp add: length_blank_node PAGE_SIZE_def)
  also have "take 4 (blank_node is_leaf) = [0, 0, 0, 0]"
    by (simp add: blank_node_def take_put_before layout_defs numeral_eq_Suc)
  finally have "decode_uint32 (blank_node is_leaf) = Inr 0" by simp
  then have "new_btree_index_page junk dm is_leaf' f2 = Inl AssertFail"
    by (simp add: new_btree_index_page_def rd BTREE_INDEX_def)
  with run rd show ?thesis by blast
qed

theorem node_count_wraps_onto_metadata_witness:
  "\<exists>files'. new_btree_index_page (replicate PAGE_SIZE 7) demo_dm True (demo_index 65535) = Inr (0, files') \<and>
     new_btree_index_page (replicate PAGE_SIZE 7) demo_dm True files' = Inl AssertFail"
  using node_count_wraps_onto_metadata [OF demo_index_ok, of True True] by blast

end
