(* ===== verification/Heap_Page.thy ===== *)
theory Heap_Page
  imports Disk_Manager
begin

text \<open>
  The slotted page of \<^verbatim>\<open>src/disk/heapfile.c\<close>: the header, the tuple pointers that grow upwards from
  it, the tuples that grow downwards from the end of the page, and the work the operations do on the
  bytes of one page. \<open>Heapfile\<close> composes it with the files and the page directory.

  \<open>page_tuples\<close> abstracts a page to the list of its slots, each empty (removed) or holding the bytes
  of a tuple; \<open>heap_page_wf\<close> is the layout invariant every operation keeps.
\<close>

section \<open>Header and tuple pointers\<close>

record Header =
  hdr_id :: page_id_t
  free_start :: u16
  free_end :: u16
  hdr_flags :: u8

record TuplePtr =
  start_offset :: u16
  tup_size :: u16

definition COMPACTABLE :: u8 where
  "COMPACTABLE = push_bit 7 1"

definition PAGE_HEADER_SIZE :: nat where
  "PAGE_HEADER_SIZE = 5"

definition TUPLE_PTR_SIZE :: nat where
  "TUPLE_PTR_SIZE = 4"

lemmas [layout_defs] = PAGE_HEADER_SIZE_def TUPLE_PTR_SIZE_def

definition extract_header :: "bytes \<Rightarrow> page_id_t \<Rightarrow> Header res" where
  "extract_header page page_id =
     and_then (decode_uint16 page) (\<lambda>fs.
     and_then (decode_uint16 (drop 2 page)) (\<lambda>fe.
     and_then (byte_at 4 page) (\<lambda>fl.
       Inr \<lparr>hdr_id = page_id, free_start = fs, free_end = fe, hdr_flags = fl\<rparr>)))"

text \<open>\<^verbatim>\<open>slot_num * TUPLE_PTR_SIZE\<close> is a 32-bit product.\<close>

definition TUPLE_INDEX_TO_TUPLE_POINTER_OFFSET :: "u32 \<Rightarrow> nat" where
  "TUPLE_INDEX_TO_TUPLE_POINTER_OFFSET idx = PAGE_HEADER_SIZE + unat (idx * 4)"

definition TUPLE_POINTER_OFFSET_TO_TUPLE_INDEX :: "u16 \<Rightarrow> u32" where
  "TUPLE_POINTER_OFFSET_TO_TUPLE_INDEX off = word_of_int ((uint off - 5) sdiv 4)"

definition extract_tuple_ptr :: "bytes \<Rightarrow> u32 \<Rightarrow> TuplePtr res" where
  "extract_tuple_ptr page slot_num =
     and_then (load (TUPLE_INDEX_TO_TUPLE_POINTER_OFFSET slot_num) TUPLE_PTR_SIZE page) (\<lambda>buf.
     and_then (decode_uint16 buf) (\<lambda>so.
     and_then (decode_uint16 (drop 2 buf)) (\<lambda>sz.
       Inr \<lparr>start_offset = so, tup_size = sz\<rparr>)))"

definition construct_page_header_buf :: "bytes \<Rightarrow> Header \<Rightarrow> bytes res" where
  "construct_page_header_buf page header =
     and_then (store 0 (encode_uint16 (free_start header)) page) (\<lambda>page.
     and_then (store 2 (encode_uint16 (free_end header)) page) (\<lambda>page.
       store 4 [hdr_flags header] page))"

definition construct_page_tuple_ptr :: "bytes \<Rightarrow> u32 \<Rightarrow> TuplePtr \<Rightarrow> bytes res" where
  "construct_page_tuple_ptr page slot_num new_tuple_ptr =
     (let off = TUPLE_INDEX_TO_TUPLE_POINTER_OFFSET slot_num
      in and_then (store off (encode_uint16 (start_offset new_tuple_ptr)) page) (\<lambda>page.
           store (off + 2) (encode_uint16 (tup_size new_tuple_ptr)) page))"

section \<open>Encoding a tuple\<close>

datatype ColumnType = BOOLEAN | STRING | INTEGER | DECIMAL

fun type_code :: "ColumnType \<Rightarrow> u8" where
  "type_code BOOLEAN = 1"
| "type_code STRING = 2"
| "type_code INTEGER = 3"
| "type_code DECIMAL = 4"

text \<open>The constructor says which member of the union was written last.\<close>

datatype ColumnValue = VBoolean u8 | VInteger i32 | VDecimal double | VString string

definition str_bytes :: "string \<Rightarrow> bytes" where
  "str_bytes s = map of_char s"

text \<open>The size one column adds to the tuple; the length of a string is cut to 16 bits.\<close>

fun column_size :: "ColumnType \<Rightarrow> ColumnValue \<Rightarrow> u16 res" where
  "column_size STRING (VString str) = Inr (2 + of_nat (length str))"
| "column_size STRING _ = Inl BadUnionRead"
| "column_size INTEGER _ = Inr 4"
| "column_size DECIMAL _ = Inr 8"
| "column_size BOOLEAN _ = Inr 1"

fun tuple_size_loop :: "nat \<Rightarrow> ColumnType list \<Rightarrow> ColumnValue list \<Rightarrow> u16 \<Rightarrow> u16 res" where
  "tuple_size_loop 0 ts vs sz = Inr sz"
| "tuple_size_loop (Suc n) (t # ts) (v # vs) sz =
     and_then (column_size t v) (\<lambda>k. tuple_size_loop n ts vs (sz + k))"
| "tuple_size_loop (Suc n) _ _ sz = Inl OutOfBounds"

fun column_bytes :: "ColumnType \<Rightarrow> ColumnValue \<Rightarrow> bytes res" where
  "column_bytes STRING (VString str) =
     (let size = of_nat (length str) :: u16
      in Inr (encode_uint16 size @ take (unat size) (str_bytes str)))"
| "column_bytes INTEGER (VInteger i) = Inr (encode_int32 i)"
| "column_bytes DECIMAL (VDecimal d) = Inr (encode_double d)"
| "column_bytes BOOLEAN (VBoolean b) = Inr (encode_bool (b \<noteq> 0))"
| "column_bytes _ _ = Inl BadUnionRead"

text \<open>The buffer has \<^verbatim>\<open>tuple_size\<close> bytes; the offset into it is a 16-bit number.\<close>

fun tuple_encode_loop :: "nat \<Rightarrow> ColumnType list \<Rightarrow> ColumnValue list \<Rightarrow> u16 \<Rightarrow> bytes \<Rightarrow> bytes res" where
  "tuple_encode_loop 0 ts vs off buf = Inr buf"
| "tuple_encode_loop (Suc n) (t # ts) (v # vs) off buf =
     and_then (column_bytes t v) (\<lambda>b.
     and_then (store (unat off) b buf) (\<lambda>buf.
     and_then (column_size t v) (\<lambda>k.
       tuple_encode_loop n ts vs (off + k) buf)))"
| "tuple_encode_loop (Suc n) _ _ off buf = Inl OutOfBounds"

text \<open>The tuple buffer and its size. The buffer starts with arbitrary bytes; every one of them is
  overwritten, or a store leaves the buffer.\<close>

definition encode_tuple :: "nat \<Rightarrow> ColumnType list \<Rightarrow> ColumnValue list \<Rightarrow> (u16 \<times> bytes) res" where
  "encode_tuple n ts vs =
     and_then (tuple_size_loop n ts vs 0) (\<lambda>tuple_size.
     and_then (tuple_encode_loop n ts vs 0 (replicate (unat tuple_size) 0)) (\<lambda>buf.
       Inr (tuple_size, buf)))"

section \<open>Placing, removing and finding a tuple\<close>

text \<open>The part of \<^verbatim>\<open>add_tuple\<close> that writes the tuple into the page: the pointer at the start of the
  free space, the tuple at its end, the header last.\<close>

definition place_tuple :: "bytes \<Rightarrow> Header \<Rightarrow> u16 \<Rightarrow> bytes \<Rightarrow> (TuplePtr \<times> bytes) res" where
  "place_tuple page header tuple_size tuple_buf =
     (let tuple_ptr = \<lparr>start_offset = free_end header - tuple_size, tup_size = tuple_size\<rparr>;
          ptr_buf = encode_uint16 (start_offset tuple_ptr) @ encode_uint16 (tup_size tuple_ptr)
      in and_then (store (unat (free_start header)) ptr_buf page) (\<lambda>page.
         and_then (guard OutOfBounds (unat tuple_size \<le> unat (free_end header))) (\<lambda>_.
         and_then (store (unat (free_end header) - unat tuple_size) tuple_buf page) (\<lambda>page.
         and_then (construct_page_header_buf page
             (header\<lparr>free_start := free_start header + 4, free_end := free_end header - tuple_size\<rparr>)) (\<lambda>page.
           Inr (tuple_ptr, page))))))"

text \<open>The part of \<^verbatim>\<open>remove_tuple\<close> on the page it read.\<close>

definition mark_removed :: "bytes \<Rightarrow> page_id_t \<Rightarrow> u32 \<Rightarrow> bytes res" where
  "mark_removed page pid slot_num =
     and_then (extract_tuple_ptr page slot_num) (\<lambda>tuple_ptr.
     and_then (extract_header page pid) (\<lambda>header.
     and_then (construct_page_tuple_ptr page slot_num (tuple_ptr\<lparr>start_offset := 0\<rparr>)) (\<lambda>page.
       construct_page_header_buf page (header\<lparr>hdr_flags := hdr_flags header OR COMPACTABLE\<rparr>))))"

text \<open>The loop of \<^verbatim>\<open>defragment\<close>: \<open>temp\<close> is the old page, \<open>page\<close> and \<open>header\<close> are the new one. The
  loop ends at a pointer that lies outside the old page at the latest, so \<open>DEFRAG_FUEL\<close> rounds are
  enough (\<open>defrag_loop_ends\<close>); \<^verbatim>\<open>temp_tuple_offset\<close> is computed but never used.\<close>

definition DEFRAG_FUEL :: nat where
  "DEFRAG_FUEL = 1023"

fun defrag_loop :: "nat \<Rightarrow> bytes \<Rightarrow> Header \<Rightarrow> u16 \<Rightarrow> bytes \<Rightarrow> Header \<Rightarrow> (bytes \<times> Header) res" where
  "defrag_loop 0 temp old_header off page header = Inl Diverges"
| "defrag_loop (Suc fuel) temp old_header off page header =
     and_then (extract_tuple_ptr temp (TUPLE_POINTER_OFFSET_TO_TUPLE_INDEX off)) (\<lambda>tup_ptr.
       if tup_size tup_ptr = 0 \<or> free_start old_header < off then Inr (page, header)
       else if start_offset tup_ptr = 0 then defrag_loop fuel temp old_header (off + 4) page header
       else
         and_then (load (unat (start_offset tup_ptr)) (unat (tup_size tup_ptr)) temp) (\<lambda>tuple.
         and_then (guard OutOfBounds (unat (tup_size tup_ptr) \<le> unat (free_end header))) (\<lambda>_.
         and_then (store (unat (free_end header) - unat (tup_size tup_ptr)) tuple page) (\<lambda>page.
         and_then (load (unat off) TUPLE_PTR_SIZE temp) (\<lambda>ptr.
         and_then (store (unat (free_start header)) ptr page) (\<lambda>page.
           defrag_loop fuel temp old_header (off + 4) page
             (header\<lparr>free_end := free_end header - tup_size tup_ptr,
                     free_start := free_start header + 4\<rparr>)))))))"

declare defrag_loop.simps [simp del]

text \<open>What \<^verbatim>\<open>defragment\<close> makes of the page it read; \<open>fresh\<close> is the new \<^verbatim>\<open>malloc\<close> buffer, \<open>None\<close> the
  return without a write.\<close>

definition defragment_page :: "bytes \<Rightarrow> bytes \<Rightarrow> page_id_t \<Rightarrow> bytes option res" where
  "defragment_page fresh temp page_id =
     and_then (extract_header temp page_id) (\<lambda>old_header.
       if hdr_flags old_header AND COMPACTABLE = 0 then Inr None
       else
         let header = \<lparr>hdr_id = page_id, free_start = 5, free_end = 4095, hdr_flags = 0\<rparr> in
         and_then (defrag_loop DEFRAG_FUEL temp old_header 5 fresh header) (\<lambda>(page, header).
         and_then (construct_page_header_buf page
             (header\<lparr>hdr_flags := hdr_flags old_header AND NOT COMPACTABLE\<rparr>)) (\<lambda>page.
           Inr (Some page))))"

section \<open>Fields of a page\<close>

lemma decode_uint16_at:
  "off + 2 \<le> length page \<Longrightarrow> \<exists>w. decode_uint16 (drop off page) = Inr w"
  by (cases "drop off page" rule: decode_uint16.cases) (auto dest: arg_cong [of _ _ length])

definition u16_at :: "nat \<Rightarrow> bytes \<Rightarrow> u16" where
  "u16_at off page = (case decode_uint16 (drop off page) of Inr w \<Rightarrow> w | Inl _ \<Rightarrow> 0)"

lemma decode_u16_at: "off + 2 \<le> length page \<Longrightarrow> decode_uint16 (drop off page) = Inr (u16_at off page)"
  using decode_uint16_at [of off page] by (auto simp: u16_at_def)

lemma u16_at_put_same:
  "off + 2 \<le> length page \<Longrightarrow> u16_at off (put off (encode_uint16 w) page) = w"
  by (simp add: u16_at_def u16c.decode_stored)

lemma u16_at_put_other:
  assumes "off + length src \<le> length page" and "fld + 2 \<le> length page"
    and "fld + 2 \<le> off \<or> off + length src \<le> fld"
  shows "u16_at fld (put off src page) = u16_at fld page"
  using u16c.decode_stored_elsewhere [OF assms] by (simp add: u16_at_def)

definition header_of :: "page_id_t \<Rightarrow> bytes \<Rightarrow> Header" where
  "header_of pid page = \<lparr>hdr_id = pid, free_start = u16_at 0 page, free_end = u16_at 2 page, hdr_flags = page ! 4\<rparr>"

definition ptr_at :: "nat \<Rightarrow> bytes \<Rightarrow> TuplePtr" where
  "ptr_at i page = \<lparr>start_offset = u16_at (5 + 4 * i) page, tup_size = u16_at (7 + 4 * i) page\<rparr>"

definition set_header :: "Header \<Rightarrow> bytes \<Rightarrow> bytes" where
  "set_header h page =
     put 4 [hdr_flags h] (put 2 (encode_uint16 (free_end h)) (put 0 (encode_uint16 (free_start h)) page))"

definition set_ptr :: "nat \<Rightarrow> TuplePtr \<Rightarrow> bytes \<Rightarrow> bytes" where
  "set_ptr i p page =
     put (7 + 4 * i) (encode_uint16 (tup_size p)) (put (5 + 4 * i) (encode_uint16 (start_offset p)) page)"

lemma extract_header_eq: "5 \<le> length page \<Longrightarrow> extract_header page pid = Inr (header_of pid page)"
  using decode_u16_at [of 0 page] decode_u16_at [of 2 page]
  by (simp add: extract_header_def header_of_def byte_at_ok)

lemma construct_page_header_buf_eq:
  "5 \<le> length page \<Longrightarrow> construct_page_header_buf page h = Inr (set_header h page)"
  by (simp add: construct_page_header_buf_def set_header_def store_ok)

lemma tuple_index_offset: "i < 1022 \<Longrightarrow> TUPLE_INDEX_TO_TUPLE_POINTER_OFFSET (of_nat i) = 5 + 4 * i"
proof -
  assume "i < 1022"
  then have "unat (of_nat i * 4 :: u32) = i * 4"
    by (simp add: unat_word_ariths unat_of_nat)
  then show ?thesis by (simp add: TUPLE_INDEX_TO_TUPLE_POINTER_OFFSET_def layout_defs)
qed

lemma extract_tuple_ptr_eq:
  assumes "i < 1022" and "9 + 4 * i \<le> length page"
  shows "extract_tuple_ptr page (of_nat i) = Inr (ptr_at i page)"
proof -
  let ?buf = "take 4 (drop (5 + 4 * i) page)"
  have "load (5 + 4 * i) 4 page = Inr ?buf" using assms(2) by (simp add: load_ok)
  moreover have "decode_uint16 ?buf = decode_uint16 (drop (5 + 4 * i) page)"
    using assms(2) decode_uint16_prefix [of ?buf] decode_uint16_prefix [of "drop (5 + 4 * i) page"] by simp
  moreover have "decode_uint16 (drop 2 ?buf) = decode_uint16 (drop (7 + 4 * i) page)"
    using assms(2) decode_uint16_prefix [of "drop 2 ?buf"] decode_uint16_prefix [of "drop (7 + 4 * i) page"]
    by (simp add: drop_take add.commute)
  ultimately show ?thesis
    using assms decode_u16_at [of "5 + 4 * i" page] decode_u16_at [of "7 + 4 * i" page]
    by (simp add: extract_tuple_ptr_def tuple_index_offset TUPLE_PTR_SIZE_def ptr_at_def)
qed

lemma construct_page_tuple_ptr_eq:
  assumes "i < 1022" and "9 + 4 * i \<le> length page"
  shows "construct_page_tuple_ptr page (of_nat i) p = Inr (set_ptr i p page)"
  using assms by (simp add: construct_page_tuple_ptr_def tuple_index_offset Let_def store_ok set_ptr_def)

lemma length_set_header [simp]: "5 \<le> length page \<Longrightarrow> length (set_header h page) = length page"
  by (simp add: set_header_def)

lemma length_set_ptr [simp]: "9 + 4 * i \<le> length page \<Longrightarrow> length (set_ptr i p page) = length page"
  by (simp add: set_ptr_def)

lemma header_of_set_header:
  "5 \<le> length page \<Longrightarrow> header_of pid (set_header h page) = h\<lparr>hdr_id := pid\<rparr>"
  by (simp add: header_of_def set_header_def u16_at_put_same u16_at_put_other put_nth)

lemma header_of_set_ptr:
  "9 + 4 * i \<le> length page \<Longrightarrow> header_of pid (set_ptr i p page) = header_of pid page"
  by (simp add: header_of_def set_ptr_def u16_at_put_other put_nth)

lemma ptr_at_set_header: "9 + 4 * i \<le> length page \<Longrightarrow> ptr_at i (set_header h page) = ptr_at i page"
  by (simp add: ptr_at_def set_header_def u16_at_put_other)

lemma ptr_at_set_ptr:
  assumes "9 + 4 * i \<le> length page" and "9 + 4 * j \<le> length page"
  shows "ptr_at j (set_ptr i p page) = (if j = i then p else ptr_at j page)"
proof (cases "j = i")
  case True
  with assms show ?thesis by (simp add: ptr_at_def set_ptr_def u16_at_put_same u16_at_put_other)
next
  case False
  then have "9 + 4 * j \<le> 5 + 4 * i \<or> 9 + 4 * i \<le> 5 + 4 * j" by linarith
  with assms False show ?thesis by (auto simp: ptr_at_def set_ptr_def u16_at_put_other)
qed

lemma ptr_at_put:
  assumes "9 + 4 * i \<le> off" and "off + length src \<le> length page"
  shows "ptr_at i (put off src page) = ptr_at i page"
  using assms by (simp add: ptr_at_def u16_at_put_other)

lemma nth_set_header: "5 \<le> x \<Longrightarrow> x < length page \<Longrightarrow> set_header h page ! x = page ! x"
  by (simp add: set_header_def put_nth)

lemma drop_set_header: "5 \<le> length page \<Longrightarrow> 5 \<le> off \<Longrightarrow> drop off (set_header h page) = drop off page"
  by (simp add: set_header_def drop_put_after)

lemma drop_set_ptr:
  "9 + 4 * i \<le> length page \<Longrightarrow> 9 + 4 * i \<le> off \<Longrightarrow> drop off (set_ptr i p page) = drop off page"
  by (simp add: set_ptr_def drop_put_after)

section \<open>The slots of a page\<close>

definition slot_count :: "bytes \<Rightarrow> nat" where
  "slot_count page = (unat (u16_at 0 page) - 5) div 4"

definition slot_tuple :: "bytes \<Rightarrow> nat \<Rightarrow> bytes option" where
  "slot_tuple page i =
     (let p = ptr_at i page
      in if start_offset p = 0 then None
         else Some (take (unat (tup_size p)) (drop (unat (start_offset p)) page)))"

definition page_tuples :: "bytes \<Rightarrow> bytes option list" where
  "page_tuples page = map (slot_tuple page) [0 ..< slot_count page]"

definition free_bytes :: "bytes \<Rightarrow> nat" where
  "free_bytes page = unat (u16_at 2 page) - unat (u16_at 0 page)"

definition ptr_ok :: "bytes \<Rightarrow> nat \<Rightarrow> bool" where
  "ptr_ok page i \<longleftrightarrow>
     (let p = ptr_at i page
      in start_offset p = 0 \<or>
         unat (u16_at 2 page) \<le> unat (start_offset p) \<and> unat (start_offset p) + unat (tup_size p) \<le> 4095)"

definition heap_page_wf :: "bytes \<Rightarrow> bool" where
  "heap_page_wf page \<longleftrightarrow>
     length page = PAGE_SIZE \<and> unat (u16_at 0 page) = 5 + 4 * slot_count page \<and>
     unat (u16_at 0 page) \<le> unat (u16_at 2 page) \<and> unat (u16_at 2 page) \<le> 4095 \<and>
     list_all (ptr_ok page) [0 ..< slot_count page]"

lemma header_of_fields:
  "free_start (header_of pid page) = u16_at 0 page" "free_end (header_of pid page) = u16_at 2 page"
  "hdr_flags (header_of pid page) = page ! 4"
  by (simp_all add: header_of_def)

lemma heap_page_wfD:
  assumes "heap_page_wf page"
  shows "length page = 4096" and "slot_count page \<le> 1022" and "9 + 4 * i \<le> length page \<longleftrightarrow> i < 1022"
    and "i < slot_count page \<Longrightarrow> ptr_ok page i"
  using assms by (auto simp: heap_page_wf_def PAGE_SIZE_def list_all_iff)

lemma u16_at_set_header:
  assumes "5 \<le> length page"
  shows "u16_at 0 (set_header h page) = free_start h" and "u16_at 2 (set_header h page) = free_end h"
    and "set_header h page ! 4 = hdr_flags h"
proof -
  show "u16_at 0 (set_header h page) = free_start h"
    using assms by (simp add: set_header_def u16_at_put_same u16_at_put_other)
  show "u16_at 2 (set_header h page) = free_end h"
    using assms by (simp add: set_header_def u16_at_put_same u16_at_put_other)
  show "set_header h page ! 4 = hdr_flags h"
    using assms by (simp add: set_header_def put_nth)
qed

text \<open>Two pages agree on a slot when they have its pointer and its bytes in common.\<close>

lemma slot_tuple_cong:
  assumes "ptr_at i page' = ptr_at i page"
    and "start_offset (ptr_at i page) \<noteq> 0 \<Longrightarrow>
      take (unat (tup_size (ptr_at i page))) (drop (unat (start_offset (ptr_at i page))) page') =
      take (unat (tup_size (ptr_at i page))) (drop (unat (start_offset (ptr_at i page))) page)"
  shows "slot_tuple page' i = slot_tuple page i"
  using assms by (simp add: slot_tuple_def Let_def)

lemma place_tuple_eq:
  fixes pid :: page_id_t
  assumes wf: "heap_page_wf page" and len: "length buf = unat sz"
    and fits: "4 + unat sz \<le> free_bytes page"
  defines "n \<equiv> slot_count page" and "fe \<equiv> unat (u16_at 2 page)"
  defines "ptr \<equiv> \<lparr>start_offset = u16_at 2 page - sz, tup_size = sz\<rparr>"
  defines "h' \<equiv> (header_of pid page)\<lparr>free_start := u16_at 0 page + 4, free_end := u16_at 2 page - sz\<rparr>"
  shows "place_tuple page (header_of pid page) sz buf =
      Inr (ptr, set_header h' (put (fe - unat sz) buf (set_ptr n ptr page)))"
    and "9 + 4 * n + unat sz \<le> fe" and "fe \<le> 4095" and "unat (u16_at 2 page - sz) = fe - unat sz"
    and "unat (u16_at 0 page + 4) = 9 + 4 * n"
proof -
  from wf have l: "length page = 4096" and n: "unat (u16_at 0 page) = 5 + 4 * n" and fe: "fe \<le> 4095"
    by (simp_all add: heap_page_wf_def PAGE_SIZE_def n_def fe_def)
  from fits n show room: "9 + 4 * n + unat sz \<le> fe" by (simp add: free_bytes_def fe_def)
  show "fe \<le> 4095" by (rule fe)
  have "sz \<le> u16_at 2 page" using room by (simp add: word_le_nat_alt fe_def)
  then show "unat (u16_at 2 page - sz) = fe - unat sz" by (simp add: unat_sub fe_def)
  show "unat (u16_at 0 page + 4) = 9 + 4 * n" using n room fe by (simp add: unat_word_ariths)
  let ?ptr_buf = "encode_uint16 (start_offset ptr) @ encode_uint16 (tup_size ptr)"
  have b1: "put (5 + 4 * n) ?ptr_buf page = set_ptr n ptr page"
    using l room fe by (simp add: put_append set_ptr_def)
  have s1: "store (5 + 4 * n) ?ptr_buf page = Inr (set_ptr n ptr page)"
    using l room fe unfolding b1 [symmetric] by (intro store_ok) simp
  have s2: "store (fe - unat sz) buf (set_ptr n ptr page) = Inr (put (fe - unat sz) buf (set_ptr n ptr page))"
    using l room fe len by (intro store_ok) simp
  have s3: "construct_page_header_buf (put (fe - unat sz) buf (set_ptr n ptr page)) h' =
      Inr (set_header h' (put (fe - unat sz) buf (set_ptr n ptr page)))"
    using l room fe len by (intro construct_page_header_buf_eq) simp
  show "place_tuple page (header_of pid page) sz buf =
      Inr (ptr, set_header h' (put (fe - unat sz) buf (set_ptr n ptr page)))"
    using room s1 s2 s3
    by (simp add: place_tuple_def header_of_fields Let_def n ptr_def h'_def flip: fe_def)
qed

lemma place_tuple_refines:
  assumes wf: "heap_page_wf page" and len: "length buf = unat sz"
    and fits: "4 + unat sz \<le> free_bytes page"
  shows "\<exists>page'. place_tuple page (header_of pid page) sz buf =
             Inr (\<lparr>start_offset = u16_at 2 page - sz, tup_size = sz\<rparr>, page') \<and>
           heap_page_wf page' \<and> page_tuples page' = page_tuples page @ [Some buf] \<and>
           free_bytes page' + 4 + unat sz = free_bytes page \<and> page' ! 4 = page ! 4"
proof -
  let ?n = "slot_count page" and ?fe = "unat (u16_at 2 page)"
  let ?ptr = "\<lparr>start_offset = u16_at 2 page - sz, tup_size = sz\<rparr>"
  let ?h = "(header_of pid page)\<lparr>free_start := u16_at 0 page + 4, free_end := u16_at 2 page - sz\<rparr>"
  let ?mid = "put (?fe - unat sz) buf (set_ptr ?n ?ptr page)"
  let ?page = "set_header ?h ?mid"
  note eq1 = place_tuple_eq(1) [OF assms, of pid]
  note eq = place_tuple_eq(2-5) [OF assms]
  have l: "length page = 4096" using heap_page_wfD(1) [OF wf] .
  have lmid: "length ?mid = 4096" using l eq(1,2) len by simp
  have hdr: "u16_at 0 ?page = u16_at 0 page + 4" "u16_at 2 ?page = u16_at 2 page - sz" "?page ! 4 = page ! 4"
    using u16_at_set_header [of ?mid ?h] lmid by (simp_all add: header_of_fields)
  have cnt: "slot_count ?page = Suc ?n"
    using eq(4) by (simp add: slot_count_def [of ?page] hdr)
  have ptrs: "ptr_at i ?page = (if i = ?n then ?ptr else ptr_at i page)" if "i \<le> ?n" for i
    using that l lmid eq(1,2) len
    by (simp add: ptr_at_set_header ptr_at_put ptr_at_set_ptr)
  have far: "drop off ?page = drop off page" if "?fe \<le> off" for off
    using that l lmid eq(1,2) len by (simp add: drop_set_header drop_put_after drop_set_ptr)
  have old: "slot_tuple ?page i = slot_tuple page i" if "i < ?n" for i
    using that ptrs [of i] heap_page_wfD(4) [OF wf that] far
    by (intro slot_tuple_cong) (auto simp: ptr_ok_def Let_def)
  have start: "unat (u16_at 2 page - sz) \<noteq> 0" using eq(1,3) by simp
  have "take (unat sz) (drop (?fe - unat sz) ?page) = buf"
    using l lmid eq(1,2) len by (simp add: drop_set_header drop_put_same)
  then have new: "slot_tuple ?page ?n = Some buf"
    using ptrs [of ?n] eq(3) start by (auto simp: slot_tuple_def Let_def)
  have tuples: "page_tuples ?page = page_tuples page @ [Some buf]"
    unfolding page_tuples_def cnt using old new by simp
  have "ptr_ok ?page i" if "i < Suc ?n" for i
    using that ptrs [of i] heap_page_wfD(4) [OF wf, of i] eq(1-3) hdr(2)
    by (cases "i = ?n") (auto simp: ptr_ok_def Let_def)
  moreover have "9 + 4 * ?n \<le> ?fe - unat sz" "?fe - unat sz \<le> 4095" using eq(1,2) by linarith+
  ultimately have "heap_page_wf ?page"
    using lmid eq(3,4) by (simp add: heap_page_wf_def cnt hdr list_all_iff PAGE_SIZE_def)
  moreover have "free_bytes ?page + 4 + unat sz = free_bytes page"
    using eq wf by (simp add: free_bytes_def hdr heap_page_wf_def)
  ultimately show ?thesis using eq1 hdr(3) tuples by blast
qed

lemma mark_removed_refines:
  assumes wf: "heap_page_wf page" and i: "i < slot_count page"
  shows "\<exists>page'. mark_removed page pid (of_nat i) = Inr page' \<and> heap_page_wf page' \<and>
           page_tuples page' = (page_tuples page)[i := None] \<and>
           free_bytes page' = free_bytes page \<and> page' ! 4 = page ! 4 OR COMPACTABLE"
proof -
  let ?p = "(ptr_at i page)\<lparr>start_offset := 0\<rparr>"
  let ?h = "(header_of pid page)\<lparr>hdr_flags := page ! 4 OR COMPACTABLE\<rparr>"
  let ?page = "set_header ?h (set_ptr i ?p page)"
  have l: "length page = 4096" using heap_page_wfD(1) [OF wf] .
  have i': "i < 1022" using i heap_page_wfD(2) [OF wf] by simp
  have eq: "mark_removed page pid (of_nat i) = Inr ?page"
    using l i' by (simp add: mark_removed_def extract_tuple_ptr_eq extract_header_eq
        construct_page_tuple_ptr_eq construct_page_header_buf_eq header_of_fields)
  have hdr: "u16_at 0 ?page = u16_at 0 page" "u16_at 2 ?page = u16_at 2 page" "?page ! 4 = page ! 4 OR COMPACTABLE"
    using u16_at_set_header [of "set_ptr i ?p page" ?h] l i' by (simp_all add: header_of_fields)
  have cnt: "slot_count ?page = slot_count page" by (simp add: slot_count_def [of ?page] slot_count_def hdr)
  have ptrs: "ptr_at j ?page = (if j = i then ?p else ptr_at j page)" if "j < slot_count page" for j
    using that l i' heap_page_wfD(2) [OF wf] by (simp add: ptr_at_set_header ptr_at_set_ptr)
  have far: "drop off ?page = drop off page" if "unat (u16_at 2 page) \<le> off" for off
  proof -
    have "9 + 4 * i \<le> off" using that wf i by (simp add: heap_page_wf_def)
    with l i' show ?thesis by (simp add: drop_set_header drop_set_ptr)
  qed
  have "slot_tuple ?page j = slot_tuple page j" if "j < slot_count page" "j \<noteq> i" for j
    using that ptrs [of j] heap_page_wfD(4) [OF wf that(1)] far
    by (intro slot_tuple_cong) (auto simp: ptr_ok_def Let_def)
  moreover have "slot_tuple ?page i = None" using ptrs [OF i] by (simp add: slot_tuple_def)
  ultimately have "page_tuples ?page = (page_tuples page)[i := None]"
    using i by (intro nth_equalityI) (auto simp: page_tuples_def cnt nth_list_update)
  moreover have "ptr_ok ?page j" if "j < slot_count page" for j
    using that ptrs [OF that] heap_page_wfD(4) [OF wf that] by (auto simp: ptr_ok_def Let_def hdr)
  then have "heap_page_wf ?page" using wf l i' by (simp add: heap_page_wf_def cnt hdr list_all_iff)
  ultimately show ?thesis using eq hdr by (auto simp: free_bytes_def)
qed

section \<open>Tuple buffers\<close>

fun value_bytes :: "ColumnValue \<Rightarrow> bytes" where
  "value_bytes (VString str) = encode_uint16 (of_nat (length str)) @ str_bytes str"
| "value_bytes (VInteger i) = encode_int32 i"
| "value_bytes (VDecimal d) = encode_double d"
| "value_bytes (VBoolean b) = encode_bool (b \<noteq> 0)"

fun has_type :: "ColumnType \<Rightarrow> ColumnValue \<Rightarrow> bool" where
  "has_type STRING (VString str) \<longleftrightarrow> length str < 65536"
| "has_type INTEGER (VInteger _) \<longleftrightarrow> True"
| "has_type DECIMAL (VDecimal _) \<longleftrightarrow> True"
| "has_type BOOLEAN (VBoolean _) \<longleftrightarrow> True"
| "has_type _ _ \<longleftrightarrow> False"

lemma column_typed:
  assumes "has_type t v"
  shows "column_size t v = Inr (of_nat (length (value_bytes v)))" and "column_bytes t v = Inr (value_bytes v)"
  using assms by (cases t; cases v; simp add: str_bytes_def unat_of_nat Let_def)+

lemma tuple_size_loop_typed:
  "list_all2 has_type ts vs \<Longrightarrow>
     tuple_size_loop (length ts) ts vs sz = Inr (sz + of_nat (length (concat (map value_bytes vs))))"
  by (induction arbitrary: sz rule: list_all2_induct) (simp_all add: column_typed add.assoc)

lemma tuple_encode_loop_typed:
  assumes "list_all2 has_type ts vs" and "unat off + length (concat (map value_bytes vs)) \<le> length buf"
    and "length buf < 65536"
  shows "tuple_encode_loop (length ts) ts vs off buf = Inr (put (unat off) (concat (map value_bytes vs)) buf)"
  using assms
proof (induction arbitrary: off buf rule: list_all2_induct)
  case Nil
  then show ?case by (simp add: put_def)
next
  case (Cons t ts v vs)
  let ?b = "value_bytes v"
  have fits: "unat off + length ?b + length (concat (map value_bytes vs)) \<le> length buf"
    using Cons.prems(1) by simp
  have "unat (off + of_nat (length ?b)) = unat off + length ?b"
    using fits Cons.prems(2) by (simp add: unat_word_ariths unat_of_nat)
  then show ?case
    using fits Cons.prems Cons.IH [of "off + of_nat (length ?b)" "put (unat off) ?b buf"] Cons.hyps(1)
    by (simp add: column_typed store_ok put_append)
qed

lemma encode_tuple_typed:
  assumes "list_all2 has_type ts vs" and "length (concat (map value_bytes vs)) < 65536"
  shows "encode_tuple (length ts) ts vs =
    Inr (of_nat (length (concat (map value_bytes vs))), concat (map value_bytes vs))"
proof -
  let ?b = "concat (map value_bytes vs)"
  have u: "unat (of_nat (length ?b) :: u16) = length ?b" using assms(2) by (simp add: unat_of_nat)
  have "tuple_encode_loop (length ts) ts vs 0 (replicate (length ?b) 0) = Inr (put 0 ?b (replicate (length ?b) 0))"
    using tuple_encode_loop_typed [OF assms(1), of 0 "replicate (length ?b) 0"] assms(2) by simp
  also have "put 0 ?b (replicate (length ?b) 0) = ?b" by (simp add: put_def)
  finally show ?thesis
    unfolding encode_tuple_def tuple_size_loop_typed [OF assms(1)] by (simp add: u del: length_concat)
qed

section \<open>Defragmentation\<close>

definition ptr_off :: "nat \<Rightarrow> u16" where
  "ptr_off i = of_nat (5 + 4 * i)"

lemma ptr_off_Suc: "ptr_off i + 4 = ptr_off (Suc i)"
  by (simp add: ptr_off_def add.commute)

lemma unat_ptr_off: "i < 1024 \<Longrightarrow> unat (ptr_off i) = 5 + 4 * i"
  unfolding ptr_off_def by (subst unat_of_nat) simp

lemma tuple_index_of_ptr_off: "i < 1024 \<Longrightarrow> TUPLE_POINTER_OFFSET_TO_TUPLE_INDEX (ptr_off i) = of_nat i"
proof -
  assume "i < 1024"
  then have "uint (ptr_off i) = int (5 + 4 * i)" by (metis unat_ptr_off uint_nat)
  then have "(uint (ptr_off i) - 5) sdiv 4 = int i" by (auto simp: signed_divide_int_def sgn_if)
  then show ?thesis by (simp add: TUPLE_POINTER_OFFSET_TO_TUPLE_INDEX_def)
qed

lemma extract_at_ptr_off:
  assumes "length temp = 4096" and "i < 1024"
  shows "extract_tuple_ptr temp (TUPLE_POINTER_OFFSET_TO_TUPLE_INDEX (ptr_off i)) =
    (if i < 1022 then Inr (ptr_at i temp) else Inl OutOfBounds)"
proof (cases "i < 1022")
  case False
  have "unat (of_nat i * 4 :: u32) = i * 4" using assms(2) by (simp add: unat_word_ariths unat_of_nat)
  with False assms show ?thesis
    by (simp add: tuple_index_of_ptr_off extract_tuple_ptr_def TUPLE_INDEX_TO_TUPLE_POINTER_OFFSET_def
        load_def layout_defs)
qed (use assms in \<open>simp add: tuple_index_of_ptr_off extract_tuple_ptr_eq\<close>)

text \<open>The fuel is enough: the loop never runs out of it.\<close>

lemma defrag_loop_ends:
  assumes "length temp = 4096" and "i + fuel = 1023" and "0 < fuel"
  shows "defrag_loop fuel temp old (ptr_off i) page header \<noteq> Inl Diverges"
  using assms(2,3)
proof (induction fuel arbitrary: i page header)
  case (Suc fuel)
  then have i: "i < 1024" and IH: "i < 1022 \<Longrightarrow> defrag_loop fuel temp old (ptr_off (Suc i)) pg hd \<noteq> Inl Diverges" for pg hd
    by simp_all
  show ?case
    unfolding defrag_loop.simps extract_at_ptr_off [OF assms(1) i] ptr_off_Suc
    using IH by (auto simp: and_then_def load_def store_def guard_def split: sum.split)
qed simp

text \<open>Trailing removed slots are skipped up to the pointer of size 0 that ends the list.\<close>

lemma defrag_loop_skip:
  assumes len: "length temp = 4096" and fs: "unat (free_start old) = 5 + 4 * n" and n: "n < 1022"
    and stop: "tup_size (ptr_at n temp) = 0"
    and removed: "\<forall>j. i \<le> j \<and> j < n \<longrightarrow> start_offset (ptr_at j temp) = 0"
    and "i \<le> n" and "n < i + fuel"
  shows "defrag_loop fuel temp old (ptr_off i) page header = Inr (page, header)"
  using removed \<open>i \<le> n\<close> \<open>n < i + fuel\<close>
proof (induction fuel arbitrary: i)
  case (Suc fuel)
  then have ext: "extract_tuple_ptr temp (TUPLE_POINTER_OFFSET_TO_TUPLE_INDEX (ptr_off i)) = Inr (ptr_at i temp)"
    using extract_at_ptr_off [OF len, of i] n by simp
  show ?case
  proof (cases "i = n")
    case True
    then show ?thesis unfolding defrag_loop.simps ext by (simp add: stop)
  next
    case False
    with Suc have "start_offset (ptr_at i temp) = 0"
      and "defrag_loop fuel temp old (ptr_off (Suc i)) page header = Inr (page, header)" by simp_all
    then show ?thesis unfolding defrag_loop.simps ext by (simp add: ptr_off_Suc)
  qed
qed simp

text \<open>The tuples of the first \<open>k\<close> slots lie below one another without gaps, from the end of the page.\<close>

definition tuple_top :: "bytes \<Rightarrow> nat \<Rightarrow> nat" where
  "tuple_top temp j = (if j = 0 then 4095 else unat (start_offset (ptr_at (j - 1) temp)))"

definition packed :: "bytes \<Rightarrow> nat \<Rightarrow> bool" where
  "packed temp k \<longleftrightarrow>
     (\<forall>j < k. start_offset (ptr_at j temp) \<noteq> 0 \<and> tup_size (ptr_at j temp) \<noteq> 0 \<and>
        unat (start_offset (ptr_at j temp)) + unat (tup_size (ptr_at j temp)) = tuple_top temp j)"

lemma packedD:
  assumes "packed temp k" and "j < k"
  shows "start_offset (ptr_at j temp) \<noteq> 0" and "tup_size (ptr_at j temp) \<noteq> 0"
    and "unat (start_offset (ptr_at j temp)) = tuple_top temp (Suc j)"
    and "tuple_top temp (Suc j) + unat (tup_size (ptr_at j temp)) = tuple_top temp j"
  using assms by (auto simp: packed_def tuple_top_def [of _ "Suc j"])

lemma packed_top_le: "packed temp k \<Longrightarrow> j \<le> k \<Longrightarrow> i \<le> j \<Longrightarrow> tuple_top temp j \<le> tuple_top temp i"
proof (induction j)
  case (Suc j)
  have "tuple_top temp (Suc j) \<le> tuple_top temp j"
    using packedD(4) [of temp k j] Suc.prems by simp
  with Suc show ?case by (cases "i = Suc j") auto
qed simp

text \<open>Which bytes of the page the copying of slots \<open>i\<close> to \<open>k - 1\<close> takes from the old page.\<close>

definition copied :: "bytes \<Rightarrow> nat \<Rightarrow> nat \<Rightarrow> nat \<Rightarrow> bool" where
  "copied temp i k x \<longleftrightarrow>
     (5 + 4 * i \<le> x \<and> x < 5 + 4 * k) \<or> (tuple_top temp k \<le> x \<and> x < tuple_top temp i)"

lemma tuple_top_le: "packed temp k \<Longrightarrow> j \<le> k \<Longrightarrow> tuple_top temp j \<le> 4095"
  using packed_top_le [of temp k j 0] by (simp add: tuple_top_def)

lemma defrag_copy_nth:
  assumes "packed temp k" and "i < k" and "length temp = 4096" and "length page = 4096" and "9 + 4 * i \<le> 4096"
    and "x < 4096"
  defines "o' \<equiv> tuple_top temp (Suc i)" and "s \<equiv> unat (tup_size (ptr_at i temp))"
  shows "put (5 + 4 * i) (take 4 (drop (5 + 4 * i) temp)) (put o' (take s (drop o' temp)) page) ! x =
    (if copied temp i (Suc i) x then temp ! x else page ! x)"
proof -
  have top: "o' + s = tuple_top temp i" "tuple_top temp i \<le> 4095"
    using packedD(4) [OF assms(1,2)] tuple_top_le [OF assms(1), of i] assms(2) by (simp_all add: o'_def s_def)
  then have "length (put o' (take s (drop o' temp)) page) = 4096" using assms by simp
  then show ?thesis
    using assms(3-6) top by (auto simp: put_nth copied_def o'_def [symmetric])
qed

lemma copied_Suc:
  assumes "packed temp k" and "i < k"
  shows "copied temp i k x \<longleftrightarrow> copied temp (Suc i) k x \<or> copied temp i (Suc i) x"
proof -
  have "tuple_top temp k \<le> tuple_top temp (Suc i)" "tuple_top temp (Suc i) \<le> tuple_top temp i"
    using packed_top_le [OF assms(1), of k "Suc i"] packed_top_le [OF assms(1), of "Suc i" i] assms(2) by simp_all
  with assms(2) show ?thesis unfolding copied_def by auto
qed

lemma defrag_loop_copy:
  assumes len: "length temp = 4096" and fs: "unat (free_start old) = 5 + 4 * n" and n: "n < 1022"
    and stop: "tup_size (ptr_at n temp) = 0" and pk: "packed temp k" and kn: "k \<le> n"
    and removed: "\<forall>j. k \<le> j \<and> j < n \<longrightarrow> start_offset (ptr_at j temp) = 0"
  shows "i \<le> k \<Longrightarrow> n < i + fuel \<Longrightarrow> length page = 4096 \<Longrightarrow>
      unat (free_start header) = 5 + 4 * i \<Longrightarrow> unat (free_end header) = tuple_top temp i \<Longrightarrow>
    \<exists>page' header'. defrag_loop fuel temp old (ptr_off i) page header = Inr (page', header') \<and>
      length page' = 4096 \<and> (\<forall>x < 4096. page' ! x = (if copied temp i k x then temp ! x else page ! x)) \<and>
      unat (free_start header') = 5 + 4 * k \<and> unat (free_end header') = tuple_top temp k"
proof (induction fuel arbitrary: i page header)
  case 0
  then show ?case using kn by simp
next
  case (Suc fuel)
  show ?case
  proof (cases "i = k")
    case True
    have "defrag_loop (Suc fuel) temp old (ptr_off i) page header = Inr (page, header)"
      using removed Suc.prems kn True by (intro defrag_loop_skip [OF len fs n stop]) auto
    moreover have "\<not> copied temp i k x" for x using True by (auto simp: copied_def)
    ultimately show ?thesis using Suc.prems True by simp
  next
    case False
    with Suc.prems have ik: "i < k" by simp
    let ?s = "unat (tup_size (ptr_at i temp))" and ?o = "tuple_top temp (Suc i)"
    let ?h = "header\<lparr>free_end := free_end header - tup_size (ptr_at i temp), free_start := free_start header + 4\<rparr>"
    let ?p1 = "put ?o (take ?s (drop ?o temp)) page"
    let ?p2 = "put (5 + 4 * i) (take 4 (drop (5 + 4 * i) temp)) ?p1"
    note d = packedD [OF pk ik]
    have top: "tuple_top temp i \<le> 4095" using tuple_top_le [OF pk, of i] ik by simp
    have fe: "unat (free_end header) = ?o + ?s" using Suc.prems(5) d(4) by simp
    have os: "?o + ?s \<le> 4095" using top d(4) by simp
    have l1: "length ?p1 = 4096" using Suc.prems(3) len top d(4) by simp
    have l2: "length ?p2 = 4096" using l1 len ik kn n by simp
    have off: "unat (ptr_off i) = 5 + 4 * i" using unat_ptr_off [of i] ik kn n by simp
    have ext: "extract_tuple_ptr temp (TUPLE_POINTER_OFFSET_TO_TUPLE_INDEX (ptr_off i)) = Inr (ptr_at i temp)"
      using extract_at_ptr_off [OF len, of i] ik kn n by simp
    have nstop: "\<not> free_start old < ptr_off i" using fs off ik kn by (simp add: word_less_nat_alt)
    have step: "defrag_loop (Suc fuel) temp old (ptr_off i) page header =
        defrag_loop fuel temp old (ptr_off (Suc i)) ?p2 ?h"
      unfolding defrag_loop.simps ext
      using d(1,2) nstop os len fe Suc.prems(3,4) off ik kn n
      by (simp add: d(3) load_ok store_ok TUPLE_PTR_SIZE_def ptr_off_Suc)
    have fs': "unat (free_start header + 4) = 5 + 4 * Suc i"
      using Suc.prems(4) ik kn n by (simp add: unat_word_ariths)
    have "tup_size (ptr_at i temp) \<le> free_end header" using fe by (simp add: word_le_nat_alt)
    then have fe': "unat (free_end header - tup_size (ptr_at i temp)) = ?o" using fe by (simp add: unat_sub)
    from Suc.IH [of "Suc i" ?p2 ?h] ik Suc.prems(2) l2 fs' fe' obtain page' header' where
      r: "defrag_loop fuel temp old (ptr_off (Suc i)) ?p2 ?h = Inr (page', header')" "length page' = 4096"
        "\<forall>x < 4096. page' ! x = (if copied temp (Suc i) k x then temp ! x else ?p2 ! x)"
        "unat (free_start header') = 5 + 4 * k" "unat (free_end header') = tuple_top temp k"
      by auto
    have "page' ! x = (if copied temp i k x then temp ! x else page ! x)" if "x < 4096" for x
      using r(3) that defrag_copy_nth [OF pk ik len Suc.prems(3) _ that] copied_Suc [OF pk ik, of x] ik kn n
      by simp
    with r step show ?thesis by auto
  qed
qed

lemma u16_at_nth:
  assumes "off + 2 \<le> length page"
  shows "u16_at off page = push_bit 8 (ucast (page ! off)) OR ucast (page ! Suc off)"
proof -
  have "drop off page = page ! off # page ! Suc off # drop (Suc (Suc off)) page"
    using assms by (simp add: Cons_nth_drop_Suc)
  then show ?thesis by (simp add: u16_at_def)
qed

lemma ptr_at_cong:
  assumes "\<forall>x. 5 + 4 * i \<le> x \<and> x < 9 + 4 * i \<longrightarrow> page ! x = page' ! x"
    and "9 + 4 * i \<le> length page" and "9 + 4 * i \<le> length page'"
  shows "ptr_at i page = ptr_at i page'"
  using assms by (simp add: ptr_at_def u16_at_nth)

lemma take_drop_cong:
  assumes "\<forall>x. o' \<le> x \<and> x < o' + n \<longrightarrow> page ! x = page' ! x" and "length page = length page'"
  shows "take n (drop o' page) = take n (drop o' page')"
  by (rule nth_equalityI) (use assms in auto)

lemma defragment_page_keeps:
  assumes wf: "heap_page_wf temp" and flag: "temp ! 4 AND COMPACTABLE \<noteq> 0" and fresh: "length fresh = PAGE_SIZE"
    and pk: "packed temp k" and kn: "k \<le> slot_count temp" and n: "slot_count temp < 1022"
    and removed: "\<forall>j. k \<le> j \<and> j < slot_count temp \<longrightarrow> start_offset (ptr_at j temp) = 0"
    and stop: "tup_size (ptr_at (slot_count temp) temp) = 0"
  shows "\<exists>page. defragment_page fresh temp pid = Inr (Some page) \<and> heap_page_wf page \<and>
    page_tuples page = take k (page_tuples temp) \<and> page ! 4 = temp ! 4 AND NOT COMPACTABLE"
proof -
  let ?old = "header_of pid temp" and ?h = "\<lparr>hdr_id = pid, free_start = 5, free_end = 4095, hdr_flags = 0\<rparr>"
  have len: "length temp = 4096" using heap_page_wfD(1) [OF wf] .
  have fs: "unat (free_start ?old) = 5 + 4 * slot_count temp" using wf by (simp add: heap_page_wf_def header_of_fields)
  have fuel: "slot_count temp < 0 + DEFRAG_FUEL" using n by (simp add: DEFRAG_FUEL_def)
  have "ptr_off 0 = 5" by (simp add: ptr_off_def)
  with defrag_loop_copy [OF len fs n stop pk kn removed, of 0 DEFRAG_FUEL fresh ?h] fuel fresh
  obtain p1 h1 where r: "defrag_loop DEFRAG_FUEL temp ?old 5 fresh ?h = Inr (p1, h1)" "length p1 = 4096"
    "\<forall>x < 4096. p1 ! x = (if copied temp 0 k x then temp ! x else fresh ! x)"
    "unat (free_start h1) = 5 + 4 * k" "unat (free_end h1) = tuple_top temp k"
    by (auto simp: PAGE_SIZE_def tuple_top_def)
  let ?h' = "h1\<lparr>hdr_flags := temp ! 4 AND NOT COMPACTABLE\<rparr>"
  let ?page = "set_header ?h' p1"
  have l: "length ?page = 4096" using r(2) by simp
  have eq: "defragment_page fresh temp pid = Inr (Some ?page)"
    using flag len r(1,2)
    by (simp add: defragment_page_def extract_header_eq header_of_fields construct_page_header_buf_eq)
  have hdr: "u16_at 0 ?page = free_start h1" "u16_at 2 ?page = free_end h1" "?page ! 4 = temp ! 4 AND NOT COMPACTABLE"
    using u16_at_set_header [of p1 ?h'] r(2) by simp_all
  have cnt: "slot_count ?page = k" by (simp add: slot_count_def hdr r(4))
  have room: "5 + 4 * k \<le> tuple_top temp k"
  proof (cases k)
    case (Suc j)
    with kn have "ptr_ok temp j" using heap_page_wfD(4) [OF wf, of j] by simp
    with packedD(1,3) [OF pk, of j] Suc show ?thesis
      using wf kn by (simp add: ptr_ok_def Let_def heap_page_wf_def)
  qed (simp add: tuple_top_def)
  have same: "?page ! x = temp ! x" if "copied temp 0 k x" for x
  proof -
    from that have x: "5 \<le> x" "x < 4096" using room tuple_top_le [OF pk le_refl] by (auto simp: copied_def tuple_top_def)
    then have "?page ! x = p1 ! x" using r(2) by (simp add: nth_set_header)
    with r(3) x that show ?thesis by simp
  qed
  have ptrs: "ptr_at j ?page = ptr_at j temp" if "j < k" for j
    using that l len kn n same by (intro ptr_at_cong) (auto simp: copied_def)
  have span: "tuple_top temp k \<le> unat (start_offset (ptr_at j temp))"
      "unat (start_offset (ptr_at j temp)) + unat (tup_size (ptr_at j temp)) \<le> 4095" if "j < k" for j
    using packedD(3,4) [OF pk that] packed_top_le [OF pk, of k "Suc j"] tuple_top_le [OF pk, of j] that by simp_all
  have "slot_tuple ?page j = slot_tuple temp j" if "j < k" for j
  proof (rule slot_tuple_cong [OF ptrs [OF that]], rule take_drop_cong)
    have "copied temp 0 k x" if "unat (start_offset (ptr_at j temp)) \<le> x"
      "x < unat (start_offset (ptr_at j temp)) + unat (tup_size (ptr_at j temp))" for x
      using that span [OF \<open>j < k\<close>] by (simp add: copied_def tuple_top_def [of _ 0])
    then show "\<forall>x. unat (start_offset (ptr_at j temp)) \<le> x \<and>
        x < unat (start_offset (ptr_at j temp)) + unat (tup_size (ptr_at j temp)) \<longrightarrow> ?page ! x = temp ! x"
      using same by blast
  qed (simp add: l len)
  then have "page_tuples ?page = take k (page_tuples temp)"
    using kn by (intro nth_equalityI) (simp_all add: page_tuples_def cnt)
  moreover have "heap_page_wf ?page"
    using l room tuple_top_le [OF pk le_refl] ptrs span
    by (auto simp: heap_page_wf_def cnt hdr r(4,5) list_all_iff PAGE_SIZE_def ptr_ok_def Let_def)
  ultimately show ?thesis using eq hdr(3) by blast
qed

text \<open>A removed tuple before a kept one: the pointer of the kept tuple is copied as it is although the
  tuple moved.\<close>

lemma defragment_page_stale:
  assumes wf: "heap_page_wf temp" and flag: "temp ! 4 AND COMPACTABLE \<noteq> 0" and fresh: "length fresh = PAGE_SIZE"
    and two: "slot_count temp = 2" and stop: "tup_size (ptr_at 2 temp) = 0"
    and gone: "ptr_at 0 temp = \<lparr>start_offset = 0, tup_size = s\<rparr>" and s: "s \<noteq> 0"
    and kept: "ptr_at 1 temp = \<lparr>start_offset = o', tup_size = t\<rparr>" "o' \<noteq> 0" "t \<noteq> 0"
    and place: "unat o' + unat t + unat s = 4095" and small: "unat t \<le> unat s"
  shows "\<exists>page. defragment_page fresh temp pid = Inr (Some page) \<and> \<not> heap_page_wf page \<and>
    page_tuples page = [Some (take (unat t) (drop (unat o') fresh))]"
proof -
  let ?old = "header_of pid temp" and ?h = "\<lparr>hdr_id = pid, free_start = 5, free_end = 4095, hdr_flags = 0\<rparr>"
  let ?tup = "take (unat t) (drop (unat o') temp)" and ?ptr = "take 4 (drop 9 temp)"
  let ?p1 = "put 5 ?ptr (put (4095 - unat t) ?tup fresh)"
  let ?h1 = "\<lparr>hdr_id = pid, free_start = 9, free_end = 4095 - t, hdr_flags = temp ! 4 AND NOT COMPACTABLE\<rparr>"
  let ?page = "set_header ?h1 ?p1"
  have len: "length temp = 4096" "length fresh = 4096" using heap_page_wfD(1) [OF wf] fresh by (simp_all add: PAGE_SIZE_def)
  have fs: "unat (free_start ?old) = 13" using wf two by (simp add: heap_page_wf_def header_of_fields)
  have "unat o' \<ge> 13" using wf heap_page_wfD(4) [OF wf, of 1] kept two
    by (simp add: ptr_ok_def Let_def heap_page_wf_def)
  have l1: "length ?p1 = 4096" using len place by simp
  have offs: "ptr_off 0 = 5" "ptr_off 1 = 9" "ptr_off 2 = 13" by (simp_all add: ptr_off_def)
  have ext: "extract_tuple_ptr temp (TUPLE_POINTER_OFFSET_TO_TUPLE_INDEX (ptr_off i)) = Inr (ptr_at i temp)" if "i < 3" for i
    using extract_at_ptr_off [OF len(1), of i] that by simp
  have lt: "\<not> free_start ?old < 5" "\<not> free_start ?old < 9"
    using fs by (simp_all add: word_less_nat_alt)
  have s0: "defrag_loop (Suc f) temp ?old 5 fresh ?h = defrag_loop f temp ?old 9 fresh ?h" for f
    unfolding defrag_loop.simps(2) ext [of 0, unfolded offs, simplified] by (simp add: gone s lt)
  have s1: "defrag_loop (Suc f) temp ?old 9 fresh ?h = defrag_loop f temp ?old 13 ?p1
      \<lparr>hdr_id = pid, free_start = 9, free_end = 4095 - t, hdr_flags = 0\<rparr>" for f
    unfolding defrag_loop.simps(2) ext [of 1, unfolded offs, simplified]
    using place len kept(2,3) by (simp add: kept(1) [unfolded One_nat_def] lt load_ok store_ok TUPLE_PTR_SIZE_def)
  have s2: "defrag_loop (Suc f) temp ?old 13 page h = Inr (page, h)" for f page h
    unfolding defrag_loop.simps(2) ext [of 2, unfolded offs, simplified] by (simp add: stop)
  have fuel: "DEFRAG_FUEL = Suc (Suc (Suc 1020))" by (simp add: DEFRAG_FUEL_def)
  have loop: "defrag_loop DEFRAG_FUEL temp ?old 5 fresh ?h =
      Inr (?p1, \<lparr>hdr_id = pid, free_start = 9, free_end = 4095 - t, hdr_flags = 0\<rparr>)"
    unfolding fuel s0 s1 s2 ..
  have eq: "defragment_page fresh temp pid = Inr (Some ?page)"
    using flag len loop l1
    by (simp add: defragment_page_def extract_header_eq header_of_fields construct_page_header_buf_eq)
  have t: "unat (4095 - t) = 4095 - unat t"
    using place by (subst unat_sub) (simp_all add: word_le_nat_alt)
  have hdr: "u16_at 0 ?page = 9" "u16_at 2 ?page = 4095 - t"
    using u16_at_set_header [of ?p1 ?h1] l1 by simp_all
  have cnt: "slot_count ?page = 1" by (simp add: slot_count_def hdr)
  have "ptr_at 0 ?page = ptr_at 0 ?p1" using l1 by (simp add: ptr_at_set_header)
  also have "\<dots> = ptr_at 1 temp"
    using len place l1 by (simp add: ptr_at_def u16_at_nth put_nth)
  finally have p0: "ptr_at 0 ?page = \<lparr>start_offset = o', tup_size = t\<rparr>" using kept(1) by simp
  have "unat o' < 4095 - unat t" using place unat_nonzero [OF s] by simp
  then have "\<not> ptr_ok ?page 0" using kept(2) t by (simp add: ptr_ok_def p0 hdr)
  then have "\<not> heap_page_wf ?page" by (simp add: heap_page_wf_def cnt)
  moreover have "take (unat t) (drop (unat o') ?page) = take (unat t) (drop (unat o') fresh)"
    using \<open>unat o' \<ge> 13\<close> l1 len place small
    by (simp add: drop_set_header drop_put_after take_drop_put_before)
  then have "page_tuples ?page = [Some (take (unat t) (drop (unat o') fresh))]"
    using kept(2) by (simp add: page_tuples_def cnt slot_tuple_def p0)
  ultimately show ?thesis using eq by blast
qed

lemma store_length: "store off src buf = Inr b \<Longrightarrow> length b = length buf"
  by (auto simp: store_def split: if_splits)

lemma defrag_loop_length:
  "defrag_loop fuel temp old off page header = Inr (page', header') \<Longrightarrow> length page' = length page"
proof (induction fuel arbitrary: off page header)
  case (Suc fuel)
  from Suc.prems show ?case
    unfolding defrag_loop.simps
    by (auto simp: and_then_Inr_iff guard_Inr_iff split: if_splits dest!: Suc.IH store_length)
qed (simp add: defrag_loop.simps)

lemma defragment_page_length:
  assumes "defragment_page fresh temp pid = Inr (Some page)" and "length fresh = n"
  shows "length page = n"
  using assms
  by (auto simp: defragment_page_def Let_def and_then_Inr_iff construct_page_header_buf_def
      split: if_splits dest!: defrag_loop_length store_length)

end
