(* ===== verification/Heapfile.thy ===== *)
theory Heapfile
  imports Heap_Page
begin

text \<open>
  \<^verbatim>\<open>src/disk/heapfile.c\<close>: tables as files of slotted pages. Page 0 of the file is the page directory,
  page 1 the schema, the pages from 2 on hold tuples. The directory is kept in memory as well, as a
  hash table from page numbers to their free space. A \<open>Table\<close> is what a caller of the operations
  holds: the heap, the disk manager and the files. The latch of the disk manager is taken and released
  inside every operation, so each is one atomic step. Messages on \<^verbatim>\<open>stderr\<close> are left out.
\<close>

section \<open>State\<close>

record Table =
  t_mem :: cmem
  t_dm :: DiskManager
  t_files :: fs

record Column =
  name_len :: u8
  col_name :: string
  col_type :: ColumnType

record RID =
  rid_pid :: page_id_t
  slot_num :: u32

record AddTupleArgs =
  column_names :: "string list"
  column_values :: "ColumnValue list"
  column_types :: "ColumnType list"
  num_columns :: u8

datatype TupleAction = TUPLE_ADD | TUPLE_REMOVE

definition START_USER_PAGE :: nat where
  "START_USER_PAGE = 2"

definition START_COLUMNS_INFO :: nat where
  "START_COLUMNS_INFO = 1"

lemmas [layout_defs] = START_USER_PAGE_def START_COLUMNS_INFO_def

definition SCHEMA_COLUMN_SIZE :: "u8 \<Rightarrow> nat" where
  "SCHEMA_COLUMN_SIZE col_name_len = 1 + unat col_name_len + 1"

definition PID_TO_PAGE_DIRECTORY_OFFSET :: "page_id_t \<Rightarrow> nat" where
  "PID_TO_PAGE_DIRECTORY_OFFSET pid = unat (pid * 2)"

section \<open>Finding a page\<close>

text \<open>The directory pointer of a disk manager that is not a table's was never set.\<close>

definition directory :: "DiskManager \<Rightarrow> HashTable res" where
  "directory dm = (case page_directory dm of None \<Rightarrow> Inl NullDeref | Some ht \<Rightarrow> Inr ht)"

text \<open>\<^verbatim>\<open>(size_t)found->data\<close> is the address of the entry, not the free space stored there.\<close>

fun spacious_loop :: "u16 \<Rightarrow> cmem \<Rightarrow> HashTable \<Rightarrow> nat list \<Rightarrow> page_id_t option res" where
  "spacious_loop size_needed m ht [] = Inr None"
| "spacious_loop size_needed m ht (i # is) =
     and_then (sprintf_d 11 (of_nat i)) (\<lambda>pid_key.
     and_then (hash_find pid_key m ht) (\<lambda>found.
       case found of
         Some e \<Rightarrow> (if unat size_needed \<le> el_data e then Inr (Some (of_nat i))
                    else spacious_loop size_needed m ht is)
       | None \<Rightarrow> spacious_loop size_needed m ht is))"

definition find_spacious_page :: "u16 \<Rightarrow> cmem \<Rightarrow> DiskManager \<Rightarrow> page_id_t option res" where
  "find_spacious_page size_needed m dm =
     and_then (directory dm) (\<lambda>ht. spacious_loop size_needed m ht [START_USER_PAGE ..< MAX_PAGES])"

section \<open>Creating a table\<close>

text \<open>One round per page: four bytes of the directory page, and for user pages an entry of the
  in-memory directory.\<close>

fun directory_loop :: "nat list \<Rightarrow> cmem \<times> HashTable \<Rightarrow> bytes \<Rightarrow> ((cmem \<times> HashTable) \<times> bytes) res" where
  "directory_loop [] st f = Inr (st, f)"
| "directory_loop (pid # pids) st f =
     (let f = f @ encode_uint16 (of_nat pid) @ encode_uint16 4096
      in if pid < START_USER_PAGE then directory_loop pids st f
         else and_then (sprintf_d 7 (of_nat pid)) (\<lambda>pid_str.
              and_then (dict_insert pid_str (CU16 4096) st) (\<lambda>st.
                directory_loop pids st f)))"

text \<open>The column \<open>j\<close> goes to \<^verbatim>\<open>START_COLUMNS_INFO + j * col_size\<close>, with the size of the column before it.\<close>

fun write_columns :: "nat \<Rightarrow> nat \<Rightarrow> nat \<Rightarrow> Column list \<Rightarrow> bytes \<Rightarrow> bytes res" where
  "write_columns 0 j col_size cols buf = Inr buf"
| "write_columns (Suc n) j col_size (c # cols) buf =
     (let off = START_COLUMNS_INFO + j * col_size
      in and_then (store off [name_len c] buf) (\<lambda>buf.
         and_then (load 0 (unat (name_len c)) (str_bytes (col_name c) @ [0])) (\<lambda>nm.
         and_then (store (off + 1) nm buf) (\<lambda>buf.
         and_then (store (off + 1 + unat (name_len c)) [type_code (col_type c)] buf) (\<lambda>buf.
           write_columns n (Suc j) (SCHEMA_COLUMN_SIZE (name_len c)) cols buf)))))"
| "write_columns (Suc n) j col_size [] buf = Inl OutOfBounds"

text \<open>The name is copied into a buffer of 15 bytes.\<close>

definition create_table ::
    "string \<Rightarrow> Column list \<Rightarrow> u8 \<Rightarrow> cmem \<Rightarrow> fs \<Rightarrow> (DiskManager option \<times> cmem \<times> fs) res" where
  "create_table name columns n_columns m files =
     (if 15 \<le> length name then Inl OutOfBounds
      else
        and_then (table_file name files) (\<lambda>(path, files).
          if contents path files \<noteq> [] then Inr (None, m, files)
          else
            and_then (directory_loop [0 ..< MAX_PAGES] (m, init_hash (of_nat MAX_PAGES)) []) (\<lambda>((m, ht), dir).
            and_then (write_columns (unat n_columns) 0 0 columns (n_columns # replicate (PAGE_SIZE - 1) 0)) (\<lambda>col_buf.
              Inr (Some \<lparr>page_directory = Some ht, page_type = None, table_name = name\<rparr>, m,
                   files(path \<mapsto> dir @ replicate (PAGE_SIZE - MAX_PAGES * 4) 0 @ col_buf))))))"

section \<open>Adding, removing and reading tuples\<close>

definition new_heap_page :: "bytes \<Rightarrow> Table \<Rightarrow> (page_id_t \<times> Table) res" where
  "new_heap_page junk t =
     and_then (find_spacious_page 4096 (t_mem t) (t_dm t)) (\<lambda>r.
       case r of
         None \<Rightarrow> Inr (0, t)
       | Some pid \<Rightarrow>
           and_then (construct_page_header_buf junk
               \<lparr>hdr_id = pid, free_start = 5, free_end = 4095, hdr_flags = 0\<rparr>) (\<lambda>page.
           and_then (write_page pid (t_dm t) page (t_files t)) (\<lambda>files.
             Inr (pid, t\<lparr>t_files := files\<rparr>))))"

definition update_page_dir :: "page_id_t \<Rightarrow> u16 \<Rightarrow> TupleAction \<Rightarrow> Table \<Rightarrow> Table res" where
  "update_page_dir pid tuple_size act t =
     and_then (sprintf_u 11 pid) (\<lambda>key.
       let (pid_key, m) = malloc (CStr key) (t_mem t) in
       and_then (directory (t_dm t)) (\<lambda>ht.
       and_then (hash_find key m ht) (\<lambda>found.
         case found of
           None \<Rightarrow> Inl NullDeref
         | Some e \<Rightarrow>
             and_then (deref (Some (el_data e)) m) (\<lambda>c.
             and_then (as_u16 c) (\<lambda>curr_free_space.
             and_then (hash_remove key m ht) (\<lambda>(ok, m, ht).
               let new_free = (if act = TUPLE_ADD then curr_free_space - tuple_size
                               else curr_free_space + tuple_size);
                   (free_space, m) = malloc (CU16 new_free) m
               in and_then (hash_insert (Some pid_key) (Some free_space) m ht) (\<lambda>ht.
                  and_then (table_file (table_name (t_dm t)) (t_files t)) (\<lambda>(path, files).
                    Inr \<lparr>t_mem = m, t_dm = (t_dm t)\<lparr>page_directory := Some ht\<rparr>,
                         t_files = files(path \<mapsto>
                           file_write (PID_TO_PAGE_DIRECTORY_OFFSET pid)
                             (encode_uint16 (ucast pid) @ encode_uint16 new_free)
                             (contents path files))\<rparr>))))))))"

text \<open>\<^verbatim>\<open>strncmp(a, b, n) == 0\<close>; a missing byte is the terminating zero.\<close>

fun strncmp_eq :: "nat \<Rightarrow> bytes \<Rightarrow> bytes \<Rightarrow> bool" where
  "strncmp_eq 0 a b \<longleftrightarrow> True"
| "strncmp_eq (Suc n) (x # a) (y # b) \<longleftrightarrow> x = y \<and> (x = 0 \<or> strncmp_eq n a b)"
| "strncmp_eq (Suc n) [] (y # b) \<longleftrightarrow> y = 0"
| "strncmp_eq (Suc n) (x # a) [] \<longleftrightarrow> x = 0"
| "strncmp_eq (Suc n) [] [] \<longleftrightarrow> True"

definition nth_arg :: "nat \<Rightarrow> 'a list \<Rightarrow> 'a res" where
  "nth_arg i xs = (if i < length xs then Inr (xs ! i) else Inl OutOfBounds)"

text \<open>The validation of the columns of a new tuple against the schema page; \<open>schema\<close> starts after the
  number of columns. The offset of column \<open>i\<close> is computed from the length of the name before it.\<close>

fun schema_loop :: "nat \<Rightarrow> nat \<Rightarrow> u8 \<Rightarrow> nat \<Rightarrow> bytes \<Rightarrow> AddTupleArgs \<Rightarrow> bool res" where
  "schema_loop 0 i cols_num off schema args = Inr True"
| "schema_loop (Suc n) i cols_num off schema args =
     and_then (byte_at off schema) (\<lambda>prev_len.
       let off = i * (1 + unat prev_len + 1) in
       and_then (byte_at off schema) (\<lambda>col_name_len.
       and_then (load (off + 1) (unat col_name_len) schema) (\<lambda>col_name_buf.
       and_then (byte_at (off + unat col_name_len + 1) schema) (\<lambda>data_type.
         if num_columns args \<noteq> cols_num then Inr False
         else
           and_then (nth_arg i (column_names args)) (\<lambda>nm.
             if \<not> strncmp_eq (unat col_name_len) col_name_buf (str_bytes nm) then Inr False
             else
               and_then (nth_arg i (column_types args)) (\<lambda>ty.
                 if type_code ty \<noteq> data_type then Inr False
                 else schema_loop n (Suc i) cols_num off schema args))))))"

definition check_schema :: "bytes \<Rightarrow> AddTupleArgs \<Rightarrow> bool res" where
  "check_schema page args =
     and_then (byte_at 0 page) (\<lambda>cols_num.
       schema_loop (unat cols_num) 0 cols_num 0 (drop START_COLUMNS_INFO page) args)"

text \<open>The result is what is stored through \<^verbatim>\<open>tup_ptr_out\<close>, if anything. The outcome of the search is
  not checked: \<open>junk_pid\<close> is the content of the fresh \<^verbatim>\<open>page_id_t\<close> it is to be stored in.\<close>

definition add_tuple ::
    "bytes \<Rightarrow> page_id_t \<Rightarrow> AddTupleArgs \<Rightarrow> Table \<Rightarrow> (TuplePtr option \<times> Table) res" where
  "add_tuple junk junk_pid args t =
     and_then (encode_tuple (unat (num_columns args)) (column_types args) (column_values args))
       (\<lambda>(tuple_size, tuple_buf).
     and_then (find_spacious_page tuple_size (t_mem t) (t_dm t)) (\<lambda>found.
       let pid = (case found of Some p \<Rightarrow> p | None \<Rightarrow> junk_pid) in
       and_then (read_page junk pid (t_dm t) (t_files t)) (\<lambda>(page, files).
       and_then (extract_header page pid) (\<lambda>header.
       and_then (read_page junk 1 (t_dm t) files) (\<lambda>(schema, files).
       and_then (check_schema schema args) (\<lambda>valid.
         if \<not> valid then Inr (None, t\<lparr>t_files := files\<rparr>)
         else
           and_then (place_tuple page header tuple_size tuple_buf) (\<lambda>(tuple_ptr, page).
           and_then (write_page pid (t_dm t) page files) (\<lambda>files.
           and_then (update_page_dir pid tuple_size TUPLE_ADD (t\<lparr>t_files := files\<rparr>)) (\<lambda>t.
             Inr (Some tuple_ptr, t))))))))))"

definition remove_tuple :: "bytes \<Rightarrow> RID \<Rightarrow> Table \<Rightarrow> Table res" where
  "remove_tuple junk rid t =
     and_then (read_page junk (rid_pid rid) (t_dm t) (t_files t)) (\<lambda>(page, files).
     and_then (mark_removed page (rid_pid rid) (slot_num rid)) (\<lambda>page.
     and_then (write_page (rid_pid rid) (t_dm t) page files) (\<lambda>files.
       Inr (t\<lparr>t_files := files\<rparr>))))"

text \<open>The returned pointer is the rest of the page from the tuple on; \<open>None\<close> is the null pointer.\<close>

definition get_tuple :: "bytes \<Rightarrow> RID \<Rightarrow> Table \<Rightarrow> (bytes option \<times> Table) res" where
  "get_tuple junk rid t =
     and_then (read_page junk (rid_pid rid) (t_dm t) (t_files t)) (\<lambda>(page, files).
     and_then (extract_tuple_ptr page (slot_num rid)) (\<lambda>tuple_ptr.
       Inr (if start_offset tuple_ptr = 0 then None else Some (drop (unat (start_offset tuple_ptr)) page),
            t\<lparr>t_files := files\<rparr>)))"

text \<open>\<^verbatim>\<open>defragment\<close> reads the page twice with no write in between; \<open>fresh\<close> is the buffer of the new page.\<close>

definition defragment :: "bytes \<Rightarrow> bytes \<Rightarrow> page_id_t \<Rightarrow> Table \<Rightarrow> Table res" where
  "defragment junk fresh page_id t =
     and_then (read_page junk page_id (t_dm t) (t_files t)) (\<lambda>(temp, files).
     and_then (defragment_page fresh temp page_id) (\<lambda>r.
       case r of
         None \<Rightarrow> Inr (t\<lparr>t_files := files\<rparr>)
       | Some page \<Rightarrow>
           and_then (write_page page_id (t_dm t) page files) (\<lambda>files.
             Inr (t\<lparr>t_files := files\<rparr>))))"

section \<open>The page directory in memory\<close>

text \<open>Every user page has an entry with its free space. The entries lie above the first 64 KiB of the
  address space, which no process maps.\<close>

definition entry_ok :: "cmem \<Rightarrow> HashEl list \<Rightarrow> bool" where
  "entry_ok m b \<longleftrightarrow> (\<exists>e w. b = [e] \<and> 65536 \<le> el_data e \<and> cells m (el_data e) = Some (CU16 w))"

definition dir_ok :: "cmem \<Rightarrow> HashTable \<Rightarrow> bool" where
  "dir_ok m ht \<longleftrightarrow>
     slot_inv m ht \<and> ht_size ht = 500 \<and> 65536 \<le> brk m \<and>
     (\<forall>i. 2 \<le> i \<and> i < 500 \<longrightarrow> entry_ok m (ht_arr ht ! i))"

definition free_of :: "cmem \<Rightarrow> HashEl list \<Rightarrow> u16" where
  "free_of m b =
     (case b of e # _ \<Rightarrow> (case cells m (el_data e) of Some (CU16 w) \<Rightarrow> w | _ \<Rightarrow> 0) | [] \<Rightarrow> 0)"

definition dir_free :: "Table \<Rightarrow> nat \<Rightarrow> u16" where
  "dir_free t i =
     (case page_directory (t_dm t) of Some ht \<Rightarrow> free_of (t_mem t) (ht_arr ht ! i) | None \<Rightarrow> 0)"

definition table_ok :: "bytes \<Rightarrow> Table \<Rightarrow> bool" where
  "table_ok junk t \<longleftrightarrow>
     dm_inv (t_dm t) junk (t_files t) \<and>
     (\<exists>ht. page_directory (t_dm t) = Some ht \<and> dir_ok (t_mem t) ht)"

lemma dir_free_files [simp]: "dir_free (t\<lparr>t_files := f\<rparr>) i = dir_free t i"
  by (simp add: dir_free_def split: option.split)

lemma entry_ok_extends:
  "entry_ok m b \<Longrightarrow> extends m m' \<Longrightarrow> entry_ok m' b \<and> free_of m' b = free_of m b"
  by (auto simp: entry_ok_def free_of_def dest: extendsD)

lemma dir_ok_slots: "dir_ok m ht \<Longrightarrow> length (ht_arr ht) = 500 \<and> unat (ht_size ht) = 500"
  by (simp add: dir_ok_def slot_inv_def)

lemma dir_ok_find:
  assumes "dir_ok m ht" and "2 \<le> i" and "i < 500"
  obtains e w where "ht_arr ht ! i = [e]" and "65536 \<le> el_data e" and "hash_find (dec i) m ht = Inr (Some e)"
    and "cells m (el_data e) = Some (CU16 w)" and "free_of m (ht_arr ht ! i) = w"
proof -
  from assms have "entry_ok m (ht_arr ht ! i)" by (simp add: dir_ok_def)
  then obtain e w where e: "ht_arr ht ! i = [e]" "65536 \<le> el_data e" "cells m (el_data e) = Some (CU16 w)"
    by (auto simp: entry_ok_def)
  moreover have "hash_find (dec i) m ht = Inr (Some e)"
    using slot_inv_find [of m ht i] assms e(1) dir_ok_slots [OF assms(1)] by (simp add: dir_ok_def)
  ultimately show thesis using that by (simp add: free_of_def)
qed

lemma dir_ok_extends:
  assumes "dir_ok m ht" and "extends m m'" and "cmem_wf m'"
  shows "dir_ok m' ht"
  using assms slot_inv_extends [of m ht m'] entry_ok_extends [OF _ assms(2)]
  by (auto simp: dir_ok_def extends_def)

lemma dir_ok_set:
  assumes ok: "dir_ok m ht" and i: "2 \<le> i" "i < 500"
    and k: "cells m k = Some (CStr (dec i))" and d: "cells m d = Some (CU16 w)" "65536 \<le> d"
  shows "\<exists>ht1 ht'. hash_remove (dec i) m ht = Inr (True, m, ht1) \<and> slot_inv m ht1 \<and> ht_size ht1 = 500 \<and>
    hash_insert (Some k) (Some d) m ht1 = Inr ht' \<and> dir_ok m ht' \<and>
    free_of m (ht_arr ht' ! i) = w \<and> (\<forall>j. j \<noteq> i \<longrightarrow> ht_arr ht' ! j = ht_arr ht ! j)"
proof -
  have inv: "slot_inv m ht" and sz: "i < unat (ht_size ht)" and len: "length (ht_arr ht) = 500"
    using ok i dir_ok_slots [OF ok] by (simp_all add: dir_ok_def)
  from slot_inv_remove [OF inv sz] obtain ht1 where
    r: "hash_remove (dec i) m ht = Inr (True, m, ht1)" "slot_inv m ht1" "ht_size ht1 = ht_size ht"
       "ht_arr ht1 = (ht_arr ht)[i := []]" by blast
  from sz r(3) have sz1: "i < unat (ht_size ht1)" by simp
  from slot_inv_insert [OF r(2) sz1 k d(1)] obtain ht' where
    n: "hash_insert (Some k) (Some d) m ht1 = Inr ht'" "slot_inv m ht'" "ht_size ht' = ht_size ht1"
       "ht_arr ht' = (ht_arr ht1)[i := [\<lparr>el_key = k, el_data = d\<rparr>]]" by blast
  have arr: "ht_arr ht' ! j = (if j = i then [\<lparr>el_key = k, el_data = d\<rparr>] else ht_arr ht ! j)" for j
    using len i by (simp add: n(4) r(4))
  have "entry_ok m (ht_arr ht' ! j)" if "2 \<le> j" "j < 500" for j
    using that ok d by (auto simp: arr entry_ok_def dir_ok_def)
  then have "dir_ok m ht'" using ok n r by (simp add: dir_ok_def)
  moreover have "free_of m (ht_arr ht' ! i) = w" by (simp add: arr free_of_def d)
  ultimately show ?thesis using r n arr ok by (auto simp: dir_ok_def)
qed

lemma update_page_dir_ok:
  fixes sz :: u16 and act :: TupleAction and t :: Table and i :: nat and junk :: bytes
  assumes ok: "table_ok junk t" and i: "2 \<le> i" "i < 500"
  defines "w \<equiv> (if act = TUPLE_ADD then dir_free t i - sz else dir_free t i + sz)"
  shows "\<exists>t'. update_page_dir (of_nat i) sz act t = Inr t' \<and> table_ok junk t' \<and> dir_free t' i = w \<and>
    (\<forall>j. 2 \<le> j \<and> j < 500 \<and> j \<noteq> i \<longrightarrow> dir_free t' j = dir_free t j) \<and> table_name (t_dm t') = table_name (t_dm t) \<and>
    t_files t' = (t_files t)(dm_path (t_dm t) \<mapsto>
      file_write (2 * i) (encode_uint16 (of_nat i) @ encode_uint16 w) (contents (dm_path (t_dm t)) (t_files t)))"
proof -
  let ?m = "t_mem t" and ?dm = "t_dm t"
  from ok obtain ht where ht: "page_directory ?dm = Some ht" "dir_ok ?m ht" and inv: "dm_inv ?dm junk (t_files t)"
    by (auto simp: table_ok_def)
  have wfm: "cmem_wf ?m" and hi: "65536 \<le> brk ?m" using ht(2) by (simp_all add: dir_ok_def slot_inv_def)
  have u: "unat (of_nat i :: u32) = i" "unat (of_nat i * 2 :: u32) = 2 * i" "ucast (of_nat i :: u32) = (of_nat i :: u16)"
    using i by (simp_all add: unat_of_nat unat_word_ariths unsigned_ucast_eq unat_of_nat take_bit_nat_eq_self word_unat_eq_iff)
  have key: "sprintf_u 11 (of_nat i) = Inr (dec i)"
    using sprintf_u_eq [of "of_nat i" 10 11] u(1) i by simp
  define m1 where "m1 = snd (malloc (CStr (dec i)) ?m)"
  have wf1: "cmem_wf m1" and ext1: "extends ?m m1" using wfm malloc_extends [OF wfm] by (simp_all add: m1_def)
  have ok1: "dir_ok m1 ht" using ht(2) ext1 wf1 by (rule dir_ok_extends)
  have same1: "free_of m1 (ht_arr ht ! j) = free_of ?m (ht_arr ht ! j)" if "2 \<le> j" "j < 500" for j
    using that ht(2) entry_ok_extends [OF _ ext1] by (simp add: dir_ok_def)
  from dir_ok_find [OF ok1 i] obtain e c where e: "ht_arr ht ! i = [e]" "hash_find (dec i) m1 ht = Inr (Some e)"
    "cells m1 (el_data e) = Some (CU16 c)" "free_of m1 (ht_arr ht ! i) = c" by metis
  have c: "c = dir_free t i" using e(4) same1 [OF i] ht(1) by (simp add: dir_free_def)
  define m2 where "m2 = snd (malloc (CU16 w) m1)"
  have wf2: "cmem_wf m2" and ext2: "extends m1 m2" using wf1 malloc_extends [OF wf1] by (simp_all add: m2_def)
  have ok2: "dir_ok m2 ht" using ok1 ext2 wf2 by (rule dir_ok_extends)
  have cells2: "cells m2 (brk ?m) = Some (CStr (dec i))" "cells m2 (Suc (brk ?m)) = Some (CU16 w)" by (simp_all add: m1_def m2_def)
  from dir_ok_set [OF ok2 i cells2] hi obtain ht1 ht' where
    s: "hash_remove (dec i) m2 ht = Inr (True, m2, ht1)"
       "hash_insert (Some (brk ?m)) (Some (Suc (brk ?m))) m2 ht1 = Inr ht'" "dir_ok m2 ht'"
       "free_of m2 (ht_arr ht' ! i) = w" "\<forall>j. j \<noteq> i \<longrightarrow> ht_arr ht' ! j = ht_arr ht ! j" by auto
  have rm1: "hash_remove (dec i) m1 ht = Inr (True, m1, ht1)"
  proof -
    from slot_inv_remove [of m1 ht i] slot_inv_remove [of m2 ht i] ok1 ok2 s(1) i obtain hta htb where
      "hash_remove (dec i) m1 ht = Inr (True, m1, hta)" "ht_arr hta = (ht_arr ht)[i := []]" "ht_size hta = ht_size ht"
      "ht1 = htb" "ht_arr htb = (ht_arr ht)[i := []]" "ht_size htb = ht_size ht"
      by (auto simp: dir_ok_def)
    then show ?thesis by simp
  qed
  have tf: "table_file (table_name ?dm) (t_files t) = Inr (dm_path ?dm, t_files t)" using table_file_dm [OF inv] .
  have mal: "malloc (CStr (dec i)) ?m = (brk ?m, m1)" "malloc (CU16 w) m1 = (Suc (brk ?m), m2)"
    by (simp_all add: malloc_def m1_def m2_def)
  let ?t' = "\<lparr>t_mem = m2, t_dm = ?dm\<lparr>page_directory := Some ht'\<rparr>,
      t_files = (t_files t)(dm_path ?dm \<mapsto> file_write (2 * i) (encode_uint16 (of_nat i) @ encode_uint16 w)
        (contents (dm_path ?dm) (t_files t)))\<rparr>"
  have "update_page_dir (of_nat i) sz act t = Inr ?t'"
    unfolding update_page_dir_def key and_then_simps mal(1) Let_def prod.case directory_def ht(1) option.case e(2)
    using e(3) rm1 mal(2) s(2) tf u
    by (simp add: c w_def [symmetric] PID_TO_PAGE_DIRECTORY_OFFSET_def split del: if_split)
  moreover have "table_ok junk ?t'" using s(3) inv by (simp add: table_ok_def dm_inv_def dm_path_def)
  moreover have "dir_free ?t' i = w" using s(4) by (simp add: dir_free_def)
  moreover have "dir_free ?t' j = dir_free t j" if "2 \<le> j" "j < 500" "j \<noteq> i" for j
    using that s(5) same1 [OF that(1,2)] entry_ok_extends [OF _ ext2, of "ht_arr ht ! j"] ok1 ht(1)
    by (simp add: dir_free_def dir_ok_def)
  ultimately show ?thesis by auto
qed

lemma find_spacious_page_first:
  assumes "table_ok junk t"
  shows "find_spacious_page sz (t_mem t) (t_dm t) = Inr (Some 2)"
proof -
  from assms obtain ht where ht: "page_directory (t_dm t) = Some ht" "dir_ok (t_mem t) ht"
    by (auto simp: table_ok_def)
  have two: "(2 :: nat) \<le> 2" "(2 :: nat) < 500" by simp_all
  from dir_ok_find [OF ht(2) two] obtain e where
    e: "65536 \<le> el_data e" "hash_find (dec 2) (t_mem t) ht = Inr (Some e)" by metis
  have "sprintf_d 11 2 = Inr (dec 2)" using sprintf_d_eq [of 2 11] by simp
  moreover have "unat sz \<le> el_data e" using e(1) unat_bounds(2) [of sz] by simp
  moreover obtain rest where "[START_USER_PAGE ..< MAX_PAGES] = 2 # rest"
    using upt_conv_Cons [of 2 500] unfolding START_USER_PAGE_def MAX_PAGES_def by auto
  ultimately show ?thesis using ht(1) e(2) by (simp add: find_spacious_page_def directory_def)
qed

section \<open>Pages of a table\<close>

definition tpages :: "Table \<Rightarrow> page_id_t set" where
  "tpages t = dm_pages (t_dm t) (t_files t)"

definition tpage :: "page_id_t \<Rightarrow> Table \<Rightarrow> bytes" where
  "tpage p t = page_of p (t_dm t) (t_files t)"

lemma table_read:
  assumes "table_ok junk t" and "p \<in> tpages t"
  shows "read_page junk p (t_dm t) (t_files t) = Inr (tpage p t, t_files t)" and "length (tpage p t) = PAGE_SIZE"
  using assms read_page_in_file [of "t_dm t" junk "t_files t" p] by (simp_all add: table_ok_def tpages_def tpage_def)

lemma table_write:
  assumes ok: "table_ok junk t" and v: "dm_valid p" and b: "length b = PAGE_SIZE"
  shows "\<exists>files'. write_page p (t_dm t) b (t_files t) = Inr files' \<and> table_ok junk (t\<lparr>t_files := files'\<rparr>) \<and>
    insert p (tpages t) \<subseteq> tpages (t\<lparr>t_files := files'\<rparr>) \<and> tpage p (t\<lparr>t_files := files'\<rparr>) = b \<and>
    (\<forall>q \<in> tpages t. q \<noteq> p \<longrightarrow> tpage q (t\<lparr>t_files := files'\<rparr>) = tpage q t)"
proof -
  from ok have inv: "dm_inv (t_dm t) junk (t_files t)" by (simp add: table_ok_def)
  from pf.wr_ok [OF inv v b] obtain files' where
    w: "write_page p (t_dm t) b (t_files t) = Inr files'" "dm_inv (t_dm t) junk files'"
      "insert p (dm_pages (t_dm t) (t_files t)) \<subseteq> dm_pages (t_dm t) files'"
      "dm_rd junk (t_dm t) p files' = Inr b"
      "\<forall>q \<in> dm_pages (t_dm t) (t_files t). q \<noteq> p \<longrightarrow> dm_rd junk (t_dm t) q files' = dm_rd junk (t_dm t) q (t_files t)"
    unfolding dm_wr_def by blast
  have new: "dm_rd junk (t_dm t) q files' = Inr (page_of q (t_dm t) files')" if "q \<in> dm_pages (t_dm t) files'" for q
    using read_page_in_file(1) [OF w(2) that] by (simp add: dm_rd_def)
  have old: "dm_rd junk (t_dm t) q (t_files t) = Inr (page_of q (t_dm t) (t_files t))"
    if "q \<in> dm_pages (t_dm t) (t_files t)" for q
    using read_page_in_file(1) [OF inv that] by (simp add: dm_rd_def)
  have "page_of p (t_dm t) files' = b" using new [of p] w(3,4) by auto
  moreover have "page_of q (t_dm t) files' = page_of q (t_dm t) (t_files t)"
    if "q \<in> dm_pages (t_dm t) (t_files t)" "q \<noteq> p" for q
    using new [of q] old [OF that(1)] w(3,5) that by auto
  ultimately show ?thesis using w(1-3) ok by (auto simp: table_ok_def tpages_def tpage_def)
qed

text \<open>Only page 0 is touched by a write to the first bytes of the file.\<close>

lemma directory_write_pages:
  fixes files :: fs and dm dm' :: DiskManager
  assumes "off + length data \<le> PAGE_SIZE" and "table_name dm' = table_name dm"
  defines "files' \<equiv> files(dm_path dm \<mapsto> file_write off data (contents (dm_path dm) files))"
  shows "dm_pages dm files \<subseteq> dm_pages dm' files'"
    and "p \<in> dm_pages dm files \<Longrightarrow> p \<noteq> 0 \<Longrightarrow> page_of p dm' files' = page_of p dm files"
proof -
  have path: "dm_path dm' = dm_path dm" using assms(2) by (simp add: dm_path_def)
  have f: "contents (dm_path dm) files' = file_write off data (contents (dm_path dm) files)"
    by (simp add: files'_def contents_def)
  show "dm_pages dm files \<subseteq> dm_pages dm' files'"
    by (auto simp: dm_pages_def path f length_file_write)
  assume p: "p \<in> dm_pages dm files" "p \<noteq> 0"
  then have "PAGE_SIZE \<le> unat p * PAGE_SIZE" using unat_nonzero [of p] by simp
  with assms(1) have "off + length data \<le> unat p * PAGE_SIZE" by (rule order_trans)
  with p(1) show "page_of p dm' files' = page_of p dm files"
    unfolding page_of_def path f by (intro take_drop_file_write_other) (auto simp: dm_pages_def)
qed

section \<open>The slots of the pages of a table\<close>

lemma get_tuple_slot:
  assumes ok: "table_ok junk t" and p: "p \<in> tpages t" and wf: "heap_page_wf (tpage p t)"
    and i: "i < slot_count (tpage p t)"
  shows "\<exists>r. get_tuple junk \<lparr>rid_pid = p, slot_num = of_nat i\<rparr> t = Inr (r, t) \<and>
    (case page_tuples (tpage p t) ! i of None \<Rightarrow> r = None | Some b \<Rightarrow> \<exists>s. r = Some s \<and> take (length b) s = b)"
proof -
  let ?pg = "tpage p t" and ?p = "ptr_at i (tpage p t)"
  have i': "i < 1022" using i heap_page_wfD(2) [OF wf] by simp
  have l: "length ?pg = 4096" using heap_page_wfD(1) [OF wf] .
  have "get_tuple junk \<lparr>rid_pid = p, slot_num = of_nat i\<rparr> t =
      Inr (if start_offset ?p = 0 then None else Some (drop (unat (start_offset ?p)) ?pg), t)"
    using i' l by (simp add: get_tuple_def table_read [OF ok p] extract_tuple_ptr_eq)
  moreover have "page_tuples ?pg ! i = slot_tuple ?pg i" using i by (simp add: page_tuples_def)
  ultimately show ?thesis
    using heap_page_wfD(4) [OF wf i] l by (auto simp: slot_tuple_def Let_def ptr_ok_def min_def)
qed

lemma tpages_valid: "p \<in> tpages t \<Longrightarrow> dm_valid p"
  by (simp add: tpages_def dm_pages_def)

lemma add_tuple_ok:
  assumes ok: "table_ok junk t" and pages: "1 \<in> tpages t" "2 \<in> tpages t" and wf: "heap_page_wf (tpage 2 t)"
    and schema: "check_schema (tpage 1 t) args = Inr True"
    and typed: "list_all2 has_type (column_types args) (column_values args)"
    and num: "unat (num_columns args) = length (column_types args)"
    and fits: "4 + length (concat (map value_bytes (column_values args))) \<le> free_bytes (tpage 2 t)"
  shows "\<exists>ptr t'. add_tuple junk junk_pid args t = Inr (Some ptr, t') \<and> table_ok junk t' \<and>
    tpages t \<subseteq> tpages t' \<and> (\<forall>q \<in> tpages t. q \<noteq> 0 \<and> q \<noteq> 2 \<longrightarrow> tpage q t' = tpage q t) \<and>
    heap_page_wf (tpage 2 t') \<and>
    page_tuples (tpage 2 t') = page_tuples (tpage 2 t) @ [Some (concat (map value_bytes (column_values args)))] \<and>
    dir_free t' 2 = dir_free t 2 - of_nat (length (concat (map value_bytes (column_values args)))) \<and>
    table_name (t_dm t') = table_name (t_dm t) \<and>
    free_bytes (tpage 2 t') + 4 + length (concat (map value_bytes (column_values args))) = free_bytes (tpage 2 t) \<and>
    (\<exists>files1. t_files t' = files1(dm_path (t_dm t) \<mapsto>
        file_write 4 (encode_uint16 2 @ encode_uint16 (dir_free t' 2)) (contents (dm_path (t_dm t)) files1)) \<and>
      page_of 0 (t_dm t) files1 = tpage 0 t \<and> 0 \<in> dm_pages (t_dm t) files1)"
proof -
  define B where "B = concat (map value_bytes (column_values args))"
  define sz where "sz = (of_nat (length B) :: u16)"
  have small: "length B < 65536" using fits unat_bounds(2) [of "u16_at 2 (tpage 2 t)"]
    by (simp add: free_bytes_def B_def [symmetric])
  then have usz: "unat sz = length B" by (simp add: sz_def unat_of_nat)
  have enc: "encode_tuple (unat (num_columns args)) (column_types args) (column_values args) = Inr (sz, B)"
    using encode_tuple_typed [OF typed] small by (simp add: num sz_def B_def)
  have l: "5 \<le> length (tpage 2 t)" using heap_page_wfD(1) [OF wf] by simp
  have len: "length B = unat sz" and room: "4 + unat sz \<le> free_bytes (tpage 2 t)"
    using fits usz by (simp_all add: B_def)
  from place_tuple_refines [OF wf len room, of 2] obtain ptr page' where
    pl: "place_tuple (tpage 2 t) (header_of 2 (tpage 2 t)) sz B = Inr (ptr, page')" "heap_page_wf page'"
      "page_tuples page' = page_tuples (tpage 2 t) @ [Some B]" "free_bytes page' + 4 + unat sz = free_bytes (tpage 2 t)" by blast
  have lp: "length page' = PAGE_SIZE" using pl(2) by (simp add: heap_page_wf_def)
  from table_write [OF ok tpages_valid [OF pages(2)] lp] obtain f1 where
    w: "write_page 2 (t_dm t) page' (t_files t) = Inr f1" "table_ok junk (t\<lparr>t_files := f1\<rparr>)"
      "insert 2 (tpages t) \<subseteq> tpages (t\<lparr>t_files := f1\<rparr>)" "tpage 2 (t\<lparr>t_files := f1\<rparr>) = page'"
      "\<forall>q \<in> tpages t. q \<noteq> 2 \<longrightarrow> tpage q (t\<lparr>t_files := f1\<rparr>) = tpage q t" by blast
  from update_page_dir_ok [OF w(2), of 2 sz TUPLE_ADD] obtain t' where
    u: "update_page_dir 2 sz TUPLE_ADD (t\<lparr>t_files := f1\<rparr>) = Inr t'" "table_ok junk t'"
      "dir_free t' 2 = dir_free (t\<lparr>t_files := f1\<rparr>) 2 - sz" "table_name (t_dm t') = table_name (t_dm t)"
      "t_files t' = f1(dm_path (t_dm t) \<mapsto> file_write 4 (encode_uint16 2 @ encode_uint16 (dir_free t' 2))
         (contents (dm_path (t_dm t)) f1))"
    by auto
  have run: "add_tuple junk junk_pid args t = Inr (Some ptr, t')"
    using enc find_spacious_page_first [OF ok, of sz] table_read(1) [OF ok pages(2)] table_read(1) [OF ok pages(1)]
      schema pl(1) w(1) u(1) extract_header_eq [OF l, of 2]
    by (simp add: add_tuple_def)
  have dw: "dm_pages (t_dm t) f1 \<subseteq> tpages t'"
    "q \<in> dm_pages (t_dm t) f1 \<Longrightarrow> q \<noteq> 0 \<Longrightarrow> tpage q t' = page_of q (t_dm t) f1" for q
    using directory_write_pages [where files = f1 and off = 4 and
        data = "encode_uint16 2 @ encode_uint16 (dir_free t' 2)", OF _ u(4)]
    by (simp_all add: tpages_def tpage_def u(5) PAGE_SIZE_def)
  have f1: "insert 2 (tpages t) \<subseteq> dm_pages (t_dm t) f1" "page_of 2 (t_dm t) f1 = page'"
    "\<forall>q \<in> tpages t. q \<noteq> 2 \<longrightarrow> page_of q (t_dm t) f1 = tpage q t"
    using w(3-5) by (simp_all add: tpages_def tpage_def)
  have z: "0 \<in> tpages t" using pages(1) by (simp add: tpages_def dm_pages_def dm_valid_def)
  have "tpage 2 t' = page'" using dw(2) [of 2] f1 by auto
  moreover have "tpage q t' = tpage q t" if "q \<in> tpages t" "q \<noteq> 0" "q \<noteq> 2" for q
    using dw(2) [of q] f1 that by auto
  moreover have "dir_free t' 2 = dir_free t 2 - sz" using u(3) by simp
  moreover have "page_of 0 (t_dm t) f1 = tpage 0 t" "0 \<in> dm_pages (t_dm t) f1" using f1 z by auto
  ultimately show ?thesis
    unfolding B_def [symmetric] sz_def [symmetric] using run u(2,4,5) dw(1) f1(1) pl(2-4) usz by auto
qed

lemma add_tuple_get:
  assumes ok: "table_ok junk t" and pages: "1 \<in> tpages t" "2 \<in> tpages t" and wf: "heap_page_wf (tpage 2 t)"
    and schema: "check_schema (tpage 1 t) args = Inr True"
    and typed: "list_all2 has_type (column_types args) (column_values args)"
    and num: "unat (num_columns args) = length (column_types args)"
    and fits: "4 + length (concat (map value_bytes (column_values args))) \<le> free_bytes (tpage 2 t)"
  shows "\<exists>ptr t' s. add_tuple junk junk_pid args t = Inr (Some ptr, t') \<and> table_ok junk t' \<and>
    heap_page_wf (tpage 2 t') \<and>
    page_tuples (tpage 2 t') = page_tuples (tpage 2 t) @ [Some (concat (map value_bytes (column_values args)))] \<and>
    get_tuple junk \<lparr>rid_pid = 2, slot_num = of_nat (slot_count (tpage 2 t))\<rparr> t' = Inr (Some s, t') \<and>
    take (length (concat (map value_bytes (column_values args)))) s = concat (map value_bytes (column_values args)) \<and>
    dir_free t' 2 = dir_free t 2 - of_nat (length (concat (map value_bytes (column_values args)))) \<and>
    (\<forall>q \<in> tpages t. q \<noteq> 0 \<and> q \<noteq> 2 \<longrightarrow> tpage q t' = tpage q t)"
proof -
  let ?B = "concat (map value_bytes (column_values args))"
  from add_tuple_ok [OF assms, of junk_pid] obtain ptr t' where
    a: "add_tuple junk junk_pid args t = Inr (Some ptr, t')" "table_ok junk t'" "tpages t \<subseteq> tpages t'"
      "\<forall>q \<in> tpages t. q \<noteq> 0 \<and> q \<noteq> 2 \<longrightarrow> tpage q t' = tpage q t" "heap_page_wf (tpage 2 t')"
      "page_tuples (tpage 2 t') = page_tuples (tpage 2 t) @ [Some ?B]"
      "dir_free t' 2 = dir_free t 2 - of_nat (length ?B)" by blast
  have n: "length (page_tuples p) = slot_count p" for p by (simp add: page_tuples_def)
  have "slot_count (tpage 2 t') = Suc (slot_count (tpage 2 t))" using arg_cong [OF a(6), of length] by (simp add: n)
  moreover have "page_tuples (tpage 2 t') ! slot_count (tpage 2 t) = Some ?B"
    unfolding a(6) using n [of "tpage 2 t"] by (simp add: nth_append)
  ultimately obtain s where "get_tuple junk \<lparr>rid_pid = 2, slot_num = of_nat (slot_count (tpage 2 t))\<rparr> t' = Inr (Some s, t')"
    "take (length ?B) s = ?B"
    using get_tuple_slot [OF a(2) _ a(5), of "slot_count (tpage 2 t)"] a(3) pages(2) by auto
  with a show ?thesis by blast
qed

lemma remove_tuple_ok:
  assumes ok: "table_ok junk t" and p: "p \<in> tpages t" and wf: "heap_page_wf (tpage p t)"
    and i: "i < slot_count (tpage p t)"
  shows "\<exists>t'. remove_tuple junk \<lparr>rid_pid = p, slot_num = of_nat i\<rparr> t = Inr t' \<and> table_ok junk t' \<and>
    tpages t \<subseteq> tpages t' \<and> (\<forall>q \<in> tpages t. q \<noteq> p \<longrightarrow> tpage q t' = tpage q t) \<and>
    heap_page_wf (tpage p t') \<and> page_tuples (tpage p t') = (page_tuples (tpage p t))[i := None] \<and>
    tpage p t' ! 4 = tpage p t ! 4 OR COMPACTABLE"
proof -
  from mark_removed_refines [OF wf i, of p] obtain page' where
    m: "mark_removed (tpage p t) p (of_nat i) = Inr page'" "heap_page_wf page'"
      "page_tuples page' = (page_tuples (tpage p t))[i := None]" "page' ! 4 = tpage p t ! 4 OR COMPACTABLE" by blast
  have lp: "length page' = PAGE_SIZE" using m(2) by (simp add: heap_page_wf_def)
  from table_write [OF ok tpages_valid [OF p] lp] m show ?thesis
    by (auto simp: remove_tuple_def table_read(1) [OF ok p])
qed

lemma defragment_ok:
  assumes ok: "table_ok junk t" and p: "p \<in> tpages t" and wf: "heap_page_wf (tpage p t)"
    and page: "defragment_page fresh (tpage p t) p = Inr (Some page')" and lp: "length page' = PAGE_SIZE"
  shows "\<exists>t'. defragment junk fresh p t = Inr t' \<and> table_ok junk t' \<and> tpage p t' = page' \<and>
    tpages t \<subseteq> tpages t' \<and> (\<forall>q \<in> tpages t. q \<noteq> p \<longrightarrow> tpage q t' = tpage q t)"
  using table_write [OF ok tpages_valid [OF p] lp] page
  by (auto simp: defragment_def table_read(1) [OF ok p])

lemma new_heap_page_ok:
  assumes ok: "table_ok junk t"
  shows "\<exists>t'. new_heap_page junk t = Inr (2, t') \<and> table_ok junk t' \<and>
    insert 2 (tpages t) \<subseteq> tpages t' \<and> (\<forall>q \<in> tpages t. q \<noteq> 2 \<longrightarrow> tpage q t' = tpage q t) \<and>
    heap_page_wf (tpage 2 t') \<and> page_tuples (tpage 2 t') = [] \<and> free_bytes (tpage 2 t') = 4090 \<and> t_dm t' = t_dm t"
proof -
  let ?h = "\<lparr>hdr_id = 2, free_start = 5, free_end = 4095, hdr_flags = 0\<rparr>"
  let ?page = "set_header ?h junk"
  have l: "length junk = 4096" using ok by (simp add: table_ok_def dm_inv_def PAGE_SIZE_def)
  then have lp: "length ?page = PAGE_SIZE" by (simp add: PAGE_SIZE_def)
  have hdr: "u16_at 0 ?page = 5" "u16_at 2 ?page = 4095" using u16_at_set_header [of junk ?h] l by simp_all
  have cnt: "slot_count ?page = 0" by (simp add: slot_count_def hdr)
  have wf: "heap_page_wf ?page" using lp by (simp add: heap_page_wf_def cnt hdr)
  have "dm_valid 2" by (simp add: dm_valid_def)
  from table_write [OF ok this lp] obtain files' where
    w: "write_page 2 (t_dm t) ?page (t_files t) = Inr files'" "table_ok junk (t\<lparr>t_files := files'\<rparr>)"
      "insert 2 (tpages t) \<subseteq> tpages (t\<lparr>t_files := files'\<rparr>)" "tpage 2 (t\<lparr>t_files := files'\<rparr>) = ?page"
      "\<forall>q \<in> tpages t. q \<noteq> 2 \<longrightarrow> tpage q (t\<lparr>t_files := files'\<rparr>) = tpage q t" by blast
  have "new_heap_page junk t = Inr (2, t\<lparr>t_files := files'\<rparr>)"
    using w(1) l by (simp add: new_heap_page_def find_spacious_page_first [OF ok] construct_page_header_buf_eq)
  with w wf show ?thesis by (auto simp: page_tuples_def cnt free_bytes_def hdr)
qed

section \<open>The schema page\<close>

text \<open>The columns lie where the writer puts them when no name is shorter than the one before it, the
  last one apart.\<close>

fun growing :: "nat \<Rightarrow> Column list \<Rightarrow> bool" where
  "growing sz (c # d # cs) \<longleftrightarrow>
     sz \<le> SCHEMA_COLUMN_SIZE (name_len c) \<and> growing (SCHEMA_COLUMN_SIZE (name_len c)) (d # cs)"
| "growing sz _ \<longleftrightarrow> True"

definition col_ok :: "Column \<Rightarrow> bool" where
  "col_ok c \<longleftrightarrow> length (col_name c) = unat (name_len c)"

fun cols_end :: "nat \<Rightarrow> nat \<Rightarrow> Column list \<Rightarrow> nat" where
  "cols_end j sz [] = 0"
| "cols_end j sz (c # cs) =
     max (1 + j * sz + SCHEMA_COLUMN_SIZE (name_len c)) (cols_end (Suc j) (SCHEMA_COLUMN_SIZE (name_len c)) cs)"

definition col_bytes :: "Column \<Rightarrow> bytes" where
  "col_bytes c = name_len c # str_bytes (col_name c) @ [type_code (col_type c)]"

text \<open>The columns from the one at index \<open>j\<close> on are on the page.\<close>

fun columns_at :: "nat \<Rightarrow> nat \<Rightarrow> Column list \<Rightarrow> bytes \<Rightarrow> bool" where
  "columns_at j sz [] buf \<longleftrightarrow> True"
| "columns_at j sz (c # cs) buf \<longleftrightarrow>
     take (SCHEMA_COLUMN_SIZE (name_len c)) (drop (1 + j * sz) buf) = col_bytes c \<and>
     columns_at (Suc j) (SCHEMA_COLUMN_SIZE (name_len c)) cs buf"

lemma length_col_bytes: "col_ok c \<Longrightarrow> length (col_bytes c) = SCHEMA_COLUMN_SIZE (name_len c)"
  by (simp add: col_ok_def col_bytes_def str_bytes_def SCHEMA_COLUMN_SIZE_def)

lemma write_columns_step:
  assumes "col_ok c" and "1 + j * sz + SCHEMA_COLUMN_SIZE (name_len c) \<le> length buf"
  shows "write_columns (Suc n) j sz (c # cols) buf =
    write_columns n (Suc j) (SCHEMA_COLUMN_SIZE (name_len c)) cols (put (1 + j * sz) (col_bytes c) buf)"
proof -
  let ?o = "1 + j * sz" and ?nm = "str_bytes (col_name c)"
  have nm: "load 0 (unat (name_len c)) (?nm @ [0]) = Inr ?nm" "length ?nm = unat (name_len c)"
    using assms(1) by (simp_all add: col_ok_def str_bytes_def load_def)
  have "col_bytes c = [name_len c] @ ?nm @ [type_code (col_type c)]" by (simp add: col_bytes_def)
  then have "put ?o (col_bytes c) buf =
      put (?o + 1 + unat (name_len c)) [type_code (col_type c)] (put (?o + 1) ?nm (put ?o [name_len c] buf))"
    using assms(2) nm(2) by (simp add: put_append SCHEMA_COLUMN_SIZE_def del: append_Cons)
  then show ?thesis
    using assms(2) nm by (simp add: store_ok START_COLUMNS_INFO_def SCHEMA_COLUMN_SIZE_def Let_def)
qed

lemma growing_next:
  "growing sz (c # cs) \<Longrightarrow> cs \<noteq> [] \<Longrightarrow>
     sz \<le> SCHEMA_COLUMN_SIZE (name_len c) \<and> growing (SCHEMA_COLUMN_SIZE (name_len c)) cs"
  by (cases cs) auto

lemma take_take_eq: "m \<le> n \<Longrightarrow> take n xs = take n ys \<Longrightarrow> take m xs = take m ys"
  by (metis min_absorb1 take_take)

lemma write_columns_ok:
  assumes "list_all col_ok cols" and "growing sz cols" and "cols_end j sz cols \<le> length buf"
  shows "\<exists>buf'. write_columns (length cols) j sz cols buf = Inr buf' \<and> length buf' = length buf \<and>
    (cols \<noteq> [] \<longrightarrow> take (1 + j * sz) buf' = take (1 + j * sz) buf) \<and>
    (cols = [] \<longrightarrow> buf' = buf) \<and> columns_at j sz cols buf'"
  using assms
proof (induction cols arbitrary: j sz buf)
  case (Cons c cs)
  let ?o = "1 + j * sz" and ?s = "SCHEMA_COLUMN_SIZE (name_len c)"
  let ?b = "put ?o (col_bytes c) buf"
  have ok: "col_ok c" and fits: "?o + ?s \<le> length buf" using Cons.prems by simp_all
  then have lb: "length ?b = length buf" by (simp add: length_col_bytes)
  have g: "growing ?s cs" using growing_next [OF Cons.prems(2)] by (cases cs) auto
  from Cons.IH [OF _ g, of "Suc j" ?b] Cons.prems(1,3) lb obtain buf' where
    r: "write_columns (length cs) (Suc j) ?s cs ?b = Inr buf'" "length buf' = length ?b"
      "cs \<noteq> [] \<longrightarrow> take (1 + Suc j * ?s) buf' = take (1 + Suc j * ?s) ?b" "cs = [] \<longrightarrow> buf' = ?b"
      "columns_at (Suc j) ?s cs buf'" by auto
  have pre: "take (?o + ?s) buf' = take (?o + ?s) ?b"
  proof (cases "cs = []")
    case False
    then have "j * sz \<le> j * ?s" using growing_next [OF Cons.prems(2)] by simp
    then have "?o + ?s \<le> 1 + Suc j * ?s" by simp
    with r(3) False show ?thesis by (blast intro: take_take_eq)
  qed (use r(4) in simp)
  then have "take ?s (drop ?o buf') = take ?s (drop ?o ?b)" by (metis add.commute take_drop)
  also have "\<dots> = col_bytes c" using fits by (simp add: drop_put_same length_col_bytes [OF ok])
  finally have col: "take ?s (drop ?o buf') = col_bytes c" .
  have "take ?o buf' = take ?o ?b" using pre take_take_eq [of ?o "?o + ?s" buf' ?b] by simp
  also have "\<dots> = take ?o buf" using fits by (simp add: take_put_before)
  finally show ?case
    using write_columns_step [OF ok fits, of "length cs" cs] r(1,2,5) col lb by simp
qed simp

section \<open>Checking a tuple against the schema\<close>

lemma unat_of_char: "unat (of_char c :: u8) = of_char c"
proof -
  have "(of_char c :: nat) mod 256 < 256" by (rule mod_less_divisor) simp
  then have "(of_char c :: nat) < 256" by simp
  then show ?thesis by (simp add: of_nat_of_char [symmetric, where 'a = "8 word"] unat_of_nat)
qed

lemma of_char_u8_inject: "(of_char c :: u8) = of_char d \<longleftrightarrow> c = d"
  by (metis unat_of_char of_char_eq_iff)

lemma strncmp_eq_take:
  "length a = n \<Longrightarrow> 0 \<notin> set a \<Longrightarrow> strncmp_eq n a b \<longleftrightarrow> take n b = a"
proof (induction n a b rule: strncmp_eq.induct)
  case (2 n x a y b)
  then show ?case by auto
qed auto

lemma str_bytes_take:
  "take (length s) (str_bytes t) = str_bytes s \<longleftrightarrow> take (length s) t = s"
proof -
  have "inj (of_char :: char \<Rightarrow> u8)" by (rule injI) (simp add: of_char_u8_inject)
  then show ?thesis by (simp add: str_bytes_def take_map inj_map_eq_map)
qed

text \<open>A tuple matches when its types are those of the schema and its column names start with the
  names of the schema.\<close>

fun columns_match :: "Column list \<Rightarrow> string list \<Rightarrow> ColumnType list \<Rightarrow> bool" where
  "columns_match [] nms tys \<longleftrightarrow> True"
| "columns_match (c # cs) (nm # nms) (ty # tys) \<longleftrightarrow>
     take (length (col_name c)) nm = col_name c \<and> ty = col_type c \<and> columns_match cs nms tys"
| "columns_match (c # cs) _ _ \<longleftrightarrow> False"

definition col_readable :: "Column \<Rightarrow> bool" where
  "col_readable c \<longleftrightarrow> col_ok c \<and> 0 \<notin> set (str_bytes (col_name c))"

lemma type_code_inject: "type_code a = type_code b \<longleftrightarrow> a = b"
  by (cases a; cases b) simp_all

lemma col_bytes_read:
  assumes col: "take (SCHEMA_COLUMN_SIZE (name_len c)) (drop (1 + o') page) = col_bytes c" and ok: "col_ok c"
  shows "byte_at o' (drop 1 page) = Inr (name_len c)"
    and "load (o' + 1) (unat (name_len c)) (drop 1 page) = Inr (str_bytes (col_name c))"
    and "byte_at (o' + unat (name_len c) + 1) (drop 1 page) = Inr (type_code (col_type c))"
proof -
  let ?s = "SCHEMA_COLUMN_SIZE (name_len c)" and ?n = "unat (name_len c)"
  have len: "1 + o' + ?s \<le> length page"
    using arg_cong [OF col, of length] length_col_bytes [OF ok] by (simp add: SCHEMA_COLUMN_SIZE_def)
  have at: "page ! (1 + o' + i) = col_bytes c ! i" if "i < ?s" for i
    using arg_cong [OF col, of "\<lambda>l. l ! i"] that len by simp
  have n: "length (str_bytes (col_name c)) = ?n" using ok by (simp add: col_ok_def str_bytes_def)
  show "byte_at o' (drop 1 page) = Inr (name_len c)"
    using at [of 0] len by (simp add: byte_at_def SCHEMA_COLUMN_SIZE_def col_bytes_def)
  show "byte_at (o' + ?n + 1) (drop 1 page) = Inr (type_code (col_type c))"
    using at [of "?n + 1"] len n by (simp add: byte_at_def SCHEMA_COLUMN_SIZE_def col_bytes_def nth_append add.assoc)
  have "take ?n (drop 1 (take ?s (drop (1 + o') page))) = str_bytes (col_name c)"
    unfolding col using n by (simp add: col_bytes_def)
  then show "load (o' + 1) ?n (drop 1 page) = Inr (str_bytes (col_name c))"
    using len by (simp add: load_def SCHEMA_COLUMN_SIZE_def drop_take add.commute)
qed

lemma schema_loop_match:
  assumes "columns_at i sz cols page" and "list_all col_readable cols" and "num_columns args = cols_num"
    and "i + length cols \<le> length (column_names args)" and "i + length cols \<le> length (column_types args)"
    and "byte_at off (drop 1 page) = Inr l" and "i * (unat l + 2) = i * sz"
  shows "schema_loop (length cols) i cols_num off (drop 1 page) args =
    Inr (columns_match cols (drop i (column_names args)) (drop i (column_types args)))"
  using assms
proof (induction cols arbitrary: i sz off l)
  case (Cons c cs)
  let ?o = "i * sz"
  have ok: "col_ok c" "0 \<notin> set (str_bytes (col_name c))" using Cons.prems(2) by (simp_all add: col_readable_def)
  have col: "take (SCHEMA_COLUMN_SIZE (name_len c)) (drop (1 + ?o) page) = col_bytes c" using Cons.prems(1) by simp
  note rd = col_bytes_read [OF col ok(1)]
  have l: "i * (1 + unat l + 1) = ?o" using Cons.prems(7) by simp
  have n: "length (str_bytes (col_name c)) = unat (name_len c)" "unat (name_len c) = length (col_name c)"
    using ok(1) by (simp_all add: col_ok_def str_bytes_def)
  have cmp: "strncmp_eq (unat (name_len c)) (str_bytes (col_name c)) (str_bytes nm) \<longleftrightarrow>
      take (length (col_name c)) nm = col_name c" for nm
    using strncmp_eq_take [OF n(1) ok(2), of "str_bytes nm"] str_bytes_take [of "col_name c" nm] n(2) by simp
  have nx: "Suc i * (unat (name_len c) + 2) = Suc i * SCHEMA_COLUMN_SIZE (name_len c)"
    by (simp add: SCHEMA_COLUMN_SIZE_def)
  have IH: "schema_loop (length cs) (Suc i) cols_num ?o (drop 1 page) args =
      Inr (columns_match cs (drop (Suc i) (column_names args)) (drop (Suc i) (column_types args)))"
    using Cons.prems by (intro Cons.IH [OF _ _ _ _ _ rd(1) nx]) auto
  have i: "i < length (column_names args)" "i < length (column_types args)" using Cons.prems(4,5) by simp_all
  then have d: "drop i (column_names args) = column_names args ! i # drop (Suc i) (column_names args)"
    "drop i (column_types args) = column_types args ! i # drop (Suc i) (column_types args)"
    by (simp_all add: Cons_nth_drop_Suc)
  show ?case
    unfolding list.size(4) add_0_right add_Suc_right d columns_match.simps schema_loop.simps
      Cons.prems(6) and_then_simps Let_def l
    using Cons.prems(3) i rd IH by (simp add: nth_arg_def cmp type_code_inject)
qed simp

section \<open>A new table\<close>

definition dir_entry :: "nat \<Rightarrow> bytes" where
  "dir_entry pid = encode_uint16 (of_nat pid) @ encode_uint16 4096"

lemma directory_loop_ok:
  assumes "slot_inv m ht" and "ht_size ht = 500" and "65536 \<le> brk m" and "distinct pids" and "set pids \<subseteq> {..<500}"
  shows "\<exists>m' ht'. directory_loop pids (m, ht) f = Inr ((m', ht'), f @ concat (map dir_entry pids)) \<and>
    slot_inv m' ht' \<and> ht_size ht' = 500 \<and> 65536 \<le> brk m' \<and> extends m m' \<and>
    (\<forall>i \<in> set pids. 2 \<le> i \<longrightarrow> entry_ok m' (ht_arr ht' ! i) \<and> free_of m' (ht_arr ht' ! i) = 4096) \<and>
    (\<forall>i. i \<notin> set pids \<longrightarrow> ht_arr ht' ! i = ht_arr ht ! i)"
  using assms
proof (induction pids arbitrary: m ht f)
  case (Cons p ps)
  let ?f = "f @ dir_entry p"
  have step: "directory_loop (p # ps) (m, ht) f =
      (if p < 2 then directory_loop ps (m, ht) ?f
       else and_then (dict_insert (dec p) (CU16 4096) (m, ht)) (\<lambda>st. directory_loop ps st ?f))"
  proof -
    have "p < 500" using Cons.prems(5) by simp
    then have u: "unat (of_nat p :: u32) = p" by (simp add: unat_of_nat)
    have "length (dec p) \<le> 3" using \<open>p < 500\<close> by (intro length_dec_less) simp_all
    then have "sprintf_d 7 (of_nat p) = Inr (dec p)"
      using \<open>p < 500\<close> u sint_nonneg_eq [of "of_nat p"] by (simp add: sprintf_d_def int_dec_def)
    then show ?thesis by (simp add: dir_entry_def START_USER_PAGE_def Let_def)
  qed
  show ?case
  proof (cases "p < 2")
    case True
    with Cons.IH [OF Cons.prems(1-3), of ?f] Cons.prems(4,5) step show ?thesis by auto
  next
    case False
    have p: "p < unat (ht_size ht)" using Cons.prems(2,5) by simp
    have len: "p < length (ht_arr ht)" using p Cons.prems(1) by (simp add: slot_inv_def)
    from dict_insert_arr [OF Cons.prems(1) p, of "CU16 4096"] obtain m1 ht1 where
      d: "dict_insert (dec p) (CU16 4096) (m, ht) = Inr (m1, ht1)" "slot_inv m1 ht1" "ht_size ht1 = ht_size ht"
         "extends m m1" "cells m1 (brk m) = Some (CU16 4096)"
         "ht_arr ht1 = (ht_arr ht)[p := [\<lparr>el_key = Suc (brk m), el_data = brk m\<rparr>]]" by blast
    have hi: "65536 \<le> brk m1" using d(4) Cons.prems(3) by (simp add: extends_def)
    have e1: "entry_ok m1 (ht_arr ht1 ! p)" "free_of m1 (ht_arr ht1 ! p) = 4096"
      using d(5,6) len Cons.prems(3) by (simp_all add: entry_ok_def free_of_def)
    from Cons.IH [OF d(2) _ hi, of ?f] d(3) Cons.prems obtain m' ht' where
      r: "directory_loop ps (m1, ht1) ?f = Inr ((m', ht'), ?f @ concat (map dir_entry ps))"
         "slot_inv m' ht'" "ht_size ht' = 500" "65536 \<le> brk m'" "extends m1 m'"
         "\<forall>i \<in> set ps. 2 \<le> i \<longrightarrow> entry_ok m' (ht_arr ht' ! i) \<and> free_of m' (ht_arr ht' ! i) = 4096"
         "\<forall>i. i \<notin> set ps \<longrightarrow> ht_arr ht' ! i = ht_arr ht1 ! i" by auto
    have "p \<notin> set ps" using Cons.prems(4) by simp
    then have "entry_ok m' (ht_arr ht' ! p) \<and> free_of m' (ht_arr ht' ! p) = 4096"
      using r(7) entry_ok_extends [OF _ r(5)] e1 by simp
    moreover have "ht_arr ht' ! i = ht_arr ht ! i" if "i \<notin> set (p # ps)" for i using that r(7) d(6) by simp
    ultimately show ?thesis using step False d(1) r extends_trans [OF d(4) r(5)] by auto
  qed
qed simp

lemma drop_concat_blocks:
  "list_all (\<lambda>b. length b = k) bs \<Longrightarrow> drop (k * i) (concat bs) = concat (drop i bs)"
proof (induction bs arbitrary: i)
  case (Cons b bs)
  then show ?case by (cases i) simp_all
qed simp

lemma dir_entry_blocks: "list_all (\<lambda>b. length b = 4) (map dir_entry pids)"
  by (simp add: list_all_iff dir_entry_def)

lemma length_dir_page: "length (concat (map dir_entry [0 ..< n])) = 4 * n"
  by (induction n) (simp_all add: dir_entry_def)

lemma dir_page_entry:
  assumes "i < n"
  shows "decode_uint16 (drop (4 * i) (concat (map dir_entry [0 ..< n]) @ rest)) = Inr (of_nat i)"
    and "decode_uint16 (drop (4 * i + 2) (concat (map dir_entry [0 ..< n]) @ rest)) = Inr 4096"
proof -
  let ?d = "concat (map dir_entry [0 ..< n])"
  have "drop i [0 ..< n] = i # [Suc i ..< n]" using assms upt_conv_Cons [of i n] by (subst drop_upt) simp
  then have "drop (4 * i) ?d = dir_entry i @ concat (map dir_entry [Suc i ..< n])"
    using drop_concat_blocks [OF dir_entry_blocks, of i "[0 ..< n]"] by (simp add: drop_map)
  then have d: "drop (4 * i) (?d @ rest) = dir_entry i @ concat (map dir_entry [Suc i ..< n]) @ rest"
    using assms length_dir_page [of n] by simp
  then show "decode_uint16 (drop (4 * i) (?d @ rest)) = Inr (of_nat i)"
    by (simp add: dir_entry_def u16c.decode_enc)
  have "drop (4 * i + 2) (?d @ rest) = drop 2 (drop (4 * i) (?d @ rest))"
    by (simp only: drop_drop add.commute)
  then show "decode_uint16 (drop (4 * i + 2) (?d @ rest)) = Inr 4096"
    unfolding d by (simp add: dir_entry_def u16c.decode_enc)
qed

text \<open>What a caller of \<^verbatim>\<open>create_table\<close> gets when it succeeds.\<close>

definition fresh_table_ok :: "bytes \<Rightarrow> Column list \<Rightarrow> u8 \<Rightarrow> Table \<Rightarrow> bool" where
  "fresh_table_ok junk cols n t \<longleftrightarrow>
     table_ok junk t \<and> tpages t = {0, 1} \<and> (\<forall>i. 2 \<le> i \<and> i < 500 \<longrightarrow> dir_free t i = 4096) \<and>
     byte_at 0 (tpage 1 t) = Inr n \<and> columns_at 0 0 cols (tpage 1 t) \<and>
     (\<forall>i < 500. decode_uint16 (drop (4 * i) (tpage 0 t)) = Inr (of_nat i) \<and>
                decode_uint16 (drop (4 * i + 2) (tpage 0 t)) = Inr 4096) \<and>
     (\<forall>args. num_columns args = n \<and> length cols \<le> length (column_names args) \<and>
        length cols \<le> length (column_types args) \<longrightarrow>
        check_schema (tpage 1 t) args = Inr (columns_match cols (column_names args) (column_types args)))"

lemma two_page_file:
  assumes "length p0 = PAGE_SIZE" and "length p1 = PAGE_SIZE" and "contents (dm_path dm) files = p0 @ p1"
  shows "dm_pages dm files = {0, 1}" and "page_of 0 dm files = p0" and "page_of 1 dm files = p1"
proof -
  show "dm_pages dm files = {0, 1}"
  proof -
    have "(unat p + 1) * PAGE_SIZE \<le> length (p0 @ p1) \<longleftrightarrow> unat p < 2" for p :: page_id_t
      using assms(1,2) by (auto simp: PAGE_SIZE_def)
    moreover have "unat p < 2 \<longleftrightarrow> p = 0 \<or> p = 1" for p :: page_id_t
      by (auto simp: word_unat_eq_iff less_2_cases_iff)
    ultimately show ?thesis
      unfolding dm_pages_def assms(3) by (auto simp: dm_valid_def)
  qed
  show "page_of 0 dm files = p0" "page_of 1 dm files = p1" by (simp_all add: page_of_def assms)
qed

lemma create_table_ok:
  assumes name: "length name < 15" and new: "files (DBFILES_DIR @ ''/'' @ name @ ''.db'') = None"
    and m: "cmem_wf m" "65536 \<le> brk m" and junk: "length junk = PAGE_SIZE"
    and cols: "list_all col_readable cols" "growing 0 cols" "cols_end 0 0 cols \<le> PAGE_SIZE"
    and n: "unat n = length cols"
  shows "\<exists>dm m' files'. create_table name cols n m files = Inr (Some dm, m', files') \<and>
    fresh_table_ok junk cols n \<lparr>t_mem = m', t_dm = dm, t_files = files'\<rparr>"
proof -
  let ?path = "DBFILES_DIR @ ''/'' @ name @ ''.db''"
  have path: "length ?path < 40" using name by (simp add: DBFILES_DIR_def)
  have u: "unat (of_nat MAX_PAGES :: u32) = 500" by (simp add: MAX_PAGES_def)
  have start: "slot_inv m (init_hash (of_nat MAX_PAGES))" "ht_size (init_hash (of_nat MAX_PAGES)) = 500"
    using slot_inv_init [OF m(1)] u by (simp, simp add: init_hash_def MAX_PAGES_def)
  have pids: "distinct [0 ..< MAX_PAGES]" "set [0 ..< MAX_PAGES] \<subseteq> {..<500}"
    by (auto simp del: upt_rec_numeral simp: MAX_PAGES_def)
  from directory_loop_ok [OF start m(2) pids, of "[]"] obtain m' ht where
    d: "directory_loop [0 ..< MAX_PAGES] (m, init_hash (of_nat MAX_PAGES)) [] =
         Inr ((m', ht), concat (map dir_entry [0 ..< MAX_PAGES]))"
       "slot_inv m' ht" "ht_size ht = 500" "65536 \<le> brk m'"
       "\<forall>i \<in> {0 ..< MAX_PAGES}. 2 \<le> i \<longrightarrow> entry_ok m' (ht_arr ht ! i) \<and> free_of m' (ht_arr ht ! i) = 4096"
    by auto
  have colsok: "list_all col_ok cols" using cols(1) by (auto simp: list_all_iff col_readable_def)
  let ?b0 = "n # replicate (PAGE_SIZE - 1) 0"
  have len0: "length ?b0 = PAGE_SIZE" by (simp add: PAGE_SIZE_def)
  from write_columns_ok [OF colsok cols(2), of 0 ?b0] cols(3) len0 obtain buf where
    w: "write_columns (length cols) 0 0 cols ?b0 = Inr buf" "length buf = PAGE_SIZE" "take 1 buf = take 1 ?b0"
       "columns_at 0 0 cols buf"
    by (cases "cols = []") auto
  let ?p0 = "concat (map dir_entry [0 ..< MAX_PAGES]) @ replicate (PAGE_SIZE - MAX_PAGES * 4) 0"
  let ?dm = "\<lparr>page_directory = Some ht, page_type = None, table_name = name\<rparr>"
  let ?files = "(files(?path \<mapsto> []))(?path \<mapsto> ?p0 @ buf)"
  let ?t = "\<lparr>t_mem = m', t_dm = ?dm, t_files = ?files\<rparr>"
  have run: "create_table name cols n m files = Inr (Some ?dm, m', ?files)"
    using name new path d(1) w(1) n
    by (simp add: create_table_def table_file_def Let_def contents_def)
  have dmp: "dm_path ?dm = ?path" by (simp add: dm_path_def)
  have p0: "length ?p0 = PAGE_SIZE" using length_dir_page [of MAX_PAGES] by (simp add: PAGE_SIZE_def MAX_PAGES_def)
  have "contents (dm_path ?dm) ?files = ?p0 @ buf" by (simp add: contents_def dmp)
  note pg = two_page_file [OF p0 w(2) this]
  have "table_ok junk ?t"
    using d path junk by (auto simp: table_ok_def dm_inv_def dmp dir_ok_def MAX_PAGES_def)
  moreover have "dir_free ?t i = 4096" if "2 \<le> i" "i < 500" for i
    using d(5) that by (simp add: dir_free_def MAX_PAGES_def)
  moreover have "decode_uint16 (drop (4 * i) ?p0) = Inr (of_nat i)" "decode_uint16 (drop (4 * i + 2) ?p0) = Inr 4096"
    if "i < 500" for i
  proof -
    have "i < MAX_PAGES" using that by (simp add: MAX_PAGES_def)
    then show "decode_uint16 (drop (4 * i) ?p0) = Inr (of_nat i)" "decode_uint16 (drop (4 * i + 2) ?p0) = Inr 4096"
      by (rule dir_page_entry)+
  qed
  moreover have "byte_at 0 buf = Inr n"
    using w(2,3) by (cases buf) (simp_all add: byte_at_def PAGE_SIZE_def)
  moreover have "check_schema buf args = Inr (columns_match cols (column_names args) (column_types args))"
    if "num_columns args = n" "length cols \<le> length (column_names args)" "length cols \<le> length (column_types args)" for args
  proof -
    have l: "length buf = 4096" using w(2) by (simp add: PAGE_SIZE_def)
    have b0: "byte_at 0 buf = Inr n" using w(3) l by (cases buf) (simp_all add: byte_at_def)
    have "byte_at 0 (drop 1 buf) = Inr (buf ! 1)" using l by (simp add: byte_at_def)
    from schema_loop_match [OF w(4) cols(1) that(1) _ _ this] that
    show ?thesis by (simp add: check_schema_def b0 START_COLUMNS_INFO_def n)
  qed
  ultimately show ?thesis
    using run pg w(4) by (auto simp: fresh_table_ok_def tpages_def tpage_def)
qed

lemma create_table_name:
  assumes "create_table name cols n m files = Inr (Some dm, m', files')"
  shows "table_name dm = name"
  using assms
  by (auto simp: create_table_def and_then_Inr_iff table_file_def Let_def split: if_splits prod.splits)

lemma page_zero_write:
  assumes "off + length data \<le> PAGE_SIZE" and "table_name dm' = table_name dm" and "0 \<in> dm_pages dm files"
  shows "page_of 0 dm' (files(dm_path dm \<mapsto> file_write off data (contents (dm_path dm) files))) =
    put off data (page_of 0 dm files)"
proof -
  let ?f = "contents (dm_path dm) files"
  have path: "dm_path dm' = dm_path dm" using assms(2) by (simp add: dm_path_def)
  have l: "PAGE_SIZE \<le> length ?f" using assms(3) by (simp add: dm_pages_def)
  have "take PAGE_SIZE (file_write off data ?f) = put off data (take PAGE_SIZE ?f)"
    by (rule nth_equalityI)
      (use assms(1) l in \<open>auto simp: length_file_write put_nth file_write_def Let_def nth_append\<close>)
  then show ?thesis by (simp add: page_of_def path contents_def)
qed

section \<open>A small table\<close>

definition demo_columns :: "Column list" where
  "demo_columns = [\<lparr>name_len = 2, col_name = ''id'', col_type = INTEGER\<rparr>,
                   \<lparr>name_len = 4, col_name = ''name'', col_type = STRING\<rparr>]"

definition demo_args :: AddTupleArgs where
  "demo_args = \<lparr>column_names = [''id'', ''name''], column_values = [VInteger 7, VString ''ann''],
                column_types = [INTEGER, STRING], num_columns = 2\<rparr>"

definition demo_bytes :: bytes where
  "demo_bytes = concat (map value_bytes (column_values demo_args))"

definition demo_junk :: bytes where
  "demo_junk = replicate PAGE_SIZE 7"

definition start_heap :: cmem where
  "start_heap = \<lparr>cells = Map.empty, brk = 65536\<rparr>"

lemma demo_typed:
  "list_all2 has_type (column_types demo_args) (column_values demo_args)"
  "unat (num_columns demo_args) = length (column_types demo_args)"
  "length demo_bytes = 9"
  by (simp_all add: demo_args_def demo_bytes_def str_bytes_def)

lemma demo_columns_ok:
  "list_all col_readable demo_columns" "growing 0 demo_columns" "cols_end 0 0 demo_columns \<le> PAGE_SIZE"
  by (simp_all add: demo_columns_def col_readable_def col_ok_def str_bytes_def SCHEMA_COLUMN_SIZE_def PAGE_SIZE_def)

lemma demo_create:
  "\<exists>dm m files. create_table ''users'' demo_columns 2 start_heap Map.empty = Inr (Some dm, m, files) \<and>
     fresh_table_ok demo_junk demo_columns 2 \<lparr>t_mem = m, t_dm = dm, t_files = files\<rparr>"
proof -
  have "cmem_wf start_heap" "65536 \<le> brk start_heap" by (simp_all add: start_heap_def cmem_wf_def)
  moreover have "length demo_junk = PAGE_SIZE" by (simp add: demo_junk_def)
  moreover have "unat (2 :: u8) = length demo_columns" by (simp add: demo_columns_def)
  ultimately show ?thesis
    using create_table_ok [of "''users''" Map.empty start_heap demo_junk demo_columns 2] demo_columns_ok by simp
qed

text \<open>The table after \<^verbatim>\<open>create_table\<close> and \<^verbatim>\<open>new_heap_page\<close>.\<close>

lemma demo_table:
  "\<exists>t. table_ok demo_junk t \<and> {0, 1, 2} \<subseteq> tpages t \<and> heap_page_wf (tpage 2 t) \<and>
     page_tuples (tpage 2 t) = [] \<and> free_bytes (tpage 2 t) = 4090 \<and>
     check_schema (tpage 1 t) demo_args = Inr True"
proof -
  from demo_create obtain dm m files where
    f: "fresh_table_ok demo_junk demo_columns 2 \<lparr>t_mem = m, t_dm = dm, t_files = files\<rparr>" by blast
  let ?t = "\<lparr>t_mem = m, t_dm = dm, t_files = files\<rparr>"
  have ok: "table_ok demo_junk ?t" and pages: "tpages ?t = {0, 1}" using f by (simp_all add: fresh_table_ok_def)
  from f have "check_schema (tpage 1 ?t) demo_args = Inr True"
    by (simp add: fresh_table_ok_def demo_args_def demo_columns_def)
  with new_heap_page_ok [OF ok] pages show ?thesis by (auto 4 4)
qed

lemma demo_table_one:
  "\<exists>t. table_ok demo_junk t \<and> {0, 1, 2} \<subseteq> tpages t \<and> heap_page_wf (tpage 2 t) \<and>
     page_tuples (tpage 2 t) = [Some demo_bytes]"
proof -
  from demo_table obtain t where t: "table_ok demo_junk t" "{0, 1, 2} \<subseteq> tpages t" "heap_page_wf (tpage 2 t)"
    "page_tuples (tpage 2 t) = []" "free_bytes (tpage 2 t) = 4090" "check_schema (tpage 1 t) demo_args = Inr True"
    by blast
  have "4 + length (concat (map value_bytes (column_values demo_args))) \<le> free_bytes (tpage 2 t)"
    using t(5) demo_typed(3) by (simp add: demo_bytes_def)
  with add_tuple_ok [OF t(1) _ _ t(3) t(6) demo_typed(1,2), of 0] t(2,4)
  show ?thesis by (auto simp: demo_bytes_def)
qed

text \<open>A page with two slots, and a table that has it as page 2.\<close>

definition demo_page :: "TuplePtr \<Rightarrow> TuplePtr \<Rightarrow> bytes" where
  "demo_page p0 p1 =
     set_header \<lparr>hdr_id = 2, free_start = 13, free_end = 4077, hdr_flags = COMPACTABLE\<rparr>
       (set_ptr 0 p0 (set_ptr 1 p1 (replicate PAGE_SIZE 0)))"

lemma demo_page_facts:
  shows "length (demo_page p0 p1) = PAGE_SIZE" and "slot_count (demo_page p0 p1) = 2"
    and "ptr_at 0 (demo_page p0 p1) = p0" and "ptr_at 1 (demo_page p0 p1) = p1"
    and "tup_size (ptr_at 2 (demo_page p0 p1)) = 0" and "demo_page p0 p1 ! 4 AND COMPACTABLE \<noteq> 0"
    and "u16_at 2 (demo_page p0 p1) = 4077" and "u16_at 0 (demo_page p0 p1) = 13"
proof -
  let ?h = "\<lparr>hdr_id = 2, free_start = 13, free_end = 4077, hdr_flags = COMPACTABLE\<rparr>"
  let ?b = "set_ptr 0 p0 (set_ptr 1 p1 (replicate PAGE_SIZE 0))"
  have l: "length ?b = 4096" "length (set_ptr 1 p1 (replicate PAGE_SIZE 0)) = 4096" by (simp_all add: PAGE_SIZE_def)
  note hdr = u16_at_set_header [of ?b ?h, folded demo_page_def]
  show "length (demo_page p0 p1) = PAGE_SIZE" using l by (simp add: demo_page_def PAGE_SIZE_def)
  show "u16_at 2 (demo_page p0 p1) = 4077" and fs: "u16_at 0 (demo_page p0 p1) = 13" using hdr l by simp_all
  show "slot_count (demo_page p0 p1) = 2" by (simp add: slot_count_def fs)
  show "demo_page p0 p1 ! 4 AND COMPACTABLE \<noteq> 0" using hdr l by (simp add: COMPACTABLE_def)
  show "ptr_at 0 (demo_page p0 p1) = p0" using l by (simp add: demo_page_def ptr_at_set_header ptr_at_set_ptr)
  show "ptr_at 1 (demo_page p0 p1) = p1"
    using l by (simp add: demo_page_def ptr_at_set_header ptr_at_set_ptr PAGE_SIZE_def)
  have "ptr_at 2 (demo_page p0 p1) = ptr_at 2 (replicate PAGE_SIZE 0)"
    using l by (simp add: demo_page_def ptr_at_set_header ptr_at_set_ptr PAGE_SIZE_def)
  then show "tup_size (ptr_at 2 (demo_page p0 p1)) = 0"
    by (simp add: ptr_at_def u16_at_nth PAGE_SIZE_def)
qed

lemma demo_page_wf:
  assumes "start_offset p0 = 0 \<or> 4077 \<le> unat (start_offset p0) \<and> unat (start_offset p0) + unat (tup_size p0) \<le> 4095"
    and "start_offset p1 = 0 \<or> 4077 \<le> unat (start_offset p1) \<and> unat (start_offset p1) + unat (tup_size p1) \<le> 4095"
  shows "heap_page_wf (demo_page p0 p1)"
proof -
  have "[0 ..< slot_count (demo_page p0 p1)] = [0, 1]" by (simp add: demo_page_facts(2) upt_rec)
  then show ?thesis
    using assms demo_page_facts [of p0 p1] by (simp add: heap_page_wf_def ptr_ok_def Let_def)
qed

lemma demo_table_with_page:
  assumes "length b = PAGE_SIZE"
  shows "\<exists>t. table_ok demo_junk t \<and> 2 \<in> tpages t \<and> tpage 2 t = b"
proof -
  from demo_create obtain dm m files where
    "fresh_table_ok demo_junk demo_columns 2 \<lparr>t_mem = m, t_dm = dm, t_files = files\<rparr>" by blast
  then have ok: "table_ok demo_junk \<lparr>t_mem = m, t_dm = dm, t_files = files\<rparr>" by (simp add: fresh_table_ok_def)
  have "dm_valid 2" by (simp add: dm_valid_def)
  from table_write [OF ok this assms] show ?thesis by blast
qed

section \<open>Properties\<close>

text \<open>
  \<^verbatim>\<open>create_table\<close> on a new name sets up a table: both directories say that every user page has
  4096 free bytes, and the schema page makes \<^verbatim>\<open>add_tuple\<close> accept exactly the tuples with the right types
  whose column names start with the names of the schema. No column name but the last may be shorter
  than the one before it.
\<close>

lemma create_table_establishes:
  assumes "length name < 15" and "files (DBFILES_DIR @ ''/'' @ name @ ''.db'') = None"
    and "cmem_wf m" and "65536 \<le> brk m" and "length junk = PAGE_SIZE"
    and "list_all col_readable cols" and "growing 0 cols" and "cols_end 0 0 cols \<le> PAGE_SIZE"
    and "unat n = length cols"
  shows "\<exists>dm m' files'. create_table name cols n m files = Inr (Some dm, m', files') \<and>
    fresh_table_ok junk cols n \<lparr>t_mem = m', t_dm = dm, t_files = files'\<rparr>"
  using assms by (rule create_table_ok)

text \<open>
  C1. A tuple that matches the schema and for which page 2 has room is stored by \<^verbatim>\<open>add_tuple\<close>: page 2 keeps its slots and gets one more with the
  encoding of the values, \<^verbatim>\<open>get_tuple\<close> on the new slot returns a pointer to these bytes, the recorded
  free space shrinks by their number, and no other page but the directory changes.
\<close>

theorem add_tuple_then_get:
  assumes ok: "table_ok junk t" and pages: "1 \<in> tpages t" "2 \<in> tpages t" and wf: "heap_page_wf (tpage 2 t)"
    and schema: "check_schema (tpage 1 t) args = Inr True"
    and typed: "list_all2 has_type (column_types args) (column_values args)"
    and num: "unat (num_columns args) = length (column_types args)"
    and fits: "4 + length (concat (map value_bytes (column_values args))) \<le> free_bytes (tpage 2 t)"
  shows "\<exists>ptr t' s. add_tuple junk junk_pid args t = Inr (Some ptr, t') \<and> table_ok junk t' \<and>
    heap_page_wf (tpage 2 t') \<and>
    page_tuples (tpage 2 t') = page_tuples (tpage 2 t) @ [Some (concat (map value_bytes (column_values args)))] \<and>
    get_tuple junk \<lparr>rid_pid = 2, slot_num = of_nat (slot_count (tpage 2 t))\<rparr> t' = Inr (Some s, t') \<and>
    take (length (concat (map value_bytes (column_values args)))) s = concat (map value_bytes (column_values args)) \<and>
    dir_free t' 2 = dir_free t 2 - of_nat (length (concat (map value_bytes (column_values args)))) \<and>
    (\<forall>q \<in> tpages t. q \<noteq> 0 \<and> q \<noteq> 2 \<longrightarrow> tpage q t' = tpage q t)"
  using assms by (rule add_tuple_get)

theorem add_tuple_then_get_witness:
  "\<exists>t ptr t' s. page_tuples (tpage 2 t) = [] \<and> add_tuple demo_junk 0 demo_args t = Inr (Some ptr, t') \<and>
     get_tuple demo_junk \<lparr>rid_pid = 2, slot_num = 0\<rparr> t' = Inr (Some s, t') \<and> take 9 s = demo_bytes"
proof -
  from demo_table obtain t where t: "table_ok demo_junk t" "{0, 1, 2} \<subseteq> tpages t" "heap_page_wf (tpage 2 t)"
    "page_tuples (tpage 2 t) = []" "free_bytes (tpage 2 t) = 4090" "check_schema (tpage 1 t) demo_args = Inr True"
    by blast
  have z: "slot_count (tpage 2 t) = 0" using t(4) by (simp add: page_tuples_def)
  have "4 + length (concat (map value_bytes (column_values demo_args))) \<le> free_bytes (tpage 2 t)"
    using t(5) demo_typed(3) by (simp add: demo_bytes_def)
  with add_tuple_then_get [OF t(1) _ _ t(3) t(6) demo_typed(1,2), of 0] t(2,4)
  show ?thesis unfolding demo_bytes_def [symmetric] demo_typed(3) z by auto
qed

text \<open>
  C29. After \<^verbatim>\<open>remove_tuple\<close> the slot reads as empty, every other slot of the page and every other page
  are as before, and the page is marked for compaction.
\<close>

theorem remove_tuple_then_get:
  assumes "table_ok junk t" and "p \<in> tpages t" and "heap_page_wf (tpage p t)" and "i < slot_count (tpage p t)"
  shows "\<exists>t'. remove_tuple junk \<lparr>rid_pid = p, slot_num = of_nat i\<rparr> t = Inr t' \<and> table_ok junk t' \<and>
    heap_page_wf (tpage p t') \<and> page_tuples (tpage p t') = (page_tuples (tpage p t))[i := None] \<and>
    tpage p t' ! 4 = tpage p t ! 4 OR COMPACTABLE \<and>
    get_tuple junk \<lparr>rid_pid = p, slot_num = of_nat i\<rparr> t' = Inr (None, t') \<and>
    (\<forall>q \<in> tpages t. q \<noteq> p \<longrightarrow> tpage q t' = tpage q t)"
proof -
  from remove_tuple_ok [OF assms] obtain t' where
    r: "remove_tuple junk \<lparr>rid_pid = p, slot_num = of_nat i\<rparr> t = Inr t'" "table_ok junk t'" "tpages t \<subseteq> tpages t'"
      "\<forall>q \<in> tpages t. q \<noteq> p \<longrightarrow> tpage q t' = tpage q t" "heap_page_wf (tpage p t')"
      "page_tuples (tpage p t') = (page_tuples (tpage p t))[i := None]"
      "tpage p t' ! 4 = tpage p t ! 4 OR COMPACTABLE" by blast
  have n: "length (page_tuples x) = slot_count x" for x by (simp add: page_tuples_def)
  have "slot_count (tpage p t') = slot_count (tpage p t)" using arg_cong [OF r(6), of length] by (simp add: n)
  with get_tuple_slot [OF r(2) _ r(5), of i] r(3,6) assms(2,4)
  have "get_tuple junk \<lparr>rid_pid = p, slot_num = of_nat i\<rparr> t' = Inr (None, t')" by (auto simp: n)
  with r show ?thesis by blast
qed

theorem remove_tuple_then_get_witness:
  "\<exists>t t'. page_tuples (tpage 2 t) = [Some demo_bytes] \<and>
     remove_tuple demo_junk \<lparr>rid_pid = 2, slot_num = 0\<rparr> t = Inr t' \<and> page_tuples (tpage 2 t') = [None] \<and>
     get_tuple demo_junk \<lparr>rid_pid = 2, slot_num = 0\<rparr> t' = Inr (None, t')"
proof -
  from demo_table_one obtain t where t: "table_ok demo_junk t" "{0, 1, 2} \<subseteq> tpages t" "heap_page_wf (tpage 2 t)"
    "page_tuples (tpage 2 t) = [Some demo_bytes]" by blast
  have "length (page_tuples (tpage 2 t)) = slot_count (tpage 2 t)" by (simp add: page_tuples_def)
  then have "0 < slot_count (tpage 2 t)" using t(4) by simp
  from remove_tuple_then_get [OF t(1) _ t(3) this] t(2,4) show ?thesis by auto
qed

text \<open>
  \<^verbatim>\<open>find_spacious_page\<close> compares the address of the directory entry with the size, so on every
  table it answers page 2, whatever size is asked for and whatever the directory says.
  \<^verbatim>\<open>new_heap_page\<close> therefore always returns page 2 and replaces it by an empty page: the tuples
  stored there are gone.
\<close>

lemma new_heap_page_reuses_page_2:
  assumes "table_ok junk t"
  shows "find_spacious_page sz (t_mem t) (t_dm t) = Inr (Some 2) \<and>
    (\<exists>t'. new_heap_page junk t = Inr (2, t') \<and> page_tuples (tpage 2 t') = [] \<and> table_ok junk t' \<and>
      heap_page_wf (tpage 2 t') \<and> (\<forall>q \<in> tpages t. q \<noteq> 2 \<longrightarrow> tpage q t' = tpage q t))"
  using find_spacious_page_first [OF assms] new_heap_page_ok [OF assms] by blast

text \<open>
  The directory page on disk has four bytes per page, but \<^verbatim>\<open>update_page_dir\<close> writes the entry of page
  \<open>p\<close> at offset \<open>2 * p\<close>: after \<^verbatim>\<open>add_tuple\<close> the entry of page 1 names page 2 and its free space, and
  the entry of page 2 is what it was.
\<close>

lemma add_tuple_misplaces_directory_entry:
  assumes ok: "table_ok junk t" and pages: "1 \<in> tpages t" "2 \<in> tpages t" and wf: "heap_page_wf (tpage 2 t)"
    and schema: "check_schema (tpage 1 t) args = Inr True"
    and typed: "list_all2 has_type (column_types args) (column_values args)"
    and num: "unat (num_columns args) = length (column_types args)"
    and fits: "4 + length (concat (map value_bytes (column_values args))) \<le> free_bytes (tpage 2 t)"
  shows "\<exists>ptr t'. add_tuple junk junk_pid args t = Inr (Some ptr, t') \<and>
    decode_uint16 (drop (4 * 1) (tpage 0 t')) = Inr 2 \<and>
    decode_uint16 (drop (4 * 1 + 2) (tpage 0 t')) = Inr (dir_free t' 2) \<and>
    decode_uint16 (drop (4 * 2 + 2) (tpage 0 t')) = decode_uint16 (drop (4 * 2 + 2) (tpage 0 t))"
proof -
  from add_tuple_ok [OF assms, of junk_pid] obtain ptr t' f1 where
    a: "add_tuple junk junk_pid args t = Inr (Some ptr, t')" "table_name (t_dm t') = table_name (t_dm t)"
      "t_files t' = f1(dm_path (t_dm t) \<mapsto> file_write 4 (encode_uint16 2 @ encode_uint16 (dir_free t' 2))
         (contents (dm_path (t_dm t)) f1))"
      "page_of 0 (t_dm t) f1 = tpage 0 t" "0 \<in> dm_pages (t_dm t) f1" by blast
  let ?d = "encode_uint16 2 @ encode_uint16 (dir_free t' 2)"
  have "0 \<in> tpages t" using pages(1) by (simp add: tpages_def dm_pages_def dm_valid_def)
  then have l: "length (tpage 0 t) = 4096" using table_read(2) [OF ok] by (simp add: PAGE_SIZE_def)
  have eq: "tpage 0 t' = put 4 ?d (tpage 0 t)"
    using page_zero_write [of 4 ?d, OF _ a(2,5)] by (simp add: tpage_def [of 0 t'] a(3,4) PAGE_SIZE_def)
  have "drop 4 (tpage 0 t') = ?d @ drop 8 (tpage 0 t)"
    unfolding eq using l by (simp add: drop_put_same)
  then have "decode_uint16 (drop 4 (tpage 0 t')) = Inr 2"
    and "decode_uint16 (drop 2 (drop 4 (tpage 0 t'))) = Inr (dir_free t' 2)"
    by (simp_all add: u16c.decode_enc)
  moreover have "decode_uint16 (drop 10 (tpage 0 t')) = decode_uint16 (drop 10 (tpage 0 t))"
    unfolding eq using l by (simp add: drop_put_after)
  ultimately show ?thesis using a(1) by simp
qed

text \<open>
  The free space is never checked: a tuple that is longer than what is below the end of the free
  space of page 2 makes \<^verbatim>\<open>add_tuple\<close> write outside the page, although 497 other pages are free.
\<close>

lemma add_tuple_full_page_out_of_bounds:
  assumes ok: "table_ok junk t" and pages: "1 \<in> tpages t" "2 \<in> tpages t"
    and schema: "check_schema (tpage 1 t) args = Inr True"
    and typed: "list_all2 has_type (column_types args) (column_values args)"
    and num: "unat (num_columns args) = length (column_types args)"
    and small: "length (concat (map value_bytes (column_values args))) < 65536"
    and full: "unat (u16_at 2 (tpage 2 t)) < length (concat (map value_bytes (column_values args)))"
  shows "add_tuple junk junk_pid args t = Inl OutOfBounds"
proof -
  let ?B = "concat (map value_bytes (column_values args))"
  have u: "unat (of_nat (length ?B) :: u16) = length ?B" using small by (simp add: unat_of_nat)
  have l: "5 \<le> length (tpage 2 t)" using table_read(2) [OF ok pages(2)] by (simp add: PAGE_SIZE_def)
  have "place_tuple (tpage 2 t) (header_of 2 (tpage 2 t)) (of_nat (length ?B)) ?B = Inl OutOfBounds"
    using full by (simp add: place_tuple_def Let_def header_of_fields store_def u del: length_concat)
  then show ?thesis
    using encode_tuple_typed [OF typed small] find_spacious_page_first [OF ok] table_read(1) [OF ok pages(1)]
      table_read(1) [OF ok pages(2)] extract_header_eq [OF l, of 2] schema
    by (simp add: add_tuple_def num del: length_concat)
qed

text \<open>
  C33. \<^verbatim>\<open>defragment\<close> on a page whose removed tuples are the last ones keeps exactly the tuples before
  them, in order, and clears the flag. The four bytes after the tuple pointers must not look like a
  tuple, since the loop reads them before it stops.
\<close>

theorem defragment_keeps_prefix:
  assumes "table_ok junk t" and "p \<in> tpages t" and "heap_page_wf (tpage p t)"
    and "tpage p t ! 4 AND COMPACTABLE \<noteq> 0" and "length fresh = PAGE_SIZE"
    and "packed (tpage p t) k" and "k \<le> slot_count (tpage p t)" and "slot_count (tpage p t) < 1022"
    and "\<forall>j. k \<le> j \<and> j < slot_count (tpage p t) \<longrightarrow> start_offset (ptr_at j (tpage p t)) = 0"
    and "tup_size (ptr_at (slot_count (tpage p t)) (tpage p t)) = 0"
  shows "\<exists>t'. defragment junk fresh p t = Inr t' \<and> table_ok junk t' \<and> heap_page_wf (tpage p t') \<and>
    page_tuples (tpage p t') = take k (page_tuples (tpage p t)) \<and>
    tpage p t' ! 4 = tpage p t ! 4 AND NOT COMPACTABLE \<and>
    (\<forall>q \<in> tpages t. q \<noteq> p \<longrightarrow> tpage q t' = tpage q t)"
proof -
  from defragment_page_keeps [OF assms(3-10), of p] obtain page where
    d: "defragment_page fresh (tpage p t) p = Inr (Some page)" "heap_page_wf page"
      "page_tuples page = take k (page_tuples (tpage p t))" "page ! 4 = tpage p t ! 4 AND NOT COMPACTABLE" by blast
  have "length page = PAGE_SIZE" using d(2) by (simp add: heap_page_wf_def)
  from defragment_ok [OF assms(1-3) d(1) this] d show ?thesis by auto
qed

theorem defragment_keeps_prefix_witness:
  "\<exists>t t'. length (page_tuples (tpage 2 t)) = 2 \<and> defragment demo_junk demo_junk 2 t = Inr t' \<and>
     page_tuples (tpage 2 t') = take 1 (page_tuples (tpage 2 t))"
proof -
  let ?p0 = "\<lparr>start_offset = 4086, tup_size = 9\<rparr>" and ?p1 = "\<lparr>start_offset = 0, tup_size = 9\<rparr>"
  note f = demo_page_facts [of ?p0 ?p1]
  from demo_table_with_page [OF f(1)] obtain t where
    t: "table_ok demo_junk t" "2 \<in> tpages t" "tpage 2 t = demo_page ?p0 ?p1" by blast
  have wf: "heap_page_wf (tpage 2 t)" unfolding t(3) by (rule demo_page_wf) simp_all
  have pk: "packed (tpage 2 t) 1" using f(3) by (simp add: t(3) packed_def tuple_top_def)
  have gone: "\<forall>j. 1 \<le> j \<and> j < slot_count (tpage 2 t) \<longrightarrow> start_offset (ptr_at j (tpage 2 t)) = 0"
  proof (intro allI impI)
    fix j assume "1 \<le> j \<and> j < slot_count (tpage 2 t)"
    then have "j = 1" using f(2) by (simp add: t(3))
    then show "start_offset (ptr_at j (tpage 2 t)) = 0" unfolding t(3) using f(4) by simp
  qed
  have "length demo_junk = PAGE_SIZE" by (simp add: demo_junk_def)
  moreover have "tpage 2 t ! 4 AND COMPACTABLE \<noteq> 0" using f(6) by (simp add: t(3))
  moreover have "1 \<le> slot_count (tpage 2 t)" "slot_count (tpage 2 t) < 1022" using f(2) by (simp_all add: t(3))
  moreover have "tup_size (ptr_at (slot_count (tpage 2 t)) (tpage 2 t)) = 0" using f(2,5) by (simp add: t(3))
  ultimately obtain t' where "defragment demo_junk demo_junk 2 t = Inr t'"
    "page_tuples (tpage 2 t') = take 1 (page_tuples (tpage 2 t))"
    using defragment_keeps_prefix [OF t(1,2) wf _ _ pk _ _ gone, of demo_junk] by blast
  moreover have "length (page_tuples (tpage 2 t)) = 2" using f(2) by (simp add: t(3) page_tuples_def)
  ultimately show ?thesis by blast
qed

text \<open>
  When a removed tuple lies before a kept one, \<^verbatim>\<open>defragment\<close> moves the kept tuple but copies its
  pointer unchanged: the slot then shows what the freshly allocated page buffer happened to hold.
\<close>

lemma defragment_leaves_stale_pointer:
  assumes "table_ok junk t" and "p \<in> tpages t" and "heap_page_wf (tpage p t)"
    and "tpage p t ! 4 AND COMPACTABLE \<noteq> 0" and "length fresh = PAGE_SIZE"
    and "slot_count (tpage p t) = 2" and "tup_size (ptr_at 2 (tpage p t)) = 0"
    and "ptr_at 0 (tpage p t) = \<lparr>start_offset = 0, tup_size = s\<rparr>" and "s \<noteq> 0"
    and "ptr_at 1 (tpage p t) = \<lparr>start_offset = o', tup_size = n\<rparr>" and "o' \<noteq> 0" and "n \<noteq> 0"
    and "unat o' + unat n + unat s = 4095" and "unat n \<le> unat s"
  shows "\<exists>t'. defragment junk fresh p t = Inr t' \<and> \<not> heap_page_wf (tpage p t') \<and>
    page_tuples (tpage p t') = [Some (take (unat n) (drop (unat o') fresh))]"
proof -
  from defragment_page_stale [OF assms(3-14), of p] obtain page where
    d: "defragment_page fresh (tpage p t) p = Inr (Some page)" "\<not> heap_page_wf page"
      "page_tuples page = [Some (take (unat n) (drop (unat o') fresh))]" by blast
  have "length page = PAGE_SIZE"
    by (rule defragment_page_length [OF d(1)]) (use assms in \<open>simp_all add: heap_page_wf_def\<close>)
  from defragment_ok [OF assms(1-3) d(1) this] d show ?thesis by auto
qed

text \<open>
  The tuple buffer \<^verbatim>\<open>add_tuple\<close> builds is the concatenation of the encodings of the column values
  and its 16-bit size is their total length, as long as that is below 65536.
\<close>

lemma encode_tuple_concatenates:
  assumes "list_all2 has_type ts vs" and "length (concat (map value_bytes vs)) < 65536"
  shows "encode_tuple (length ts) ts vs =
    Inr (of_nat (length (concat (map value_bytes vs))), concat (map value_bytes vs))"
  using assms by (rule encode_tuple_typed)

end
