(* ===== verification/Heap_Threads.thy ===== *)
theory Heap_Threads
  imports Heapfile Latches
begin

text \<open>
  \<^verbatim>\<open>add_tuple\<close> and \<^verbatim>\<open>remove_tuple\<close> of \<^verbatim>\<open>src/disk/heapfile.c\<close> as threads run them under the latch of the disk manager: each read and
  each write of a page is a step of its own, and what a thread has read it keeps in its own buffer. The encoding of
  the tuple, which comes before the latch and touches nothing that is shared, is counted to the first step.
\<close>

section \<open>The operations in steps\<close>

datatype heap_op = HeapAdd AddTupleArgs | HeapRemove RID

datatype heap_pc =
    HeapEntered \<comment> \<open>the latch is taken\<close>
  | PageChosen u16 bytes page_id_t \<comment> \<open>size and bytes of the tuple, the page for it\<close>
  | PageRead u16 bytes page_id_t bytes Header \<comment> \<open>and the page\<close>
  | SchemaChecked u16 bytes page_id_t bytes Header
  | PageWritten u16 page_id_t TuplePtr
  | SlotRead RID bytes \<comment> \<open>the page with the tuple to remove\<close>
  | HeapExit "TuplePtr option"

fun add_step :: "bytes \<Rightarrow> page_id_t \<Rightarrow> AddTupleArgs \<Rightarrow> heap_pc \<Rightarrow> Table \<Rightarrow> (heap_pc \<times> Table) res" where
  "add_step junk junk_pid args HeapEntered t =
     and_then (encode_tuple (unat (num_columns args)) (column_types args) (column_values args)) (\<lambda>(sz, buf).
     and_then (find_spacious_page sz (t_mem t) (t_dm t)) (\<lambda>found.
       Inr (PageChosen sz buf (case found of Some p \<Rightarrow> p | None \<Rightarrow> junk_pid), t)))"
| "add_step junk junk_pid args (PageChosen sz buf pid) t =
     and_then (read_page junk pid (t_dm t) (t_files t)) (\<lambda>(page, files).
     and_then (extract_header page pid) (\<lambda>header.
       Inr (PageRead sz buf pid page header, t\<lparr>t_files := files\<rparr>)))"
| "add_step junk junk_pid args (PageRead sz buf pid page header) t =
     and_then (read_page junk 1 (t_dm t) (t_files t)) (\<lambda>(schema, files).
     and_then (check_schema schema args) (\<lambda>valid.
       Inr (if valid then SchemaChecked sz buf pid page header else HeapExit None, t\<lparr>t_files := files\<rparr>)))"
| "add_step junk junk_pid args (SchemaChecked sz buf pid page header) t =
     and_then (place_tuple page header sz buf) (\<lambda>(tuple_ptr, page).
     and_then (write_page pid (t_dm t) page (t_files t)) (\<lambda>files.
       Inr (PageWritten sz pid tuple_ptr, t\<lparr>t_files := files\<rparr>)))"
| "add_step junk junk_pid args (PageWritten sz pid tuple_ptr) t =
     and_then (update_page_dir pid sz TUPLE_ADD t) (\<lambda>t. Inr (HeapExit (Some tuple_ptr), t))"
| "add_step junk junk_pid args pc t = Inl OutOfBounds"

fun removal_step :: "bytes \<Rightarrow> RID \<Rightarrow> heap_pc \<Rightarrow> Table \<Rightarrow> (heap_pc \<times> Table) res" where
  "removal_step junk rid HeapEntered t =
     and_then (read_page junk (rid_pid rid) (t_dm t) (t_files t)) (\<lambda>(page, files).
       Inr (SlotRead rid page, t\<lparr>t_files := files\<rparr>))"
| "removal_step junk rid (SlotRead rid' page) t =
     and_then (mark_removed page (rid_pid rid) (slot_num rid)) (\<lambda>page.
     and_then (write_page (rid_pid rid) (t_dm t) page (t_files t)) (\<lambda>files.
       Inr (HeapExit None, t\<lparr>t_files := files\<rparr>)))"
| "removal_step junk rid pc t = Inl OutOfBounds"

fun heap_step :: "bytes \<Rightarrow> page_id_t \<Rightarrow> heap_op \<Rightarrow> heap_pc \<Rightarrow> Table \<Rightarrow> (heap_pc \<times> Table) res" where
  "heap_step junk junk_pid (HeapAdd args) pc t = add_step junk junk_pid args pc t"
| "heap_step junk junk_pid (HeapRemove rid) pc t = removal_step junk rid pc t"

fun heap_leave :: "heap_pc \<Rightarrow> (TuplePtr option \<times> bool) option" where
  "heap_leave (HeapExit x) = Some (x, True)"
| "heap_leave _ = None"

definition heap_machine :: "bytes \<Rightarrow> page_id_t \<Rightarrow> (heap_op, heap_pc, Table, TuplePtr option) machine" where
  "heap_machine junk junk_pid =
     \<lparr>m_early = (\<lambda>_. None), m_enter = (\<lambda>_. HeapEntered), m_step = heap_step junk junk_pid, m_leave = heap_leave\<rparr>"

section \<open>The operations as a whole\<close>

fun heap_whole :: "bytes \<Rightarrow> page_id_t \<Rightarrow> heap_op \<Rightarrow> Table \<Rightarrow> (TuplePtr option \<times> Table) res" where
  "heap_whole junk junk_pid (HeapAdd args) t = add_tuple junk junk_pid args t"
| "heap_whole junk junk_pid (HeapRemove rid) t = and_then (remove_tuple junk rid t) (\<lambda>t. Inr (None, t))"

text \<open>How many steps an operation has left, and all of them in one go.\<close>

fun heap_todo :: "heap_op \<Rightarrow> heap_pc \<Rightarrow> Table \<Rightarrow> nat" where
  "heap_todo op HeapEntered t = 5"
| "heap_todo op (PageChosen sz buf pid) t = 4"
| "heap_todo op (PageRead sz buf pid page header) t = 3"
| "heap_todo op (SchemaChecked sz buf pid page header) t = 2"
| "heap_todo op (PageWritten sz pid p) t = 1"
| "heap_todo op (SlotRead rid page) t = 1"
| "heap_todo op (HeapExit x) t = 0"

function heap_rest :: "bytes \<Rightarrow> page_id_t \<Rightarrow> heap_op \<Rightarrow> heap_pc \<Rightarrow> Table \<Rightarrow> (TuplePtr option \<times> Table) res" where
  "heap_rest junk junk_pid op pc t =
     (case heap_leave pc of
        Some (x, u) \<Rightarrow> Inr (x, t)
      | None \<Rightarrow> and_then (heap_step junk junk_pid op pc t) (\<lambda>(pc', t'). heap_rest junk junk_pid op pc' t'))"
  by pat_completeness auto

lemma heap_step_todo: "heap_step junk junk_pid op pc t = Inr (pc', t') \<Longrightarrow> heap_todo op pc' t' < heap_todo op pc t"
  by (cases op; cases pc) (auto simp: and_then_Inr_iff)

termination heap_rest
  by (relation "measure (\<lambda>(junk, junk_pid, op, pc, t). heap_todo op pc t)") (auto intro: heap_step_todo)

declare heap_rest.simps [simp del]

lemma heap_rest_whole: "heap_rest junk junk_pid op HeapEntered t = heap_whole junk junk_pid op t"
proof (cases op)
  case (HeapAdd args)
  then show ?thesis
    by (simp add: heap_rest.simps add_tuple_def Let_def and_then_assoc split: option.splits)
      (auto simp: and_then_def heap_rest.simps split: sum.splits)
next
  case (HeapRemove rid)
  then show ?thesis by (auto simp: heap_rest.simps remove_tuple_def and_then_def split: sum.splits)
qed

interpretation heap_threads: latched "heap_machine junk junk_pid" "heap_whole junk junk_pid" "heap_rest junk junk_pid" heap_todo
  for junk junk_pid
proof
  fix pc op s pc' s'
  assume "m_leave (heap_machine junk junk_pid) pc = None" and "m_step (heap_machine junk junk_pid) op pc s = Inr (pc', s')"
  then show "heap_rest junk junk_pid op pc' s' = heap_rest junk junk_pid op pc s" and "heap_todo op pc' s' < heap_todo op pc s"
    by (simp_all add: heap_machine_def heap_step_todo heap_rest.simps [of junk junk_pid op pc])
next
  fix pc r u op s
  assume "m_leave (heap_machine junk junk_pid) pc = Some (r, u)"
  then show "heap_rest junk junk_pid op pc s = Inr (r, s)" and u
    by (cases pc; simp add: heap_machine_def heap_rest.simps)+
next
  fix pc op s e
  assume "m_leave (heap_machine junk junk_pid) pc = None" and "m_step (heap_machine junk junk_pid) op pc s = Inl e"
  then show "heap_rest junk junk_pid op pc s = Inl e" by (simp add: heap_machine_def heap_rest.simps [of junk junk_pid op pc])
qed (simp_all add: heap_machine_def heap_rest_whole)

section \<open>Adding tuples by several threads\<close>

definition tuple_bytes :: "AddTupleArgs \<Rightarrow> bytes" where
  "tuple_bytes args = concat (map value_bytes (column_values args))"

text \<open>A tuple of the right types that matches the schema or does not.\<close>

definition typed_args :: "AddTupleArgs \<Rightarrow> bool" where
  "typed_args args \<longleftrightarrow> list_all2 has_type (column_types args) (column_values args) \<and>
     unat (num_columns args) = length (column_types args) \<and> length (tuple_bytes args) < 65536"

definition accepted :: "bytes \<Rightarrow> AddTupleArgs \<Rightarrow> bool" where
  "accepted schema args \<longleftrightarrow> check_schema schema args = Inr True"

definition addable :: "bytes \<Rightarrow> AddTupleArgs \<Rightarrow> bool" where
  "addable schema args \<longleftrightarrow> typed_args args \<and> (check_schema schema args = Inr True \<or> check_schema schema args = Inr False)"

definition space_for :: "bytes \<Rightarrow> AddTupleArgs list \<Rightarrow> nat" where
  "space_for schema as = (\<Sum>a\<leftarrow>filter (accepted schema) as. 4 + length (tuple_bytes a))"

text \<open>A table whose page 2 takes the tuples, with its schema page.\<close>

definition open_table :: "bytes \<Rightarrow> bytes \<Rightarrow> Table \<Rightarrow> bool" where
  "open_table junk schema t \<longleftrightarrow> table_ok junk t \<and> 1 \<in> tpages t \<and> 2 \<in> tpages t \<and> heap_page_wf (tpage 2 t) \<and> tpage 1 t = schema"

lemma add_rejected:
  assumes t: "open_table junk schema t" and a: "typed_args args" "check_schema schema args = Inr False"
  shows "add_tuple junk junk_pid args t = Inr (None, t)"
proof -
  from t have ok: "table_ok junk t" "1 \<in> tpages t" "2 \<in> tpages t" "heap_page_wf (tpage 2 t)" "tpage 1 t = schema"
    by (simp_all add: open_table_def)
  have l: "5 \<le> length (tpage 2 t)" using heap_page_wfD(1) [OF ok(4)] by simp
  have "encode_tuple (unat (num_columns args)) (column_types args) (column_values args) =
      Inr (of_nat (length (tuple_bytes args)), tuple_bytes args)"
    using a(1) encode_tuple_typed [of "column_types args" "column_values args"] by (simp add: typed_args_def tuple_bytes_def)
  then show ?thesis
    using find_spacious_page_first [OF ok(1)] table_read(1) [OF ok(1,2)] table_read(1) [OF ok(1,3)] extract_header_eq [OF l, of 2] a(2) ok(5)
    by (simp add: add_tuple_def)
qed

lemma add_accepted:
  assumes t: "open_table junk schema t" and a: "typed_args args" "accepted schema args"
    and fits: "4 + length (tuple_bytes args) \<le> free_bytes (tpage 2 t)"
  shows "\<exists>ptr t'. add_tuple junk junk_pid args t = Inr (Some ptr, t') \<and> open_table junk schema t' \<and>
    page_tuples (tpage 2 t') = page_tuples (tpage 2 t) @ [Some (tuple_bytes args)] \<and>
    free_bytes (tpage 2 t') + 4 + length (tuple_bytes args) = free_bytes (tpage 2 t)"
proof -
  from t have ok: "table_ok junk t" "1 \<in> tpages t" "2 \<in> tpages t" "heap_page_wf (tpage 2 t)" "tpage 1 t = schema"
    by (simp_all add: open_table_def)
  from add_tuple_ok [OF ok(1-4), of args junk_pid] a fits ok(5) obtain ptr t' where
    "add_tuple junk junk_pid args t = Inr (Some ptr, t')" "table_ok junk t'" "tpages t \<subseteq> tpages t'"
    "\<forall>q \<in> tpages t. q \<noteq> 0 \<and> q \<noteq> 2 \<longrightarrow> tpage q t' = tpage q t" "heap_page_wf (tpage 2 t')"
    "page_tuples (tpage 2 t') = page_tuples (tpage 2 t) @ [Some (tuple_bytes args)]"
    "free_bytes (tpage 2 t') + 4 + length (tuple_bytes args) = free_bytes (tpage 2 t)"
    by (auto simp: typed_args_def accepted_def tuple_bytes_def)
  then show ?thesis using ok by (intro exI [of _ ptr] exI [of _ t']) (auto simp: open_table_def)
qed

lemma adds_in_a_row:
  assumes "open_table junk schema t" and "list_all (addable schema) as" and "space_for schema as \<le> free_bytes (tpage 2 t)"
  shows "\<exists>rs t'. seq_run (heap_whole junk junk_pid) (map HeapAdd as) t = Inr (rs, t') \<and> open_table junk schema t' \<and>
    page_tuples (tpage 2 t') = page_tuples (tpage 2 t) @ map (\<lambda>a. Some (tuple_bytes a)) (filter (accepted schema) as) \<and>
    free_bytes (tpage 2 t') + space_for schema as = free_bytes (tpage 2 t)"
  using assms
proof (induction as arbitrary: t)
  case (Cons a as)
  show ?case
  proof (cases "accepted schema a")
    case True
    with Cons.prems have "4 + length (tuple_bytes a) \<le> free_bytes (tpage 2 t)" "typed_args a" by (simp_all add: space_for_def addable_def)
    from add_accepted [OF Cons.prems(1) this(2) True this(1), of junk_pid] obtain ptr t1 where
      t1: "add_tuple junk junk_pid a t = Inr (Some ptr, t1)" "open_table junk schema t1"
        "page_tuples (tpage 2 t1) = page_tuples (tpage 2 t) @ [Some (tuple_bytes a)]"
        "free_bytes (tpage 2 t1) + 4 + length (tuple_bytes a) = free_bytes (tpage 2 t)" by blast
    have "space_for schema as \<le> free_bytes (tpage 2 t1)" using Cons.prems(3) True t1(4) by (simp add: space_for_def)
    with Cons.IH [OF t1(2)] Cons.prems(2) obtain rs t2 where
      "seq_run (heap_whole junk junk_pid) (map HeapAdd as) t1 = Inr (rs, t2)" "open_table junk schema t2"
      "page_tuples (tpage 2 t2) = page_tuples (tpage 2 t1) @ map (\<lambda>a. Some (tuple_bytes a)) (filter (accepted schema) as)"
      "free_bytes (tpage 2 t2) + space_for schema as = free_bytes (tpage 2 t1)" by auto
    then show ?thesis using t1 True by (intro exI [of _ "Some ptr # rs"] exI [of _ t2]) (simp add: space_for_def)
  next
    case False
    with Cons.prems(2) have "check_schema schema a = Inr False" "typed_args a" by (auto simp: addable_def accepted_def)
    from add_rejected [OF Cons.prems(1) this(2,1), of junk_pid] have r: "add_tuple junk junk_pid a t = Inr (None, t)" .
    from Cons.IH [OF Cons.prems(1)] Cons.prems(2,3) False obtain rs t2 where
      "seq_run (heap_whole junk junk_pid) (map HeapAdd as) t = Inr (rs, t2)" "open_table junk schema t2"
      "page_tuples (tpage 2 t2) = page_tuples (tpage 2 t) @ map (\<lambda>a. Some (tuple_bytes a)) (filter (accepted schema) as)"
      "free_bytes (tpage 2 t2) + space_for schema as = free_bytes (tpage 2 t)" by (auto simp: space_for_def)
    then show ?thesis using r False by (intro exI [of _ "None # rs"] exI [of _ t2]) (simp add: space_for_def)
  qed
qed (simp add: space_for_def)

text \<open>The threads that have returned need no more space than all of them.\<close>

lemma space_for_order:
  assumes "distinct order" and "\<And>i. i \<in> set order \<Longrightarrow> i < length as"
  shows "space_for schema (map ((!) as) order) \<le> space_for schema as"
proof -
  let ?g = "\<lambda>a. if accepted schema a then 4 + length (tuple_bytes a) else 0"
  have sp: "space_for schema xs = sum_list (map ?g xs)" for xs unfolding space_for_def by (rule sum_list_map_filter')
  have "sum_list (map (\<lambda>i. ?g (as ! i)) order) = (\<Sum>i \<in> set order. ?g (as ! i))" using assms(1) by (rule sum_list_distinct_conv_sum_set)
  also have "\<dots> \<le> (\<Sum>i \<in> {..<length as}. ?g (as ! i))" using assms(2) by (intro sum_mono2) auto
  also have "\<dots> = sum_list (map ?g as)" by (simp add: sum_list_sum_nth atLeast0LessThan)
  finally show ?thesis unfolding sp by (simp add: o_def)
qed

text \<open>Some of the additions, in any order.\<close>

lemma adds_in_order:
  assumes t: "open_table junk schema t" and as: "list_all (addable schema) as" "space_for schema as \<le> free_bytes (tpage 2 t)"
    and o: "distinct order" "\<And>i. i \<in> set order \<Longrightarrow> i < length as"
  shows "\<exists>rs t'. seq_run (heap_whole junk junk_pid) (map ((!) (map HeapAdd as)) order) t = Inr (rs, t') \<and> open_table junk schema t' \<and>
    page_tuples (tpage 2 t') = page_tuples (tpage 2 t) @ map (\<lambda>a. Some (tuple_bytes a)) (filter (accepted schema) (map ((!) as) order))"
proof -
  have eq: "map ((!) (map HeapAdd as)) order = map HeapAdd (map ((!) as) order)" using o(2) by simp
  have "list_all (addable schema) (map ((!) as) order)" using as(1) o(2) by (auto simp: list_all_iff)
  from adds_in_a_row [OF t this order_trans [OF space_for_order [OF o] as(2)], of junk_pid] show ?thesis
    unfolding eq by blast
qed

lemma adds_never_crash:
  assumes t: "open_table junk schema t" and as: "list_all (addable schema) as" "space_for schema as \<le> free_bytes (tpage 2 t)"
    and r: "creach (heap_machine junk junk_pid) (map HeapAdd as) t c"
  shows "\<not> thread_is c i (Crashed e)"
proof
  assume i: "thread_is c i (Crashed e)"
  have len: "length (c_threads c) = length as" using creach_length [OF r] by simp
  from heap_threads.crash_whole [OF r i] obtain order s' where
    s': "commits (heap_whole junk junk_pid) (map HeapAdd as) t c order s'" "heap_whole junk junk_pid (map HeapAdd as ! i) s' = Inl e" by blast
  have "distinct (order @ [i])" "\<And>k. k \<in> set (order @ [i]) \<Longrightarrow> k < length as"
    using s'(1) i len by (auto simp: commits_def thread_is_def)
  from adds_in_order [OF t as this, of junk_pid] obtain x where
    "seq_run (heap_whole junk junk_pid) (map ((!) (map HeapAdd as)) (order @ [i])) t = Inr x" by blast
  moreover from s'(1) obtain rs where "seq_run (heap_whole junk junk_pid) (map ((!) (map HeapAdd as)) order) t = Inr (rs, s')"
    by (auto simp: commits_def)
  ultimately show False using s'(2) by (simp add: seq_run_snoc)
qed

lemma adds_all_stored:
  assumes t: "open_table junk schema t" and as: "list_all (addable schema) as" "space_for schema as \<le> free_bytes (tpage 2 t)"
    and r: "creach (heap_machine junk junk_pid) (map HeapAdd as) t c" and all: "all_returned c"
  shows "\<exists>order. distinct order \<and> set order = {..<length as} \<and> open_table junk schema (c_shared c) \<and>
    page_tuples (tpage 2 (c_shared c)) =
      page_tuples (tpage 2 t) @ map (\<lambda>a. Some (tuple_bytes a)) (filter (accepted schema) (map ((!) as) order))"
proof -
  have len: "length (c_threads c) = length as" using creach_length [OF r] by simp
  from all have "\<forall>i. outside c i" by (auto simp: all_returned_def outside_def thread_is_def)
  from heap_threads.linearizable [OF r this] obtain order where
    o: "commits (heap_whole junk junk_pid) (map HeapAdd as) t c order (c_shared c)" by blast
  have "i \<in> set order \<longleftrightarrow> i < length as" for i using o all len by (auto simp: commits_def thread_is_def all_returned_def)
  then have set: "distinct order" "set order = {..<length as}" using o by (auto simp: commits_def)
  from adds_in_order [OF t as set(1), of junk_pid] set(2) o show ?thesis
    by (intro exI [of _ order]) (auto simp: commits_def set)
qed

text \<open>
  C13. Threads that add tuples to one table. When all tuples that match the schema fit on the page, no interleaving
  crashes, blocks for ever or runs for ever, and when all threads have returned, the page has its old tuples and
  after them, in the order in which the threads got the latch, every tuple that matches the schema: no tuple is
  lost or stored twice, although each thread works on its own copy of the page.
\<close>

theorem concurrent_adds_complete:
  assumes "open_table junk schema t" and "list_all (addable schema) as" and "space_for schema as \<le> free_bytes (tpage 2 t)"
  shows "(\<forall>c. creach (heap_machine junk junk_pid) (map HeapAdd as) t c \<longrightarrow>
      (\<exists>c'. cstep (heap_machine junk junk_pid) (map HeapAdd as) c c') \<or>
      (all_returned c \<and> (\<exists>order. distinct order \<and> set order = {..<length as} \<and> open_table junk schema (c_shared c) \<and>
        page_tuples (tpage 2 (c_shared c)) =
          page_tuples (tpage 2 t) @ map (\<lambda>a. Some (tuple_bytes a)) (filter (accepted schema) (map ((!) as) order))))) \<and>
    \<not> (\<exists>\<sigma>. \<sigma> 0 = threads_start (length as) t \<and> (\<forall>n. cstep (heap_machine junk junk_pid) (map HeapAdd as) (\<sigma> n) (\<sigma> (Suc n))))"
proof -
  have "(\<exists>c'. cstep (heap_machine junk junk_pid) (map HeapAdd as) c c') \<or> all_returned c"
    if "creach (heap_machine junk junk_pid) (map HeapAdd as) t c" for c
    using heap_threads.progress [OF that _ adds_never_crash [OF assms that]] by blast
  then show ?thesis
    using adds_all_stored [OF assms, of junk_pid] heap_threads.runs_end [of "map HeapAdd as" t junk junk_pid] by auto
qed

section \<open>Witness\<close>

theorem concurrent_adds_complete_witness:
  "\<exists>t c. page_tuples (tpage 2 t) = [] \<and> creach (heap_machine demo_junk 0) [HeapAdd demo_args, HeapAdd demo_args] t c \<and>
    page_tuples (tpage 2 (c_shared c)) = [Some demo_bytes, Some demo_bytes]"
proof -
  let ?as = "[demo_args, demo_args]"
  from demo_table obtain t where t: "table_ok demo_junk t" "{0, 1, 2} \<subseteq> tpages t" "heap_page_wf (tpage 2 t)"
    "page_tuples (tpage 2 t) = []" "free_bytes (tpage 2 t) = 4090" "check_schema (tpage 1 t) demo_args = Inr True" by blast
  have b: "tuple_bytes demo_args = demo_bytes" by (simp add: tuple_bytes_def demo_bytes_def)
  have acc: "accepted (tpage 1 t) demo_args" using t(6) by (simp add: accepted_def)
  have hyps: "open_table demo_junk (tpage 1 t) t" "list_all (addable (tpage 1 t)) ?as" "space_for (tpage 1 t) ?as \<le> free_bytes (tpage 2 t)"
    using t demo_typed acc b by (simp_all add: open_table_def addable_def typed_args_def space_for_def)
  from heap_threads.completes [OF adds_never_crash [OF hyps, where junk_pid = 0]] obtain c where
    c: "creach (heap_machine demo_junk 0) (map HeapAdd ?as) t c" "all_returned c" by blast
  then obtain order where o: "distinct order" "set order = {..<length ?as}"
    "page_tuples (tpage 2 (c_shared c)) =
      page_tuples (tpage 2 t) @ map (\<lambda>a. Some (tuple_bytes a)) (filter (accepted (tpage 1 t)) (map ((!) ?as) order))"
    using conjunct1 [OF concurrent_adds_complete [OF hyps, of 0], rule_format, OF c(1)] returned_stop [OF c(2)] by auto
  have "length order = 2" using distinct_card [OF o(1)] o(2) by simp
  moreover have "map ((!) ?as) order = map (\<lambda>_. demo_args) order" using o(2) by (simp add: lessThan_Suc)
  ultimately have "map ((!) ?as) order = ?as" by (simp add: map_replicate_const numeral_2_eq_2)
  then show ?thesis using c(1) o(3) t(4) acc b by auto
qed

end
