(* ===== verification/Index_Page.thy ===== *)
theory Index_Page
  imports Disk_Manager
begin

text \<open>
  \<^verbatim>\<open>src/index/index_page.cpp\<close> and \<^verbatim>\<open>index_page.hpp\<close>: the nodes of the B+tree, their byte format and the
  insertion into a node. A \<^verbatim>\<open>std::vector\<close> is a list, \<^verbatim>\<open>at\<close> throws outside of it, the \<^verbatim>\<open>std::variant\<close> of
  the values is a datatype and \<^verbatim>\<open>std::get\<close> throws on the other alternative.
\<close>

section \<open>Nodes\<close>

record NodeRID =
  n_pid :: page_id_t
  n_slot_num :: u32

record BTreeKey =
  key_data :: bytes
  key_length :: u8

datatype NodeValues = LeafRecords "NodeRID list" | InternalChildren "u32 list"

record BTreePage =
  is_leaf :: bool
  keys :: "BTreeKey list"
  flags :: u8
  rightmost_ptr :: page_id_t
  next_pid :: page_id_t
  vals :: NodeValues

definition bad_variant_access :: err where
  "bad_variant_access = RuntimeError ''bad_variant_access''"

fun LEAF_RECORDS :: "NodeValues \<Rightarrow> NodeRID list res" where
  "LEAF_RECORDS (LeafRecords rs) = Inr rs"
| "LEAF_RECORDS (InternalChildren _) = Inl bad_variant_access"

fun INTERNAL_CHILDREN :: "NodeValues \<Rightarrow> u32 list res" where
  "INTERNAL_CHILDREN (InternalChildren cs) = Inr cs"
| "INTERNAL_CHILDREN (LeafRecords _) = Inl bad_variant_access"

definition at :: "'a list \<Rightarrow> nat \<Rightarrow> 'a res" where
  "at xs i = (if i < length xs then Inr (xs ! i) else Inl StdOutOfRange)"

definition set_at :: "'a list \<Rightarrow> nat \<Rightarrow> 'a \<Rightarrow> 'a list res" where
  "set_at xs i v = (if i < length xs then Inr (xs[i := v]) else Inl StdOutOfRange)"

text \<open>The constructor for a new node leaves the flags and the two page numbers as they are in memory.\<close>

definition new_BTreePage :: "u8 \<Rightarrow> page_id_t \<Rightarrow> page_id_t \<Rightarrow> bool \<Rightarrow> BTreePage" where
  "new_BTreePage junk_flags junk_right junk_next leaf =
     \<lparr>is_leaf = leaf, keys = [], flags = junk_flags, rightmost_ptr = junk_right, next_pid = junk_next,
      vals = (if leaf then LeafRecords [] else InternalChildren [])\<rparr>"

section \<open>The byte format\<close>

definition RID_SIZE :: nat where
  "RID_SIZE = 8"

definition TREE_KV_PTR_SIZE :: nat where
  "TREE_KV_PTR_SIZE = 4"

text \<open>The macro adds \<^verbatim>\<open>IS_LEAF_OFFSET\<close> where the size of the flag is meant, so the header takes 26 bytes.\<close>

definition INDEX_PAGE_HEADER_SIZE :: nat where
  "INDEX_PAGE_HEADER_SIZE = 2 + 2 + 4 + 4 + 1 + IS_LEAF_OFFSET"

definition AVAILABLE_SPACE_END_OFFSET :: nat where
  "AVAILABLE_SPACE_END_OFFSET = 2"

definition NEXT_PID_OFFSET :: nat where
  "NEXT_PID_OFFSET = 4"

definition RIGHTMOST_PID_OFFSET :: nat where
  "RIGHTMOST_PID_OFFSET = 8"

definition TREE_FLAGS_OFFSET :: nat where
  "TREE_FLAGS_OFFSET = 12"

lemmas [layout_defs] = RID_SIZE_def TREE_KV_PTR_SIZE_def INDEX_PAGE_HEADER_SIZE_def
  AVAILABLE_SPACE_END_OFFSET_def NEXT_PID_OFFSET_def RIGHTMOST_PID_OFFSET_def TREE_FLAGS_OFFSET_def

text \<open>The value of pair \<open>i\<close> in \<^verbatim>\<open>val_buf\<close>, of \<^verbatim>\<open>val_size\<close> bytes.\<close>

definition val_bytes :: "BTreePage \<Rightarrow> nat \<Rightarrow> bytes res" where
  "val_bytes page i =
     (if is_leaf page then
        and_then (LEAF_RECORDS (vals page)) (\<lambda>rs.
        and_then (at rs i) (\<lambda>r.
          Inr (encode_uint32 (n_pid r) @ encode_uint32 (n_slot_num r))))
      else
        and_then (INTERNAL_CHILDREN (vals page)) (\<lambda>cs.
        and_then (at cs i) (\<lambda>c. Inr (encode_uint32 c))))"

text \<open>The pairs are written from the last to the first; \<open>n\<close> of them are left.\<close>

fun serialize_loop :: "BTreePage \<Rightarrow> nat \<Rightarrow> u16 \<Rightarrow> u16 \<Rightarrow> bytes \<Rightarrow> (u16 \<times> u16 \<times> bytes) res" where
  "serialize_loop page 0 space_start space_end data = Inr (space_start, space_end, data)"
| "serialize_loop page (Suc i) space_start space_end data =
     and_then (at (keys page) i) (\<lambda>key.
     and_then (val_bytes page i) (\<lambda>val.
       let kv_size = of_nat (length val + unat (key_length key) + 1);
           kv_start = space_end - kv_size
       in and_then (store (unat kv_start) [key_length key] data) (\<lambda>data.
          and_then (load 0 (unat (key_length key)) (key_data key)) (\<lambda>kd.
          and_then (store (unat kv_start + 1) kd data) (\<lambda>data.
          and_then (store (unat kv_start + 1 + unat (key_length key)) val data) (\<lambda>data.
          and_then (store (unat space_start) (encode_uint16 kv_start) data) (\<lambda>data.
          and_then (store (unat space_start + 2) (encode_uint16 kv_size) data) (\<lambda>data.
            serialize_loop page i (space_start + 4) (space_end - kv_size) data))))))))"

declare serialize_loop.simps [simp del]

text \<open>\<open>junk\<close> is the content of the new page buffer.\<close>

definition serialize :: "bytes \<Rightarrow> BTreePage \<Rightarrow> bytes res" where
  "serialize junk page =
     and_then (serialize_loop page (length (keys page)) (of_nat INDEX_PAGE_HEADER_SIZE) 4096 junk)
       (\<lambda>(space_start, space_end, data).
     and_then (store 0 (encode_uint16 space_start) data) (\<lambda>data.
     and_then (store AVAILABLE_SPACE_END_OFFSET (encode_uint16 space_end) data) (\<lambda>data.
     and_then (store NEXT_PID_OFFSET (encode_uint32 (next_pid page)) data) (\<lambda>data.
     and_then (store RIGHTMOST_PID_OFFSET (encode_uint32 (rightmost_ptr page)) data) (\<lambda>data.
     and_then (store TREE_FLAGS_OFFSET [flags page] data) (\<lambda>data.
       store IS_LEAF_OFFSET (encode_bool (is_leaf page)) data))))))"

text \<open>Reading the pairs from the cursor to the end of the page. A key of length 0 is skipped with
  \<^verbatim>\<open>is_leaf ? cursor += RID_SIZE : TREE_KV_PTR_SIZE\<close>, which leaves the cursor of an internal node where
  it is: the loop never ends.\<close>

function deserialize_loop ::
    "bool \<Rightarrow> bytes \<Rightarrow> u16 \<Rightarrow> BTreeKey list \<Rightarrow> NodeRID list \<Rightarrow> u32 list \<Rightarrow>
     (BTreeKey list \<times> NodeRID list \<times> u32 list) res" where
  "deserialize_loop leaf data cursor ks rs cs =
     (if \<not> unat cursor < PAGE_SIZE then Inr (ks, rs, cs)
      else
        and_then (byte_at (unat cursor) data) (\<lambda>curr_key_len.
          if curr_key_len = 0 then
            (if leaf then deserialize_loop leaf data (cursor + 8) ks rs cs else Inl Diverges)
          else
            and_then (load (unat cursor + 1) (unat curr_key_len) data) (\<lambda>kd.
              let key = \<lparr>key_data = kd, key_length = curr_key_len\<rparr>;
                  vcur = cursor + 1 + ucast curr_key_len
              in if leaf then
                   and_then (decode_uint32 (drop (unat vcur) data)) (\<lambda>pid.
                   and_then (decode_uint32 (drop (unat vcur + 4) data)) (\<lambda>slot.
                     deserialize_loop leaf data (vcur + 8) (ks @ [key])
                       (rs @ [\<lparr>n_pid = pid, n_slot_num = slot\<rparr>]) cs))
                 else
                   and_then (decode_uint32 (drop (unat vcur) data)) (\<lambda>child.
                     deserialize_loop leaf data (vcur + 4) (ks @ [key]) rs (cs @ [child])))))"
  by pat_completeness auto

lemma cursor_step:
  assumes "unat (c :: u16) < 4096" and "k < 9"
  shows "unat (c + of_nat k) = unat c + k"
    and "unat (c + 1 + ucast (l :: u8) + of_nat k) = unat c + 1 + unat l + k"
    and "unat (c + 1 + ucast l) = unat c + 1 + unat l"
proof -
  have l: "unat (ucast l :: u16) = unat l" "unat l < 256"
    using unat_bounds(1) [of l] by (simp_all add: unsigned_ucast_eq take_bit_nat_eq_self)
  show "unat (c + of_nat k) = unat c + k"
    using assms by (simp add: unat_word_ariths unat_of_nat)
  show one: "unat (c + 1 + ucast l) = unat c + 1 + unat l"
    using assms l by (simp add: unat_word_ariths)
  show "unat (c + 1 + ucast l + of_nat k) = unat c + 1 + unat l + k"
    using assms l one by (simp add: unat_word_ariths(1) [of "c + 1 + ucast l"] unat_of_nat)
qed

termination deserialize_loop
proof (relation "measure (\<lambda>(leaf, data, cursor, ks, rs, cs). 4096 - unat cursor)", goal_cases)
  case (2 leaf data cursor ks rs cs x)
  then show ?case using cursor_step(1) [of cursor 8] by (simp add: PAGE_SIZE_def)
next
  case (3 leaf data cursor ks rs cs x xa xb xc xd xe)
  then show ?case using cursor_step(2) [of cursor 8 x] by (simp add: PAGE_SIZE_def)
next
  case (4 leaf data cursor ks rs cs x xa xb xc xd)
  then show ?case using cursor_step(2) [of cursor 4 x] by (simp add: PAGE_SIZE_def)
qed simp

declare deserialize_loop.simps [simp del]

definition deserialize :: "bytes \<Rightarrow> BTreePage res" where
  "deserialize data =
     and_then (decode_uint32 (drop NEXT_PID_OFFSET data)) (\<lambda>nxt.
     and_then (decode_uint32 (drop RIGHTMOST_PID_OFFSET data)) (\<lambda>right.
     and_then (byte_at TREE_FLAGS_OFFSET data) (\<lambda>fl.
     and_then (decode_bool (drop IS_LEAF_OFFSET data)) (\<lambda>leaf.
     and_then (decode_uint16 (drop AVAILABLE_SPACE_END_OFFSET data)) (\<lambda>cursor.
     and_then (deserialize_loop leaf data cursor [] [] []) (\<lambda>(ks, rs, cs).
       Inr \<lparr>is_leaf = leaf, keys = ks, flags = fl, rightmost_ptr = right, next_pid = nxt,
            vals = (if leaf then LeafRecords rs else InternalChildren cs)\<rparr>))))))"

section \<open>Insertion into a node\<close>

text \<open>The sign of \<^verbatim>\<open>memcmp(a, b, n)\<close>.\<close>

fun memcmp :: "nat \<Rightarrow> bytes \<Rightarrow> bytes \<Rightarrow> int res" where
  "memcmp 0 a b = Inr 0"
| "memcmp (Suc n) (x # a) (y # b) = (if x = y then memcmp n a b else if x < y then Inr (- 1) else Inr 1)"
| "memcmp (Suc n) _ _ = Inl OutOfBounds"

definition cmpKeys :: "BTreeKey \<Rightarrow> BTreeKey \<Rightarrow> int res" where
  "cmpKeys key1 key2 =
     memcmp (min (unat (key_length key1)) (unat (key_length key2))) (key_data key1) (key_data key2)"

definition vec_second_half :: "'a list \<Rightarrow> bool \<Rightarrow> 'a list res" where
  "vec_second_half full_vec include_mid =
     (let from = length full_vec div 2 + (if include_mid then 0 else 1)
      in if from \<le> length full_vec then Inr (drop from full_vec) else Inl OutOfBounds)"

definition vec_first_half :: "'a list \<Rightarrow> bool \<Rightarrow> 'a list res" where
  "vec_first_half full_vec include_mid =
     (let upto = length full_vec div 2 + (if include_mid then 1 else 0)
      in if upto \<le> length full_vec then Inr (take upto full_vec) else Inl OutOfBounds)"

definition resize :: "nat \<Rightarrow> 'a \<Rightarrow> 'a list \<Rightarrow> 'a list" where
  "resize n d xs = take n xs @ replicate (n - length xs) d"

text \<open>The inner loop of the middle case, for \<open>j\<close> in the list: every element moves one place to the right.\<close>

fun shift_loop :: "nat list \<Rightarrow> BTreeKey \<Rightarrow> 'v \<Rightarrow> BTreeKey list \<Rightarrow> 'v list \<Rightarrow> (BTreeKey list \<times> 'v list) res" where
  "shift_loop [] prev_key prev_value ks vs = Inr (ks, vs)"
| "shift_loop (j # js) prev_key prev_value ks vs =
     and_then (at ks (j + 2)) (\<lambda>temp_key.
     and_then (at vs (j + 2)) (\<lambda>temp_val.
     and_then (set_at ks (j + 2) prev_key) (\<lambda>ks.
     and_then (set_at vs (j + 2) prev_value) (\<lambda>vs.
       shift_loop js temp_key temp_val ks vs))))"

text \<open>The middle case, for \<open>i\<close> in the list.\<close>

fun middle_loop :: "nat list \<Rightarrow> nat \<Rightarrow> BTreeKey \<Rightarrow> 'v \<Rightarrow> BTreeKey list \<Rightarrow> 'v list \<Rightarrow>
    (BTreeKey list \<times> 'v list) res" where
  "middle_loop [] sz key val ks vs = Inr (ks, vs)"
| "middle_loop (i # is) sz key val ks vs =
     and_then (at ks i) (\<lambda>curr_key.
     and_then (at ks (i + 1)) (\<lambda>next_key.
     and_then (cmpKeys key curr_key) (\<lambda>c1.
     and_then (if 0 < c1 then cmpKeys key next_key else Inr 1) (\<lambda>c2.
       if 0 < c1 \<and> c2 \<le> 0 then
         and_then (at ks (i + 1)) (\<lambda>prev_key.
         and_then (at vs (i + 1)) (\<lambda>prev_value.
         and_then (set_at ks (i + 1) key) (\<lambda>ks.
         and_then (set_at vs (i + 1) val) (\<lambda>vs.
           shift_loop [i ..< sz - 1] prev_key prev_value ks vs))))
       else middle_loop is sz key val ks vs))))"

text \<open>The body of the template on the two vectors. The number of keys is held in 16 bits; \<open>dflt\<close> is a
  zeroed value, and a zeroed key has length 0.\<close>

definition insert_kv :: "'v \<Rightarrow> BTreeKey \<Rightarrow> 'v \<Rightarrow> BTreeKey list \<Rightarrow> 'v list \<Rightarrow> (BTreeKey list \<times> 'v list) res" where
  "insert_kv dflt key val ks vs =
     (let sz = unat (of_nat (length ks) :: u16);
          ks = resize (sz + 1) \<lparr>key_data = [], key_length = 0\<rparr> ks;
          vs = resize (sz + 1) dflt vs
      in and_then (at ks 0) (\<lambda>first_key.
         and_then (at ks (if sz = 0 then sz else sz - 1)) (\<lambda>last_key.
         and_then (cmpKeys key last_key) (\<lambda>c.
           if 0 \<le> c then
             and_then (set_at ks (length ks - 1) key) (\<lambda>ks.
             and_then (set_at vs (length vs - 1) val) (\<lambda>vs. Inr (ks, vs)))
           else
             and_then (cmpKeys key first_key) (\<lambda>c.
               if c \<le> 0 then Inr (key # butlast ks, val # butlast vs)
               else middle_loop [0 ..< sz] sz key val ks vs)))))"

definition insertIntoNode_RID :: "BTreeKey \<Rightarrow> NodeRID \<Rightarrow> BTreePage \<Rightarrow> BTreePage res" where
  "insertIntoNode_RID key val page =
     and_then (LEAF_RECORDS (vals page)) (\<lambda>vs.
     and_then (insert_kv \<lparr>n_pid = 0, n_slot_num = 0\<rparr> key val (keys page) vs) (\<lambda>(ks, vs).
       Inr (page\<lparr>keys := ks, vals := LeafRecords vs\<rparr>)))"

definition insertIntoNode_u32 :: "BTreeKey \<Rightarrow> u32 \<Rightarrow> BTreePage \<Rightarrow> BTreePage res" where
  "insertIntoNode_u32 key val page =
     and_then (INTERNAL_CHILDREN (vals page)) (\<lambda>vs.
     and_then (insert_kv 0 key val (keys page) vs) (\<lambda>(ks, vs).
       Inr (page\<lparr>keys := ks, vals := InternalChildren vs\<rparr>)))"

section \<open>Keys as numbers\<close>

text \<open>Keys of the same length are compared as big-endian numbers.\<close>

fun be :: "bytes \<Rightarrow> nat" where
  "be [] = 0"
| "be (x # a) = unat x * 256 ^ length a + be a"

definition key_num :: "BTreeKey \<Rightarrow> nat" where
  "key_num k = be (key_data k)"

definition key_of_size :: "nat \<Rightarrow> BTreeKey \<Rightarrow> bool" where
  "key_of_size L k \<longleftrightarrow> unat (key_length k) = L \<and> length (key_data k) = L"

lemma be_less: "be a < 256 ^ length a"
proof (induction a)
  case (Cons x a)
  have "unat x * 256 ^ length a + be a < (unat x + 1) * 256 ^ length a" using Cons by simp
  also have "\<dots> \<le> 256 * 256 ^ length a" using unat_bounds(1) [of x] by (intro mult_le_mono1) simp
  finally show ?case by simp
qed simp

lemma be_cons_less:
  assumes "length a = length b" and "x < y"
  shows "be (x # a) < be (y # b)"
proof -
  have "be (x # a) < (unat x + 1) * 256 ^ length a" using be_less [of a] by simp
  also have "\<dots> \<le> unat y * 256 ^ length b"
    using assms by (simp only: word_less_nat_alt) (intro mult_le_mono, simp_all)
  finally show ?thesis by simp
qed

lemma memcmp_be:
  "length a = n \<Longrightarrow> length b = n \<Longrightarrow>
     memcmp n a b = Inr (if be a < be b then - 1 else if be a = be b then 0 else 1)"
proof (induction n a b rule: memcmp.induct)
  case (2 n x a y b)
  then have l: "length a = length b" by simp
  consider "x = y" | "x < y" | "y < x" by (rule linorder_cases)
  then show ?case
  proof cases
    case 2
    then show ?thesis using be_cons_less [OF l, of x y] by auto
  next
    case 3
    then show ?thesis using be_cons_less [OF l [symmetric], of y x] by auto
  qed (use "2" l in simp)
qed auto

lemma cmpKeys_num:
  assumes "key_of_size L a" and "key_of_size L b"
  shows "cmpKeys a b = Inr (if key_num a < key_num b then - 1 else if key_num a = key_num b then 0 else 1)"
  using assms by (simp add: cmpKeys_def key_of_size_def key_num_def memcmp_be)

text \<open>For keys of different lengths \<^verbatim>\<open>cmpKeys\<close> looks at the common length only: a key and a longer one that
  starts with it compare as equal, although the header says that the result is 0 for equal keys.\<close>

lemma memcmp_same: "memcmp (length a) (a @ b) (a @ c) = Inr 0"
  by (induction a) simp_all

lemma cmpKeys_prefix:
  assumes "length (key_data a) = unat (key_length a)" and "key_data b = key_data a @ rest"
    and "unat (key_length a) \<le> unat (key_length b)"
  shows "cmpKeys a b = Inr 0"
  using assms memcmp_same [of "key_data a" "[]" rest] by (simp add: cmpKeys_def)

section \<open>Insertion keeps a node sorted\<close>

definition shifted :: "nat \<Rightarrow> 'a \<Rightarrow> 'a list \<Rightarrow> 'a list" where
  "shifted i p xs = take (i + 2) xs @ butlast (p # drop (i + 2) xs)"

lemma take_Suc_update: "n < length xs \<Longrightarrow> take (Suc n) (xs[n := p]) = take n xs @ [p]"
  by (simp add: take_Suc_conv_app_nth)

lemma shifted_step:
  assumes "i + 2 < length xs"
  shows "shifted (Suc i) (xs ! (i + 2)) (xs[i + 2 := p]) = shifted i p xs"
proof -
  have "drop (i + 2) xs = xs ! (i + 2) # drop (i + 3) xs"
    using Cons_nth_drop_Suc [OF assms] by (simp add: numeral_3_eq_3)
  moreover have "take (i + 3) (xs[i + 2 := p]) = take (i + 2) xs @ [p]"
    using take_Suc_update [OF assms] by (simp add: numeral_3_eq_3)
  ultimately show ?thesis by (simp add: shifted_def numeral_3_eq_3)
qed

lemma shift_loop_shifts:
  assumes "length ks = sz + 1" and "length vs = sz + 1" and "i < sz"
  shows "shift_loop [i ..< sz - 1] pk pv ks vs = Inr (shifted i pk ks, shifted i pv vs)"
  using assms
proof (induction "sz - 1 - i" arbitrary: i pk pv ks vs)
  case 0
  then show ?case by (simp add: shifted_def)
next
  case (Suc d)
  then have upt: "[i ..< sz - 1] = i # [Suc i ..< sz - 1]" by (simp add: upt_conv_Cons)
  have lt: "i + 2 < length ks" "i + 2 < length vs" using Suc.prems Suc.hyps(2) by simp_all
  have "shift_loop [Suc i ..< sz - 1] (ks ! (i + 2)) (vs ! (i + 2)) (ks[i + 2 := pk]) (vs[i + 2 := pv]) =
      Inr (shifted (Suc i) (ks ! (i + 2)) (ks[i + 2 := pk]), shifted (Suc i) (vs ! (i + 2)) (vs[i + 2 := pv]))"
    using Suc by (intro Suc.hyps(1)) auto
  then have "shift_loop [Suc i ..< sz - 1] (ks ! (i + 2)) (vs ! (i + 2)) (ks[i + 2 := pk]) (vs[i + 2 := pv]) =
      Inr (shifted i pk ks, shifted i pv vs)"
    unfolding shifted_step [OF lt(1)] shifted_step [OF lt(2)] .
  with lt show ?case unfolding upt by (simp add: at_def set_at_def)
qed

definition ins :: "nat \<Rightarrow> 'a \<Rightarrow> 'a list \<Rightarrow> 'a list" where
  "ins i x xs = take i xs @ x # drop i xs"

lemma shifted_ins:
  assumes "length xs = sz" and "i < sz"
  shows "shifted i ((xs @ [d]) ! (i + 1)) ((xs @ [d])[i + 1 := x]) = ins (i + 1) x xs"
proof (cases "i + 1 = sz")
  case True
  then have sz: "i + 1 = length xs" using assms by simp
  have "(xs @ [d])[length xs := x] = xs @ [x]" by simp
  then show ?thesis unfolding shifted_def ins_def sz by (simp add: sz [symmetric])
next
  case False
  then have lt: "i + 1 < length xs" using assms by simp
  have "drop (i + 1) xs = xs ! (i + 1) # drop (i + 2) xs" using Cons_nth_drop_Suc [OF lt] by simp
  moreover have "take (i + 2) (xs[i + 1 := x]) = take (i + 1) xs @ [x]"
    using take_Suc_update [OF lt] by simp
  ultimately show ?thesis using lt assms
    by (simp add: shifted_def ins_def nth_append list_update_append butlast_append)
qed

lemma sorted_ins:
  assumes "sorted xs" and "i \<le> length xs" and "0 < i \<Longrightarrow> xs ! (i - 1) \<le> x" and "i < length xs \<Longrightarrow> x \<le> xs ! i"
  shows "sorted (ins i x xs)"
proof -
  have "y \<le> x" if y: "y \<in> set (take i xs)" for y
  proof -
    from y obtain j where "j < i" "y = xs ! j" using assms(2) by (auto simp: in_set_conv_nth)
    moreover from this have "xs ! j \<le> xs ! (i - 1)" using assms(2) by (intro sorted_nth_mono [OF assms(1)]) simp_all
    ultimately show ?thesis using assms(3) by (meson le_less_trans order_trans zero_le)
  qed
  moreover have "x \<le> y" if y: "y \<in> set (drop i xs)" for y
  proof -
    from y obtain j where "j < length xs - i" "y = xs ! (i + j)" using assms(2) by (auto simp: in_set_conv_nth)
    then have "i + j < length xs" "y = xs ! (i + j)" by simp_all
    moreover from this have "xs ! i \<le> xs ! (i + j)" by (intro sorted_nth_mono [OF assms(1)]) simp_all
    ultimately show ?thesis using assms(4) by (meson le_add1 le_less_trans order_trans)
  qed
  ultimately show ?thesis
    using assms(1) by (fastforce simp: ins_def sorted_append sorted_wrt_take sorted_wrt_drop)
qed

lemma map_ins: "map f (ins i x xs) = ins i (f x) (map f xs)"
  by (simp add: ins_def take_map drop_map)

lemma middle_loop_inserts:
  assumes ks: "list_all (key_of_size L) ks" "key_of_size L key" and len: "length ks = sz" "length vs = sz"
    and ex: "\<exists>j. i \<le> j \<and> j + 1 < sz \<and> key_num (ks ! j) < key_num key \<and> key_num key \<le> key_num (ks ! (j + 1))"
  shows "\<exists>j. j + 1 < sz \<and> key_num (ks ! j) < key_num key \<and> key_num key \<le> key_num (ks ! (j + 1)) \<and>
    middle_loop [i ..< sz] sz key val (ks @ [d]) (vs @ [d']) = Inr (ins (j + 1) key ks, ins (j + 1) val vs)"
  using ex
proof (induction "sz - i" arbitrary: i)
  case 0
  then have False by auto
  then show ?case ..
next
  case (Suc n)
  from Suc.prems have i: "i + 1 < sz" by auto
  have sz: "key_of_size L (ks ! i)" "key_of_size L (ks ! (i + 1))" using ks(1) i len(1) by (simp_all add: list_all_length)
  note c = cmpKeys_num [OF ks(2) sz(1)] cmpKeys_num [OF ks(2) sz(2)]
  have upt: "[i ..< sz] = i # [Suc i ..< sz]" using i by (simp add: upt_conv_Cons)
  have at: "at (ks @ [d]) i = Inr (ks ! i)" "at (ks @ [d]) (i + 1) = Inr (ks ! (i + 1))"
    using i len(1) by (simp_all add: at_def nth_append)
  show ?case
  proof (cases "key_num (ks ! i) < key_num key \<and> key_num key \<le> key_num (ks ! (i + 1))")
    case True
    have "shift_loop [i ..< sz - 1] (ks ! (i + 1)) (vs ! (i + 1)) ((ks @ [d])[i + 1 := key]) ((vs @ [d'])[i + 1 := val]) =
        Inr (ins (i + 1) key ks, ins (i + 1) val vs)"
      using shift_loop_shifts [of "(ks @ [d])[i + 1 := key]" sz "(vs @ [d'])[i + 1 := val]" i "ks ! (i + 1)" "vs ! (i + 1)"]
        shifted_ins [of ks sz i d key] shifted_ins [of vs sz i d' val] i len
      by (simp add: nth_append)
    then have "middle_loop [i ..< sz] sz key val (ks @ [d]) (vs @ [d']) = Inr (ins (i + 1) key ks, ins (i + 1) val vs)"
      unfolding upt middle_loop.simps at and_then_simps c using True i len
      by (auto simp: at_def set_at_def nth_append)
    with True i show ?thesis by blast
  next
    case False
    have "middle_loop [i ..< sz] sz key val (ks @ [d]) (vs @ [d']) = middle_loop [Suc i ..< sz] sz key val (ks @ [d]) (vs @ [d'])"
      unfolding upt middle_loop.simps at and_then_simps c using False by auto
    moreover have "\<exists>j. Suc i \<le> j \<and> j + 1 < sz \<and> key_num (ks ! j) < key_num key \<and> key_num key \<le> key_num (ks ! (j + 1))"
      using Suc.prems False by (metis Suc_leI le_neq_implies_less)
    ultimately show ?thesis using Suc.hyps(1) [of "Suc i"] Suc.hyps(2) by simp
  qed
qed

lemma step_between:
  fixes f :: "nat \<Rightarrow> nat"
  shows "f 0 < x \<Longrightarrow> x \<le> f n \<Longrightarrow> \<exists>j < n. f j < x \<and> x \<le> f (j + 1)"
proof (induction n)
  case (Suc n)
  show ?case
  proof (cases "x \<le> f n")
    case True
    with Suc show ?thesis using less_Suc_eq by blast
  next
    case False
    with Suc.prems show ?thesis by (intro exI [of _ n]) simp
  qed
qed simp

lemma insert_kv_sorted:
  assumes ks: "list_all (key_of_size L) ks" "key_of_size L key" and len: "length vs = length ks" "length ks < 65535"
    and sorted: "sorted (map key_num ks)"
  shows "\<exists>i \<le> length ks. insert_kv d key val ks vs = Inr (ins i key ks, ins i val vs) \<and>
    sorted (map key_num (ins i key ks))"
proof -
  let ?z = "\<lparr>key_data = [], key_length = 0\<rparr>" and ?n = "length ks"
  have n: "unat (of_nat ?n :: u16) = ?n" using len(2) by (simp add: unat_of_nat)
  have rs: "resize (?n + 1) ?z ks = ks @ [?z]" "resize (?n + 1) d vs = vs @ [d]" using len(1) by (simp_all add: resize_def)
  let ?body = "and_then (at (ks @ [?z]) 0) (\<lambda>first_key.
      and_then (at (ks @ [?z]) (if ?n = 0 then ?n else ?n - 1)) (\<lambda>last_key.
      and_then (cmpKeys key last_key) (\<lambda>c.
        if 0 \<le> c then Inr (ks @ [key], vs @ [val])
        else and_then (cmpKeys key first_key) (\<lambda>c.
          if c \<le> 0 then Inr (key # ks, val # vs)
          else middle_loop [0 ..< ?n] ?n key val (ks @ [?z]) (vs @ [d])))))"
  have body: "insert_kv d key val ks vs = ?body"
  proof -
    have "set_at (ks @ [?z]) (length (ks @ [?z]) - 1) key = Inr (ks @ [key])"
      and "set_at (vs @ [d]) (length (vs @ [d]) - 1) val = Inr (vs @ [val])"
      by (simp_all add: set_at_def list_update_append)
    then show ?thesis unfolding insert_kv_def n Let_def rs butlast_snoc by (simp only: and_then_simps)
  qed
  show ?thesis
  proof (cases "ks = []")
    case True
    then show ?thesis using len(1) unfolding body by (auto simp: at_def cmpKeys_def ins_def)
  next
    case False
    let ?l = "ks ! (?n - 1)"
    have sz: "key_of_size L (ks ! 0)" "key_of_size L ?l" using ks(1) False by (simp_all add: list_all_length)
    note c = cmpKeys_num [OF ks(2) sz(1)] cmpKeys_num [OF ks(2) sz(2)]
    have b: "insert_kv d key val ks vs =
      (if key_num ?l \<le> key_num key then Inr (ins ?n key ks, ins ?n val vs)
       else if key_num key \<le> key_num (ks ! 0) then Inr (ins 0 key ks, ins 0 val vs)
       else middle_loop [0 ..< ?n] ?n key val (ks @ [?z]) (vs @ [d]))"
      unfolding body using False c len(1) by (auto simp: at_def nth_append ins_def)
    show ?thesis
    proof (cases "key_num ?l \<le> key_num key \<or> key_num key \<le> key_num (ks ! 0)")
      case True
      then show ?thesis
        using b sorted False sorted_ins [of "map key_num ks" ?n "key_num key"] sorted_ins [of "map key_num ks" 0 "key_num key"]
        by (cases "key_num ?l \<le> key_num key") (auto simp: map_ins)
    next
      case False
      with step_between [of "\<lambda>j. key_num (ks ! j)" "key_num key" "?n - 1"] obtain j where
        "j < ?n - 1" "key_num (ks ! j) < key_num key" "key_num key \<le> key_num (ks ! (j + 1))" by auto
      then have "\<exists>j. 0 \<le> j \<and> j + 1 < ?n \<and> key_num (ks ! j) < key_num key \<and> key_num key \<le> key_num (ks ! (j + 1))"
        by (intro exI [of _ j]) simp
      from middle_loop_inserts [OF ks refl len(1) this, of val ?z d] obtain i where
        i: "i + 1 < ?n" "key_num (ks ! i) < key_num key" "key_num key \<le> key_num (ks ! (i + 1))"
          "middle_loop [0 ..< ?n] ?n key val (ks @ [?z]) (vs @ [d]) = Inr (ins (i + 1) key ks, ins (i + 1) val vs)" by blast
      have "sorted (map key_num (ins (i + 1) key ks))"
        unfolding map_ins using i(1-3) sorted by (intro sorted_ins) auto
      with b i False show ?thesis by (intro exI [of _ "i + 1"]) simp
    qed
  qed
qed

section \<open>Reading back a serialized node\<close>

definition vb :: "BTreePage \<Rightarrow> nat \<Rightarrow> bytes" where
  "vb page i =
     (case vals page of
        LeafRecords rs \<Rightarrow> encode_uint32 (n_pid (rs ! i)) @ encode_uint32 (n_slot_num (rs ! i))
      | InternalChildren cs \<Rightarrow> encode_uint32 (cs ! i))"

definition kv :: "BTreePage \<Rightarrow> nat \<Rightarrow> bytes" where
  "kv page i = key_length (keys page ! i) # key_data (keys page ! i) @ vb page i"

definition pairs :: "BTreePage \<Rightarrow> nat \<Rightarrow> bytes" where
  "pairs page n = concat (map (kv page) [0 ..< n])"

text \<open>A node has one value per key, of the kind its flag says, and no empty key.\<close>

definition node_ok :: "BTreePage \<Rightarrow> bool" where
  "node_ok page \<longleftrightarrow>
     (case vals page of
        LeafRecords rs \<Rightarrow> is_leaf page \<and> length rs = length (keys page)
      | InternalChildren cs \<Rightarrow> \<not> is_leaf page \<and> length cs = length (keys page)) \<and>
     list_all (\<lambda>k. key_length k \<noteq> 0 \<and> length (key_data k) = unat (key_length k)) (keys page)"

definition node_fits :: "BTreePage \<Rightarrow> bool" where
  "node_fits page \<longleftrightarrow>
     INDEX_PAGE_HEADER_SIZE + 4 * length (keys page) + length (pairs page (length (keys page))) \<le> PAGE_SIZE"

lemma node_ok_key:
  assumes "node_ok page" and "i < length (keys page)"
  shows "key_length (keys page ! i) \<noteq> 0" and "length (key_data (keys page ! i)) = unat (key_length (keys page ! i))"
  using assms by (auto simp: node_ok_def list_all_length)

lemma val_bytes_vb: "node_ok page \<Longrightarrow> i < length (keys page) \<Longrightarrow> val_bytes page i = Inr (vb page i)"
  by (auto simp: node_ok_def val_bytes_def vb_def at_def split: NodeValues.splits)

lemma length_vb: "length (vb page i) \<le> 8"
  by (simp add: vb_def split: NodeValues.splits)

lemma length_kv:
  "node_ok page \<Longrightarrow> i < length (keys page) \<Longrightarrow>
     length (kv page i) = length (vb page i) + unat (key_length (keys page ! i)) + 1"
  by (simp add: kv_def node_ok_key)

lemma pairs_Suc: "pairs page (Suc n) = pairs page n @ kv page n"
  by (simp add: pairs_def)

lemma serialize_step:
  assumes ok: "node_ok page" and i: "i < length (keys page)" and len: "length data = 4096"
    and room: "unat space_start + 4 + length (kv page i) \<le> unat space_end" and e: "unat space_end \<le> 4096"
  defines "e' \<equiv> unat space_end - length (kv page i)" and "s \<equiv> unat space_start"
  shows "\<exists>data'. serialize_loop page (Suc i) space_start space_end data =
      serialize_loop page i (space_start + 4) (space_end - of_nat (length (kv page i))) data' \<and>
    length data' = 4096 \<and> drop e' data' = kv page i @ drop (unat space_end) data"
proof -
  let ?k = "keys page ! i" and ?v = "vb page i" and ?l = "unat (key_length (keys page ! i))"
  let ?sz = "of_nat (length (kv page i)) :: u16"
  note key = node_ok_key(2) [OF ok i] length_kv [OF ok i]
  have "unat ?sz = length (kv page i)" using room e by (simp add: unat_of_nat)
  then have ks: "unat (space_end - ?sz) = e'"
    using room by (subst unat_sub) (simp_all add: word_le_nat_alt e'_def)
  have e': "e' + length (kv page i) = unat space_end" "s + 4 \<le> e'" using room by (simp_all add: e'_def s_def)
  let ?d3 = "put e' (kv page i) data"
  let ?d5 = "put (s + 2) (encode_uint16 ?sz) (put s (encode_uint16 (space_end - ?sz)) ?d3)"
  have "kv page i = [key_length ?k] @ key_data ?k @ ?v" by (simp add: kv_def)
  then have puts: "put (e' + 1 + ?l) ?v (put (e' + 1) (key_data ?k) (put e' [key_length ?k] data)) = ?d3"
    using e' e key len by (simp add: put_append del: append_Cons)
  have ld: "load 0 ?l (key_data ?k) = Inr (key_data ?k)" using key(1) by (simp add: load_def)
  have sz: "(of_nat (length ?v + ?l + 1) :: u16) = ?sz" using key(2) by simp
  have stores: "store e' [key_length ?k] data = Inr (put e' [key_length ?k] data)"
    "store (e' + 1) (key_data ?k) (put e' [key_length ?k] data) = Inr (put (e' + 1) (key_data ?k) (put e' [key_length ?k] data))"
    "store (e' + 1 + ?l) ?v (put (e' + 1) (key_data ?k) (put e' [key_length ?k] data)) = Inr ?d3"
    "store s (encode_uint16 (space_end - ?sz)) ?d3 = Inr (put s (encode_uint16 (space_end - ?sz)) ?d3)"
    "store (s + 2) (encode_uint16 ?sz) (put s (encode_uint16 (space_end - ?sz)) ?d3) = Inr ?d5"
    using e' e key len unfolding puts [symmetric] by (simp_all add: store_ok)
  have "serialize_loop page (Suc i) space_start space_end data =
      serialize_loop page i (space_start + 4) (space_end - ?sz) ?d5"
    unfolding serialize_loop.simps val_bytes_vb [OF ok i] and_then_simps Let_def sz
    using i by (simp only: at_def if_True and_then_simps sz ks stores ld s_def [symmetric])
  moreover have "length ?d5 = 4096" using e' e len by simp
  moreover have "drop e' ?d5 = kv page i @ drop (unat space_end) data"
    using e' e len by (simp add: drop_put_after drop_put_same)
  ultimately show ?thesis by blast
qed

lemma serialize_loop_pairs:
  assumes ok: "node_ok page"
  shows "n \<le> length (keys page) \<Longrightarrow> length data = 4096 \<Longrightarrow> unat space_end \<le> 4096 \<Longrightarrow>
    unat space_start + 4 * n + length (pairs page n) \<le> unat space_end \<Longrightarrow>
    \<exists>space_start' space_end' data'. serialize_loop page n space_start space_end data = Inr (space_start', space_end', data') \<and>
      length data' = 4096 \<and> unat space_end' = unat space_end - length (pairs page n) \<and>
      drop (unat space_end') data' = pairs page n @ drop (unat space_end) data"
proof (induction n arbitrary: space_start space_end data)
  case 0
  then show ?case by (simp add: pairs_def serialize_loop.simps)
next
  case (Suc n)
  have n: "n < length (keys page)" using Suc.prems(1) by simp
  have room: "unat space_start + 4 + length (kv page n) \<le> unat space_end"
    using Suc.prems(4) by (simp add: pairs_Suc)
  from serialize_step [OF ok n Suc.prems(2) room Suc.prems(3)] obtain data1 where
    d: "serialize_loop page (Suc n) space_start space_end data =
        serialize_loop page n (space_start + 4) (space_end - of_nat (length (kv page n))) data1"
      "length data1 = 4096"
      "drop (unat space_end - length (kv page n)) data1 = kv page n @ drop (unat space_end) data" by blast
  have "unat (of_nat (length (kv page n)) :: u16) = length (kv page n)" using room Suc.prems(3) by (simp add: unat_of_nat)
  then have e: "unat (space_end - of_nat (length (kv page n))) = unat space_end - length (kv page n)"
    using room by (subst unat_sub) (simp_all add: word_le_nat_alt)
  have s: "unat (space_start + 4) = unat space_start + 4" using room Suc.prems(3) by (simp add: unat_word_ariths)
  have "unat (space_end - of_nat (length (kv page n))) \<le> 4096"
    "unat (space_start + 4) + 4 * n + length (pairs page n) \<le> unat (space_end - of_nat (length (kv page n)))"
    unfolding e s using Suc.prems(3,4) by (simp_all add: pairs_Suc)
  from Suc.IH [OF _ d(2) this] n obtain s' e' data' where
    "serialize_loop page (Suc n) space_start space_end data = Inr (s', e', data')"
    "length data' = 4096" "unat e' = unat space_end - length (kv page n) - length (pairs page n)"
    "drop (unat e') data' = pairs page n @ kv page n @ drop (unat space_end) data"
    unfolding d(1) e d(3) by auto
  then show ?case by (auto simp: pairs_Suc)
qed

text \<open>Reading the pairs from \<open>i\<close> on.\<close>

definition drop_vals :: "nat \<Rightarrow> NodeValues \<Rightarrow> NodeRID list \<times> u32 list" where
  "drop_vals i v = (case v of LeafRecords rs \<Rightarrow> (drop i rs, []) | InternalChildren cs \<Rightarrow> ([], drop i cs))"

lemma take_1_drop: "i < length xs \<Longrightarrow> take 1 (drop i xs) = [xs ! i]"
  by (simp add: Cons_nth_drop_Suc [symmetric])

lemma deserialize_step:
  assumes ok: "node_ok page" and i: "i < length (keys page)" and len: "length data = 4096"
    and rest: "drop (unat cursor) data = kv page i @ tail" and c: "unat cursor < 4096"
  shows "\<exists>cursor'. unat cursor' = unat cursor + length (kv page i) \<and>
    deserialize_loop (is_leaf page) data cursor ks rs cs =
    deserialize_loop (is_leaf page) data cursor' (ks @ [keys page ! i])
      (rs @ take 1 (fst (drop_vals i (vals page)))) (cs @ take 1 (snd (drop_vals i (vals page))))"
proof -
  let ?k = "keys page ! i" and ?l = "unat (key_length (keys page ! i))"
  note key = node_ok_key [OF ok i]
  let ?v = "cursor + 1 + ucast (key_length ?k)"
  have v: "unat ?v = unat cursor + 1 + ?l" using cursor_step(3) [OF c, of 0] by simp
  have room: "unat cursor + length (kv page i) \<le> 4096"
    using arg_cong [OF rest, of length] len c by simp
  have d: "drop (unat cursor) data = key_length ?k # key_data ?k @ vb page i @ tail" using rest by (simp add: kv_def)
  have hd: "byte_at (unat cursor) data = Inr (key_length ?k)"
    using d len c by (simp add: byte_at_def) (metis hd_drop_conv_nth list.sel(1))
  have d1: "drop (Suc (unat cursor)) data = key_data ?k @ vb page i @ tail"
    using arg_cong [OF d, of "drop 1"] by simp
  have ld: "load (unat cursor + 1) ?l data = Inr (key_data ?k)"
    using room key(2) d1 len by (simp add: load_def kv_def)
  have dv: "drop (unat ?v) data = vb page i @ tail"
    unfolding v using arg_cong [OF d1, of "drop ?l"] key(2) by (simp add: add.commute)
  have eta: "\<lparr>key_data = key_data ?k, key_length = key_length ?k\<rparr> = ?k" by simp
  have step: "deserialize_loop (is_leaf page) data cursor ks rs cs =
      (if is_leaf page then
         and_then (decode_uint32 (drop (unat ?v) data)) (\<lambda>pid.
         and_then (decode_uint32 (drop (unat ?v + 4) data)) (\<lambda>slot.
           deserialize_loop (is_leaf page) data (?v + 8) (ks @ [?k])
             (rs @ [\<lparr>n_pid = pid, n_slot_num = slot\<rparr>]) cs))
       else
         and_then (decode_uint32 (drop (unat ?v) data)) (\<lambda>child.
           deserialize_loop (is_leaf page) data (?v + 4) (ks @ [?k]) rs (cs @ [child])))"
    using c key(1)
    by (subst deserialize_loop.simps)
      (simp only: hd ld PAGE_SIZE_def and_then_simps Let_def if_False simp_thms eta)
  show ?thesis
  proof (cases "vals page")
    case (LeafRecords rl)
    with ok i have leaf: "is_leaf page" and r: "take 1 (drop i rl) = [rl ! i]"
      by (simp_all only: node_ok_def NodeValues.case take_1_drop)
    have reta: "\<lparr>n_pid = n_pid r, n_slot_num = n_slot_num r\<rparr> = r" for r :: NodeRID by simp
    have "drop (unat ?v + 4) data = drop 4 (drop (unat ?v) data)" by (simp only: drop_drop add.commute)
    then have "decode_uint32 (drop (unat ?v) data) = Inr (n_pid (rl ! i))"
      "decode_uint32 (drop (unat ?v + 4) data) = Inr (n_slot_num (rl ! i))"
      unfolding dv by (simp_all add: vb_def LeafRecords u32c.decode_enc)
    then show ?thesis
      using step leaf r cursor_step(2) [OF c, of 8 "key_length ?k"] key(2)
      by (intro exI [of _ "?v + 8"]) (simp add: LeafRecords drop_vals_def kv_def vb_def reta)
  next
    case (InternalChildren cl)
    with ok i have leaf: "\<not> is_leaf page" and r: "take 1 (drop i cl) = [cl ! i]"
      by (simp_all only: node_ok_def NodeValues.case take_1_drop simp_thms)
    have "decode_uint32 (drop (unat ?v) data) = Inr (cl ! i)"
      using dv by (simp add: vb_def InternalChildren u32c.decode_enc)
    then show ?thesis
      using step leaf r cursor_step(2) [OF c, of 4 "key_length ?k"] key(2)
      by (intro exI [of _ "?v + 4"]) (simp add: InternalChildren drop_vals_def kv_def vb_def)
  qed
qed

lemma drop_vals_Suc:
  assumes "node_ok page" and "i < length (keys page)"
  shows "take 1 (fst (drop_vals i (vals page))) @ fst (drop_vals (Suc i) (vals page)) = fst (drop_vals i (vals page))"
    and "take 1 (snd (drop_vals i (vals page))) @ snd (drop_vals (Suc i) (vals page)) = snd (drop_vals i (vals page))"
  using assms
  by (auto simp: drop_vals_def node_ok_def Cons_nth_drop_Suc [symmetric] split: NodeValues.splits)

lemma deserialize_loop_pairs:
  assumes ok: "node_ok page" and len: "length data = 4096"
  shows "i \<le> length (keys page) \<Longrightarrow> drop (unat cursor) data = concat (map (kv page) [i ..< length (keys page)]) \<Longrightarrow>
    unat cursor \<le> 4096 \<Longrightarrow>
    deserialize_loop (is_leaf page) data cursor ks rs cs =
      Inr (ks @ drop i (keys page), rs @ fst (drop_vals i (vals page)), cs @ snd (drop_vals i (vals page)))"
proof (induction "length (keys page) - i" arbitrary: i cursor ks rs cs)
  case 0
  then have i: "i = length (keys page)" by simp
  with 0 len have "unat cursor = 4096" by simp
  moreover have "drop_vals i (vals page) = ([], [])"
    using ok i by (auto simp: drop_vals_def node_ok_def split: NodeValues.splits)
  ultimately show ?case using i by (subst deserialize_loop.simps) (simp add: PAGE_SIZE_def)
next
  case (Suc n)
  then have i: "i < length (keys page)" by simp
  let ?tail = "concat (map (kv page) [Suc i ..< length (keys page)])"
  have rest: "drop (unat cursor) data = kv page i @ ?tail" using Suc.prems(2) i by (simp add: upt_conv_Cons)
  have c: "unat cursor < 4096"
  proof (rule ccontr)
    assume "\<not> unat cursor < 4096"
    then have "drop (unat cursor) data = []" using len by simp
    with rest show False by (simp add: kv_def)
  qed
  from deserialize_step [OF ok i len rest c, of ks rs cs] obtain c' where
    c': "unat c' = unat cursor + length (kv page i)"
      "deserialize_loop (is_leaf page) data cursor ks rs cs =
       deserialize_loop (is_leaf page) data c' (ks @ [keys page ! i])
         (rs @ take 1 (fst (drop_vals i (vals page)))) (cs @ take 1 (snd (drop_vals i (vals page))))" by blast
  have "drop (unat c') data = ?tail" using arg_cong [OF rest, of "drop (length (kv page i))"] by (simp add: c'(1) add.commute)
  moreover have "unat c' \<le> 4096" using arg_cong [OF rest, of length] len c by (simp add: c'(1))
  ultimately have "deserialize_loop (is_leaf page) data cursor ks rs cs =
      Inr ((ks @ [keys page ! i]) @ drop (Suc i) (keys page),
           (rs @ take 1 (fst (drop_vals i (vals page)))) @ fst (drop_vals (Suc i) (vals page)),
           (cs @ take 1 (snd (drop_vals i (vals page)))) @ snd (drop_vals (Suc i) (vals page)))"
    unfolding c'(2) using Suc.hyps i by (intro Suc.hyps(1)) simp_all
  then show ?case
    unfolding append_assoc drop_vals_Suc [OF ok i] by (simp add: Cons_nth_drop_Suc [OF i])
qed

lemma serialize_deserialize:
  assumes ok: "node_ok page" and fits: "node_fits page" and junk: "length junk = PAGE_SIZE"
  shows "\<exists>data. serialize junk page = Inr data \<and> length data = PAGE_SIZE \<and> deserialize data = Inr page"
proof -
  let ?n = "length (keys page)"
  have room: "26 + 4 * ?n + length (pairs page ?n) \<le> 4096"
    using fits by (simp add: node_fits_def layout_defs)
  have "unat (26 :: u16) + 4 * ?n + length (pairs page ?n) \<le> unat (4096 :: u16)" using room by simp
  from serialize_loop_pairs [OF ok le_refl _ _ this, of junk] junk obtain s e d where
    loop: "serialize_loop page ?n 26 4096 junk = Inr (s, e, d)" and len: "length d = 4096"
      and e: "unat e = 4096 - length (pairs page ?n)" and tail: "drop (unat e) d = pairs page ?n"
    by (auto simp: PAGE_SIZE_def)
  have e26: "26 \<le> unat e" using e room by simp
  define data where "data =
    put 13 (encode_bool (is_leaf page)) (put 12 [flags page] (put 8 (encode_uint32 (rightmost_ptr page))
      (put 4 (encode_uint32 (next_pid page)) (put 2 (encode_uint16 e) (put 0 (encode_uint16 s) d)))))"
  have len': "length data = 4096" using len by (simp add: data_def)
  have run: "serialize junk page = Inr data"
    using loop len by (simp add: serialize_def data_def layout_defs store_ok)
  have tail': "drop (unat e) data = pairs page ?n" using tail e26 len by (simp add: data_def drop_put_after)
  have "decode_uint32 (drop 4 data) = Inr (next_pid page)" "decode_uint32 (drop 8 data) = Inr (rightmost_ptr page)"
    "decode_bool (drop 13 data) = Inr (is_leaf page)" "decode_uint16 (drop 2 data) = Inr e"
    "byte_at 12 data = Inr (flags page)"
    using len
    by (simp_all add: data_def u32c.decode_stored_elsewhere u32c.decode_stored boolc.decode_stored
        u16c.decode_stored_elsewhere u16c.decode_stored byte_at_def put_nth)
  moreover have "deserialize_loop (is_leaf page) data e [] [] [] =
      Inr (keys page, fst (drop_vals 0 (vals page)), snd (drop_vals 0 (vals page)))"
    using deserialize_loop_pairs [OF ok len', of 0 e "[]" "[]" "[]"] tail' e by (simp add: pairs_def)
  ultimately have "deserialize data = Inr \<lparr>is_leaf = is_leaf page, keys = keys page, flags = flags page,
      rightmost_ptr = rightmost_ptr page, next_pid = next_pid page,
      vals = (if is_leaf page then LeafRecords (fst (drop_vals 0 (vals page)))
              else InternalChildren (snd (drop_vals 0 (vals page))))\<rparr>"
    by (simp add: deserialize_def layout_defs case_prod_beta)
  also have "(if is_leaf page then LeafRecords (fst (drop_vals 0 (vals page)))
      else InternalChildren (snd (drop_vals 0 (vals page)))) = vals page"
    using ok by (auto simp: node_ok_def drop_vals_def split: NodeValues.splits)
  finally show ?thesis using run len' by (auto simp: PAGE_SIZE_def)
qed

section \<open>Blank pages\<close>

text \<open>The page \<^verbatim>\<open>new_btree_index_page\<close> writes: the header says that the pairs start at offset 0.\<close>

lemma blank_node_nth: "i < PAGE_SIZE \<Longrightarrow> i \<noteq> 13 \<Longrightarrow> blank_node l ! i = 0"
  by (simp add: blank_node_def put_nth layout_defs)

lemma blank_node_leaf_loop:
  "k \<le> 512 \<Longrightarrow> deserialize_loop True (blank_node l) (of_nat (8 * k)) ks rs cs = Inr (ks, rs, cs)"
proof (induction "512 - k" arbitrary: k)
  case 0
  then have "k = 512" by simp
  then show ?case by (subst deserialize_loop.simps) (simp add: PAGE_SIZE_def)
next
  case (Suc n)
  then have k: "k < 512" by simp
  then have u: "unat (of_nat (8 * k) :: u16) = 8 * k" by (subst unat_of_nat) simp
  have "8 * k \<noteq> 13" by presburger
  then have "byte_at (8 * k) (blank_node l) = Inr 0"
    using blank_node_nth [of "8 * k" l] length_blank_node [of l] k by (simp add: byte_at_def PAGE_SIZE_def)
  moreover have "(of_nat (8 * k) :: u16) + 8 = of_nat (8 * Suc k)" by (simp add: add.commute)
  moreover have "deserialize_loop True (blank_node l) (of_nat (8 * Suc k)) ks rs cs = Inr (ks, rs, cs)"
    using Suc k by (intro Suc.hyps(1)) simp_all
  ultimately show ?case
    by (subst deserialize_loop.simps) (simp only: u PAGE_SIZE_def and_then_simps simp_thms if_True if_False if_cancel)
qed

lemma blank_node_fields:
  shows "decode_uint32 (drop 4 (blank_node l)) = Inr 0" and "decode_uint32 (drop 8 (blank_node l)) = Inr 0"
    and "decode_uint16 (drop 2 (blank_node l)) = Inr 0" and "byte_at 12 (blank_node l) = Inr 0"
    and "decode_bool (drop 13 (blank_node l)) = Inr l"
proof -
  let ?z = "replicate PAGE_SIZE 0 :: bytes"
  have z: "decode_uint32 (drop 4 ?z) = Inr 0" "decode_uint32 (drop 8 ?z) = Inr 0" "decode_uint16 (drop 2 ?z) = Inr 0"
    by (simp_all add: PAGE_SIZE_def replicate_Suc [symmetric] numeral_eq_Suc)
  show "decode_uint32 (drop 4 (blank_node l)) = Inr 0" "decode_uint32 (drop 8 (blank_node l)) = Inr 0"
    "decode_uint16 (drop 2 (blank_node l)) = Inr 0"
    using z by (simp_all add: blank_node_def IS_LEAF_OFFSET_def u32c.decode_stored_elsewhere u16c.decode_stored_elsewhere PAGE_SIZE_def)
  show "byte_at 12 (blank_node l) = Inr 0"
    using blank_node_nth [of 12 l] length_blank_node [of l] by (simp add: byte_at_def PAGE_SIZE_def)
  show "decode_bool (drop 13 (blank_node l)) = Inr l"
    by (simp add: blank_node_def IS_LEAF_OFFSET_def boolc.decode_stored PAGE_SIZE_def)
qed

lemma blank_leaf:
  "deserialize (blank_node True) = Inr \<lparr>is_leaf = True, keys = [], flags = 0, rightmost_ptr = 0, next_pid = 0,
     vals = LeafRecords []\<rparr>"
  using blank_node_fields [of True] blank_node_leaf_loop [of 0 True "[]" "[]" "[]"]
  by (simp add: deserialize_def layout_defs)

section \<open>Properties\<close>

text \<open>
  C4. Serializing a node and reading the page back gives the same node: keys in order, their values,
  the sibling and rightmost page numbers, the flags. It holds for every node whose keys are not empty
  and that fits the page, header of 26 bytes and pair pointers included.
\<close>

theorem index_page_round_trip:
  assumes "node_ok page" and "node_fits page" and "length junk = PAGE_SIZE"
  shows "and_then (serialize junk page) deserialize = Inr page"
  using serialize_deserialize [OF assms] by auto

definition demo_leaf :: BTreePage where
  "demo_leaf = \<lparr>is_leaf = True,
     keys = [\<lparr>key_data = [1, 2], key_length = 2\<rparr>, \<lparr>key_data = [1, 9], key_length = 2\<rparr>],
     flags = 0, rightmost_ptr = 0, next_pid = 5,
     vals = LeafRecords [\<lparr>n_pid = 2, n_slot_num = 0\<rparr>, \<lparr>n_pid = 2, n_slot_num = 1\<rparr>]\<rparr>"

theorem index_page_round_trip_witness:
  "and_then (serialize (replicate PAGE_SIZE 7) demo_leaf) deserialize = Inr demo_leaf"
  by (rule index_page_round_trip)
    (simp_all add: demo_leaf_def node_ok_def node_fits_def pairs_def kv_def vb_def layout_defs)

text \<open>
  Inserting a key into a sorted leaf whose keys all have its length puts the key and its record at
  one position, moves the later ones up by one and keeps the keys sorted as big-endian numbers.
\<close>

lemma insertIntoNode_keeps_sorted:
  assumes "vals page = LeafRecords rs" and "length rs = length (keys page)" and "length (keys page) < 65535"
    and "list_all (key_of_size L) (keys page)" and "key_of_size L key" and "sorted (map key_num (keys page))"
  shows "\<exists>i \<le> length (keys page).
    insertIntoNode_RID key val page = Inr (page\<lparr>keys := ins i key (keys page), vals := LeafRecords (ins i val rs)\<rparr>) \<and>
    sorted (map key_num (ins i key (keys page)))"
  using insert_kv_sorted [OF assms(4,5,2,3,6), of "\<lparr>n_pid = 0, n_slot_num = 0\<rparr>" val] assms(1)
  by (auto simp: insertIntoNode_RID_def)

text \<open>
  A freshly allocated page reads as an empty leaf when its flag says leaf; when it says internal,
  reading it never ends, since the cursor of the skip is not moved.
\<close>

lemma blank_page_reads_back:
  "deserialize (blank_node True) = Inr \<lparr>is_leaf = True, keys = [], flags = 0, rightmost_ptr = 0, next_pid = 0,
     vals = LeafRecords []\<rparr> \<and>
   deserialize (blank_node False) = Inl Diverges"
proof
  show "deserialize (blank_node True) = Inr \<lparr>is_leaf = True, keys = [], flags = 0, rightmost_ptr = 0, next_pid = 0,
      vals = LeafRecords []\<rparr>" by (rule blank_leaf)
  have "byte_at 0 (blank_node False) = Inr 0"
    using blank_node_nth [of 0 False] length_blank_node [of False] by (simp add: byte_at_def PAGE_SIZE_def)
  then have "deserialize_loop False (blank_node False) 0 [] [] [] = Inl Diverges"
    by (subst deserialize_loop.simps) (simp add: PAGE_SIZE_def)
  then show "deserialize (blank_node False) = Inl Diverges"
    using blank_node_fields [of False] by (simp add: deserialize_def layout_defs)
qed

end
