(* ===== verification/Lexer.thy ===== *)
theory Lexer
  imports Somedb_Prelude
begin

text \<open>
  \<^verbatim>\<open>src/sql/lexer.cpp\<close> and \<^verbatim>\<open>lexer.hpp\<close>: tokens of an SQL text. The lexer keeps two 16-bit positions
  into the text and the current character, which is the null character at the end. A loop over the
  text runs with fuel for every character of it and one more round; it runs out of it exactly when
  the positions wrap around on a text of 65536 characters or more and the loop never ends.

  \<open>lex1\<close> and \<open>lex_all\<close> are the reference lexer on the remaining text. \<open>view\<close> relates a lexer to the
  text it has left.
\<close>

section \<open>Tokens\<close>

datatype TokenType =
    ILLEGAL | KEYWORD | IDENTIFIER | INT_TOK | STRING | EQUALS | PLUS | MINUS | COMMA | SEMICOLON
  | ASTERISK | SLASH | LPAREN | RPAREN | LBRACE | RBRACE | LT | GT | LT_EQ | GT_EQ | END

record Token =
  tok_type :: TokenType
  literal :: string

definition sql_keywords :: "string list" where
  "sql_keywords = [''SELECT'', ''UPDATE'', ''DELETE'', ''INSERT'', ''WHERE'', ''FROM'', ''AS'', ''OR'']"

definition getStringType :: "string \<Rightarrow> TokenType" where
  "getStringType str = (if str \<in> set sql_keywords then KEYWORD else IDENTIFIER)"

section \<open>The lexer\<close>

record Lexer =
  lx_input :: string
  position :: u16
  ahead_position :: u16
  curr_ch :: char

definition nul :: char where
  "nul = CHR 0x00"

definition in_range :: "char \<Rightarrow> char \<Rightarrow> char \<Rightarrow> bool" where
  "in_range lo hi c \<longleftrightarrow> (of_char lo :: nat) \<le> of_char c \<and> (of_char c :: nat) \<le> of_char hi"

definition isLetter :: "char \<Rightarrow> bool" where
  "isLetter c \<longleftrightarrow> in_range (CHR ''a'') (CHR ''z'') c \<or> in_range (CHR ''A'') (CHR ''Z'') c \<or> c = CHR ''_''"

definition isDigit :: "char \<Rightarrow> bool" where
  "isDigit c \<longleftrightarrow> in_range (CHR ''0'') (CHR ''9'') c"

definition isWhitespace :: "char \<Rightarrow> bool" where
  "isWhitespace c \<longleftrightarrow> c = CHR '' '' \<or> c = CHR 0x0A \<or> c = CHR 0x09 \<or> c = CHR 0x0D"

definition peekNext :: "Lexer \<Rightarrow> char" where
  "peekNext lx =
     (if length (lx_input lx) \<le> unat (ahead_position lx) then nul else lx_input lx ! unat (ahead_position lx))"

definition readChar :: "Lexer \<Rightarrow> Lexer" where
  "readChar lx =
     lx\<lparr>curr_ch := peekNext lx, position := ahead_position lx, ahead_position := ahead_position lx + 1\<rparr>"

definition new_Lexer :: "string \<Rightarrow> Lexer" where
  "new_Lexer txt = readChar \<lparr>lx_input = txt, position = - 1, ahead_position = 0, curr_ch = nul\<rparr>"

definition text_fuel :: "Lexer \<Rightarrow> nat" where
  "text_fuel lx = length (lx_input lx) + 2"

fun eatWhitespace :: "nat \<Rightarrow> Lexer \<Rightarrow> Lexer res" where
  "eatWhitespace 0 lx = Inl Diverges"
| "eatWhitespace (Suc fuel) lx =
     (if isWhitespace (curr_ch lx) then eatWhitespace fuel (readChar lx) else Inr lx)"

text \<open>The loops that collect letters and digits.\<close>

fun read_while :: "(char \<Rightarrow> bool) \<Rightarrow> nat \<Rightarrow> string \<Rightarrow> Lexer \<Rightarrow> (string \<times> Lexer) res" where
  "read_while P 0 str lx = Inl Diverges"
| "read_while P (Suc fuel) str lx =
     (if P (curr_ch lx) then read_while P fuel (str @ [curr_ch lx]) (readChar lx) else Inr (str, lx))"

text \<open>The one-character cases of the switch.\<close>

definition punctuation :: "(char \<times> TokenType) list" where
  "punctuation =
     [(CHR ''='', EQUALS), (CHR ''+'', PLUS), (CHR ''-'', MINUS), (CHR '','', COMMA), (CHR '';'', SEMICOLON),
      (CHR ''*'', ASTERISK), (CHR ''/'', SLASH), (CHR ''('', LPAREN), (CHR '')'', RPAREN),
      (CHR ''{'', LBRACE), (CHR ''}'', RBRACE)]"

text \<open>The out parameter is passed in and returned: an illegal character only sets its type.\<close>

definition nextToken :: "Lexer \<Rightarrow> Token \<Rightarrow> (Token \<times> Lexer) res" where
  "nextToken lx token =
     and_then (eatWhitespace (text_fuel lx) lx) (\<lambda>lx.
       let c = curr_ch lx in
       case map_of punctuation c of
         Some t \<Rightarrow> Inr (\<lparr>tok_type = t, literal = [c]\<rparr>, readChar lx)
       | None \<Rightarrow>
           if c = CHR ''>'' then
             (if peekNext lx = CHR ''='' then Inr (\<lparr>tok_type = GT_EQ, literal = ''>=''\<rparr>, readChar (readChar lx))
              else Inr (\<lparr>tok_type = GT, literal = [c]\<rparr>, readChar lx))
           else if c = CHR ''<'' then
             (if peekNext lx = CHR ''='' then Inr (\<lparr>tok_type = LT_EQ, literal = ''<=''\<rparr>, readChar (readChar lx))
              else Inr (\<lparr>tok_type = LT, literal = [c]\<rparr>, readChar lx))
           else if c = nul then Inr (\<lparr>tok_type = END, literal = []\<rparr>, readChar lx)
           else if isLetter c then
             and_then (read_while isLetter (text_fuel lx) [] lx) (\<lambda>(str, lx).
               Inr (\<lparr>tok_type = getStringType str, literal = str\<rparr>, lx))
           else if isDigit c then
             and_then (read_while isDigit (text_fuel lx) [] lx) (\<lambda>(num, lx).
               Inr (\<lparr>tok_type = INT_TOK, literal = num\<rparr>, lx))
           else Inr (token\<lparr>tok_type := ILLEGAL\<rparr>, readChar lx))"

section \<open>The text that is left\<close>

definition hd0 :: "string \<Rightarrow> char" where
  "hd0 s = (case s of [] \<Rightarrow> nul | c # _ \<Rightarrow> c)"

definition view :: "Lexer \<Rightarrow> string \<Rightarrow> bool" where
  "view lx s \<longleftrightarrow>
     length (lx_input lx) < 65534 \<and> curr_ch lx = hd0 s \<and>
     (\<exists>pre. lx_input lx = pre @ s \<and> unat (ahead_position lx) = length pre + 1)"

lemma hd0_simps [simp]: "hd0 [] = nul" "hd0 (c # s) = c"
  by (simp_all add: hd0_def)

lemma nul_class [simp]: "\<not> isWhitespace nul" "\<not> isLetter nul" "\<not> isDigit nul"
  by (simp_all add: isWhitespace_def isLetter_def isDigit_def in_range_def nul_def)

lemma peekNext_view: "view lx (c # s) \<Longrightarrow> peekNext lx = hd0 s"
  by (auto simp: view_def peekNext_def hd0_def nth_append split: list.split)

lemma readChar_view:
  assumes "view lx (c # s)"
  shows "view (readChar lx) s"
proof -
  from assms obtain pre where pre: "lx_input lx = pre @ c # s" "unat (ahead_position lx) = length pre + 1"
    and len: "length (lx_input lx) < 65534" by (auto simp: view_def)
  have "unat (ahead_position lx + 1) = length (pre @ [c]) + 1"
    using pre len by (simp add: unat_word_ariths)
  moreover have "lx_input lx = (pre @ [c]) @ s" using pre(1) by simp
  ultimately show ?thesis
    using len peekNext_view [OF assms] unfolding view_def readChar_def by auto
qed

lemma new_Lexer_view: "length txt < 65534 \<Longrightarrow> view (new_Lexer txt) txt"
  by (auto simp: view_def new_Lexer_def readChar_def peekNext_def hd0_def split: list.split)

lemma view_length: "view lx s \<Longrightarrow> length s \<le> length (lx_input lx)"
  by (auto simp: view_def)

lemma readChar_input [simp]: "lx_input (readChar lx) = lx_input lx"
  by (simp add: readChar_def)

lemma eatWhitespace_view:
  "view lx s \<Longrightarrow> length s < fuel \<Longrightarrow>
     \<exists>lx'. eatWhitespace fuel lx = Inr lx' \<and> view lx' (dropWhile isWhitespace s) \<and> lx_input lx' = lx_input lx"
proof (induction fuel arbitrary: lx s)
  case (Suc fuel)
  have c: "curr_ch lx = hd0 s" using Suc.prems(1) by (simp add: view_def)
  show ?case
  proof (cases s)
    case (Cons d ds)
    with Suc.prems Suc.IH [of "readChar lx" ds] readChar_view [of lx d ds] c Suc.prems show ?thesis by auto
  qed (use c Suc.prems in simp)
qed simp

lemma read_while_view:
  assumes "\<not> P nul"
  shows "view lx s \<Longrightarrow> length s < fuel \<Longrightarrow>
    \<exists>lx'. read_while P fuel str lx = Inr (str @ takeWhile P s, lx') \<and> view lx' (dropWhile P s) \<and>
      lx_input lx' = lx_input lx"
proof (induction fuel arbitrary: lx s str)
  case (Suc fuel)
  have c: "curr_ch lx = hd0 s" using Suc.prems(1) by (simp add: view_def)
  show ?case
  proof (cases s)
    case (Cons d ds)
    with Suc.prems Suc.IH [of "readChar lx" ds "str @ [d]"] readChar_view [of lx d ds] c show ?thesis by auto
  qed (use c Suc.prems assms in simp)
qed simp

section \<open>The reference lexer\<close>

definition lex1 :: "string \<Rightarrow> Token \<Rightarrow> Token \<times> string" where
  "lex1 txt token =
     (case dropWhile isWhitespace txt of
        [] \<Rightarrow> (\<lparr>tok_type = END, literal = []\<rparr>, [])
      | c # s \<Rightarrow>
          (case map_of punctuation c of
             Some t \<Rightarrow> (\<lparr>tok_type = t, literal = [c]\<rparr>, s)
           | None \<Rightarrow>
               if c = CHR ''>'' then
                 (if hd0 s = CHR ''='' then (\<lparr>tok_type = GT_EQ, literal = ''>=''\<rparr>, tl s)
                  else (\<lparr>tok_type = GT, literal = [c]\<rparr>, s))
               else if c = CHR ''<'' then
                 (if hd0 s = CHR ''='' then (\<lparr>tok_type = LT_EQ, literal = ''<=''\<rparr>, tl s)
                  else (\<lparr>tok_type = LT, literal = [c]\<rparr>, s))
               else if c = nul then (\<lparr>tok_type = END, literal = []\<rparr>, s)
               else if isLetter c then
                 (\<lparr>tok_type = getStringType (takeWhile isLetter (c # s)), literal = takeWhile isLetter (c # s)\<rparr>,
                  dropWhile isLetter (c # s))
               else if isDigit c then
                 (\<lparr>tok_type = INT_TOK, literal = takeWhile isDigit (c # s)\<rparr>, dropWhile isDigit (c # s))
               else (token\<lparr>tok_type := ILLEGAL\<rparr>, s)))"

lemma punctuation_nul: "map_of punctuation nul = None"
  by (simp add: punctuation_def nul_def)

lemma view_fuel: "view lx s \<Longrightarrow> lx_input lx = lx_input lx' \<Longrightarrow> length s < text_fuel lx'"
  using view_length [of lx s] by (simp add: text_fuel_def)

text \<open>One call of \<^verbatim>\<open>nextToken\<close> is one step of the reference lexer; after the end of the text there is
  nothing left to view.\<close>

lemma nextToken_lex1:
  assumes v: "view lx s"
  shows "\<exists>lx'. nextToken lx token = Inr (fst (lex1 s token), lx') \<and>
    (tok_type (fst (lex1 s token)) \<noteq> END \<longrightarrow> view lx' (snd (lex1 s token)))"
proof -
  from eatWhitespace_view [OF v view_fuel [OF v refl]] obtain lx1 where
    e: "eatWhitespace (text_fuel lx) lx = Inr lx1" "view lx1 (dropWhile isWhitespace s)" "lx_input lx1 = lx_input lx"
    by blast
  have c: "curr_ch lx1 = hd0 (dropWhile isWhitespace s)" using e(2) by (simp add: view_def)
  show ?thesis
  proof (cases "dropWhile isWhitespace s")
    case Nil
    have cn: "curr_ch lx1 = nul" using c by (simp add: Nil del: dropWhile_eq_Nil_conv)
    have "nul \<noteq> CHR ''>''" "nul \<noteq> CHR ''<''" by (simp_all add: nul_def)
    then show ?thesis
      unfolding nextToken_def e(1) and_then_simps Let_def cn punctuation_nul lex1_def Nil by simp
  next
    case (Cons d ds)
    have v1: "view lx1 (d # ds)" using e(2) Cons by simp
    have fuel: "length (d # ds) < text_fuel lx1" using view_fuel [OF v1 refl] .
    have p: "peekNext lx1 = hd0 ds" using peekNext_view [OF v1] .
    note r1 = readChar_view [OF v1]
    have r2: "view (readChar (readChar lx1)) (tl ds)" if "hd0 ds = CHR ''=''"
      using that readChar_view [of "readChar lx1" "CHR ''=''" "tl ds"] r1
      by (cases ds) (simp_all add: nul_def)
    from read_while_view [where P = isLetter, OF nul_class(2) v1 fuel, of "[]"] obtain lx2 where
      l: "read_while isLetter (text_fuel lx1) [] lx1 = Inr (takeWhile isLetter (d # ds), lx2)" "view lx2 (dropWhile isLetter (d # ds))"
      unfolding append_Nil by blast
    from read_while_view [where P = isDigit, OF nul_class(3) v1 fuel, of "[]"] obtain lx3 where
      g: "read_while isDigit (text_fuel lx1) [] lx1 = Inr (takeWhile isDigit (d # ds), lx3)" "view lx3 (dropWhile isDigit (d # ds))"
      unfolding append_Nil by blast
    have cd: "curr_ch lx1 = d" using c Cons by simp
    show ?thesis
      unfolding nextToken_def e(1) and_then_simps Let_def cd lex1_def Cons list.case p l g prod.case
      using r1 r2 l(2) g(2) by (auto split: option.split)
  qed
qed

lemma lex1_shorter: "tok_type (fst (lex1 txt token)) \<noteq> END \<Longrightarrow> length (snd (lex1 txt token)) < length txt"
proof -
  assume ne: "tok_type (fst (lex1 txt token)) \<noteq> END"
  obtain c s where cs: "dropWhile isWhitespace txt = c # s"
    using ne by (cases "dropWhile isWhitespace txt") (simp_all add: lex1_def del: dropWhile_eq_Nil_conv)
  have "length (c # s) \<le> length txt" using length_dropWhile_le [of isWhitespace "txt"] unfolding cs .
  moreover have "length (snd (lex1 txt token)) \<le> length s"
    using length_dropWhile_le [of isLetter s] length_dropWhile_le [of isDigit s]
    unfolding lex1_def cs list.case by (auto split: option.split)
  ultimately show ?thesis by simp
qed

function lex_all :: "string \<Rightarrow> Token \<Rightarrow> Token list" where
  "lex_all txt token =
     (if tok_type (fst (lex1 txt token)) = END then []
      else fst (lex1 txt token) # lex_all (snd (lex1 txt token)) (fst (lex1 txt token)))"
  by pat_completeness auto
termination
  by (relation "measure (\<lambda>(txt, token). length txt)") (simp_all add: lex1_shorter)

declare lex_all.simps [simp del]

section \<open>Tokens read back from their spelling\<close>

definition tok_ok :: "Token \<Rightarrow> bool" where
  "tok_ok t \<longleftrightarrow>
     (\<exists>c. literal t = [c] \<and> map_of punctuation c = Some (tok_type t)) \<or>
     (literal t, tok_type t) \<in> {(''>='', GT_EQ), (''>'', GT), (''<='', LT_EQ), (''<'', LT)} \<or>
     (literal t \<noteq> [] \<and> list_all isLetter (literal t) \<and> tok_type t = getStringType (literal t)) \<or>
     (literal t \<noteq> [] \<and> list_all isDigit (literal t) \<and> tok_type t = INT_TOK)"

definition spelled :: "Token list \<Rightarrow> string" where
  "spelled ts = concat (map (\<lambda>t. literal t @ '' '') ts)"

lemma punctuation_class:
  "(c, t) \<in> set punctuation \<Longrightarrow> \<not> isLetter c \<and> \<not> isDigit c \<and> \<not> isWhitespace c \<and> t \<noteq> END"
  by (auto simp: punctuation_def isLetter_def isDigit_def isWhitespace_def in_range_def)

lemma other_classes:
  "isLetter c \<Longrightarrow> \<not> isWhitespace c" "isDigit c \<Longrightarrow> \<not> isWhitespace c"
  "\<not> isLetter (CHR ''>'')" "\<not> isLetter (CHR ''<'')" "\<not> isDigit (CHR ''>'')" "\<not> isDigit (CHR ''<'')"
  by (auto simp: isWhitespace_def isLetter_def isDigit_def in_range_def)

lemma digit_not_letter: "isDigit c \<Longrightarrow> \<not> isLetter c"
  by (auto simp: isLetter_def isDigit_def in_range_def)

lemma punctuation_none: "isLetter c \<or> isDigit c \<Longrightarrow> map_of punctuation c = None"
  using punctuation_class [of c] by (cases "map_of punctuation c") (auto dest: map_of_SomeD)

lemma char_classes:
  "isLetter c \<Longrightarrow> \<not> isWhitespace c \<and> map_of punctuation c = None \<and> c \<noteq> CHR ''>'' \<and> c \<noteq> CHR ''<'' \<and> c \<noteq> nul"
  "isDigit c \<Longrightarrow> \<not> isWhitespace c \<and> map_of punctuation c = None \<and> c \<noteq> CHR ''>'' \<and> c \<noteq> CHR ''<'' \<and> c \<noteq> nul \<and> \<not> isLetter c"
  using other_classes punctuation_none digit_not_letter nul_class by metis+

lemma punctuation_not_space: "map_of punctuation c = Some t \<Longrightarrow> \<not> isWhitespace c \<and> t \<noteq> END"
  using punctuation_class map_of_SomeD by metis

lemma getStringType_not_END: "getStringType s \<noteq> END"
  by (simp add: getStringType_def)

lemma space_class: "isWhitespace (CHR '' '')" "\<not> isLetter (CHR '' '')" "\<not> isDigit (CHR '' '')"
  by (simp_all add: isWhitespace_def isLetter_def isDigit_def in_range_def)

lemma takeWhile_run: "list_all P xs \<Longrightarrow> \<not> P c \<Longrightarrow> takeWhile P (xs @ c # ys) = xs \<and> dropWhile P (xs @ c # ys) = c # ys"
  by (induction xs) auto

lemma lex1_token:
  assumes t: "tok_ok t" and sp: "list_all isWhitespace sp"
  shows "lex1 (sp @ literal t @ CHR '' '' # rest) token = (t, CHR '' '' # rest)" and "tok_type t \<noteq> END"
proof -
  have t_eq: "t = \<lparr>tok_type = tok_type t, literal = literal t\<rparr>" by simp
  have drop: "dropWhile isWhitespace (sp @ s) = dropWhile isWhitespace s" for s
    using sp by (auto simp: dropWhile_append list_all_iff)
  have word: "lex1 (sp @ (c # cs) @ CHR '' '' # rest) token = (\<lparr>tok_type = getStringType (c # cs), literal = c # cs\<rparr>, CHR '' '' # rest)"
    if "list_all isLetter (c # cs)" for c cs
    using that char_classes(1) [of c] takeWhile_run [OF that space_class(2), of rest]
    by (simp add: lex1_def drop)
  have num: "lex1 (sp @ (c # cs) @ CHR '' '' # rest) token = (\<lparr>tok_type = INT_TOK, literal = c # cs\<rparr>, CHR '' '' # rest)"
    if "list_all isDigit (c # cs)" for c cs
    using that char_classes(2) [of c] takeWhile_run [OF that space_class(3), of rest]
    by (simp add: lex1_def drop)
  have punct: "lex1 (sp @ [c] @ CHR '' '' # rest) token = (\<lparr>tok_type = ty, literal = [c]\<rparr>, CHR '' '' # rest)"
    if "map_of punctuation c = Some ty" for c ty
    using that punctuation_not_space [OF that] by (simp add: lex1_def drop)
  have cmp: "lex1 (sp @ l @ CHR '' '' # rest) token = (\<lparr>tok_type = ty, literal = l\<rparr>, CHR '' '' # rest)"
    if "(l, ty) \<in> {(''>='', GT_EQ), (''>'', GT), (''<='', LT_EQ), (''<'', LT)}" for l ty
    using that by (auto simp: lex1_def drop isWhitespace_def punctuation_def)
  show "lex1 (sp @ literal t @ CHR '' '' # rest) token = (t, CHR '' '' # rest)"
    using t unfolding tok_ok_def
  proof (elim disjE)
    assume "\<exists>c. literal t = [c] \<and> map_of punctuation c = Some (tok_type t)"
    then show ?thesis using punct by auto
  next
    assume "(literal t, tok_type t) \<in> {(''>='', GT_EQ), (''>'', GT), (''<='', LT_EQ), (''<'', LT)}"
    from cmp [OF this] show ?thesis by simp
  next
    assume "literal t \<noteq> [] \<and> list_all isLetter (literal t) \<and> tok_type t = getStringType (literal t)"
    then show ?thesis using word [of "hd (literal t)" "tl (literal t)"] by simp
  next
    assume "literal t \<noteq> [] \<and> list_all isDigit (literal t) \<and> tok_type t = INT_TOK"
    then show ?thesis using num [of "hd (literal t)" "tl (literal t)"] by simp
  qed
  show "tok_type t \<noteq> END"
    using t punctuation_not_space getStringType_not_END by (auto simp: tok_ok_def)
qed

lemma lex_all_spelled:
  "list_all tok_ok ts \<Longrightarrow> list_all isWhitespace sp \<Longrightarrow> lex_all (sp @ spelled ts) token = ts"
proof (induction ts arbitrary: sp token)
  case Nil
  then have "lex1 sp token = (\<lparr>tok_type = END, literal = []\<rparr>, [])"
    by (simp add: lex1_def dropWhile_eq_Nil_conv [THEN iffD2] list_all_iff)
  then show ?case by (simp add: spelled_def lex_all.simps)
next
  case (Cons t ts)
  then have l: "lex1 (sp @ spelled (t # ts)) token = (t, CHR '' '' # spelled ts)" "tok_type t \<noteq> END"
    using lex1_token(1) [of t sp "spelled ts" token] lex1_token(2) [of t sp] by (simp_all add: spelled_def)
  have "lex_all (CHR '' '' # spelled ts) t = ts"
    using Cons.IH [of "'' ''" t] Cons.prems space_class by simp
  with l show ?case by (subst lex_all.simps) simp
qed

end
