(* ===== verification/Parser.thy ===== *)
theory Parser
  imports Lexer
begin

text \<open>
  \<^verbatim>\<open>src/sql/parser.cpp\<close>, \<^verbatim>\<open>parser.hpp\<close> and \<^verbatim>\<open>sql_expression.hpp\<close>: the operator precedence parser. The
  parser holds the tokens and the position of the last one consumed, \<open>-1\<close> before the first; \<^verbatim>\<open>at\<close> on a
  position outside of the tokens, \<open>-1\<close> included, throws. The functions call each other and carry fuel;
  \<open>parse_fuel\<close> is enough for every token list, as \<open>parse_ends\<close> shows.

  \<open>print_at\<close> spells an expression with the parentheses its context needs; the parser reads it back.
\<close>

section \<open>Expressions\<close>

datatype SqlExpr =
    SqlBinaryExpr SqlExpr string SqlExpr
  | SqlIdentifier string
  | SqlSelect string "SqlExpr list" "SqlExpr option"

fun toString :: "SqlExpr \<Rightarrow> string" where
  "toString (SqlBinaryExpr l op r) = toString l @ op @ toString r"
| "toString (SqlIdentifier s) = s"
| "toString (SqlSelect table_name projection selection) =
     ''SELECT '' @ concat (map (\<lambda>e. toString e @ '', '') projection) @
     (case selection of Some e \<Rightarrow> ''WHERE '' @ toString e | None \<Rightarrow> '' '')"

section \<open>The parser\<close>

text \<open>\<^verbatim>\<open>populateTokens\<close> works on a copy of the lexer and stops at the end token.\<close>

fun populate_loop :: "nat \<Rightarrow> Lexer \<Rightarrow> Token \<Rightarrow> Token list \<Rightarrow> Token list res" where
  "populate_loop 0 lx tok acc = Inl Diverges"
| "populate_loop (Suc fuel) lx tok acc =
     and_then (nextToken lx tok) (\<lambda>(tok, lx).
       if tok_type tok = END then Inr acc else populate_loop fuel lx tok (acc @ [tok]))"

text \<open>A new \<^verbatim>\<open>Token\<close> has an empty literal and a type that was never set.\<close>

definition populateTokens :: "TokenType \<Rightarrow> Lexer \<Rightarrow> Token list res" where
  "populateTokens junk lx = populate_loop (text_fuel lx) lx \<lparr>tok_type = junk, literal = []\<rparr> []"

definition nextTokenPos :: "Token list \<Rightarrow> int \<Rightarrow> int \<times> int" where
  "nextTokenPos ts pos = (if pos < int (length ts) then (pos + 1, pos + 1) else (- 1, pos))"

definition peekTokenPos :: "Token list \<Rightarrow> int \<Rightarrow> int" where
  "peekTokenPos ts pos = (if pos + 1 < int (length ts) then pos + 1 else - 1)"

definition tok_at :: "Token list \<Rightarrow> int \<Rightarrow> Token res" where
  "tok_at ts i = (if 0 \<le> i \<and> i < int (length ts) then Inr (ts ! nat i) else Inl StdOutOfRange)"

fun type_precedence :: "TokenType \<Rightarrow> nat" where
  "type_precedence EQUALS = 1"
| "type_precedence GT_EQ = 1"
| "type_precedence LT_EQ = 1"
| "type_precedence LT = 1"
| "type_precedence GT = 1"
| "type_precedence PLUS = 2"
| "type_precedence MINUS = 2"
| "type_precedence SLASH = 3"
| "type_precedence ASTERISK = 3"
| "type_precedence LPAREN = 4"
| "type_precedence _ = 0"

definition nextPrecedence :: "Token list \<Rightarrow> int \<Rightarrow> nat res" where
  "nextPrecedence ts pos =
     (let p = peekTokenPos ts pos
      in if p = - 1 then Inr 0 else and_then (tok_at ts p) (\<lambda>t. Inr (type_precedence (tok_type t))))"

definition infix_types :: "TokenType list" where
  "infix_types = [PLUS, MINUS, ASTERISK, SLASH, EQUALS, LT, GT, GT_EQ, LT_EQ]"

fun projection_loop :: "nat \<Rightarrow> Token list \<Rightarrow> SqlExpr list \<Rightarrow> int \<Rightarrow> (SqlExpr list \<times> int) res" where
  "projection_loop 0 ts plist pos = Inl Diverges"
| "projection_loop (Suc fuel) ts plist pos =
     and_then (tok_at ts (peekTokenPos ts pos)) (\<lambda>peek.
       if tok_type peek = COMMA then
         let pos = snd (nextTokenPos ts pos); (r, pos) = nextTokenPos ts pos
         in and_then (tok_at ts r) (\<lambda>t.
              projection_loop fuel ts (plist @ [SqlIdentifier (literal t)]) pos)
       else Inr (plist, pos))"

definition populateProjectionList :: "nat \<Rightarrow> Token list \<Rightarrow> int \<Rightarrow> (SqlExpr list \<times> int) res" where
  "populateProjectionList fuel ts pos =
     and_then (tok_at ts (peekTokenPos ts pos)) (\<lambda>peek.
       if tok_type peek \<noteq> ASTERISK \<and> tok_type peek \<noteq> IDENTIFIER
       then Inl (RuntimeError (''Projection needs to start with identifier or *, but started with '' @ literal peek))
       else
         let (r, pos) = nextTokenPos ts pos
         in and_then (tok_at ts r) (\<lambda>t. projection_loop fuel ts [SqlIdentifier (literal t)] pos))"

text \<open>\<^verbatim>\<open>parse\<close>, \<^verbatim>\<open>parsePrefix\<close>, \<^verbatim>\<open>parseInfix\<close> and \<^verbatim>\<open>parseSelectStatement\<close> call each other. The last three take
  the recursive \<^verbatim>\<open>parse\<close> as their first argument: it maps a precedence and a position to a result.\<close>

type_synonym parser = "nat \<Rightarrow> int \<Rightarrow> (SqlExpr \<times> int) res"

definition parseSelectStatement :: "parser \<Rightarrow> nat \<Rightarrow> Token list \<Rightarrow> int \<Rightarrow> (SqlExpr \<times> int) res" where
  "parseSelectStatement rec fuel ts pos =
     and_then (tok_at ts pos) (\<lambda>select_tok.
     and_then (populateProjectionList fuel ts pos) (\<lambda>(projection, pos).
       let (r, pos) = nextTokenPos ts pos in
       and_then (tok_at ts r) (\<lambda>from_tok.
         if literal from_tok \<noteq> ''FROM'' then
           and_then (tok_at ts pos) (\<lambda>t. Inl (RuntimeError (''Invalid SELECT statement near: '' @ literal t)))
         else
           let (r, pos) = nextTokenPos ts pos in
           and_then (tok_at ts r) (\<lambda>name_tok.
             if peekTokenPos ts pos \<noteq> - 1 then
               and_then (tok_at ts (peekTokenPos ts pos)) (\<lambda>t.
                 if literal t = ''WHERE'' then
                   and_then (rec 0 (snd (nextTokenPos ts pos))) (\<lambda>(sel, pos).
                     Inr (SqlSelect (literal name_tok) projection (Some sel), pos))
                 else Inr (SqlSelect (literal name_tok) projection None, pos))
             else Inr (SqlSelect (literal name_tok) projection None, pos)))))"

definition parsePrefix :: "parser \<Rightarrow> nat \<Rightarrow> Token list \<Rightarrow> int \<Rightarrow> (SqlExpr \<times> int) res" where
  "parsePrefix rec fuel ts pos =
     (let (r, pos) = nextTokenPos ts pos
      in and_then (tok_at ts r) (\<lambda>tok.
           if tok_type tok = IDENTIFIER \<or> tok_type tok = INT_TOK then Inr (SqlIdentifier (literal tok), pos)
           else if tok_type tok = LPAREN then
             and_then (rec 0 pos) (\<lambda>(expr, pos). Inr (expr, snd (nextTokenPos ts pos)))
           else if tok_type tok = KEYWORD then parseSelectStatement rec fuel ts pos
           else Inl (RuntimeError ''Unsupported prefix token'')))"

definition parseInfix :: "parser \<Rightarrow> Token list \<Rightarrow> SqlExpr \<Rightarrow> nat \<Rightarrow> int \<Rightarrow> (SqlExpr \<times> int) res" where
  "parseInfix rec ts left precedence pos =
     and_then (tok_at ts (peekTokenPos ts pos)) (\<lambda>tok.
       if tok_type tok \<in> set infix_types then
         and_then (rec precedence (snd (nextTokenPos ts pos))) (\<lambda>(right, pos).
           Inr (SqlBinaryExpr left (literal tok) right, pos))
       else Inl (RuntimeError ''Unsupported infix token''))"

text \<open>The loop of \<^verbatim>\<open>parse\<close>.\<close>

primrec parse_loop :: "nat \<Rightarrow> parser \<Rightarrow> Token list \<Rightarrow> nat \<Rightarrow> SqlExpr \<Rightarrow> int \<Rightarrow> (SqlExpr \<times> int) res" where
  "parse_loop 0 rec ts precedence expr pos = Inl Diverges"
| "parse_loop (Suc fuel) rec ts precedence expr pos =
     and_then (nextPrecedence ts pos) (\<lambda>p.
       if precedence < p then
         and_then (parseInfix rec ts expr p pos) (\<lambda>(expr, pos). parse_loop fuel rec ts precedence expr pos)
       else Inr (expr, pos))"

primrec parse :: "nat \<Rightarrow> Token list \<Rightarrow> nat \<Rightarrow> int \<Rightarrow> (SqlExpr \<times> int) res" where
  "parse 0 ts precedence pos = Inl Diverges"
| "parse (Suc fuel) ts precedence pos =
     and_then (parsePrefix (parse fuel ts) (Suc fuel) ts pos) (\<lambda>(expr, pos).
       parse_loop (Suc fuel) (parse fuel ts) ts precedence expr pos)"

declare parse.simps [simp del] parse_loop.simps [simp del] projection_loop.simps [simp del]

definition parse_fuel :: "Token list \<Rightarrow> nat" where
  "parse_fuel ts = length ts + 1"

text \<open>\<^verbatim>\<open>Parser parser(lexer); parser.parse()\<close> on the tokens of a text.\<close>

definition parse_tokens :: "Token list \<Rightarrow> SqlExpr res" where
  "parse_tokens ts = and_then (parse (parse_fuel ts) ts 0 (- 1)) (\<lambda>(e, _). Inr e)"

definition parse_text :: "TokenType \<Rightarrow> string \<Rightarrow> SqlExpr res" where
  "parse_text junk txt = and_then (populateTokens junk (new_Lexer txt)) parse_tokens"

section \<open>The tokens that are left\<close>

definition at_view :: "Token list \<Rightarrow> int \<Rightarrow> Token list \<Rightarrow> bool" where
  "at_view ts pos s \<longleftrightarrow> - 1 \<le> pos \<and> pos \<le> int (length ts) \<and> drop (nat (pos + 1)) ts = s"

definition npr :: "Token list \<Rightarrow> nat" where
  "npr s = (case s of [] \<Rightarrow> 0 | t # _ \<Rightarrow> type_precedence (tok_type t))"

lemma at_view_start: "at_view ts (- 1) ts"
  by (simp add: at_view_def)

lemma at_view_Cons:
  assumes "at_view ts pos (t # s)"
  shows "nextTokenPos ts pos = (pos + 1, pos + 1)" and "peekTokenPos ts pos = pos + 1" and "pos + 1 \<noteq> - 1"
    and "tok_at ts (pos + 1) = Inr t" and "at_view ts (pos + 1) s" and "nextPrecedence ts pos = Inr (npr (t # s))"
proof -
  from assms have lo: "- 1 \<le> pos" and d: "drop (nat (pos + 1)) ts = t # s" by (simp_all add: at_view_def)
  have lt: "nat (pos + 1) < length ts"
  proof (rule ccontr)
    assume "\<not> nat (pos + 1) < length ts"
    with d show False by simp
  qed
  have nth: "ts ! nat (pos + 1) = t" using d lt by (metis hd_drop_conv_nth list.sel(1))
  have "drop (Suc (nat (pos + 1))) ts = s" using arg_cong [OF d, of tl] by (simp add: drop_Suc tl_drop)
  moreover have "Suc (nat (pos + 1)) = nat (pos + 1 + 1)" using lo by simp
  moreover have "pos + 1 \<le> int (length ts)" using lo lt by linarith
  ultimately show "at_view ts (pos + 1) s" using lo unfolding at_view_def by simp
  show t: "tok_at ts (pos + 1) = Inr t" using lo lt nth by (simp add: tok_at_def)
  show "nextTokenPos ts pos = (pos + 1, pos + 1)" using lt lo by (simp add: nextTokenPos_def)
  show p: "peekTokenPos ts pos = pos + 1" using lt lo by (simp add: peekTokenPos_def)
  show "pos + 1 \<noteq> - 1" using lo by simp
  then show "nextPrecedence ts pos = Inr (npr (t # s))" by (simp add: nextPrecedence_def p t npr_def Let_def)
qed

lemma at_view_Nil:
  assumes "at_view ts pos []"
  shows "tok_at ts (fst (nextTokenPos ts pos)) = Inl StdOutOfRange" and "peekTokenPos ts pos = - 1"
    and "at_view ts (snd (nextTokenPos ts pos)) []" and "nextPrecedence ts pos = Inr (npr [])"
    and "tok_at ts (- 1) = Inl StdOutOfRange"
  using assms by (auto simp: at_view_def tok_at_def nextTokenPos_def peekTokenPos_def nextPrecedence_def npr_def)

lemma nextPrecedence_view: "at_view ts pos s \<Longrightarrow> nextPrecedence ts pos = Inr (npr s)"
  using at_view_Cons(6) at_view_Nil(4) by (cases s) auto

section \<open>The parser ends\<close>

text \<open>A result that is not divergence and, where there is one, leaves at most \<open>k\<close> tokens.\<close>

definition ends_within :: "Token list \<Rightarrow> nat \<Rightarrow> ('a \<times> int) res \<Rightarrow> bool" where
  "ends_within ts k r \<longleftrightarrow>
     r \<noteq> Inl Diverges \<and> (\<forall>e pos. r = Inr (e, pos) \<longrightarrow> (\<exists>s. at_view ts pos s \<and> length s \<le> k))"

lemma ends_withinI: "at_view ts pos s \<Longrightarrow> length s \<le> k \<Longrightarrow> ends_within ts k (Inr (e, pos))"
  by (auto simp: ends_within_def)

lemma ends_within_err [simp]: "ends_within ts k (Inl err) \<longleftrightarrow> err \<noteq> Diverges"
  by (simp add: ends_within_def)

lemma ends_within_bind:
  assumes "ends_within ts k r"
    and "\<And>e pos s. at_view ts pos s \<Longrightarrow> length s \<le> k \<Longrightarrow> ends_within ts j (g e pos)"
  shows "ends_within ts j (and_then r (\<lambda>(e, pos). g e pos))"
  using assms by (cases r) (auto simp: ends_within_def)

lemma ends_within_next:
  assumes "at_view ts pos s"
    and "\<And>t pos' s'. at_view ts pos' s' \<Longrightarrow> s = t # s' \<Longrightarrow> ends_within ts k (g t pos')"
  shows "ends_within ts k (let (r, pos) = nextTokenPos ts pos in and_then (tok_at ts r) (\<lambda>t. g t pos))"
proof (cases s)
  case Nil
  then show ?thesis using at_view_Nil(1) [of ts pos] assms(1) by (simp add: case_prod_beta Let_def)
next
  case (Cons t s')
  then show ?thesis using at_view_Cons [of ts pos t s'] assms by simp
qed

definition good :: "Token list \<Rightarrow> nat \<Rightarrow> parser \<Rightarrow> bool" where
  "good ts n rec \<longleftrightarrow>
     (\<forall>prec pos s. at_view ts pos s \<and> length s < n \<longrightarrow> ends_within ts (length s - 1) (rec prec pos))"

lemma goodD: "good ts n rec \<Longrightarrow> at_view ts pos s \<Longrightarrow> length s < n \<Longrightarrow> ends_within ts (length s - 1) (rec prec pos)"
  by (simp add: good_def)

lemma ends_within_mono: "ends_within ts k r \<Longrightarrow> k \<le> j \<Longrightarrow> ends_within ts j r"
  by (force simp: ends_within_def)

lemma projection_loop_ends:
  "at_view ts pos s \<Longrightarrow> length s < fuel \<Longrightarrow> ends_within ts (length s) (projection_loop fuel ts plist pos)"
proof (induction fuel arbitrary: pos s plist)
  case (Suc fuel)
  show ?case
  proof (cases s)
    case Nil
    then show ?thesis using at_view_Nil(2,5) Suc.prems(1) by (simp add: projection_loop.simps)
  next
    case (Cons t s')
    note v = at_view_Cons [OF Suc.prems(1) [unfolded Cons]]
    have "ends_within ts (length s) (let (r, pos) = nextTokenPos ts (pos + 1)
        in and_then (tok_at ts r) (\<lambda>t. projection_loop fuel ts (plist @ [SqlIdentifier (literal t)]) pos))"
    proof (rule ends_within_next [OF v(5)], goal_cases)
      case (1 t2 p2 s2)
      show ?case
        by (rule ends_within_mono [OF Suc.IH [OF 1(1)]]) (use Suc.prems(2) Cons 1(2) in simp_all)
    qed
    then show ?thesis
      using v(1,2,4) ends_withinI [OF Suc.prems(1), of "length s" plist] by (simp add: projection_loop.simps)
  qed
qed simp

lemma select_ends:
  assumes rec: "good ts n rec" and v: "at_view ts pos s" and n: "length s \<le> n" "length s < fuel"
  shows "ends_within ts (length s) (parseSelectStatement rec fuel ts pos)"
proof -
  have proj: "ends_within ts (length s) (populateProjectionList fuel ts pos)"
  proof (cases s)
    case Nil
    then show ?thesis using at_view_Nil(2,5) v by (simp add: populateProjectionList_def)
  next
    case (Cons t s')
    have "ends_within ts (length s) (let (r, pos) = nextTokenPos ts pos
        in and_then (tok_at ts r) (\<lambda>t. projection_loop fuel ts [SqlIdentifier (literal t)] pos))"
    proof (rule ends_within_next [OF v], goal_cases)
      case (1 t2 p2 s2)
      show ?case
        by (rule ends_within_mono [OF projection_loop_ends [OF 1(1)]]) (use n(2) 1(2) in simp_all)
    qed
    then show ?thesis
      using at_view_Cons(2,4) [OF v [unfolded Cons]] by (simp add: populateProjectionList_def)
  qed
  have where_part: "ends_within ts (length s)
      (if peekTokenPos ts pos' \<noteq> - 1 then
         and_then (tok_at ts (peekTokenPos ts pos')) (\<lambda>t.
           if literal t = ''WHERE'' then
             and_then (rec 0 (snd (nextTokenPos ts pos'))) (\<lambda>(sel, pos). Inr (SqlSelect nm proj (Some sel), pos))
           else Inr (SqlSelect nm proj None, pos'))
       else Inr (SqlSelect nm proj None, pos'))"
    if v': "at_view ts pos' s'" "Suc (length s') \<le> length s" for pos' s' nm proj
  proof (cases s')
    case Nil
    then show ?thesis using at_view_Nil(2) v' by (simp add: ends_withinI)
  next
    case (Cons t s2)
    note w = at_view_Cons [OF v'(1) [unfolded Cons]]
    have "ends_within ts (length s2 - 1) (rec 0 (pos' + 1))" using goodD [OF rec w(5)] v' n Cons by simp
    then have "ends_within ts (length s) (and_then (rec 0 (pos' + 1)) (\<lambda>(sel, pos). Inr (SqlSelect nm proj (Some sel), pos)))"
      using v' Cons by (elim ends_within_bind) (auto intro: ends_withinI)
    then show ?thesis using w v' by (simp add: ends_withinI)
  qed
  have from_part: "ends_within ts (length s)
      (let (r, pos) = nextTokenPos ts pos' in
       and_then (tok_at ts r) (\<lambda>from_tok.
         if literal from_tok \<noteq> ''FROM'' then
           and_then (tok_at ts pos) (\<lambda>t. Inl (RuntimeError (''Invalid SELECT statement near: '' @ literal t)))
         else
           let (r, pos) = nextTokenPos ts pos in
           and_then (tok_at ts r) (\<lambda>name_tok.
             if peekTokenPos ts pos \<noteq> - 1 then
               and_then (tok_at ts (peekTokenPos ts pos)) (\<lambda>t.
                 if literal t = ''WHERE'' then
                   and_then (rec 0 (snd (nextTokenPos ts pos))) (\<lambda>(sel, pos).
                     Inr (SqlSelect (literal name_tok) proj (Some sel), pos))
                 else Inr (SqlSelect (literal name_tok) proj None, pos))
             else Inr (SqlSelect (literal name_tok) proj None, pos))))"
    if v': "at_view ts pos' s'" "length s' \<le> length s" for pos' s' proj
  proof (rule ends_within_next [OF v'(1)], goal_cases)
    case (1 t p2 s2)
    have "ends_within ts (length s) (and_then (tok_at ts p2) (\<lambda>t. Inl (RuntimeError (f t))) :: (SqlExpr \<times> int) res)" for f
      by (simp add: tok_at_def)
    moreover have "ends_within ts (length s) (let (r, pos) = nextTokenPos ts p2 in
           and_then (tok_at ts r) (\<lambda>name_tok.
             if peekTokenPos ts pos \<noteq> - 1 then
               and_then (tok_at ts (peekTokenPos ts pos)) (\<lambda>t.
                 if literal t = ''WHERE'' then
                   and_then (rec 0 (snd (nextTokenPos ts pos))) (\<lambda>(sel, pos).
                     Inr (SqlSelect (literal name_tok) proj (Some sel), pos))
                 else Inr (SqlSelect (literal name_tok) proj None, pos))
             else Inr (SqlSelect (literal name_tok) proj None, pos)))"
      using v'(2) 1(2) by (intro ends_within_next [OF 1(1)] where_part) auto
    ultimately show ?case by simp
  qed
  show ?thesis
  proof (cases "tok_at ts pos")
    case (Inr t)
    show ?thesis unfolding parseSelectStatement_def Inr and_then_simps
      by (rule ends_within_bind [OF proj]) (rule from_part)
  next
    case (Inl e)
    then show ?thesis by (auto simp: parseSelectStatement_def tok_at_def split: if_splits)
  qed
qed

lemma prefix_ends:
  assumes rec: "good ts n rec" and v: "at_view ts pos s" and n: "length s \<le> n" "length s < fuel"
  shows "ends_within ts (length s - 1) (parsePrefix rec fuel ts pos)"
  unfolding parsePrefix_def
proof (rule ends_within_next [OF v], goal_cases)
  case (1 t p2 s2)
  have "ends_within ts (length s - 1) (and_then (rec 0 p2) (\<lambda>(expr, pos). Inr (expr, snd (nextTokenPos ts pos))))"
  proof (rule ends_within_bind [OF goodD [OF rec 1(1)]], goal_cases)
    case (2 e p3 s3)
    have "at_view ts (snd (nextTokenPos ts p3)) (tl s3)"
      using 2(1) at_view_Cons(1,5) at_view_Nil(3) by (cases s3) auto
    then show ?case using 1(2) 2(2) by (intro ends_withinI) auto
  qed (use 1(2) n in simp)
  moreover have "ends_within ts (length s2) (parseSelectStatement rec fuel ts p2)"
    using select_ends [OF rec 1(1)] n 1(2) by simp
  ultimately show ?case using 1 by (auto intro: ends_withinI)
qed

lemma infix_ends:
  assumes rec: "good ts n rec" and v: "at_view ts pos s" and n: "length s \<le> n"
  shows "ends_within ts (length s - 1) (parseInfix rec ts left prec pos)"
proof (cases s)
  case Nil
  then show ?thesis using at_view_Nil(2,5) v by (simp add: parseInfix_def)
next
  case (Cons t s')
  note w = at_view_Cons [OF v [unfolded Cons]]
  have "ends_within ts (length s' - 1) (rec prec (pos + 1))" using goodD [OF rec w(5)] n Cons by simp
  then have "ends_within ts (length s - 1) (and_then (rec prec (pos + 1)) (\<lambda>(right, pos). Inr (SqlBinaryExpr left (literal t) right, pos)))"
    using Cons by (elim ends_within_bind) (auto intro: ends_withinI)
  then show ?thesis using w by (simp add: parseInfix_def)
qed

lemma parse_loop_ends:
  assumes rec: "good ts n rec"
  shows "at_view ts pos s \<Longrightarrow> length s \<le> n \<Longrightarrow> length s < fuel \<Longrightarrow>
    ends_within ts (length s) (parse_loop fuel rec ts prec expr pos)"
proof (induction fuel arbitrary: pos s expr)
  case (Suc fuel)
  have "ends_within ts (length s) (and_then (parseInfix rec ts expr (npr s) pos)
      (\<lambda>(expr, pos). parse_loop fuel rec ts prec expr pos))" if "s \<noteq> []"
  proof (rule ends_within_bind [OF infix_ends [OF rec Suc.prems(1,2)]], goal_cases)
    case (1 e p2 s2)
    show ?case
      by (rule ends_within_mono [OF Suc.IH [OF 1(1)]]) (use 1(2) Suc.prems that in \<open>cases s; simp\<close>)+
  qed
  moreover have "s \<noteq> []" if "prec < npr s" using that by (auto simp: npr_def)
  ultimately show ?case
    using Suc.prems(1) by (simp add: parse_loop.simps nextPrecedence_view [OF Suc.prems(1)] ends_withinI)
qed simp

lemma parse_good: "good ts f (parse f ts)"
proof (induction f)
  case 0
  then show ?case by (simp add: good_def)
next
  case (Suc f)
  show ?case unfolding good_def
  proof (intro allI impI, elim conjE)
    fix prec pos s assume v: "at_view ts pos s" and n: "length s < Suc f"
    have "ends_within ts (length s - 1) (parsePrefix (parse f ts) (Suc f) ts pos)"
      using n by (intro prefix_ends [OF Suc v]) simp_all
    then show "ends_within ts (length s - 1) (parse (Suc f) ts prec pos)"
      unfolding parse.simps
    proof (rule ends_within_bind, goal_cases)
      case (1 e p2 s2)
      then show ?case
        using n by (intro ends_within_mono [OF parse_loop_ends [OF Suc 1(1)]]) simp_all
    qed
  qed
qed

section \<open>Spelling an expression\<close>

definition operators :: "(string \<times> TokenType) list" where
  "operators = [(''+'', PLUS), (''-'', MINUS), (''*'', ASTERISK), (''/'', SLASH), (''='', EQUALS),
                (''<'', LT), (''>'', GT), (''>='', GT_EQ), (''<='', LT_EQ)]"

definition op_tok :: "string \<Rightarrow> Token" where
  "op_tok op = \<lparr>tok_type = the (map_of operators op), literal = op\<rparr>"

definition op_prec :: "string \<Rightarrow> nat" where
  "op_prec op = type_precedence (tok_type (op_tok op))"

definition atom_tok :: "string \<Rightarrow> Token" where
  "atom_tok s = \<lparr>tok_type = (if list_all isDigit s then INT_TOK else IDENTIFIER), literal = s\<rparr>"

text \<open>The tokens of an expression where the context binds with precedence \<open>p\<close>: operators that bind
  tighter stay as they are, others get parentheses. Operators of the same precedence associate to the left.\<close>

fun print_at :: "nat \<Rightarrow> SqlExpr \<Rightarrow> Token list" where
  "print_at p (SqlIdentifier s) = [atom_tok s]"
| "print_at p (SqlBinaryExpr l op r) =
     (let body = print_at (op_prec op - 1) l @ [op_tok op] @ print_at (op_prec op) r
      in if p < op_prec op then body
         else [\<lparr>tok_type = LPAREN, literal = ''(''\<rparr>] @ body @ [\<lparr>tok_type = RPAREN, literal = '')''\<rparr>])"
| "print_at p (SqlSelect _ _ _) = []"

text \<open>Expressions over numbers, names that are not keywords, and the nine operators.\<close>

fun printable :: "SqlExpr \<Rightarrow> bool" where
  "printable (SqlIdentifier s) \<longleftrightarrow>
     s \<noteq> [] \<and> (list_all isDigit s \<or> list_all isLetter s \<and> getStringType s = IDENTIFIER)"
| "printable (SqlBinaryExpr l op r) \<longleftrightarrow> printable l \<and> printable r \<and> op \<in> fst ` set operators"
| "printable (SqlSelect _ _ _) \<longleftrightarrow> False"

lemma op_tok_props:
  assumes "op \<in> fst ` set operators"
  shows "tok_type (op_tok op) \<in> set infix_types" and "0 < op_prec op" and "op_prec op < 4" and "tok_ok (op_tok op)"
  using assms
  by (auto simp: operators_def op_tok_def op_prec_def infix_types_def tok_ok_def punctuation_def)

lemma literal_op_tok [simp]: "literal (op_tok op) = op"
  by (simp add: op_tok_def)

lemma print_at_not_Nil: "printable e \<Longrightarrow> print_at p e \<noteq> []"
  by (cases e) (auto simp: Let_def)

text \<open>What \<open>parse\<close> does with a printed expression in front of other tokens: it reaches its loop with
  the expression read and only the other tokens left.\<close>

definition reads :: "Token list \<Rightarrow> nat \<Rightarrow> nat \<Rightarrow> int \<Rightarrow> SqlExpr \<Rightarrow> Token list \<Rightarrow> bool" where
  "reads ts m f pos e rest \<longleftrightarrow>
     (\<exists>k pos'. length rest < k \<and> at_view ts pos' rest \<and>
        parse (Suc f) ts m pos = parse_loop k (parse f ts) ts m e pos')"

lemma reads_stop:
  assumes "reads ts m f pos e rest" and "npr rest \<le> m"
  shows "\<exists>pos'. parse (Suc f) ts m pos = Inr (e, pos') \<and> at_view ts pos' rest"
proof -
  from assms(1) obtain k pos' where k: "length rest < k" "at_view ts pos' rest"
    "parse (Suc f) ts m pos = parse_loop k (parse f ts) ts m e pos'" by (auto simp: reads_def)
  from k(1) obtain k' where "k = Suc k'" by (cases k) auto
  with k assms(2) show ?thesis by (auto simp: parse_loop.simps nextPrecedence_view)
qed

lemma reads_atom:
  assumes "at_view ts pos (atom_tok s # rest)" and "length rest < f"
  shows "reads ts m f pos (SqlIdentifier s) rest"
proof -
  note v = at_view_Cons [OF assms(1)]
  have "parsePrefix (parse f ts) (Suc f) ts pos = Inr (SqlIdentifier s, pos + 1)"
    using v by (simp add: parsePrefix_def atom_tok_def)
  then show ?thesis using assms(2) v(5) unfolding reads_def parse.simps
    by (intro exI [of _ "Suc f"] exI [of _ "pos + 1"]) simp
qed

lemma reads_infix:
  assumes l: "reads ts m f pos l (op_tok op # mid @ rest)" and op: "op \<in> fst ` set operators" and m: "m < op_prec op"
    and f: "f = Suc g" and r: "\<And>p. at_view ts p (mid @ rest) \<Longrightarrow> reads ts (op_prec op) g p r rest"
    and rest: "npr rest \<le> op_prec op"
  shows "reads ts m f pos (SqlBinaryExpr l op r) rest"
proof -
  from l obtain k p1 where k: "length (op_tok op # mid @ rest) < k" "at_view ts p1 (op_tok op # mid @ rest)"
    "parse (Suc f) ts m pos = parse_loop k (parse f ts) ts m l p1" by (auto simp: reads_def)
  note v = at_view_Cons [OF k(2)]
  from reads_stop [OF r [OF v(5)] rest] obtain p2 where
    p2: "parse f ts (op_prec op) (p1 + 1) = Inr (r, p2)" "at_view ts p2 rest" by (auto simp: f)
  have pr: "npr (op_tok op # mid @ rest) = op_prec op" by (simp add: npr_def op_prec_def)
  have "parseInfix (parse f ts) ts l (op_prec op) p1 = Inr (SqlBinaryExpr l op r, p2)"
    using v p2(1) op_tok_props(1) [OF op] by (simp add: parseInfix_def)
  moreover from k(1) obtain k' where k': "k = Suc k'" by (cases k) auto
  ultimately have "parse_loop k (parse f ts) ts m l p1 = parse_loop k' (parse f ts) ts m (SqlBinaryExpr l op r) p2"
    using m v(6) by (simp add: parse_loop.simps pr)
  moreover have "length rest < k'" using k(1) k' by simp
  ultimately show ?thesis unfolding reads_def using k(3) p2(2) by auto
qed

lemma reads_paren:
  assumes v: "at_view ts pos (\<lparr>tok_type = LPAREN, literal = lp\<rparr> # body @ \<lparr>tok_type = RPAREN, literal = rp\<rparr> # rest)"
    and f: "f = Suc g" "length rest < f"
    and b: "\<And>p. at_view ts p (body @ \<lparr>tok_type = RPAREN, literal = rp\<rparr> # rest) \<Longrightarrow>
        reads ts 0 g p e (\<lparr>tok_type = RPAREN, literal = rp\<rparr> # rest)"
  shows "reads ts m f pos e rest"
proof -
  note w = at_view_Cons [OF v]
  have "npr (\<lparr>tok_type = RPAREN, literal = rp\<rparr> # rest) \<le> 0" by (simp add: npr_def)
  from reads_stop [OF b [OF w(5)] this] obtain p2 where
    p2: "parse f ts 0 (pos + 1) = Inr (e, p2)" "at_view ts p2 (\<lparr>tok_type = RPAREN, literal = rp\<rparr> # rest)" by (auto simp: f(1))
  note x = at_view_Cons [OF p2(2)]
  have "parsePrefix (parse f ts) (Suc f) ts pos = Inr (e, p2 + 1)"
    using w p2(1) x(1) by (simp add: parsePrefix_def)
  then show ?thesis using f(2) x(5) unfolding reads_def parse.simps
    by (intro exI [of _ "Suc f"] exI [of _ "p2 + 1"]) simp
qed

lemma parse_print:
  "printable e \<Longrightarrow> at_view ts pos (print_at p e @ rest) \<Longrightarrow> m \<le> p \<Longrightarrow> npr rest \<le> p + 1 \<Longrightarrow>
     length (print_at p e @ rest) < Suc f \<Longrightarrow> reads ts m f pos e rest"
proof (induction e arbitrary: p m f pos rest)
  case (SqlIdentifier s)
  then show ?case by (intro reads_atom) auto
next
  case (SqlBinaryExpr l op r)
  let ?q = "op_prec op"
  let ?body = "print_at (?q - 1) l @ [op_tok op] @ print_at ?q r"
  from SqlBinaryExpr.prems(1) have pl: "printable l" and pr: "printable r" and op: "op \<in> fst ` set operators" by simp_all
  note q = op_tok_props [OF op]
  have body: "reads ts m f pos (SqlBinaryExpr l op r) rest"
    if v: "at_view ts pos (?body @ rest)" and m: "m < ?q" and rest: "npr rest \<le> ?q"
      and len: "length (?body @ rest) < Suc f" for m f pos rest
  proof -
    from len obtain g where g: "f = Suc g" by (cases f) auto
    have "reads ts m f pos l (op_tok op # print_at ?q r @ rest)"
      using v m q(2) len by (intro SqlBinaryExpr.IH(1) [OF pl, of pos "?q - 1"]) (auto simp: npr_def op_prec_def)
    then show ?thesis
    proof (rule reads_infix [OF _ op m g _ rest])
      fix p assume "at_view ts p (print_at ?q r @ rest)"
      then show "reads ts ?q g p r rest"
        using len rest print_at_not_Nil [OF pl] g by (intro SqlBinaryExpr.IH(2) [OF pr, of p ?q]) auto
    qed
  qed
  show ?case
  proof (cases "p < ?q")
    case True
    then show ?thesis using SqlBinaryExpr.prems by (intro body) simp_all
  next
    case False
    let ?lp = "\<lparr>tok_type = LPAREN, literal = ''(''\<rparr>" and ?rp = "\<lparr>tok_type = RPAREN, literal = '')''\<rparr>"
    have v: "at_view ts pos (?lp # ?body @ ?rp # rest)" using SqlBinaryExpr.prems(2) False by simp
    have len: "length (?lp # ?body @ ?rp # rest) < Suc f" using SqlBinaryExpr.prems(5) False by simp
    from len obtain g where g: "f = Suc g" by (cases f) auto
    show ?thesis
    proof (rule reads_paren [OF v g])
      show "length rest < f" using len by simp
      fix p assume "at_view ts p (?body @ ?rp # rest)"
      then show "reads ts 0 g p (SqlBinaryExpr l op r) (?rp # rest)"
        using q(2) len g by (intro body) (simp_all add: npr_def)
    qed
  qed
qed simp

section \<open>From text to tokens\<close>

lemma populate_loop_lex_all:
  "view lx s \<Longrightarrow> length s < fuel \<Longrightarrow> populate_loop fuel lx tok acc = Inr (acc @ lex_all s tok)"
proof (induction fuel arbitrary: lx s tok acc)
  case (Suc fuel)
  from nextToken_lex1 [OF Suc.prems(1), of tok] obtain lx' where
    n: "nextToken lx tok = Inr (fst (lex1 s tok), lx')"
      "tok_type (fst (lex1 s tok)) \<noteq> END \<longrightarrow> view lx' (snd (lex1 s tok))" by blast
  show ?case
  proof (cases "tok_type (fst (lex1 s tok)) = END")
    case True
    then show ?thesis using n(1) by (simp add: lex_all.simps [of s])
  next
    case False
    with n Suc.IH [of lx' "snd (lex1 s tok)" "fst (lex1 s tok)" "acc @ [fst (lex1 s tok)]"] lex1_shorter [OF False] Suc.prems(2)
    show ?thesis by (simp add: lex_all.simps [of s])
  qed
qed simp

lemma populateTokens_lex_all:
  assumes "length txt < 65534"
  shows "populateTokens junk (new_Lexer txt) = Inr (lex_all txt \<lparr>tok_type = junk, literal = []\<rparr>)"
  using populate_loop_lex_all [OF new_Lexer_view [OF assms], of "text_fuel (new_Lexer txt)"] view_fuel [OF new_Lexer_view [OF assms] refl]
  by (simp add: populateTokens_def)

lemma print_at_toks: "printable e \<Longrightarrow> list_all tok_ok (print_at p e)"
proof (induction e arbitrary: p)
  case (SqlIdentifier s)
  then show ?case by (auto simp: atom_tok_def tok_ok_def)
next
  case (SqlBinaryExpr l op r)
  have "tok_ok \<lparr>tok_type = LPAREN, literal = ''(''\<rparr>" "tok_ok \<lparr>tok_type = RPAREN, literal = '')''\<rparr>"
    by (simp_all add: tok_ok_def punctuation_def)
  with SqlBinaryExpr op_tok_props(4) [of op] show ?case by (simp add: Let_def)
qed simp

lemma parse_tokens_print:
  assumes "printable e"
  shows "parse_tokens (print_at 0 e) = Inr e"
proof -
  let ?ts = "print_at 0 e"
  have "reads ?ts 0 (length ?ts) (- 1) e []"
    using at_view_start [of ?ts] by (intro parse_print [OF assms, of _ _ 0]) (simp_all add: npr_def)
  from reads_stop [OF this] show ?thesis by (auto simp: parse_tokens_def parse_fuel_def npr_def)
qed

section \<open>Select statements\<close>

text \<open>The tokens of \<^verbatim>\<open>SELECT a, b FROM t WHERE e\<close>.\<close>

definition kw :: "string \<Rightarrow> Token" where
  "kw s = \<lparr>tok_type = KEYWORD, literal = s\<rparr>"

definition name_tok :: "string \<Rightarrow> Token" where
  "name_tok s = \<lparr>tok_type = IDENTIFIER, literal = s\<rparr>"

definition comma_names :: "string list \<Rightarrow> Token list" where
  "comma_names ns = concat (map (\<lambda>n. [\<lparr>tok_type = COMMA, literal = '',''\<rparr>, name_tok n]) ns)"

definition print_select :: "string list \<Rightarrow> string \<Rightarrow> SqlExpr \<Rightarrow> Token list" where
  "print_select names table_name e =
     kw ''SELECT'' # name_tok (hd names) # comma_names (tl names) @
     kw ''FROM'' # name_tok table_name # kw ''WHERE'' # print_at 0 e"

lemma projection_loop_names:
  "at_view ts pos (comma_names ns @ t # rest) \<Longrightarrow> tok_type t \<noteq> COMMA \<Longrightarrow> length ns < fuel \<Longrightarrow>
     \<exists>pos'. projection_loop fuel ts plist pos = Inr (plist @ map SqlIdentifier ns, pos') \<and> at_view ts pos' (t # rest)"
proof (induction ns arbitrary: pos fuel plist)
  case Nil
  then have v: "at_view ts pos (t # rest)" by (simp add: comma_names_def)
  from Nil(3) obtain f where "fuel = Suc f" by (cases fuel) auto
  then show ?case using v at_view_Cons(2,4) [OF v] Nil(2) by (simp add: projection_loop.simps)
next
  case (Cons n ns)
  from Cons.prems(3) obtain f where f: "fuel = Suc f" "length ns < f" by (cases fuel) auto
  have v: "at_view ts pos (\<lparr>tok_type = COMMA, literal = '',''\<rparr> # name_tok n # comma_names ns @ t # rest)"
    using Cons.prems(1) by (simp add: comma_names_def)
  note a = at_view_Cons [OF v]
  note b = at_view_Cons [OF a(5)]
  from Cons.IH [OF b(5) Cons.prems(2) f(2), of "plist @ [SqlIdentifier n]"] show ?case
    using a(1,2,4) b(1,4) by (simp add: f(1) projection_loop.simps name_tok_def)
qed

lemma parse_select:
  assumes e: "printable e" and n: "names \<noteq> []"
  shows "parse_tokens (print_select names t e) = Inr (SqlSelect t (map SqlIdentifier names) (Some e))"
proof -
  let ?ts = "print_select names t e"
  let ?tail = "name_tok t # kw ''WHERE'' # print_at 0 e"
  define f where "f = length ?ts - 1"
  have len: "length ?ts = Suc f" by (simp add: f_def print_select_def)
  have c: "length (comma_names ns) = 2 * length ns" for ns by (induction ns) (simp_all add: comma_names_def)
  have v0: "at_view ?ts (- 1) (kw ''SELECT'' # name_tok (hd names) # comma_names (tl names) @ kw ''FROM'' # ?tail)"
    using at_view_start [of ?ts] by (simp add: print_select_def)
  note a0 = at_view_Cons [OF v0, simplified]
  note a1 = at_view_Cons [OF a0(5)]
  have fuel: "length (tl names) < Suc (Suc f)" using len c [of "tl names"] by (simp add: print_select_def)
  have hd_tl: "SqlIdentifier (hd names) # map SqlIdentifier (tl names) = map SqlIdentifier names"
    using n by (cases names) simp_all
  from projection_loop_names [OF a1(5) _ fuel, of "[SqlIdentifier (hd names)]"] obtain p where
    p: "projection_loop (Suc (Suc f)) ?ts [SqlIdentifier (hd names)] 1 = Inr (map SqlIdentifier names, p)"
      "at_view ?ts p (kw ''FROM'' # ?tail)"
    by (auto simp: kw_def hd_tl)
  have proj: "populateProjectionList (Suc (Suc f)) ?ts 0 = Inr (map SqlIdentifier names, p)"
    using a1 p(1) by (simp add: populateProjectionList_def name_tok_def)
  note b0 = at_view_Cons [OF p(2)]
  note b1 = at_view_Cons [OF b0(5)]
  note b2 = at_view_Cons [OF b1(5)]
  have f1: "f = Suc (f - 1)" using len by (simp add: print_select_def)
  have "reads ?ts 0 f (p + 1 + 1 + 1) e []"
    using b2(5) len by (intro parse_print [OF e, of _ _ 0]) (simp_all add: npr_def print_select_def)
  from reads_stop [OF this] obtain p' where
    r: "parse (Suc f) ?ts 0 (p + 1 + 1 + 1) = Inr (e, p')" "at_view ?ts p' []" by (auto simp: npr_def)
  have "parseSelectStatement (parse (Suc f) ?ts) (Suc (Suc f)) ?ts 0 = Inr (SqlSelect t (map SqlIdentifier names) (Some e), p')"
    unfolding parseSelectStatement_def proj using a0(4) b0 b1 b2 r(1) by (simp add: kw_def name_tok_def)
  then have "parsePrefix (parse (Suc f) ?ts) (Suc (Suc f)) ?ts (- 1) = Inr (SqlSelect t (map SqlIdentifier names) (Some e), p')"
    using a0(1,4) by (simp add: parsePrefix_def kw_def)
  then show ?thesis
    using nextPrecedence_view [OF r(2)]
    by (simp add: parse_tokens_def parse_fuel_def len parse.simps parse_loop.simps npr_def)
qed

section \<open>Properties\<close>

text \<open>
  The lexer gives back the tokens of a text: for every list of well-formed tokens, spelling them
  with a space after each and lexing the result yields the list, as long as the text has fewer than
  65534 characters, so that the 16-bit positions do not wrap.
\<close>

lemma lexer_round_trip:
  assumes "list_all tok_ok ts" and "length (spelled ts) < 65534"
  shows "populateTokens junk (new_Lexer (spelled ts)) = Inr ts"
  using populateTokens_lex_all [OF assms(2)] lex_all_spelled [OF assms(1), of "[]"] by simp

text \<open>
  C19. Lexing a text of fewer than 65534 characters is the reference lexer: the loops end and the
  positions, the one-character lookahead and the reused token give exactly its tokens.
\<close>

theorem lexer_refines_reference:
  assumes "length txt < 65534"
  shows "populateTokens junk (new_Lexer txt) = Inr (lex_all txt \<lparr>tok_type = junk, literal = []\<rparr>)"
  using assms by (rule populateTokens_lex_all)

theorem lexer_refines_reference_witness:
  "populateTokens END (new_Lexer ''a>=1'') = Inr (lex_all ''a>=1'' \<lparr>tok_type = END, literal = []\<rparr>)"
  using lexer_refines_reference [of "''a>=1''" END] by simp

text \<open>
  C6. Precedence and associativity: an expression over the nine operators, names and numbers, spelled
  with parentheses only where they are needed, is read back by lexer and parser as the same tree.
\<close>

theorem parse_text_round_trip:
  assumes "printable e" and "length (spelled (print_at 0 e)) < 65534"
  shows "parse_text junk (spelled (print_at 0 e)) = Inr e"
  using populateTokens_lex_all [OF assms(2)] lex_all_spelled [OF print_at_toks [OF assms(1)], of "[]"]
    parse_tokens_print [OF assms(1)]
  by (simp add: parse_text_def)

theorem parse_text_round_trip_witness:
  "parse_text END ''a - ( b - 1 ) * c '' =
     Inr (SqlBinaryExpr (SqlIdentifier ''a'') ''-''
       (SqlBinaryExpr (SqlBinaryExpr (SqlIdentifier ''b'') ''-'' (SqlIdentifier ''1'')) ''*'' (SqlIdentifier ''c'')))"
proof -
  let ?e = "SqlBinaryExpr (SqlIdentifier ''a'') ''-''
       (SqlBinaryExpr (SqlBinaryExpr (SqlIdentifier ''b'') ''-'' (SqlIdentifier ''1'')) ''*'' (SqlIdentifier ''c''))"
  have "printable ?e"
    by (simp add: isLetter_def isDigit_def in_range_def getStringType_def sql_keywords_def operators_def)
  moreover have "spelled (print_at 0 ?e) = ''a - ( b - 1 ) * c ''"
    by (simp add: spelled_def op_prec_def op_tok_def operators_def atom_tok_def)
  ultimately show ?thesis using parse_text_round_trip [of ?e END] by simp
qed

text \<open>
  C21. The parser ends on every token list, with an expression or an exception.
\<close>

theorem parser_ends:
  "parse_tokens ts \<noteq> Inl Diverges"
  using goodD [OF parse_good at_view_start, of ts "parse_fuel ts" 0]
  by (auto simp: parse_tokens_def parse_fuel_def ends_within_def and_then_def split: sum.splits)

text \<open>
  C20. The tokens of a select statement with a projection list that is not empty, a table and a condition over the
  nine operators, names and numbers are read as such.
\<close>

theorem parse_select_statement:
  assumes "printable e" and "names \<noteq> []"
  shows "parse_tokens (print_select names table_name e) = Inr (SqlSelect table_name (map SqlIdentifier names) (Some e))"
  using assms by (rule parse_select)

theorem parse_select_statement_witness:
  "parse_tokens (print_select [''a'', ''b''] ''t'' (SqlIdentifier ''c'')) =
     Inr (SqlSelect ''t'' [SqlIdentifier ''a'', SqlIdentifier ''b''] (Some (SqlIdentifier ''c'')))"
  using parse_select_statement [of "SqlIdentifier ''c''" "[''a'', ''b'']" "''t''"]
  by (simp add: isLetter_def in_range_def getStringType_def sql_keywords_def)

end
