(* ===== verification/Ieee_Double.thy ===== *)
theory Ieee_Double
  imports Somedb_Prelude
begin

text \<open>
  The arithmetic of \<^verbatim>\<open>double\<close> that \<^verbatim>\<open>primitive.cpp\<close> uses, on the bit patterns of IEEE 754 binary64 with
  rounding to nearest even. Every finite double is a whole multiple of \<open>2 ^ -1074\<close>; \<open>d_int\<close> is that
  multiple, so sums are exact integers, products and quotients are fractions of integers, and one
  function rounds them all. Invalid operations give the default NaN of SSE2 and a NaN operand is passed
  on quiet, the left one first.
\<close>

section \<open>Bit patterns\<close>

definition d_sign :: "double \<Rightarrow> bool" where
  "d_sign d = bit d 63"

definition d_mag :: "double \<Rightarrow> nat" where
  "d_mag d = unat (take_bit 63 d)"

definition d_exp :: "double \<Rightarrow> nat" where
  "d_exp d = d_mag d div 2 ^ 52"

definition d_frac :: "double \<Rightarrow> nat" where
  "d_frac d = d_mag d mod 2 ^ 52"

definition inf_mag :: nat where
  "inf_mag = 2047 * 2 ^ 52"

definition is_nan :: "double \<Rightarrow> bool" where
  "is_nan d \<longleftrightarrow> inf_mag < d_mag d"

definition is_inf :: "double \<Rightarrow> bool" where
  "is_inf d \<longleftrightarrow> d_mag d = inf_mag"

definition is_finite :: "double \<Rightarrow> bool" where
  "is_finite d \<longleftrightarrow> d_mag d < inf_mag"

definition mk_double :: "bool \<Rightarrow> nat \<Rightarrow> double" where
  "mk_double s n = of_nat (n + (if s then 2 ^ 63 else 0))"

definition default_nan :: double where
  "default_nan = mk_double True (inf_mag + 2 ^ 51)"

definition quiet :: "double \<Rightarrow> double" where
  "quiet d = d OR 2 ^ 51"

section \<open>Values\<close>

text \<open>The value of a finite double in units of \<open>2 ^ -1074\<close>.\<close>

definition mag_units :: "nat \<Rightarrow> nat" where
  "mag_units n =
     (let e = n div 2 ^ 52; f = n mod 2 ^ 52
      in if e = 0 then f else (2 ^ 52 + f) * 2 ^ (e - 1))"

definition d_int :: "double \<Rightarrow> int" where
  "d_int d = (if d_sign d then - int (mag_units (d_mag d)) else int (mag_units (d_mag d)))"

section \<open>Rounding\<close>

fun bit_length :: "nat \<Rightarrow> nat" where
  "bit_length n = (if n = 0 then 0 else Suc (bit_length (n div 2)))"

declare bit_length.simps [simp del]

text \<open>\<open>n / d\<close> rounded to the nearest whole number, to the even one of two.\<close>

definition round_half_even :: "nat \<Rightarrow> nat \<Rightarrow> nat" where
  "round_half_even n d =
     (let q = n div d; r = n mod d
      in if 2 * r < d \<or> (2 * r = d \<and> even q) then q else Suc q)"

text \<open>The magnitude bits of the double nearest to \<open>n / d\<close> units: with a unit of \<open>2 ^ k\<close> the mantissa has
  53 bits, or fewer when \<open>k = 0\<close>; a mantissa that rounds up to \<open>2 ^ 53\<close> carries into the exponent.\<close>

definition round_mag :: "nat \<Rightarrow> nat \<Rightarrow> nat" where
  "round_mag n d =
     (let q = n div d; k = bit_length q - 53
      in min inf_mag (k * 2 ^ 52 + round_half_even n (d * 2 ^ k)))"

section \<open>Operations\<close>

definition d_neg :: "double \<Rightarrow> double" where
  "d_neg d = mk_double (\<not> d_sign d) (d_mag d)"

definition d_add :: "double \<Rightarrow> double \<Rightarrow> double" where
  "d_add a b =
     (if is_nan a then quiet a else if is_nan b then quiet b
      else if is_inf a then (if is_inf b \<and> d_sign a \<noteq> d_sign b then default_nan else a)
      else if is_inf b then b
      else let s = d_int a + d_int b
           in if s = 0 then mk_double (d_sign a \<and> d_sign b) 0
              else mk_double (s < 0) (round_mag (nat \<bar>s\<bar>) 1))"

text \<open>A NaN on the right of a subtraction keeps its sign.\<close>

definition d_sub :: "double \<Rightarrow> double \<Rightarrow> double" where
  "d_sub a b = (if is_nan a then quiet a else if is_nan b then quiet b else d_add a (d_neg b))"

definition d_mul :: "double \<Rightarrow> double \<Rightarrow> double" where
  "d_mul a b =
     (let s = (d_sign a \<noteq> d_sign b) in
      if is_nan a then quiet a else if is_nan b then quiet b
      else if is_inf a \<or> is_inf b then
        (if d_mag a = 0 \<or> d_mag b = 0 then default_nan else mk_double s inf_mag)
      else mk_double s (round_mag (mag_units (d_mag a) * mag_units (d_mag b)) (2 ^ 1074)))"

definition d_div :: "double \<Rightarrow> double \<Rightarrow> double" where
  "d_div a b =
     (let s = (d_sign a \<noteq> d_sign b) in
      if is_nan a then quiet a else if is_nan b then quiet b
      else if is_inf a then (if is_inf b then default_nan else mk_double s inf_mag)
      else if is_inf b then mk_double s 0
      else if d_mag b = 0 then (if d_mag a = 0 then default_nan else mk_double s inf_mag)
      else mk_double s (round_mag (mag_units (d_mag a) * 2 ^ 1074) (mag_units (d_mag b))))"

text \<open>The comparisons: false when an operand is a NaN, and the zeros are equal. Patterns of a sign are
  ordered as their magnitudes, the infinities included.\<close>

definition d_ord :: "double \<Rightarrow> int" where
  "d_ord d = (if d_sign d then - int (d_mag d) else int (d_mag d))"

definition d_eq :: "double \<Rightarrow> double \<Rightarrow> bool" where
  "d_eq a b \<longleftrightarrow> \<not> is_nan a \<and> \<not> is_nan b \<and> d_ord a = d_ord b"

definition d_less :: "double \<Rightarrow> double \<Rightarrow> bool" where
  "d_less a b \<longleftrightarrow> \<not> is_nan a \<and> \<not> is_nan b \<and> d_ord a < d_ord b"

text \<open>\<^verbatim>\<open>std::to_string(double)\<close>, that is \<^verbatim>\<open>"%f"\<close>: six digits after the point, rounded to nearest even.\<close>

definition pad6 :: "string \<Rightarrow> string" where
  "pad6 s = replicate (6 - length s) (CHR ''0'') @ s"

definition d_to_string :: "double \<Rightarrow> string" where
  "d_to_string d =
     (let sgn = (if d_sign d then ''-'' else [])
      in if is_nan d then sgn @ ''nan''
         else if is_inf d then sgn @ ''inf''
         else let q = round_half_even (mag_units (d_mag d) * 10 ^ 6) (2 ^ 1074)
              in sgn @ dec (q div 10 ^ 6) @ ''.'' @ pad6 (dec (q mod 10 ^ 6)))"

section \<open>Bits and magnitudes\<close>

lemma d_mag_mod: "d_mag d = unat d mod 2 ^ 63"
  unfolding d_mag_def unsigned_take_bit_eq by (rule take_bit_eq_mod)

lemma d_mag_less: "d_mag d < 2 ^ 63"
  by (simp add: d_mag_mod)

lemma unat_less_64: "unat (d :: double) < 2 ^ 64"
  using unsigned_less [of d, where 'a = nat] by simp

lemma d_sign_iff: "d_sign d \<longleftrightarrow> 2 ^ 63 \<le> unat d"
proof -
  have "d_sign d \<longleftrightarrow> bit (unat d) 63" by (simp add: d_sign_def bit_unsigned_iff)
  also have "\<dots> \<longleftrightarrow> odd (unat d div 2 ^ 63)" by (rule bit_iff_odd)
  also have "\<dots> \<longleftrightarrow> 2 ^ 63 \<le> unat d"
  proof (cases "2 ^ 63 \<le> unat d")
    case True
    then have "unat d div 2 ^ 63 = 1" using unat_less_64 [of d] by (intro div_nat_eqI) simp_all
    with True show ?thesis by simp
  qed simp
  finally show ?thesis .
qed

lemma unat_split: "unat d = d_mag d + (if d_sign d then 2 ^ 63 else 0)"
proof (cases "2 ^ 63 \<le> unat d")
  case True
  then have "unat d mod 2 ^ 63 = unat d - 2 ^ 63"
    using unat_less_64 [of d] by (simp add: le_mod_geq)
  with True show ?thesis by (simp add: d_mag_mod d_sign_iff)
qed (simp add: d_mag_mod d_sign_iff)

lemma mk_double_parts: "mk_double (d_sign d) (d_mag d) = d"
  unfolding mk_double_def unat_split [symmetric] by simp

lemma mk_double_mag:
  assumes "n < 2 ^ 63"
  shows "d_mag (mk_double s n) = n" and "d_sign (mk_double s n) = s"
proof -
  have u: "unat (mk_double s n) = n + (if s then 2 ^ 63 else 0)"
    using assms by (intro of_nat_inverse) (simp_all add: mk_double_def)
  show "d_mag (mk_double s n) = n" using assms by (simp add: d_mag_mod u)
  show "d_sign (mk_double s n) = s" using assms by (simp add: d_sign_iff u)
qed

section \<open>Rounding is exact on doubles\<close>

lemma bit_length_mult: "0 < m \<Longrightarrow> bit_length (m * 2 ^ k) = bit_length m + k"
proof (induction k)
  case (Suc k)
  then have "bit_length (m * 2 ^ Suc k) = Suc (bit_length (m * 2 ^ k))"
    by (subst bit_length.simps) (simp add: mult.left_commute)
  with Suc show ?case by simp
qed simp

lemma bit_length_bounds: "2 ^ k \<le> n \<Longrightarrow> n < 2 ^ Suc k \<Longrightarrow> bit_length n = Suc k"
proof (induction k arbitrary: n)
  case 0
  then have "n = 1" by simp
  then show ?case by (simp add: bit_length.simps)
next
  case (Suc k)
  then have "bit_length (n div 2) = Suc k" by (intro Suc.IH) auto
  with Suc.prems show ?case by (subst bit_length.simps) auto
qed

lemma bit_length_less: "n < 2 ^ k \<Longrightarrow> bit_length n \<le> k"
proof (induction k arbitrary: n)
  case 0
  then show ?case by (simp add: bit_length.simps)
next
  case (Suc k)
  then have "bit_length (n div 2) \<le> k" by (intro Suc.IH) auto
  then show ?case by (subst bit_length.simps) auto
qed

lemma round_half_even_exact: "0 < d \<Longrightarrow> round_half_even (m * d) d = m"
  by (simp add: round_half_even_def)

lemma round_mag_exact:
  assumes "n < inf_mag"
  shows "round_mag (mag_units n) 1 = n"
proof (cases "n div 2 ^ 52 = 0")
  case True
  then have n: "n < 2 ^ 52" by (simp add: div_eq_0_iff)
  then have "bit_length n \<le> 52" by (rule bit_length_less)
  with n assms show ?thesis
    using round_half_even_exact [of 1 n] by (simp add: round_mag_def mag_units_def Let_def)
next
  case False
  define e f where "e = n div 2 ^ 52" and "f = n mod 2 ^ 52"
  have "e * 2 ^ 52 + f = n" unfolding e_def f_def by (rule div_mult_mod_eq)
  moreover have "0 < e" using False by (simp add: e_def)
  then have "e * 2 ^ 52 = (e - 1) * 2 ^ 52 + 2 ^ 52" by (cases e) simp_all
  ultimately have n: "n = (e - 1) * 2 ^ 52 + (2 ^ 52 + f)" by simp
  have f: "f < 2 ^ 52" by (simp add: f_def)
  then have "bit_length (2 ^ 52 + f) = 53" by (intro bit_length_bounds [of 52, simplified]) simp_all
  then have len: "bit_length ((2 ^ 52 + f) * 2 ^ (e - 1)) = 53 + (e - 1)" by (subst bit_length_mult) simp_all
  have "mag_units n = (2 ^ 52 + f) * 2 ^ (e - 1)" using False by (simp add: mag_units_def e_def f_def Let_def)
  then have "round_mag (mag_units n) 1 = min inf_mag ((e - 1) * 2 ^ 52 + (2 ^ 52 + f))"
    using len round_half_even_exact [of "2 ^ (e - 1)" "2 ^ 52 + f"] by (simp add: round_mag_def Let_def)
  with assms n show ?thesis by simp
qed

text \<open>A sum that is a double is computed exactly.\<close>

lemma finite_cases: "is_finite d \<Longrightarrow> \<not> is_nan d \<and> \<not> is_inf d"
  by (simp add: is_finite_def is_nan_def is_inf_def)

lemma d_add_exact:
  assumes "is_finite a" and "is_finite b" and "is_finite c" and "d_int a + d_int b = d_int c" and "d_int c \<noteq> 0"
  shows "d_add a b = c"
proof -
  have s: "d_int c < 0 \<longleftrightarrow> d_sign c" and m: "nat \<bar>d_int c\<bar> = mag_units (d_mag c)"
    using assms(5) by (auto simp: d_int_def)
  have "d_add a b = mk_double (d_sign c) (d_mag c)"
    using assms finite_cases round_mag_exact [of "d_mag c"]
    by (simp add: d_add_def s m is_finite_def)
  then show ?thesis by (simp add: mk_double_parts)
qed

lemma d_add_commute:
  assumes "\<not> is_nan a" and "\<not> is_nan b"
  shows "d_add a b = d_add b a"
proof (cases "is_inf a \<and> is_inf b \<and> d_sign a = d_sign b")
  case True
  then have "a = b" using mk_double_parts [of a] mk_double_parts [of b] by (simp add: is_inf_def)
  then show ?thesis by simp
next
  case False
  with assms show ?thesis by (auto simp: d_add_def Let_def add.commute conj_commute)
qed

text \<open>Rounding to a whole number picks a nearest one.\<close>

lemma round_half_even_nearest:
  assumes "0 < d"
  shows "\<bar>int (round_half_even n d) * int d - int n\<bar> \<le> \<bar>k * int d - int n\<bar>"
proof -
  define q r where "q = n div d" and "r = n mod d"
  have n: "int n = int q * int d + int r" using mult_div_mod_eq [of d n]
    by (metis q_def r_def mult.commute of_nat_add of_nat_mult)
  have r: "r < d" using assms by (simp add: r_def)
  have lower: "int r \<le> \<bar>k * int d - int n\<bar> \<or> int d - int r \<le> \<bar>k * int d - int n\<bar>"
  proof -
    have e: "k * int d - int n = (k - int q) * int d - int r" by (simp add: n algebra_simps)
    show ?thesis
    proof (cases "k \<le> int q")
      case True
      then have "(k - int q) * int d \<le> 0" by (simp add: mult_le_0_iff)
      then show ?thesis unfolding e by linarith
    next
      case False
      then have "1 * int d \<le> (k - int q) * int d" by (intro mult_right_mono) simp_all
      then show ?thesis unfolding e by linarith
    qed
  qed
  show ?thesis
  proof (cases "2 * r < d \<or> (2 * r = d \<and> even q)")
    case True
    then have "round_half_even n d = q" by (simp add: round_half_even_def q_def r_def Let_def)
    then have "int (round_half_even n d) * int d - int n = - int r" by (simp add: n)
    with True lower r show ?thesis by linarith
  next
    case False
    then have "round_half_even n d = Suc q" by (auto simp: round_half_even_def q_def r_def Let_def)
    then have "int (round_half_even n d) * int d - int n = int d - int r" by (simp add: n algebra_simps)
    with False lower r show ?thesis by linarith
  qed
qed

section \<open>Order\<close>

lemma d_less_linear:
  assumes "\<not> is_nan a" and "\<not> is_nan b"
  shows "d_less a b \<or> d_eq a b \<or> d_less b a"
  using assms by (auto simp: d_less_def d_eq_def)

lemma d_less_trans: "d_less a b \<Longrightarrow> d_less b c \<Longrightarrow> d_less a c"
  by (simp add: d_less_def)

lemma d_less_not_sym: "d_less a b \<Longrightarrow> \<not> d_less b a \<and> \<not> d_eq a b"
  by (simp add: d_less_def d_eq_def)

text \<open>On finite doubles the order is the one of the values.\<close>

lemma mag_units_at: "f < 2 ^ 52 \<Longrightarrow> mag_units (e * 2 ^ 52 + f) = (if e = 0 then f else (2 ^ 52 + f) * 2 ^ (e - 1))"
  unfolding mag_units_def Let_def by (subst div_mult_self3, simp)+ (simp add: mod_mult_self3)

lemma mag_units_mono_step: "mag_units n < mag_units (Suc n)"
proof -
  define e f where "e = n div 2 ^ 52" and "f = n mod 2 ^ 52"
  have n: "n = e * 2 ^ 52 + f" unfolding e_def f_def by (rule div_mult_mod_eq [symmetric])
  have f: "f < 2 ^ 52" by (simp add: f_def)
  show ?thesis
  proof (cases "Suc f < 2 ^ 52")
    case True
    have "Suc n = e * 2 ^ 52 + Suc f" using n by simp
    with n show ?thesis using mag_units_at [OF f, of e] mag_units_at [OF True, of e] by simp
  next
    case False
    with f have f': "Suc f = 2 ^ 52" by simp
    then have "Suc n = Suc e * 2 ^ 52 + 0" using n by simp
    then have "mag_units (Suc n) = 2 ^ 52 * 2 ^ e" using mag_units_at [of 0 "Suc e"] by simp
    moreover have "mag_units n < 2 ^ 52 * 2 ^ e"
    proof (cases e)
      case 0
      then show ?thesis using mag_units_at [OF f, of e] n f by simp
    next
      case (Suc j)
      have "(2 ^ 52 + f) * 2 ^ j < (2 ^ 52 + 2 ^ 52) * 2 ^ j" using f by (intro mult_strict_right_mono) simp_all
      then show ?thesis using mag_units_at [OF f, of e] n Suc by simp
    qed
    ultimately show ?thesis by simp
  qed
qed

lemma mag_units_strict: "mag_units m < mag_units n \<longleftrightarrow> m < n"
  using strict_mono_less [of mag_units] mag_units_mono_step by (simp add: strict_mono_Suc_iff)

lemma mag_units_zero: "mag_units 0 = 0"
  by (simp add: mag_units_def)

lemma d_int_less_iff: "d_int a < d_int b \<longleftrightarrow> d_ord a < d_ord b"
proof -
  have pos: "mag_units n = 0 \<longleftrightarrow> n = 0" for n using mag_units_strict [of 0 n] by (auto simp: mag_units_zero)
  show ?thesis
    using mag_units_strict [of "d_mag a" "d_mag b"] mag_units_strict [of "d_mag b" "d_mag a"]
      pos [of "d_mag a"] pos [of "d_mag b"]
    by (auto simp: d_int_def d_ord_def)
qed

end
