(* ===== verification/Primitive.thy ===== *)
theory Primitive
  imports Ieee_Double Serialize C_Memory "HOL-Library.Signed_Division"
begin

text \<open>
  \<^verbatim>\<open>src/sql/primitive.cpp\<close> and \<^verbatim>\<open>primitive.hpp\<close>: the primitive types of SQL and their values. The virtual
  functions of a class are definitions with the class name in front, and the function without it is the
  call through a \<^verbatim>\<open>PrimitiveType\<close> reference. A value is the union of \<^verbatim>\<open>heapfile.h\<close> with the member that
  was written last as its constructor; reading another member is an error, and the string member is the
  pointer it is in the source. Signed overflow is undefined, an error of the model.
\<close>

section \<open>Types and values\<close>

datatype CmpState = SQL_TRUE | SQL_FALSE

datatype PrimitiveType =
    BooleanPrimitiveType | VarcharPrimitiveType | IntegerPrimitiveType | DecimalPrimitiveType

datatype PValue = Boolean u8 | Integer i32 | Decimal double | String addr

record PrimitiveValue =
  pv_type :: PrimitiveType
  pv_value :: PValue
  pv_length :: "u16 option" \<comment> \<open>\<open>None\<close>: never initialised\<close>

text \<open>The constructors of \<^verbatim>\<open>PrimitiveValue\<close>.\<close>

definition PrimitiveValue_bool :: "PrimitiveType \<Rightarrow> bool \<Rightarrow> PrimitiveValue" where
  "PrimitiveValue_bool t b = \<lparr>pv_type = t, pv_value = Boolean (if b then 1 else 0), pv_length = None\<rparr>"

definition PrimitiveValue_int :: "PrimitiveType \<Rightarrow> i32 \<Rightarrow> PrimitiveValue" where
  "PrimitiveValue_int t i = \<lparr>pv_type = t, pv_value = Integer i, pv_length = None\<rparr>"

definition PrimitiveValue_double :: "PrimitiveType \<Rightarrow> double \<Rightarrow> PrimitiveValue" where
  "PrimitiveValue_double t d = \<lparr>pv_type = t, pv_value = Decimal d, pv_length = None\<rparr>"

definition PrimitiveValue_str :: "PrimitiveType \<Rightarrow> addr \<Rightarrow> u16 \<Rightarrow> PrimitiveValue" where
  "PrimitiveValue_str t val vc = \<lparr>pv_type = t, pv_value = String val, pv_length = Some vc\<rparr>"

text \<open>Reading a member of the union.\<close>

fun boolean :: "PValue \<Rightarrow> u8 res" where
  "boolean (Boolean b) = Inr b"
| "boolean _ = Inl BadUnionRead"

fun integer :: "PValue \<Rightarrow> i32 res" where
  "integer (Integer i) = Inr i"
| "integer _ = Inl BadUnionRead"

fun decimal :: "PValue \<Rightarrow> double res" where
  "decimal (Decimal d) = Inr d"
| "decimal _ = Inl BadUnionRead"

fun str_ptr :: "PValue \<Rightarrow> addr res" where
  "str_ptr (String a) = Inr a"
| "str_ptr _ = Inl BadUnionRead"

definition cmp_state :: "bool \<Rightarrow> CmpState" where
  "cmp_state b = (if b then SQL_TRUE else SQL_FALSE)"

definition on_members :: "(PValue \<Rightarrow> 'a res) \<Rightarrow> PrimitiveValue \<Rightarrow> PrimitiveValue \<Rightarrow> ('a \<Rightarrow> 'a \<Rightarrow> 'b res) \<Rightarrow> 'b res" where
  "on_members member l r f =
     and_then (member (pv_value l)) (\<lambda>x. and_then (member (pv_value r)) (\<lambda>y. f x y))"

section \<open>The base class\<close>

text \<open>\<^verbatim>\<open>typeid(this)\<close> is the static type of the pointer, whatever the object; \<^verbatim>\<open>typeid(*this)\<close> is the type of
  the object. The names are the ones of the Itanium C++ ABI.\<close>

definition type_toString :: "PrimitiveType \<Rightarrow> string" where
  "type_toString this = ''PKN6somedb13PrimitiveTypeE''"

fun class_name :: "PrimitiveType \<Rightarrow> string" where
  "class_name BooleanPrimitiveType = ''N6somedb20BooleanPrimitiveTypeE''"
| "class_name VarcharPrimitiveType = ''N6somedb20VarcharPrimitiveTypeE''"
| "class_name IntegerPrimitiveType = ''N6somedb20IntegerPrimitiveTypeE''"
| "class_name DecimalPrimitiveType = ''N6somedb20DecimalPrimitiveTypeE''"

definition assertTypesEqual :: "PrimitiveType \<Rightarrow> PrimitiveValue \<Rightarrow> PrimitiveValue \<Rightarrow> unit res" where
  "assertTypesEqual this l r = guard AssertFail (type_toString (pv_type l) = type_toString this)"

definition Primitive_add :: "PrimitiveType \<Rightarrow> PrimitiveValue \<Rightarrow> PrimitiveValue \<Rightarrow> PrimitiveValue res" where
  "Primitive_add this l r = Inl (RuntimeError (''Add function doesn't exist for type '' @ class_name this))"

definition Primitive_subtract :: "PrimitiveType \<Rightarrow> PrimitiveValue \<Rightarrow> PrimitiveValue \<Rightarrow> PrimitiveValue res" where
  "Primitive_subtract this l r = Inl (RuntimeError (''Subtract function doesn't exist for type '' @ class_name this))"

definition Primitive_multiply :: "PrimitiveType \<Rightarrow> PrimitiveValue \<Rightarrow> PrimitiveValue \<Rightarrow> PrimitiveValue res" where
  "Primitive_multiply this l r = Inl (RuntimeError (''Multiply function doesn't exist for type '' @ class_name this))"

definition Primitive_divide :: "PrimitiveType \<Rightarrow> PrimitiveValue \<Rightarrow> PrimitiveValue \<Rightarrow> PrimitiveValue res" where
  "Primitive_divide this l r = Inl (RuntimeError (''Divide function doesn't exist for type '' @ class_name this))"

section \<open>Boolean\<close>

definition Boolean_getSize :: nat where
  "Boolean_getSize = 1"

definition Boolean_deserialize :: "bytes \<Rightarrow> PrimitiveValue res" where
  "Boolean_deserialize buf = and_then (byte_at 0 buf) (\<lambda>b. Inr (PrimitiveValue_bool BooleanPrimitiveType (b \<noteq> 0)))"

definition Boolean_equals :: "PrimitiveValue \<Rightarrow> PrimitiveValue \<Rightarrow> CmpState res" where
  "Boolean_equals l r =
     and_then (assertTypesEqual BooleanPrimitiveType l r) (\<lambda>_.
       on_members boolean l r (\<lambda>x y. Inr (cmp_state (x = y))))"

definition Boolean_notEquals :: "PrimitiveValue \<Rightarrow> PrimitiveValue \<Rightarrow> CmpState res" where
  "Boolean_notEquals l r =
     and_then (assertTypesEqual BooleanPrimitiveType l r) (\<lambda>_.
       on_members boolean l r (\<lambda>x y. Inr (cmp_state (x \<noteq> y))))"

text \<open>\<^verbatim>\<open>&&\<close> reads the right value only when the left one is \<^verbatim>\<open>true\<close>.\<close>

definition Boolean_greaterThan :: "PrimitiveValue \<Rightarrow> PrimitiveValue \<Rightarrow> CmpState res" where
  "Boolean_greaterThan l r =
     and_then (assertTypesEqual BooleanPrimitiveType l r) (\<lambda>_.
     and_then (boolean (pv_value l)) (\<lambda>x.
       if x = 1 then and_then (boolean (pv_value r)) (\<lambda>y. Inr (cmp_state (y = 0)))
       else Inr SQL_FALSE))"

definition Boolean_lessThan :: "PrimitiveValue \<Rightarrow> PrimitiveValue \<Rightarrow> CmpState res" where
  "Boolean_lessThan l r =
     and_then (assertTypesEqual BooleanPrimitiveType l r) (\<lambda>_.
     and_then (boolean (pv_value l)) (\<lambda>x.
       if x = 0 then and_then (boolean (pv_value r)) (\<lambda>y. Inr (cmp_state (y = 1)))
       else Inr SQL_FALSE))"

section \<open>Varchar\<close>

definition Varchar_getSize :: nat where
  "Varchar_getSize = 1024"

text \<open>\<^verbatim>\<open>PrimitiveValue(type, col_val.data())\<close> has two arguments: of the constructors that take two the one for
  \<^verbatim>\<open>bool\<close> accepts a pointer, which is not null. The string is copied and dropped.\<close>

definition Varchar_deserialize :: "bytes \<Rightarrow> PrimitiveValue res" where
  "Varchar_deserialize buf = and_then (load 0 1024 buf) (\<lambda>col_val. Inr (PrimitiveValue_bool VarcharPrimitiveType True))"

text \<open>The comparisons are comparisons of pointers. \<^verbatim>\<open>==\<close> and \<^verbatim>\<open>!=\<close> tell whether the pointers are the same. For
  pointers into different strings C++ leaves the results of \<^verbatim>\<open>>\<close> and \<^verbatim>\<open><\<close> unspecified: what the
  implementation answers is a parameter of the two functions and of the virtual calls.\<close>

type_synonym ptr_rel = "addr \<Rightarrow> addr \<Rightarrow> bool"

definition Varchar_equals :: "PrimitiveValue \<Rightarrow> PrimitiveValue \<Rightarrow> CmpState res" where
  "Varchar_equals l r =
     and_then (assertTypesEqual VarcharPrimitiveType l r) (\<lambda>_.
       on_members str_ptr l r (\<lambda>x y. Inr (cmp_state (x = y))))"

definition Varchar_notEquals :: "PrimitiveValue \<Rightarrow> PrimitiveValue \<Rightarrow> CmpState res" where
  "Varchar_notEquals l r =
     and_then (assertTypesEqual VarcharPrimitiveType l r) (\<lambda>_.
       on_members str_ptr l r (\<lambda>x y. Inr (cmp_state (x \<noteq> y))))"

definition Varchar_greaterThan :: "ptr_rel \<Rightarrow> PrimitiveValue \<Rightarrow> PrimitiveValue \<Rightarrow> CmpState res" where
  "Varchar_greaterThan ptr_gt l r =
     and_then (assertTypesEqual VarcharPrimitiveType l r) (\<lambda>_.
       on_members str_ptr l r (\<lambda>x y. Inr (cmp_state (ptr_gt x y))))"

definition Varchar_lessThan :: "ptr_rel \<Rightarrow> PrimitiveValue \<Rightarrow> PrimitiveValue \<Rightarrow> CmpState res" where
  "Varchar_lessThan ptr_lt l r =
     and_then (assertTypesEqual VarcharPrimitiveType l r) (\<lambda>_.
       on_members str_ptr l r (\<lambda>x y. Inr (cmp_state (ptr_lt x y))))"

section \<open>Integer\<close>

definition Integer_getSize :: nat where
  "Integer_getSize = 4"

definition Integer_deserialize :: "bytes \<Rightarrow> PrimitiveValue res" where
  "Integer_deserialize buf = and_then (decode_int32 buf) (\<lambda>i. Inr (PrimitiveValue_int IntegerPrimitiveType i))"

definition Integer_equals :: "PrimitiveValue \<Rightarrow> PrimitiveValue \<Rightarrow> CmpState res" where
  "Integer_equals l r =
     and_then (assertTypesEqual IntegerPrimitiveType l r) (\<lambda>_.
       on_members integer l r (\<lambda>x y. Inr (cmp_state (x = y))))"

definition Integer_notEquals :: "PrimitiveValue \<Rightarrow> PrimitiveValue \<Rightarrow> CmpState res" where
  "Integer_notEquals l r =
     and_then (assertTypesEqual IntegerPrimitiveType l r) (\<lambda>_.
       on_members integer l r (\<lambda>x y. Inr (cmp_state (x \<noteq> y))))"

definition Integer_greaterThan :: "PrimitiveValue \<Rightarrow> PrimitiveValue \<Rightarrow> CmpState res" where
  "Integer_greaterThan l r =
     and_then (assertTypesEqual IntegerPrimitiveType l r) (\<lambda>_.
       on_members integer l r (\<lambda>x y. Inr (cmp_state (sint x > sint y))))"

definition Integer_lessThan :: "PrimitiveValue \<Rightarrow> PrimitiveValue \<Rightarrow> CmpState res" where
  "Integer_lessThan l r =
     and_then (assertTypesEqual IntegerPrimitiveType l r) (\<lambda>_.
       on_members integer l r (\<lambda>x y. Inr (cmp_state (sint x < sint y))))"

text \<open>The result of an \<^verbatim>\<open>int\<close> operation: undefined when it does not fit.\<close>

definition int_result :: "int \<Rightarrow> PrimitiveValue res" where
  "int_result i =
     (if - (2 ^ 31) \<le> i \<and> i < 2 ^ 31 then Inr (PrimitiveValue_int IntegerPrimitiveType (word_of_int i))
      else Inl IntOverflow)"

definition Integer_add :: "PrimitiveValue \<Rightarrow> PrimitiveValue \<Rightarrow> PrimitiveValue res" where
  "Integer_add l r =
     and_then (assertTypesEqual IntegerPrimitiveType l r) (\<lambda>_.
       on_members integer l r (\<lambda>x y. int_result (sint x + sint y)))"

definition Integer_subtract :: "PrimitiveValue \<Rightarrow> PrimitiveValue \<Rightarrow> PrimitiveValue res" where
  "Integer_subtract l r =
     and_then (assertTypesEqual IntegerPrimitiveType l r) (\<lambda>_.
       on_members integer l r (\<lambda>x y. int_result (sint x - sint y)))"

definition Integer_multiply :: "PrimitiveValue \<Rightarrow> PrimitiveValue \<Rightarrow> PrimitiveValue res" where
  "Integer_multiply l r =
     and_then (assertTypesEqual IntegerPrimitiveType l r) (\<lambda>_.
       on_members integer l r (\<lambda>x y. int_result (sint x * sint y)))"

definition Integer_divide :: "PrimitiveValue \<Rightarrow> PrimitiveValue \<Rightarrow> PrimitiveValue res" where
  "Integer_divide l r =
     and_then (assertTypesEqual IntegerPrimitiveType l r) (\<lambda>_.
     and_then (integer (pv_value r)) (\<lambda>y.
     and_then (integer (pv_value l)) (\<lambda>x.
       if y = 0 then
         Inl (RuntimeError (''An integer value ('' @ int_dec (sint x) @ '') may not be divided by zero''))
       else int_result (sint x sdiv sint y))))"

section \<open>Decimal\<close>

definition Decimal_getSize :: nat where
  "Decimal_getSize = 8"

definition Decimal_deserialize :: "bytes \<Rightarrow> PrimitiveValue res" where
  "Decimal_deserialize buf = and_then (decode_double buf) (\<lambda>d. Inr (PrimitiveValue_double DecimalPrimitiveType d))"

definition Decimal_equals :: "PrimitiveValue \<Rightarrow> PrimitiveValue \<Rightarrow> CmpState res" where
  "Decimal_equals l r =
     and_then (assertTypesEqual DecimalPrimitiveType l r) (\<lambda>_.
       on_members decimal l r (\<lambda>x y. Inr (cmp_state (d_eq x y))))"

definition Decimal_notEquals :: "PrimitiveValue \<Rightarrow> PrimitiveValue \<Rightarrow> CmpState res" where
  "Decimal_notEquals l r =
     and_then (assertTypesEqual DecimalPrimitiveType l r) (\<lambda>_.
       on_members decimal l r (\<lambda>x y. Inr (cmp_state (\<not> d_eq x y))))"

definition Decimal_greaterThan :: "PrimitiveValue \<Rightarrow> PrimitiveValue \<Rightarrow> CmpState res" where
  "Decimal_greaterThan l r =
     and_then (assertTypesEqual DecimalPrimitiveType l r) (\<lambda>_.
       on_members decimal l r (\<lambda>x y. Inr (cmp_state (d_less y x))))"

definition Decimal_lessThan :: "PrimitiveValue \<Rightarrow> PrimitiveValue \<Rightarrow> CmpState res" where
  "Decimal_lessThan l r =
     and_then (assertTypesEqual DecimalPrimitiveType l r) (\<lambda>_.
       on_members decimal l r (\<lambda>x y. Inr (cmp_state (d_less x y))))"

definition Decimal_add :: "PrimitiveValue \<Rightarrow> PrimitiveValue \<Rightarrow> PrimitiveValue res" where
  "Decimal_add l r =
     and_then (assertTypesEqual DecimalPrimitiveType l r) (\<lambda>_.
       on_members decimal l r (\<lambda>x y. Inr (PrimitiveValue_double DecimalPrimitiveType (d_add x y))))"

definition Decimal_subtract :: "PrimitiveValue \<Rightarrow> PrimitiveValue \<Rightarrow> PrimitiveValue res" where
  "Decimal_subtract l r =
     and_then (assertTypesEqual DecimalPrimitiveType l r) (\<lambda>_.
       on_members decimal l r (\<lambda>x y. Inr (PrimitiveValue_double DecimalPrimitiveType (d_sub x y))))"

definition Decimal_multiply :: "PrimitiveValue \<Rightarrow> PrimitiveValue \<Rightarrow> PrimitiveValue res" where
  "Decimal_multiply l r =
     and_then (assertTypesEqual DecimalPrimitiveType l r) (\<lambda>_.
       on_members decimal l r (\<lambda>x y. Inr (PrimitiveValue_double DecimalPrimitiveType (d_mul x y))))"

definition Decimal_divide :: "PrimitiveValue \<Rightarrow> PrimitiveValue \<Rightarrow> PrimitiveValue res" where
  "Decimal_divide l r =
     and_then (assertTypesEqual DecimalPrimitiveType l r) (\<lambda>_.
     and_then (decimal (pv_value r)) (\<lambda>y.
     and_then (decimal (pv_value l)) (\<lambda>x.
       if d_eq y 0 then
         Inl (RuntimeError (''A decimal value ('' @ d_to_string x @ '') may not be divided by zero''))
       else Inr (PrimitiveValue_double DecimalPrimitiveType (d_div x y)))))"

section \<open>Virtual calls\<close>

fun getSize :: "PrimitiveType \<Rightarrow> nat" where
  "getSize BooleanPrimitiveType = Boolean_getSize"
| "getSize VarcharPrimitiveType = Varchar_getSize"
| "getSize IntegerPrimitiveType = Integer_getSize"
| "getSize DecimalPrimitiveType = Decimal_getSize"

fun type_deserialize :: "PrimitiveType \<Rightarrow> bytes \<Rightarrow> PrimitiveValue res" where
  "type_deserialize BooleanPrimitiveType = Boolean_deserialize"
| "type_deserialize VarcharPrimitiveType = Varchar_deserialize"
| "type_deserialize IntegerPrimitiveType = Integer_deserialize"
| "type_deserialize DecimalPrimitiveType = Decimal_deserialize"

fun equals :: "PrimitiveType \<Rightarrow> PrimitiveValue \<Rightarrow> PrimitiveValue \<Rightarrow> CmpState res" where
  "equals BooleanPrimitiveType = Boolean_equals"
| "equals VarcharPrimitiveType = Varchar_equals"
| "equals IntegerPrimitiveType = Integer_equals"
| "equals DecimalPrimitiveType = Decimal_equals"

fun notEquals :: "PrimitiveType \<Rightarrow> PrimitiveValue \<Rightarrow> PrimitiveValue \<Rightarrow> CmpState res" where
  "notEquals BooleanPrimitiveType = Boolean_notEquals"
| "notEquals VarcharPrimitiveType = Varchar_notEquals"
| "notEquals IntegerPrimitiveType = Integer_notEquals"
| "notEquals DecimalPrimitiveType = Decimal_notEquals"

fun greaterThan :: "ptr_rel \<Rightarrow> PrimitiveType \<Rightarrow> PrimitiveValue \<Rightarrow> PrimitiveValue \<Rightarrow> CmpState res" where
  "greaterThan ptr_gt BooleanPrimitiveType = Boolean_greaterThan"
| "greaterThan ptr_gt VarcharPrimitiveType = Varchar_greaterThan ptr_gt"
| "greaterThan ptr_gt IntegerPrimitiveType = Integer_greaterThan"
| "greaterThan ptr_gt DecimalPrimitiveType = Decimal_greaterThan"

fun lessThan :: "ptr_rel \<Rightarrow> PrimitiveType \<Rightarrow> PrimitiveValue \<Rightarrow> PrimitiveValue \<Rightarrow> CmpState res" where
  "lessThan ptr_lt BooleanPrimitiveType = Boolean_lessThan"
| "lessThan ptr_lt VarcharPrimitiveType = Varchar_lessThan ptr_lt"
| "lessThan ptr_lt IntegerPrimitiveType = Integer_lessThan"
| "lessThan ptr_lt DecimalPrimitiveType = Decimal_lessThan"

fun prim_add :: "PrimitiveType \<Rightarrow> PrimitiveValue \<Rightarrow> PrimitiveValue \<Rightarrow> PrimitiveValue res" where
  "prim_add IntegerPrimitiveType = Integer_add"
| "prim_add DecimalPrimitiveType = Decimal_add"
| "prim_add t = Primitive_add t"

fun prim_subtract :: "PrimitiveType \<Rightarrow> PrimitiveValue \<Rightarrow> PrimitiveValue \<Rightarrow> PrimitiveValue res" where
  "prim_subtract IntegerPrimitiveType = Integer_subtract"
| "prim_subtract DecimalPrimitiveType = Decimal_subtract"
| "prim_subtract t = Primitive_subtract t"

fun prim_multiply :: "PrimitiveType \<Rightarrow> PrimitiveValue \<Rightarrow> PrimitiveValue \<Rightarrow> PrimitiveValue res" where
  "prim_multiply IntegerPrimitiveType = Integer_multiply"
| "prim_multiply DecimalPrimitiveType = Decimal_multiply"
| "prim_multiply t = Primitive_multiply t"

fun prim_divide :: "PrimitiveType \<Rightarrow> PrimitiveValue \<Rightarrow> PrimitiveValue \<Rightarrow> PrimitiveValue res" where
  "prim_divide IntegerPrimitiveType = Integer_divide"
| "prim_divide DecimalPrimitiveType = Decimal_divide"
| "prim_divide t = Primitive_divide t"

lemmas prim_defs =
  PrimitiveValue_bool_def PrimitiveValue_int_def PrimitiveValue_double_def PrimitiveValue_str_def
  Boolean_deserialize_def Varchar_deserialize_def Integer_deserialize_def Decimal_deserialize_def
  Boolean_getSize_def Varchar_getSize_def Integer_getSize_def Decimal_getSize_def

lemmas compare_defs =
  Boolean_equals_def Boolean_notEquals_def Boolean_greaterThan_def Boolean_lessThan_def
  Varchar_equals_def Varchar_notEquals_def Varchar_greaterThan_def Varchar_lessThan_def
  Integer_equals_def Integer_notEquals_def Integer_greaterThan_def Integer_lessThan_def
  Decimal_equals_def Decimal_notEquals_def Decimal_greaterThan_def Decimal_lessThan_def

lemmas arith_defs =
  Integer_add_def Integer_subtract_def Integer_multiply_def Integer_divide_def
  Decimal_add_def Decimal_subtract_def Decimal_multiply_def Decimal_divide_def
  Primitive_add_def Primitive_subtract_def Primitive_multiply_def Primitive_divide_def

section \<open>Values that fit their type\<close>

fun fits :: "PrimitiveType \<Rightarrow> PValue \<Rightarrow> bool" where
  "fits BooleanPrimitiveType (Boolean b) \<longleftrightarrow> b = 0 \<or> b = 1"
| "fits VarcharPrimitiveType (String a) \<longleftrightarrow> True"
| "fits IntegerPrimitiveType (Integer i) \<longleftrightarrow> True"
| "fits DecimalPrimitiveType (Decimal d) \<longleftrightarrow> True"
| "fits _ _ \<longleftrightarrow> False"

definition well_tagged :: "PrimitiveType \<Rightarrow> PrimitiveValue \<Rightarrow> bool" where
  "well_tagged t v \<longleftrightarrow> pv_type v = t \<and> fits t (pv_value v)"

lemma assertTypesEqual_ok [simp]: "assertTypesEqual this l r = Inr ()"
  by (simp add: assertTypesEqual_def type_toString_def)

lemma well_tagged_cases:
  assumes "well_tagged t v"
  shows "t = BooleanPrimitiveType \<Longrightarrow> \<exists>b. pv_value v = Boolean b \<and> (b = 0 \<or> b = 1)"
    and "t = VarcharPrimitiveType \<Longrightarrow> \<exists>a. pv_value v = String a"
    and "t = IntegerPrimitiveType \<Longrightarrow> \<exists>i. pv_value v = Integer i"
    and "t = DecimalPrimitiveType \<Longrightarrow> \<exists>d. pv_value v = Decimal d"
  using assms by (cases "pv_value v"; simp add: well_tagged_def)+

lemma well_tagged_new [simp]:
  "well_tagged BooleanPrimitiveType (PrimitiveValue_bool BooleanPrimitiveType b)"
  "well_tagged IntegerPrimitiveType (PrimitiveValue_int IntegerPrimitiveType i)"
  "well_tagged DecimalPrimitiveType (PrimitiveValue_double DecimalPrimitiveType d)"
  "well_tagged VarcharPrimitiveType (PrimitiveValue_str VarcharPrimitiveType a n)"
  by (simp_all add: well_tagged_def prim_defs)

section \<open>The contract of the comparisons\<close>

text \<open>The four comparisons of a type agree with one order of its values.\<close>

locale sql_order =
  fixes ok :: "PrimitiveValue \<Rightarrow> bool"
    and ord :: "PrimitiveValue \<Rightarrow> int"
    and eq ne gt lt :: "PrimitiveValue \<Rightarrow> PrimitiveValue \<Rightarrow> CmpState res"
  assumes eq_ok: "ok l \<Longrightarrow> ok r \<Longrightarrow> eq l r = Inr (cmp_state (ord l = ord r))"
    and ne_ok: "ok l \<Longrightarrow> ok r \<Longrightarrow> ne l r = Inr (cmp_state (ord l \<noteq> ord r))"
    and gt_ok: "ok l \<Longrightarrow> ok r \<Longrightarrow> gt l r = Inr (cmp_state (ord l > ord r))"
    and lt_ok: "ok l \<Longrightarrow> ok r \<Longrightarrow> lt l r = Inr (cmp_state (ord l < ord r))"
begin

lemma exactly_one:
  assumes "ok l" and "ok r"
  shows "(lt l r = Inr SQL_TRUE \<and> eq l r = Inr SQL_FALSE \<and> gt l r = Inr SQL_FALSE) \<or>
         (lt l r = Inr SQL_FALSE \<and> eq l r = Inr SQL_TRUE \<and> gt l r = Inr SQL_FALSE) \<or>
         (lt l r = Inr SQL_FALSE \<and> eq l r = Inr SQL_FALSE \<and> gt l r = Inr SQL_TRUE)"
  using eq_ok [OF assms] gt_ok [OF assms] lt_ok [OF assms] by (auto simp: cmp_state_def)

lemma swap:
  assumes "ok l" and "ok r"
  shows "gt l r = lt r l" and "eq l r = eq r l"
  using assms by (simp_all add: gt_ok lt_ok eq_ok eq_commute)

lemma negation:
  assumes "ok l" and "ok r"
  shows "ne l r = Inr SQL_TRUE \<longleftrightarrow> eq l r = Inr SQL_FALSE"
  using assms by (simp add: ne_ok eq_ok cmp_state_def)

lemma transitive:
  assumes "ok a" and "ok b" and "ok c" and "lt a b = Inr SQL_TRUE" and "lt b c = Inr SQL_TRUE"
  shows "lt a c = Inr SQL_TRUE"
  using assms by (auto simp: lt_ok cmp_state_def split: if_splits)

end

text \<open>What a value stands for: a boolean for 0 or 1, an integer for itself, a decimal for its value in units of
  \<open>2 ^ -1074\<close>, where an infinity has the magnitude \<open>2 ^ 1024\<close> that lies above all finite ones.\<close>

definition numeric_value :: "PrimitiveValue \<Rightarrow> int" where
  "numeric_value v =
     (case pv_value v of
        Boolean b \<Rightarrow> uint b | Integer i \<Rightarrow> sint i | Decimal d \<Rightarrow> d_int d | String a \<Rightarrow> 0)"

definition is_number :: "PrimitiveValue \<Rightarrow> bool" where
  "is_number v = (case pv_value v of Decimal d \<Rightarrow> \<not> is_nan d | String a \<Rightarrow> False | _ \<Rightarrow> True)"

definition comparable :: "PrimitiveType \<Rightarrow> PrimitiveValue \<Rightarrow> bool" where
  "comparable t v \<longleftrightarrow> well_tagged t v \<and> is_number v"

lemma sint_eq_iff_i32: "sint (x :: i32) = sint y \<longleftrightarrow> x = y"
  by (auto intro: signed_word_eqI)

lemma d_int_eq_iff: "d_int a = d_int b \<longleftrightarrow> d_ord a = d_ord b"
  using d_int_less_iff [of a b] d_int_less_iff [of b a] by linarith

lemmas comparable_defs = comparable_def numeric_value_def is_number_def compare_defs on_members_def

interpretation bool_order: sql_order "comparable BooleanPrimitiveType" numeric_value
  Boolean_equals Boolean_notEquals Boolean_greaterThan Boolean_lessThan
  by unfold_locales (auto simp: comparable_defs cmp_state_def dest!: well_tagged_cases(1))

interpretation int_order: sql_order "comparable IntegerPrimitiveType" numeric_value
  Integer_equals Integer_notEquals Integer_greaterThan Integer_lessThan
  by unfold_locales (auto simp: comparable_defs sint_eq_iff_i32 dest!: well_tagged_cases(3))

interpretation decimal_order: sql_order "comparable DecimalPrimitiveType" numeric_value
  Decimal_equals Decimal_notEquals Decimal_greaterThan Decimal_lessThan
  by unfold_locales
    (auto simp: comparable_defs d_eq_def d_less_def d_int_eq_iff d_int_less_iff dest!: well_tagged_cases(4))

text \<open>The virtual calls meet the contract for every type of numbers; no varchar is comparable.\<close>

lemma not_comparable_varchar: "\<not> comparable VarcharPrimitiveType v"
  by (auto simp: comparable_def is_number_def dest!: well_tagged_cases(2))

interpretation type_order: sql_order "comparable t" numeric_value "equals t" "notEquals t" "greaterThan ptr_gt t" "lessThan ptr_lt t"
  for t ptr_gt ptr_lt
proof (cases t)
  case VarcharPrimitiveType
  then show "sql_order (comparable t) numeric_value (equals t) (notEquals t) (greaterThan ptr_gt t) (lessThan ptr_lt t)"
    by unfold_locales (simp_all add: not_comparable_varchar)
qed (simp_all add: bool_order.sql_order_axioms int_order.sql_order_axioms decimal_order.sql_order_axioms)

text \<open>
  For every type of numbers the four comparisons describe one total order: of two values of the type
  that are not NaN exactly one is less, equal or greater, swapping the operands swaps less and greater,
  \<^verbatim>\<open>notEquals\<close> is the negation of \<^verbatim>\<open>equals\<close>, and less is transitive.
\<close>

lemma comparisons_are_an_order:
  assumes "comparable t a" and "comparable t b" and "comparable t c"
  shows "(lessThan lt t a b = Inr SQL_TRUE \<and> equals t a b = Inr SQL_FALSE \<and> greaterThan gt t a b = Inr SQL_FALSE) \<or>
         (lessThan lt t a b = Inr SQL_FALSE \<and> equals t a b = Inr SQL_TRUE \<and> greaterThan gt t a b = Inr SQL_FALSE) \<or>
         (lessThan lt t a b = Inr SQL_FALSE \<and> equals t a b = Inr SQL_FALSE \<and> greaterThan gt t a b = Inr SQL_TRUE)"
    and "greaterThan gt t a b = lessThan lt t b a"
    and "notEquals t a b = Inr SQL_TRUE \<longleftrightarrow> equals t a b = Inr SQL_FALSE"
    and "lessThan lt t a b = Inr SQL_TRUE \<Longrightarrow> lessThan lt t b c = Inr SQL_TRUE \<Longrightarrow> lessThan lt t a c = Inr SQL_TRUE"
  by (rule type_order.exactly_one [OF assms(1,2)], rule type_order.swap(1) [OF assms(1,2)],
      rule type_order.negation [OF assms(1,2)], rule type_order.transitive [OF assms])

text \<open>A NaN is not equal to anything, and neither less nor greater.\<close>

lemma nan_comparisons:
  assumes "well_tagged t a" and "well_tagged t b" and "t \<noteq> VarcharPrimitiveType" and "\<not> (is_number a \<and> is_number b)"
  shows "equals t a b = Inr SQL_FALSE" and "notEquals t a b = Inr SQL_TRUE"
    and "greaterThan gt t a b = Inr SQL_FALSE" and "lessThan lt t a b = Inr SQL_FALSE"
  using assms
  by (cases t; cases "pv_value a"; cases "pv_value b";
      auto simp: well_tagged_def is_number_def compare_defs on_members_def cmp_state_def d_eq_def d_less_def)+

section \<open>Properties\<close>

text \<open>
  C30. Booleans, integers and decimals are compared by their values: \<^verbatim>\<open>equals\<close>, \<^verbatim>\<open>notEquals\<close>, \<^verbatim>\<open>greaterThan\<close> and
  \<^verbatim>\<open>lessThan\<close> on two values of one of these types answer what \<open>=\<close>, \<open>\<noteq>\<close>, \<open>>\<close> and \<open><\<close> say of the numbers the values
  stand for, with false below true, integers signed, both zeros of the decimals equal and the infinities beyond
  all finite decimals. With a NaN on either side only \<^verbatim>\<open>notEquals\<close> is true. Varchars are left out; the code
  compares their pointers.
\<close>

theorem comparisons_follow_values:
  assumes "well_tagged t a" and "well_tagged t b" and "t \<noteq> VarcharPrimitiveType"
  shows "equals t a b = Inr (cmp_state (is_number a \<and> is_number b \<and> numeric_value a = numeric_value b)) \<and>
    notEquals t a b = Inr (cmp_state (\<not> (is_number a \<and> is_number b \<and> numeric_value a = numeric_value b))) \<and>
    greaterThan gt t a b = Inr (cmp_state (is_number a \<and> is_number b \<and> numeric_value a > numeric_value b)) \<and>
    lessThan lt t a b = Inr (cmp_state (is_number a \<and> is_number b \<and> numeric_value a < numeric_value b))"
proof (cases "is_number a \<and> is_number b")
  case True
  then have "comparable t a" "comparable t b" using assms by (simp_all add: comparable_def)
  then show ?thesis
    using True by (simp add: type_order.eq_ok type_order.ne_ok type_order.gt_ok type_order.lt_ok)
next
  case False
  then show ?thesis using nan_comparisons [OF assms] by (auto simp: cmp_state_def)
qed

theorem comparisons_follow_values_witness:
  "lessThan (\<lambda>_ _. False) IntegerPrimitiveType (PrimitiveValue_int IntegerPrimitiveType (- 7))
     (PrimitiveValue_int IntegerPrimitiveType 2) = Inr SQL_TRUE \<and>
   greaterThan (\<lambda>_ _. False) BooleanPrimitiveType (PrimitiveValue_bool BooleanPrimitiveType True)
     (PrimitiveValue_bool BooleanPrimitiveType False) = Inr SQL_TRUE"
  using comparisons_follow_values [of IntegerPrimitiveType "PrimitiveValue_int IntegerPrimitiveType (- 7)"
      "PrimitiveValue_int IntegerPrimitiveType 2" "\<lambda>_ _. False" "\<lambda>_ _. False"]
    comparisons_follow_values [of BooleanPrimitiveType "PrimitiveValue_bool BooleanPrimitiveType True"
      "PrimitiveValue_bool BooleanPrimitiveType False" "\<lambda>_ _. False" "\<lambda>_ _. False"]
  by (simp add: is_number_def numeric_value_def cmp_state_def PrimitiveValue_int_def PrimitiveValue_bool_def well_tagged_def)

text \<open>
  Varchars are compared by pointer, whatever bytes the pointers lead to: two copies of one string are not
  equal, and which of two strings is less is whatever the implementation says of their addresses.
\<close>

lemma varchar_compares_pointers:
  "equals VarcharPrimitiveType (PrimitiveValue_str VarcharPrimitiveType p n) (PrimitiveValue_str VarcharPrimitiveType q k) =
     Inr (cmp_state (p = q))"
  "lessThan lt VarcharPrimitiveType (PrimitiveValue_str VarcharPrimitiveType p n) (PrimitiveValue_str VarcharPrimitiveType q k) =
     Inr (cmp_state (lt p q))"
  by (simp_all add: compare_defs on_members_def PrimitiveValue_str_def)

text \<open>
  The assertion on the types never fails: \<^verbatim>\<open>typeid(this)\<close> names the type of the pointer, so comparing
  values of two different types passes it and reads a member of the union that was not written. A varchar
  read from a row is such a value itself, because its constructor is the one for \<^verbatim>\<open>bool\<close>: comparing it with
  any varchar fails the same way.
\<close>

lemma type_assertion_misses_confusion:
  assumes "well_tagged t l" and "well_tagged t' r" and "t \<noteq> t'" and "1024 \<le> length buf"
  shows "assertTypesEqual t l r = Inr () \<and> equals t l r = Inl BadUnionRead \<and>
    (\<exists>v. type_deserialize VarcharPrimitiveType buf = Inr v \<and> pv_type v = VarcharPrimitiveType \<and>
         equals VarcharPrimitiveType v w = Inl BadUnionRead)"
proof -
  have "equals t l r = Inl BadUnionRead"
    using assms(1-3)
    by (cases t; cases t'; cases "pv_value l"; cases "pv_value r")
      (simp_all add: well_tagged_def compare_defs on_members_def)
  moreover have "\<exists>v. type_deserialize VarcharPrimitiveType buf = Inr v \<and> pv_type v = VarcharPrimitiveType \<and>
      equals VarcharPrimitiveType v w = Inl BadUnionRead"
    using assms(4) by (simp add: Varchar_deserialize_def load_def PrimitiveValue_bool_def Varchar_equals_def on_members_def)
  ultimately show ?thesis by simp
qed

text \<open>
  C31. Adding decimals is exact whenever the sum is a double: for finite operands whose values add up to the
  value of a finite double, which is not zero, \<^verbatim>\<open>DecimalPrimitiveType::add\<close> returns that double.
\<close>

theorem decimal_add_is_exact:
  assumes "is_finite x" and "is_finite y" and "is_finite z" and "d_int x + d_int y = d_int z" and "d_int z \<noteq> 0"
  shows "prim_add DecimalPrimitiveType (PrimitiveValue_double DecimalPrimitiveType x)
      (PrimitiveValue_double DecimalPrimitiveType y) = Inr (PrimitiveValue_double DecimalPrimitiveType z)"
  using d_add_exact [OF assms] by (simp add: Decimal_add_def on_members_def PrimitiveValue_double_def)

theorem decimal_add_is_exact_witness:
  "prim_add DecimalPrimitiveType (PrimitiveValue_double DecimalPrimitiveType 0x3FF8000000000000)
      (PrimitiveValue_double DecimalPrimitiveType 0x4000000000000000)
     = Inr (PrimitiveValue_double DecimalPrimitiveType 0x400C000000000000)"
proof -
  have parts: "d_mag 0x3FF8000000000000 = 0x3FF8000000000000" "d_mag 0x4000000000000000 = 0x4000000000000000"
    "d_mag 0x400C000000000000 = 0x400C000000000000"
    "\<not> d_sign 0x3FF8000000000000" "\<not> d_sign 0x4000000000000000" "\<not> d_sign 0x400C000000000000"
    by (simp_all add: d_mag_mod d_sign_iff)
  have "mag_units 0x3FF8000000000000 = 3 * 2 ^ 1073" "mag_units 0x4000000000000000 = 2 * 2 ^ 1074"
    "mag_units 0x400C000000000000 = 7 * 2 ^ 1073"
    by (simp_all add: mag_units_def)
  with parts show ?thesis
    by (intro decimal_add_is_exact) (simp_all add: is_finite_def inf_mag_def d_int_def)
qed

end
