(* ===== verification/Sql_Schema.thy ===== *)
theory Sql_Schema
  imports Primitive Heapfile
begin

text \<open>
  \<^verbatim>\<open>src/sql/schema.cpp\<close>, \<^verbatim>\<open>schema.hpp\<close>, \<^verbatim>\<open>access_method.cpp\<close> and \<^verbatim>\<open>access_method.hpp\<close>: the logical columns,
  tables and rows, and the schema a query reads back from the schema page of a heap file. A null
  \<^verbatim>\<open>PrimitiveTypeRef\<close> is \<open>None\<close>; a row is the bytes its \<^verbatim>\<open>data\<close> points to.
\<close>

section \<open>Columns and tables\<close>

record SqlColumn =
  sc_name :: string
  data_type :: "PrimitiveType option"

record SqlTable =
  st_name :: string
  st_columns :: "SqlColumn list"

definition type_of_col :: "SqlColumn \<Rightarrow> PrimitiveType res" where
  "type_of_col c = (case data_type c of None \<Rightarrow> Inl NullDeref | Some t \<Rightarrow> Inr t)"

definition same_type_name :: "SqlColumn \<Rightarrow> SqlColumn \<Rightarrow> bool res" where
  "same_type_name a b =
     and_then (type_of_col a) (\<lambda>s. and_then (type_of_col b) (\<lambda>t. Inr (type_toString s = type_toString t)))"

definition SqlColumn_eq :: "SqlColumn \<Rightarrow> SqlColumn \<Rightarrow> bool res" where
  "SqlColumn_eq this other = (if sc_name other = sc_name this then same_type_name other this else Inr False)"

fun columns_eq :: "SqlColumn list \<Rightarrow> SqlColumn list \<Rightarrow> bool res" where
  "columns_eq (a # as) (b # bs) =
     (if sc_name a \<noteq> sc_name b then Inr False
      else and_then (same_type_name a b) (\<lambda>same. if same then columns_eq as bs else Inr False))"
| "columns_eq _ _ = Inr True"

definition SqlTable_eq :: "SqlTable \<Rightarrow> SqlTable \<Rightarrow> bool res" where
  "SqlTable_eq this other =
     (if st_name other \<noteq> st_name this \<or> length (st_columns other) \<noteq> length (st_columns this) then Inr False
      else columns_eq (st_columns this) (st_columns other))"

section \<open>Rows\<close>

text \<open>The offset grows by the size of the column that is looked for, not of the one that is passed.\<close>

fun getValue_loop :: "bytes \<Rightarrow> SqlColumn \<Rightarrow> u32 \<Rightarrow> SqlColumn list \<Rightarrow> PrimitiveValue res" where
  "getValue_loop data col curr_offset [] =
     Inl (RuntimeError (''Specified column '' @ [CHR 0x27] @ sc_name col @ [CHR 0x27] @
       '' does not exist in provided schema''))"
| "getValue_loop data col curr_offset (sch_col # cols) =
     (if sc_name col = sc_name sch_col then
        and_then (type_of_col col) (\<lambda>t. type_deserialize t (drop (unat curr_offset) data))
      else and_then (type_of_col col) (\<lambda>t. getValue_loop data col (curr_offset + of_nat (getSize t)) cols))"

definition getValue :: "bytes \<Rightarrow> SqlColumn \<Rightarrow> SqlTable \<Rightarrow> PrimitiveValue res" where
  "getValue data col schema = getValue_loop data col 0 (st_columns schema)"

section \<open>The schema of a heap file\<close>

definition TABLE_SCHEMA_PAGE :: page_id_t where
  "TABLE_SCHEMA_PAGE = 1"

text \<open>The \<^verbatim>\<open>switch\<close> on the type byte; another byte leaves the reference null.\<close>

definition decode_type :: "u8 \<Rightarrow> PrimitiveType option" where
  "decode_type b =
     (if b = type_code BOOLEAN then Some BooleanPrimitiveType
      else if b = type_code STRING then Some VarcharPrimitiveType
      else if b = type_code INTEGER then Some IntegerPrimitiveType
      else if b = type_code DECIMAL then Some DecimalPrimitiveType
      else None)"

text \<open>The cursor is a byte.\<close>

fun schema_cols :: "nat \<Rightarrow> u8 \<Rightarrow> bytes \<Rightarrow> SqlColumn list res" where
  "schema_cols 0 cursor page = Inr []"
| "schema_cols (Suc n) cursor page =
     and_then (byte_at (unat cursor) page) (\<lambda>col_name_len.
     and_then (load (unat cursor + 1) (unat col_name_len) page) (\<lambda>buf.
     and_then (byte_at (unat cursor + unat col_name_len + 1) page) (\<lambda>ty.
     and_then (schema_cols n (cursor + of_nat (SCHEMA_COLUMN_SIZE col_name_len)) page) (\<lambda>cols.
       Inr (\<lparr>sc_name = map (\<lambda>b. char_of (unat b)) buf, data_type = decode_type ty\<rparr> # cols)))))"

definition HeapfileAccess_schema :: "bytes \<Rightarrow> string \<Rightarrow> fs \<Rightarrow> (SqlTable \<times> fs) res" where
  "HeapfileAccess_schema junk path files =
     and_then (read_page junk TABLE_SCHEMA_PAGE
         \<lparr>page_directory = None, page_type = None, table_name = path\<rparr> files) (\<lambda>(page, files).
     and_then (byte_at 0 page) (\<lambda>cols_num.
     and_then (schema_cols (unat cols_num) (of_nat START_COLUMNS_INFO) page) (\<lambda>cols.
       Inr (\<lparr>st_name = path, st_columns = cols\<rparr>, files))))"

text \<open>Scanning is not implemented: \<^verbatim>\<open>HeapfileAccess::scan\<close> throws.\<close>

definition HeapfileAccess_scan :: "string \<Rightarrow> bytes list res" where
  "HeapfileAccess_scan path = Inl (RuntimeError ''TODO: Heapfile scan implementation'')"

section \<open>Where a value is read\<close>

text \<open>The index of the first column of a name.\<close>

fun col_index :: "string \<Rightarrow> SqlColumn list \<Rightarrow> nat option" where
  "col_index nm [] = None"
| "col_index nm (c # cs) = (if nm = sc_name c then Some 0 else map_option Suc (col_index nm cs))"

lemma col_index_Some: "col_index nm cs = Some i \<Longrightarrow> i < length cs \<and> sc_name (cs ! i) = nm"
  by (induction cs arbitrary: i) (auto split: if_splits)

lemma col_index_distinct:
  "distinct (map sc_name cs) \<Longrightarrow> i < length cs \<Longrightarrow> col_index (sc_name (cs ! i)) cs = Some i"
proof (induction cs arbitrary: i)
  case (Cons c cs)
  show ?case
  proof (cases i)
    case (Suc j)
    then have "sc_name (cs ! j) \<in> set (map sc_name cs)" using Cons.prems(2) by simp
    with Cons.prems have "sc_name (cs ! j) \<noteq> sc_name c" by auto
    with Suc Cons show ?thesis by simp
  qed simp
qed simp

lemma getSize_bounds: "1 \<le> getSize t" "getSize t \<le> 1024"
  by (cases t; simp add: prim_defs)+

lemma getValue_loop_index:
  assumes "data_type col = Some t" and "unat off + length cols * 1024 < 2 ^ 32"
  shows "getValue_loop data col off cols =
    (case col_index (sc_name col) cols of
       None \<Rightarrow> getValue_loop data col off []
     | Some i \<Rightarrow> type_deserialize t (drop (unat off + i * getSize t) data))"
  using assms(2)
proof (induction cols arbitrary: off)
  case (Cons c cs)
  have "getSize t \<le> 1024" by (rule getSize_bounds)
  then have u: "unat (off + of_nat (getSize t)) = unat off + getSize t"
    using Cons.prems by (simp add: unat_word_ariths unat_of_nat)
  have "unat (off + of_nat (getSize t)) + length cs * 1024 < 2 ^ 32"
    using Cons.prems \<open>getSize t \<le> 1024\<close> unfolding u by simp
  from Cons.IH [OF this] show ?case
    using assms(1) by (auto simp: type_of_col_def u add.assoc split: option.split)
qed (simp add: type_of_col_def)

section \<open>Values of stored tuples\<close>

fun prim_type :: "ColumnType \<Rightarrow> PrimitiveType" where
  "prim_type BOOLEAN = BooleanPrimitiveType"
| "prim_type STRING = VarcharPrimitiveType"
| "prim_type INTEGER = IntegerPrimitiveType"
| "prim_type DECIMAL = DecimalPrimitiveType"

text \<open>The value a stored column stands for.\<close>

fun sql_value :: "ColumnValue \<Rightarrow> PrimitiveValue" where
  "sql_value (VBoolean b) = PrimitiveValue_bool BooleanPrimitiveType (b \<noteq> 0)"
| "sql_value (VInteger i) = PrimitiveValue_int IntegerPrimitiveType i"
| "sql_value (VDecimal d) = PrimitiveValue_double DecimalPrimitiveType d"
| "sql_value (VString s) = PrimitiveValue_bool VarcharPrimitiveType True"

lemma deserialize_stored:
  assumes "has_type ty v" and "ty \<noteq> STRING"
  shows "type_deserialize (prim_type ty) (value_bytes v @ rest) = Inr (sql_value v)"
  using assms
  by (cases ty; cases v)
    (simp_all add: Boolean_deserialize_def Integer_deserialize_def Decimal_deserialize_def byte_at_def
      encode_bool_def i32c.decode_enc dblc.decode_enc)

lemma length_value_bytes_fixed:
  assumes "has_type ty v" and "ty \<noteq> STRING"
  shows "length (value_bytes v) = getSize (prim_type ty)"
  using assms by (cases ty; cases v) (simp_all add: prim_defs)

lemma drop_stored_values:
  assumes "list_all (\<lambda>v. length (value_bytes v) = k) vs" and "i < length vs"
  shows "\<exists>rest'. drop (i * k) (concat (map value_bytes vs) @ rest) = value_bytes (vs ! i) @ rest'"
  using assms
proof (induction vs arbitrary: i)
  case (Cons v vs)
  show ?case
  proof (cases i)
    case (Suc j)
    then show ?thesis using Cons.IH [of j] Cons.prems by simp
  qed simp
qed simp

section \<open>Reading the schema page\<close>

definition sql_column :: "Column \<Rightarrow> SqlColumn" where
  "sql_column c = \<lparr>sc_name = col_name c, data_type = Some (prim_type (col_type c))\<rparr>"

text \<open>All columns but the last have the same size.\<close>

fun uniform :: "nat \<Rightarrow> Column list \<Rightarrow> bool" where
  "uniform sz (c # d # cs) \<longleftrightarrow> SCHEMA_COLUMN_SIZE (name_len c) = sz \<and> uniform sz (d # cs)"
| "uniform sz _ \<longleftrightarrow> True"

fun total_size :: "Column list \<Rightarrow> nat" where
  "total_size [] = 0"
| "total_size (c # cs) = SCHEMA_COLUMN_SIZE (name_len c) + total_size cs"

lemma decode_type_code: "decode_type (type_code ty) = Some (prim_type ty)"
  by (cases ty) (simp_all add: decode_type_def)

lemma decode_name: "map (\<lambda>b. char_of (unat b)) (str_bytes s) = s"
proof -
  have "char_of (unat (of_char c :: u8)) = c" for c by (simp add: unat_of_char)
  then show ?thesis by (simp add: str_bytes_def comp_def)
qed

lemma schema_cols_read:
  assumes "columns_at j sz cols page" and "list_all col_ok cols" and "uniform s cols" and "j = 0 \<or> sz = s"
    and "unat cursor = 1 + j * sz" and "unat cursor + total_size cols \<le> 256"
  shows "schema_cols (length cols) cursor page = Inr (map sql_column cols)"
  using assms
proof (induction cols arbitrary: j sz cursor)
  case (Cons c cs)
  let ?s = "SCHEMA_COLUMN_SIZE (name_len c)"
  have ok: "col_ok c" using Cons.prems(2) by simp
  have "take ?s (drop (1 + j * sz) page) = col_bytes c" using Cons.prems(1) by simp
  note rd = col_bytes_read [OF this ok]
  have b: "byte_at (unat cursor) page = Inr (name_len c)"
    "load (unat cursor + 1) (unat (name_len c)) page = Inr (str_bytes (col_name c))"
    "byte_at (unat cursor + unat (name_len c) + 1) page = Inr (type_code (col_type c))"
    using rd Cons.prems(5) by (auto simp: byte_at_def load_def add.commute split: if_splits)
  have rest: "schema_cols (length cs) (cursor + of_nat ?s) page = Inr (map sql_column cs)"
  proof (cases "cs = []")
    case False
    then have s: "?s = s" "uniform s cs" using Cons.prems(3) by (cases cs; simp)+
    have pos: "0 < total_size cs" using False by (cases cs) (simp_all add: SCHEMA_COLUMN_SIZE_def)
    have small: "unat cursor + ?s < 256" using Cons.prems(6) pos by simp
    then have u: "unat (cursor + of_nat ?s) = unat cursor + ?s" by (simp add: unat_word_ariths unat_of_nat)
    show ?thesis
    proof (rule Cons.IH [of "Suc j" ?s])
      show "unat (cursor + of_nat ?s) = 1 + Suc j * ?s" using u Cons.prems(4,5) s(1) by auto
    qed (use Cons.prems s u in auto)
  qed simp
  show ?case using b rest by (simp add: decode_type_code decode_name sql_column_def)
qed simp

lemma column_equality_ignores_types:
  "data_type a = Some s \<Longrightarrow> data_type b = Some t \<Longrightarrow> SqlColumn_eq a b = Inr (sc_name a = sc_name b)"
  by (auto simp: SqlColumn_eq_def same_type_name_def type_of_col_def type_toString_def)

lemma table_equality_ignores_types:
  assumes "list_all (\<lambda>c. data_type c \<noteq> None) (st_columns a)" and "list_all (\<lambda>c. data_type c \<noteq> None) (st_columns b)"
  shows "SqlTable_eq a b = Inr (st_name a = st_name b \<and> map sc_name (st_columns a) = map sc_name (st_columns b))"
proof -
  have "columns_eq as bs = Inr (map sc_name as = map sc_name bs)"
    if "length as = length bs" "list_all (\<lambda>c. data_type c \<noteq> None) as" "list_all (\<lambda>c. data_type c \<noteq> None) bs" for as bs
    using that
    by (induction as bs rule: list_induct2) (auto simp: same_type_name_def type_of_col_def type_toString_def)
  with assms show ?thesis by (auto simp: SqlTable_eq_def dest: map_eq_imp_length_eq)
qed

lemma schema_of_table:
  assumes ok: "table_ok junk t" and pg: "1 \<in> tpages t" and n: "byte_at 0 (tpage 1 t) = Inr n" and cols: "columns_at 0 0 cols (tpage 1 t)"
    and "list_all col_ok cols" and "unat n = length cols" and "uniform s cols" and "1 + total_size cols \<le> 256"
  shows "HeapfileAccess_schema junk (table_name (t_dm t)) (t_files t) =
    Inr (\<lparr>st_name = table_name (t_dm t), st_columns = map sql_column cols\<rparr>, t_files t)"
proof -
  let ?dm = "\<lparr>page_directory = None, page_type = None, table_name = table_name (t_dm t)\<rparr>"
  have path: "dm_path ?dm = dm_path (t_dm t)" by (simp add: dm_path_def)
  have inv: "dm_inv ?dm junk (t_files t)" using ok by (simp add: table_ok_def dm_inv_def path)
  have "TABLE_SCHEMA_PAGE \<in> dm_pages ?dm (t_files t)"
    using pg by (simp add: tpages_def dm_pages_def path TABLE_SCHEMA_PAGE_def)
  from read_page_in_file(1) [OF inv this] have rd: "read_page junk TABLE_SCHEMA_PAGE ?dm (t_files t) = Inr (tpage 1 t, t_files t)"
    by (simp add: tpage_def page_of_def path TABLE_SCHEMA_PAGE_def)
  have "schema_cols (length cols) (of_nat START_COLUMNS_INFO) (tpage 1 t) = Inr (map sql_column cols)"
    using assms(8) by (intro schema_cols_read [OF cols assms(5,7)]) (simp_all add: START_COLUMNS_INFO_def)
  with rd n assms(6) show ?thesis by (simp add: HeapfileAccess_schema_def)
qed

lemma schema_of_fresh_table:
  assumes "fresh_table_ok junk cols n t" and "list_all col_ok cols" and "unat n = length cols"
    and "uniform s cols" and "1 + total_size cols \<le> 256"
  shows "HeapfileAccess_schema junk (table_name (t_dm t)) (t_files t) =
    Inr (\<lparr>st_name = table_name (t_dm t), st_columns = map sql_column cols\<rparr>, t_files t)"
  using schema_of_table [OF _ _ _ _ assms(2-5)] assms(1) by (simp add: fresh_table_ok_def)

section \<open>Properties\<close>

text \<open>
  C11. The schema survives the disk: after \<^verbatim>\<open>create_table\<close> on a new file, \<^verbatim>\<open>HeapfileAccess::schema\<close> reads back
  the table's name and its columns with their types, when all column names but the last have the same
  length and the description of the columns fits 255 bytes. The two conditions are what the offsets of
  the writer and the byte-sized cursor of the reader ask for.
\<close>

theorem schema_round_trip:
  assumes "length name < 15" and "files (DBFILES_DIR @ ''/'' @ name @ ''.db'') = None"
    and "cmem_wf m" and "65536 \<le> brk m" and "length junk = PAGE_SIZE"
    and "list_all col_readable cols" and "growing 0 cols" and "uniform s cols" and "total_size cols \<le> 255"
    and "cols_end 0 0 cols \<le> PAGE_SIZE" and "unat n = length cols"
  shows "\<exists>dm m' files'. create_table name cols n m files = Inr (Some dm, m', files') \<and>
    HeapfileAccess_schema junk name files' = Inr (\<lparr>st_name = name, st_columns = map sql_column cols\<rparr>, files')"
proof -
  from create_table_ok [where name = name and files = files, OF assms(1-7) assms(10,11)] obtain dm m' files' where
    c: "create_table name cols n m files = Inr (Some dm, m', files')"
      "fresh_table_ok junk cols n \<lparr>t_mem = m', t_dm = dm, t_files = files'\<rparr>" by blast
  have "list_all col_ok cols" using assms(6) by (auto simp: list_all_iff col_readable_def)
  from schema_of_fresh_table [OF c(2) this assms(11,8)] assms(9) create_table_name [OF c(1)] c(1)
  show ?thesis by simp
qed

theorem schema_round_trip_witness:
  "\<exists>dm m' files'. create_table ''users'' demo_columns 2 start_heap Map.empty = Inr (Some dm, m', files') \<and>
    HeapfileAccess_schema demo_junk ''users'' files' =
      Inr (\<lparr>st_name = ''users'', st_columns =
        [\<lparr>sc_name = ''id'', data_type = Some IntegerPrimitiveType\<rparr>,
         \<lparr>sc_name = ''name'', data_type = Some VarcharPrimitiveType\<rparr>]\<rparr>, files')"
proof -
  have "cmem_wf start_heap" "65536 \<le> brk start_heap" by (simp_all add: start_heap_def cmem_wf_def)
  moreover have "length demo_junk = PAGE_SIZE" by (simp add: demo_junk_def)
  moreover have "unat (2 :: u8) = length demo_columns" "uniform 4 demo_columns" "total_size demo_columns \<le> 255"
    by (simp_all add: demo_columns_def SCHEMA_COLUMN_SIZE_def)
  ultimately show ?thesis
    using schema_round_trip [of "''users''" Map.empty start_heap demo_junk demo_columns 4 2] demo_columns_ok
    by (simp add: demo_columns_def sql_column_def)
qed

lemma stored_row:
  assumes "table_ok junk t" and "1 \<in> tpages t" and "2 \<in> tpages t" and "heap_page_wf (tpage 2 t)"
    and "check_schema (tpage 1 t) args = Inr True"
    and typed: "list_all2 has_type (column_types args) (column_values args)"
    and "unat (num_columns args) = length (column_types args)"
    and "4 + length (concat (map value_bytes (column_values args))) \<le> free_bytes (tpage 2 t)"
    and same: "set (column_types args) = {ty}" and fixed: "ty \<noteq> STRING"
    and schema: "map data_type (st_columns schema) = replicate (length (column_types args)) (Some (prim_type ty))"
    and names: "distinct (map sc_name (st_columns schema))"
  shows "\<exists>ptr t' s. add_tuple junk junk_pid args t = Inr (Some ptr, t') \<and>
    get_tuple junk \<lparr>rid_pid = 2, slot_num = of_nat (slot_count (tpage 2 t))\<rparr> t' = Inr (Some s, t') \<and>
    (\<forall>i < length (column_types args).
       getValue s (st_columns schema ! i) schema = Inr (sql_value (column_values args ! i))) \<and>
    table_ok junk t' \<and> 1 \<in> tpages t' \<and> tpage 1 t' = tpage 1 t \<and> table_name (t_dm t') = table_name (t_dm t)"
proof -
  let ?vs = "column_values args" and ?k = "getSize (prim_type ty)" and ?n = "length (column_types args)"
  let ?B = "concat (map value_bytes ?vs)"
  from add_tuple_get [OF assms(1-8), of junk_pid] obtain ptr t' s where
    a: "add_tuple junk junk_pid args t = Inr (Some ptr, t')"
      "get_tuple junk \<lparr>rid_pid = 2, slot_num = of_nat (slot_count (tpage 2 t))\<rparr> t' = Inr (Some s, t')"
      "take (length ?B) s = ?B" by blast
  from add_tuple_ok [OF assms(1-8), of junk_pid] a(1) assms(2) have
    t': "table_ok junk t'" "1 \<in> tpages t'" "tpage 1 t' = tpage 1 t" "table_name (t_dm t') = table_name (t_dm t)" by auto
  have len: "length ?vs = ?n" using typed by (simp add: list_all2_lengthD)
  have ty: "has_type ty (?vs ! i)" if "i < ?n" for i
    using list_all2_nthD [OF typed that] same nth_mem [OF that] by simp
  have widths: "list_all (\<lambda>v. length (value_bytes v) = ?k) ?vs"
    unfolding list_all_length len using length_value_bytes_fixed [OF ty fixed] by blast
  have n: "?n < 256" using assms(7) unat_bounds(1) [of "num_columns args"] by simp
  have cols: "length (st_columns schema) = ?n" using arg_cong [OF schema, of length] by simp
  have "getValue s (st_columns schema ! i) schema = Inr (sql_value (?vs ! i))" if i: "i < ?n" for i
  proof -
    have "data_type (st_columns schema ! i) = map data_type (st_columns schema) ! i" using i cols by simp
    then have t: "data_type (st_columns schema ! i) = Some (prim_type ty)" using schema i by simp
    have idx: "col_index (sc_name (st_columns schema ! i)) (st_columns schema) = Some i"
      using col_index_distinct [OF names] i cols by simp
    obtain rest where rest: "drop (i * ?k) s = value_bytes (?vs ! i) @ rest"
      using drop_stored_values [OF widths, of i "drop (length ?B) s"] i len a(3) by (metis append_take_drop_id)
    show ?thesis
      using getValue_loop_index [OF t, of 0 "st_columns schema" s] n cols idx rest
        deserialize_stored [OF ty [OF i] fixed, of rest]
      by (simp add: getValue_def)
  qed
  with a t' show ?thesis by blast
qed

text \<open>
  C9. A query reads what was inserted: for a table whose columns all have the same type, which is not
  the varchar type, and different names, a tuple added by \<^verbatim>\<open>add_tuple\<close> and found by \<^verbatim>\<open>get_tuple\<close> gives back each
  of its values through \<^verbatim>\<open>Row::getValue\<close>.
\<close>

theorem stored_row_reads_back:
  assumes "table_ok junk t" and "1 \<in> tpages t" and "2 \<in> tpages t" and "heap_page_wf (tpage 2 t)"
    and "check_schema (tpage 1 t) args = Inr True"
    and "list_all2 has_type (column_types args) (column_values args)"
    and "unat (num_columns args) = length (column_types args)"
    and "4 + length (concat (map value_bytes (column_values args))) \<le> free_bytes (tpage 2 t)"
    and "set (column_types args) = {ty}" and "ty \<noteq> STRING"
    and "map data_type (st_columns schema) = replicate (length (column_types args)) (Some (prim_type ty))"
    and "distinct (map sc_name (st_columns schema))"
  shows "\<exists>ptr t' s. add_tuple junk junk_pid args t = Inr (Some ptr, t') \<and>
    get_tuple junk \<lparr>rid_pid = 2, slot_num = of_nat (slot_count (tpage 2 t))\<rparr> t' = Inr (Some s, t') \<and>
    (\<forall>i < length (column_types args).
       getValue s (st_columns schema ! i) schema = Inr (sql_value (column_values args ! i)))"
  using stored_row [OF assms, of junk_pid] by blast

text \<open>
  \<^verbatim>\<open>Row::getValue\<close> finds the first column of the name and reads at its index times the size of the
  requested type, whatever the sizes of the columns before it; an unknown name throws. The offset is the
  one of the value exactly when the columns before have that size.
\<close>

lemma getValue_reads_at_index:
  assumes "data_type col = Some t" and "length (st_columns schema) < 2 ^ 22"
  shows "getValue data col schema =
    (case col_index (sc_name col) (st_columns schema) of
       None \<Rightarrow> Inl (RuntimeError (''Specified column '' @ [CHR 0x27] @ sc_name col @ [CHR 0x27] @
                 '' does not exist in provided schema''))
     | Some i \<Rightarrow> type_deserialize t (drop (i * getSize t) data))"
  using getValue_loop_index [OF assms(1), of 0 "st_columns schema" data] assms(2)
  by (simp add: getValue_def split: option.split)

text \<open>A table of two integer columns with a page.\<close>

definition point_columns :: "Column list" where
  "point_columns = [\<lparr>name_len = 1, col_name = ''x'', col_type = INTEGER\<rparr>,
                    \<lparr>name_len = 1, col_name = ''y'', col_type = INTEGER\<rparr>]"

definition point_args :: AddTupleArgs where
  "point_args = \<lparr>column_names = [''x'', ''y''], column_values = [VInteger 3, VInteger (- 4)],
                 column_types = [INTEGER, INTEGER], num_columns = 2\<rparr>"

lemma point_table:
  "\<exists>t. table_ok demo_junk t \<and> {0, 1, 2} \<subseteq> tpages t \<and> heap_page_wf (tpage 2 t) \<and>
     page_tuples (tpage 2 t) = [] \<and> free_bytes (tpage 2 t) = 4090 \<and>
     check_schema (tpage 1 t) point_args = Inr True"
proof -
  have m: "cmem_wf start_heap" "65536 \<le> brk start_heap" by (simp_all add: start_heap_def cmem_wf_def)
  have j: "length demo_junk = PAGE_SIZE" by (simp add: demo_junk_def)
  have c: "list_all col_readable point_columns" "growing 0 point_columns" "cols_end 0 0 point_columns \<le> PAGE_SIZE"
    "unat (2 :: u8) = length point_columns"
    by (simp_all add: point_columns_def col_readable_def col_ok_def str_bytes_def SCHEMA_COLUMN_SIZE_def PAGE_SIZE_def)
  from create_table_ok [of "''points''" Map.empty, OF _ _ m j c] obtain dm m' files where
    f: "fresh_table_ok demo_junk point_columns 2 \<lparr>t_mem = m', t_dm = dm, t_files = files\<rparr>" by auto
  let ?t = "\<lparr>t_mem = m', t_dm = dm, t_files = files\<rparr>"
  have ok: "table_ok demo_junk ?t" and pages: "tpages ?t = {0, 1}" using f by (simp_all add: fresh_table_ok_def)
  from f have "check_schema (tpage 1 ?t) point_args = Inr True"
    by (simp add: fresh_table_ok_def point_args_def point_columns_def)
  with new_heap_page_ok [OF ok] pages show ?thesis by (auto 4 4)
qed

theorem stored_row_reads_back_witness:
  "\<exists>t ptr t' s. add_tuple demo_junk 0 point_args t = Inr (Some ptr, t') \<and>
    get_tuple demo_junk \<lparr>rid_pid = 2, slot_num = of_nat (slot_count (tpage 2 t))\<rparr> t' = Inr (Some s, t') \<and>
    getValue s (sql_column (point_columns ! 1)) \<lparr>st_name = ''points'', st_columns = map sql_column point_columns\<rparr> =
      Inr (PrimitiveValue_int IntegerPrimitiveType (- 4))"
proof -
  let ?schema = "\<lparr>st_name = ''points'', st_columns = map sql_column point_columns\<rparr>"
  from point_table obtain t where t: "table_ok demo_junk t" "1 \<in> tpages t" "2 \<in> tpages t" "heap_page_wf (tpage 2 t)"
    "free_bytes (tpage 2 t) = 4090" "check_schema (tpage 1 t) point_args = Inr True" by auto
  have row: "\<exists>ptr t' s. add_tuple demo_junk 0 point_args t = Inr (Some ptr, t') \<and>
    get_tuple demo_junk \<lparr>rid_pid = 2, slot_num = of_nat (slot_count (tpage 2 t))\<rparr> t' = Inr (Some s, t') \<and>
    (\<forall>i < length (column_types point_args).
       getValue s (st_columns ?schema ! i) ?schema = Inr (sql_value (column_values point_args ! i)))"
    by (rule stored_row_reads_back [OF t(1-4,6), where ty = INTEGER])
      (simp_all add: t(5) point_args_def point_columns_def sql_column_def)
  have one: "1 < length (column_types point_args)" "sql_value (column_values point_args ! 1) =
      PrimitiveValue_int IntegerPrimitiveType (- 4)" "st_columns ?schema ! 1 = sql_column (point_columns ! 1)"
    by (simp_all add: point_args_def point_columns_def)
  from row one(1) show ?thesis unfolding one(2,3) [symmetric] by blast
qed

end
