(* ===== verification/Logical_Expression.thy ===== *)
theory Logical_Expression
  imports Sql_Schema
begin

text \<open>
  \<^verbatim>\<open>src/sql/logical_expression.cpp\<close> and \<^verbatim>\<open>logical_expression.hpp\<close>: the expressions a query plan evaluates
  against a row. The type of an expression is the \<^verbatim>\<open>return_type\<close> of its object; a null reference is \<open>None\<close>.

  \<open>typed\<close> is the typing the planner relies on and \<open>int_value\<close> the mathematical value of an integer
  expression.
\<close>

section \<open>Expressions\<close>

datatype BinaryOpType = ADD | SUBTRACT | DIVIDE | MULTIPLY

datatype LogicalExpr =
    ConstantLogicalExpr PrimitiveValue
  | ColumnLogicalExpr (col_expr_name: string) (col_return_type: "PrimitiveType option")
  | BinaryLogicalExpr LogicalExpr LogicalExpr BinaryOpType

fun return_type :: "LogicalExpr \<Rightarrow> PrimitiveType option" where
  "return_type (ConstantLogicalExpr val) = Some (pv_type val)"
| "return_type (ColumnLogicalExpr name ret_type) = ret_type"
| "return_type (BinaryLogicalExpr l r op) = return_type l"

text \<open>The constructor of \<^verbatim>\<open>BinaryLogicalExpr\<close> passes \<^verbatim>\<open>{std::move(l), std::move(r)}\<close> and \<^verbatim>\<open>l->return_type\<close> to the
  base class. C++ does not fix which of the two is evaluated first; after the move \<^verbatim>\<open>l\<close> is null.\<close>

definition new_BinaryLogicalExpr :: "bool \<Rightarrow> LogicalExpr \<Rightarrow> LogicalExpr \<Rightarrow> BinaryOpType \<Rightarrow> LogicalExpr res" where
  "new_BinaryLogicalExpr moved_first l r op = (if moved_first then Inl NullDeref else Inr (BinaryLogicalExpr l r op))"

fun expr_toString :: "LogicalExpr \<Rightarrow> string" where
  "expr_toString (ConstantLogicalExpr val) = type_toString (pv_type val)"
| "expr_toString (ColumnLogicalExpr name ret_type) = ''Column: '' @ name"
| "expr_toString (BinaryLogicalExpr l r op) =
     expr_toString l @ (case op of ADD \<Rightarrow> ''+'' | SUBTRACT \<Rightarrow> ''-'' | MULTIPLY \<Rightarrow> ''*'' | DIVIDE \<Rightarrow> ''/'') @ expr_toString r"

definition Column_evaluate :: "string \<Rightarrow> bytes \<Rightarrow> SqlTable \<Rightarrow> PrimitiveValue res" where
  "Column_evaluate name row table =
     (case find (\<lambda>col. sc_name col = name) (st_columns table) of
        None \<Rightarrow> Inl (RuntimeError (''Column '' @ name @ '' not found in the schema''))
      | Some schema_col \<Rightarrow> getValue row schema_col table)"

fun apply_op :: "BinaryOpType \<Rightarrow> PrimitiveType \<Rightarrow> PrimitiveValue \<Rightarrow> PrimitiveValue \<Rightarrow> PrimitiveValue res" where
  "apply_op ADD = prim_add"
| "apply_op SUBTRACT = prim_subtract"
| "apply_op MULTIPLY = prim_multiply"
| "apply_op DIVIDE = prim_divide"

fun evaluate :: "LogicalExpr \<Rightarrow> bytes \<Rightarrow> SqlTable \<Rightarrow> PrimitiveValue res" where
  "evaluate (ConstantLogicalExpr val) row table = Inr val"
| "evaluate (ColumnLogicalExpr name ret_type) row table = Column_evaluate name row table"
| "evaluate (BinaryLogicalExpr l r op) row table =
     and_then (evaluate l row table) (\<lambda>lhs.
     and_then (evaluate r row table) (\<lambda>rhs.
       apply_op op (pv_type lhs) lhs rhs))"

section \<open>Types of expressions\<close>

definition column_typed :: "SqlTable \<Rightarrow> bytes \<Rightarrow> string \<Rightarrow> PrimitiveType \<Rightarrow> bool" where
  "column_typed table row name t \<longleftrightarrow>
     (\<exists>i. col_index name (st_columns table) = Some i \<and> data_type (st_columns table ! i) = Some t \<and>
          (i + 1) * getSize t \<le> length row)"

inductive typed :: "SqlTable \<Rightarrow> bytes \<Rightarrow> LogicalExpr \<Rightarrow> PrimitiveType \<Rightarrow> bool" for table row where
  typed_const: "well_tagged t v \<Longrightarrow> typed table row (ConstantLogicalExpr v) t"
| typed_col: "column_typed table row name t \<Longrightarrow> t \<noteq> VarcharPrimitiveType \<Longrightarrow>
    typed table row (ColumnLogicalExpr name (Some t)) t"
| typed_bin: "typed table row l t \<Longrightarrow> typed table row r t \<Longrightarrow>
    t = IntegerPrimitiveType \<or> t = DecimalPrimitiveType \<Longrightarrow> typed table row (BinaryLogicalExpr l r op) t"

inductive_cases typed_constE [elim!]: "typed table row (ConstantLogicalExpr v) t"
inductive_cases typed_colE [elim!]: "typed table row (ColumnLogicalExpr name rt) t"
inductive_cases typed_binE [elim!]: "typed table row (BinaryLogicalExpr l r op) t"

text \<open>What evaluating an expression of a type may give: a value of the type, or one of the two errors
  of arithmetic.\<close>

definition ends_with :: "string \<Rightarrow> string \<Rightarrow> bool" where
  "ends_with t s \<longleftrightarrow> (\<exists>p. s = p @ t)"

lemma ends_with_simps [simp]: "ends_with t (p @ t)" "ends_with t s \<Longrightarrow> ends_with t (c # s)"
  by (auto simp: ends_with_def intro: exI [of _ "c # _"])

definition safe_result :: "PrimitiveType \<Rightarrow> PrimitiveValue res \<Rightarrow> bool" where
  "safe_result t res \<longleftrightarrow>
     (case res of
        Inr v \<Rightarrow> well_tagged t v
      | Inl e \<Rightarrow> e = IntOverflow \<or> (\<exists>msg. e = RuntimeError msg \<and> ends_with '') may not be divided by zero'' msg))"

lemma safe_result_simps [simp]:
  "safe_result t (Inr v) \<longleftrightarrow> well_tagged t v"
  "safe_result t (Inl e) \<longleftrightarrow> e = IntOverflow \<or> (\<exists>msg. e = RuntimeError msg \<and> ends_with '') may not be divided by zero'' msg)"
  by (simp_all add: safe_result_def)

lemma safe_result_bind:
  assumes "safe_result t m" and "\<And>v. m = Inr v \<Longrightarrow> well_tagged t v \<Longrightarrow> safe_result t' (f v)"
  shows "safe_result t' (and_then m f)"
  using assms by (cases m) auto

lemma safe_int_result: "safe_result IntegerPrimitiveType (int_result i)"
  by (simp add: int_result_def)

lemma apply_op_safe:
  assumes "well_tagged t l" and "well_tagged t r" and "t = IntegerPrimitiveType \<or> t = DecimalPrimitiveType"
  shows "safe_result t (apply_op op t l r)"
  using assms(3)
proof
  assume t: "t = IntegerPrimitiveType"
  with assms obtain x y where "pv_value l = Integer x" "pv_value r = Integer y"
    using well_tagged_cases(3) by blast
  with t show ?thesis
    by (cases op) (auto simp: arith_defs on_members_def safe_int_result)
next
  assume t: "t = DecimalPrimitiveType"
  with assms obtain x y where "pv_value l = Decimal x" "pv_value r = Decimal y"
    using well_tagged_cases(4) by blast
  with t show ?thesis
    by (cases op) (auto simp: arith_defs on_members_def)
qed

lemma find_col_index:
  "find (\<lambda>c. sc_name c = nm) cs = map_option (\<lambda>i. cs ! i) (col_index nm cs)"
  by (induction cs) (auto simp: option.map_comp comp_def)

lemma deserialize_typed:
  assumes "getSize t \<le> length buf" and "t \<noteq> VarcharPrimitiveType"
  shows "\<exists>v. type_deserialize t buf = Inr v \<and> well_tagged t v"
proof (cases t)
  case IntegerPrimitiveType
  with assms(1) obtain i where "decode_uint32 buf = Inr i"
    by (cases buf rule: decode_uint32.cases) (simp_all add: prim_defs)
  then show ?thesis using IntegerPrimitiveType by (simp add: Integer_deserialize_def decode_int32_def)
next
  case DecimalPrimitiveType
  with assms(1) obtain d where "decode_double buf = Inr d"
    by (cases buf rule: decode_double.cases) (simp_all add: prim_defs)
  then show ?thesis using DecimalPrimitiveType by (simp add: Decimal_deserialize_def)
qed (use assms in \<open>auto simp: Boolean_deserialize_def byte_at_def Boolean_getSize_def\<close>)

lemma Column_evaluate_typed:
  assumes "column_typed table row name t" and "t \<noteq> VarcharPrimitiveType" and "length (st_columns table) < 2 ^ 22"
  shows "\<exists>v. Column_evaluate name row table = Inr v \<and> well_tagged t v"
proof -
  from assms(1) obtain i where i: "col_index name (st_columns table) = Some i"
    "data_type (st_columns table ! i) = Some t" "(i + 1) * getSize t \<le> length row"
    by (auto simp: column_typed_def)
  have nm: "sc_name (st_columns table ! i) = name" using col_index_Some [OF i(1)] by simp
  have "getSize t \<le> length (drop (i * getSize t) row)" using i(3) by simp
  from deserialize_typed [OF this assms(2)] show ?thesis
    using getValue_loop_index [OF i(2), of 0 "st_columns table" row] assms(3) i(1) nm
    by (simp add: Column_evaluate_def find_col_index getValue_def)
qed

section \<open>The mathematical value of integer expressions\<close>

definition in_i32 :: "int \<Rightarrow> bool" where
  "in_i32 i \<longleftrightarrow> - (2 ^ 31) \<le> i \<and> i < 2 ^ 31"

fun int_op :: "BinaryOpType \<Rightarrow> int \<Rightarrow> int \<Rightarrow> int option" where
  "int_op ADD x y = Some (x + y)"
| "int_op SUBTRACT x y = Some (x - y)"
| "int_op MULTIPLY x y = Some (x * y)"
| "int_op DIVIDE x y = (if y = 0 then None else Some (x sdiv y))"

text \<open>\<open>env\<close> gives the values of the columns; every intermediate result has to fit 32 bits.\<close>

fun int_value :: "(string \<Rightarrow> int option) \<Rightarrow> LogicalExpr \<Rightarrow> int option" where
  "int_value env (ConstantLogicalExpr v) = (case pv_value v of Integer i \<Rightarrow> Some (sint i) | _ \<Rightarrow> None)"
| "int_value env (ColumnLogicalExpr name rt) = env name"
| "int_value env (BinaryLogicalExpr l r op) =
     (case (int_value env l, int_value env r) of
        (Some x, Some y) \<Rightarrow> (case int_op op x y of Some z \<Rightarrow> (if in_i32 z then Some z else None) | None \<Rightarrow> None)
      | _ \<Rightarrow> None)"

definition int_columns :: "bytes \<Rightarrow> SqlTable \<Rightarrow> (string \<Rightarrow> int option) \<Rightarrow> bool" where
  "int_columns row table env \<longleftrightarrow>
     (\<forall>name i. env name = Some i \<longrightarrow>
        (\<exists>w. Column_evaluate name row table = Inr (PrimitiveValue_int IntegerPrimitiveType w) \<and> sint w = i))"

fun int_constants :: "LogicalExpr \<Rightarrow> bool" where
  "int_constants (ConstantLogicalExpr v) \<longleftrightarrow> (\<exists>w. v = PrimitiveValue_int IntegerPrimitiveType w)"
| "int_constants (ColumnLogicalExpr name rt) \<longleftrightarrow> True"
| "int_constants (BinaryLogicalExpr l r op) \<longleftrightarrow> int_constants l \<and> int_constants r"

lemma int_result_fits: "in_i32 i \<Longrightarrow> \<exists>w. int_result i = Inr (PrimitiveValue_int IntegerPrimitiveType w) \<and> sint w = i"
  by (rule exI [of _ "word_of_int i"]) (simp add: int_result_def in_i32_def signed_of_int signed_take_bit_int_eq_self)

lemma apply_op_int:
  assumes "int_op op (sint x) (sint y) = Some z" and "in_i32 z"
  shows "\<exists>w. apply_op op IntegerPrimitiveType (PrimitiveValue_int IntegerPrimitiveType x)
      (PrimitiveValue_int IntegerPrimitiveType y) = Inr (PrimitiveValue_int IntegerPrimitiveType w) \<and> sint w = z"
  using assms int_result_fits [OF assms(2)]
  by (cases op) (auto simp: arith_defs on_members_def PrimitiveValue_int_def split: if_splits)

lemma evaluate_typed_safe:
  assumes "length (st_columns table) < 2 ^ 22"
  shows "typed table row e t \<Longrightarrow> safe_result t (evaluate e row table)"
proof (induction rule: typed.induct)
  case (typed_col name t)
  then show ?case using Column_evaluate_typed [OF _ _ assms] by fastforce
next
  case (typed_bin l t r op)
  show ?case unfolding evaluate.simps
  proof (rule safe_result_bind [OF typed_bin.IH(1)])
    fix v assume v: "well_tagged t v"
    show "safe_result t (and_then (evaluate r row table) (apply_op op (pv_type v) v))"
      using typed_bin v by (intro safe_result_bind [OF typed_bin.IH(2)]) (auto simp: well_tagged_def apply_op_safe)
  qed
qed simp

lemma evaluate_int_value:
  assumes "int_columns row table env"
  shows "int_constants e \<Longrightarrow> int_value env e = Some i \<Longrightarrow>
    \<exists>w. evaluate e row table = Inr (PrimitiveValue_int IntegerPrimitiveType w) \<and> sint w = i"
proof (induction e arbitrary: i)
  case (ConstantLogicalExpr v)
  then show ?case by (auto simp: PrimitiveValue_int_def)
next
  case (ColumnLogicalExpr name rt)
  then show ?case using assms by (simp add: int_columns_def)
next
  case (BinaryLogicalExpr l r op)
  from BinaryLogicalExpr.prems obtain x y where xy: "int_value env l = Some x" "int_value env r = Some y"
    and z: "int_op op x y = Some i" "in_i32 i"
    by (auto split: option.splits if_splits)
  from BinaryLogicalExpr.IH(1) [OF _ xy(1)] BinaryLogicalExpr.IH(2) [OF _ xy(2)] BinaryLogicalExpr.prems(1)
  obtain a b where a: "evaluate l row table = Inr (PrimitiveValue_int IntegerPrimitiveType a)" "sint a = x"
    and b: "evaluate r row table = Inr (PrimitiveValue_int IntegerPrimitiveType b)" "sint b = y" by auto
  show ?case
    using apply_op_int [of op a b i] z a b by (simp add: PrimitiveValue_int_def)
qed

section \<open>Properties\<close>

definition demo_schema :: SqlTable where
  "demo_schema = \<lparr>st_name = ''t'', st_columns =
     [\<lparr>sc_name = ''a'', data_type = Some IntegerPrimitiveType\<rparr>, \<lparr>sc_name = ''b'', data_type = Some IntegerPrimitiveType\<rparr>]\<rparr>"

definition demo_row :: bytes where
  "demo_row = encode_int32 12 @ encode_int32 (- 5)"

definition demo_expr :: LogicalExpr where
  "demo_expr = BinaryLogicalExpr (ColumnLogicalExpr ''a'' (Some IntegerPrimitiveType))
     (BinaryLogicalExpr (ColumnLogicalExpr ''b'' (Some IntegerPrimitiveType))
        (ConstantLogicalExpr (PrimitiveValue_int IntegerPrimitiveType 3)) MULTIPLY) ADD"

text \<open>
  C18. Well-typed expressions do not go wrong: evaluating an expression whose operands have one numeric
  type, over a row that holds its columns, gives a value of that type, or fails with signed overflow or
  with the exception for a division by zero. No member of the union is misread, no assertion fails and no
  null type is followed.
\<close>

theorem evaluation_is_type_safe:
  assumes "typed table row e t" and "length (st_columns table) < 2 ^ 22"
  shows "safe_result t (evaluate e row table)"
  using assms by (simp add: evaluate_typed_safe)

theorem evaluation_is_type_safe_witness:
  "safe_result IntegerPrimitiveType (evaluate demo_expr demo_row demo_schema)"
proof -
  have "typed demo_schema demo_row demo_expr IntegerPrimitiveType"
    unfolding demo_expr_def
    by (intro typed.intros) (auto simp: column_typed_def demo_schema_def demo_row_def prim_defs well_tagged_def)
  then show ?thesis using evaluation_is_type_safe [of demo_schema demo_row demo_expr IntegerPrimitiveType]
    by (simp add: demo_schema_def)
qed

text \<open>
  C10. Integer expressions compute their mathematical value: when every intermediate result fits 32 bits
  and no divisor is zero, \<^verbatim>\<open>evaluate\<close> returns the integer that the expression denotes over unbounded integers,
  with division truncated towards zero.
\<close>

theorem evaluate_refines_integers:
  assumes "int_columns row table env" and "int_constants e" and "int_value env e = Some i"
  shows "\<exists>w. evaluate e row table = Inr (PrimitiveValue_int IntegerPrimitiveType w) \<and> sint w = i"
  using assms by (rule evaluate_int_value)

theorem evaluate_refines_integers_witness:
  "\<exists>w. evaluate demo_expr demo_row demo_schema = Inr (PrimitiveValue_int IntegerPrimitiveType w) \<and> sint w = - 3"
proof (rule evaluate_refines_integers [where env = "[''a'' \<mapsto> 12, ''b'' \<mapsto> - 5]"])
  show "int_columns demo_row demo_schema [''a'' \<mapsto> 12, ''b'' \<mapsto> - 5]"
    by (auto simp: int_columns_def Column_evaluate_def demo_schema_def demo_row_def getValue_def type_of_col_def
        Integer_deserialize_def Integer_getSize_def i32c.decode_enc i32c.decode_enc_exact split: if_splits)
  show "int_constants demo_expr" by (auto simp: demo_expr_def)
  show "int_value [''a'' \<mapsto> 12, ''b'' \<mapsto> - 5] demo_expr = Some (- 3)"
    by (simp add: demo_expr_def PrimitiveValue_int_def in_i32_def)
qed

end
