(* ===== verification/Logical_Plan.thy ===== *)
theory Logical_Plan
  imports Logical_Expression
begin

text \<open>
  \<^verbatim>\<open>src/sql/logical_plan.cpp\<close> and \<^verbatim>\<open>logical_plan.hpp\<close>: the operators of a query plan. \<open>None\<close> is a null
  \<^verbatim>\<open>LogicalOperatorRef\<close>, which an operator has after its input was moved out. The only access method with a
  schema is \<^verbatim>\<open>HeapfileAccess\<close>, given by its path; asking for a schema reads the schema page.
\<close>

section \<open>Operators\<close>

datatype AggregateOperator = COUNT | AVG | SUM | MIN | MAX

type_synonym column_expr = "string \<times> PrimitiveType option" \<comment> \<open>a \<^verbatim>\<open>ColumnLogicalExpr\<close>\<close>

datatype LogicalOperator =
    LogicalScan string
  | LogicalSelection "LogicalOperator option" LogicalExpr
  | LogicalProjection "LogicalOperator option" "column_expr list"
  | LogicalAggregation "LogicalOperator option" column_expr column_expr AggregateOperator

definition projected :: "column_expr \<Rightarrow> SqlColumn" where
  "projected c = \<lparr>sc_name = fst c, data_type = snd c\<rparr>"

definition Projection_schema :: "column_expr list \<Rightarrow> SqlTable \<Rightarrow> SqlTable" where
  "Projection_schema proj_cols t = \<lparr>st_name = st_name t, st_columns = map projected proj_cols\<rparr>"

definition Aggregation_schema :: "column_expr \<Rightarrow> column_expr \<Rightarrow> SqlTable \<Rightarrow> SqlTable" where
  "Aggregation_schema aggr_col group_col t = \<lparr>st_name = st_name t, st_columns = [projected aggr_col, projected group_col]\<rparr>"

fun plan_schema :: "bytes \<Rightarrow> LogicalOperator \<Rightarrow> fs \<Rightarrow> (SqlTable \<times> fs) res" where
  "plan_schema junk (LogicalScan path) files = HeapfileAccess_schema junk path files"
| "plan_schema junk (LogicalSelection (Some inp) e) files = plan_schema junk inp files"
| "plan_schema junk (LogicalProjection (Some inp) proj_cols) files =
     and_then (plan_schema junk inp files) (\<lambda>(t, files). Inr (Projection_schema proj_cols t, files))"
| "plan_schema junk (LogicalAggregation (Some inp) aggr_col group_col agg_op) files =
     and_then (plan_schema junk inp files) (\<lambda>(t, files). Inr (Aggregation_schema aggr_col group_col t, files))"
| "plan_schema junk _ files = Inl NullDeref"

fun op_toString :: "bytes \<Rightarrow> LogicalOperator \<Rightarrow> fs \<Rightarrow> (string \<times> fs) res" where
  "op_toString junk (LogicalScan path) files =
     and_then (HeapfileAccess_schema junk path files) (\<lambda>(t, files). Inr (''Scan: '' @ st_name t, files))"
| "op_toString junk (LogicalSelection inp e) files = Inr (''Select: '' @ expr_toString e, files)"
| "op_toString junk (LogicalProjection inp proj_cols) files =
     Inr (''Projection: '' @ concat (map (\<lambda>(name, rt). expr_toString (ColumnLogicalExpr name rt) @ [CHR 0x09]) proj_cols), files)"
| "op_toString junk (LogicalAggregation inp aggr_col group_col agg_op) files =
     Inr (''Aggregate: groupCol: '' @ fst group_col @ '' aggregateCol: '' @ fst aggr_col, files)"

text \<open>\<^verbatim>\<open>children\<close> moves the input into the returned vector: the operator loses it.\<close>

fun children :: "LogicalOperator \<Rightarrow> LogicalOperator option list \<times> LogicalOperator" where
  "children (LogicalScan path) = ([], LogicalScan path)"
| "children (LogicalSelection inp e) = ([inp], LogicalSelection None e)"
| "children (LogicalProjection inp cs) = ([inp], LogicalProjection None cs)"
| "children (LogicalAggregation inp a g op) = ([inp], LogicalAggregation None a g op)"

text \<open>The loop of \<^verbatim>\<open>pretty\<close> calls \<^verbatim>\<open>children\<close> in its condition and again in its body; the vector of the
  condition is destroyed, and the inputs in it. The first argument is the recursive call.\<close>

primrec pretty_loop :: "nat \<Rightarrow> (LogicalOperator option \<Rightarrow> fs \<Rightarrow> (string \<times> fs) res) \<Rightarrow> LogicalOperator \<Rightarrow> nat \<Rightarrow> fs \<Rightarrow>
    (string \<times> fs) res" where
  "pretty_loop 0 rec op j files = Inl Diverges"
| "pretty_loop (Suc fuel) rec op j files =
     (let (cond, op) = children op in
      if j < length cond then
        let (ch, op) = children op in
        if j < length ch then
          and_then (rec (ch ! j) files) (\<lambda>(s, files).
          and_then (pretty_loop fuel rec op (Suc j) files) (\<lambda>(rest, files). Inr (s @ rest, files)))
        else Inl StdOutOfRange
      else Inr ([], files))"

primrec pretty :: "nat \<Rightarrow> bytes \<Rightarrow> LogicalOperator option \<Rightarrow> nat \<Rightarrow> fs \<Rightarrow> (string \<times> fs) res" where
  "pretty 0 junk op indent files = Inl Diverges"
| "pretty (Suc fuel) junk op indent files =
     (case op of
        None \<Rightarrow> Inl NullDeref
      | Some op \<Rightarrow>
          and_then (op_toString junk op files) (\<lambda>(s, files).
          and_then (pretty_loop 2 (\<lambda>c. pretty fuel junk c (indent + 1)) op 0 files) (\<lambda>(rest, files).
            Inr ([CHR 0x0A] @ replicate indent (CHR 0x09) @ s @ rest, files))))"

section \<open>The schema of a plan\<close>

text \<open>A plan that still has all of its inputs, the table it scans, and the columns it yields.\<close>

fun complete :: "LogicalOperator \<Rightarrow> bool" where
  "complete (LogicalScan path) \<longleftrightarrow> True"
| "complete (LogicalSelection (Some inp) e) \<longleftrightarrow> complete inp"
| "complete (LogicalProjection (Some inp) cs) \<longleftrightarrow> complete inp"
| "complete (LogicalAggregation (Some inp) a g op) \<longleftrightarrow> complete inp"
| "complete _ \<longleftrightarrow> False"

fun scanned :: "LogicalOperator \<Rightarrow> string" where
  "scanned (LogicalScan path) = path"
| "scanned (LogicalSelection (Some inp) e) = scanned inp"
| "scanned (LogicalProjection (Some inp) cs) = scanned inp"
| "scanned (LogicalAggregation (Some inp) a g op) = scanned inp"
| "scanned _ = []"

fun output_columns :: "LogicalOperator \<Rightarrow> SqlColumn list \<Rightarrow> SqlColumn list" where
  "output_columns (LogicalProjection inp cs) cols = map projected cs"
| "output_columns (LogicalAggregation inp a g op) cols = [projected a, projected g]"
| "output_columns (LogicalSelection (Some inp) e) cols = output_columns inp cols"
| "output_columns _ cols = cols"

lemma plan_schema_complete:
  "complete op \<Longrightarrow> plan_schema junk op files =
     and_then (HeapfileAccess_schema junk (scanned op) files) (\<lambda>(t, files).
       Inr (\<lparr>st_name = st_name t, st_columns = output_columns op (st_columns t)\<rparr>, files))"
proof (induction op rule: complete.induct)
  case (1 path)
  then show ?case by (cases "HeapfileAccess_schema junk path files") auto
next
  case (3 inp cs)
  then show ?case by (cases "HeapfileAccess_schema junk (scanned inp) files") (auto simp: Projection_schema_def Aggregation_schema_def)
next
  case (4 inp a g op)
  then show ?case by (cases "HeapfileAccess_schema junk (scanned inp) files") (auto simp: Projection_schema_def Aggregation_schema_def)
qed auto

lemma plan_schema_incomplete: "\<not> complete op \<Longrightarrow> plan_schema junk op files = Inl NullDeref"
  by (induction op rule: complete.induct) auto

section \<open>Properties\<close>

text \<open>
  The schema of a plan: a complete plan has the schema of the table it scans, cut down to the columns
  of its outermost projection or aggregation, and asking for it fails exactly as the scan does; a plan
  that lost an input dereferences a null pointer.
\<close>

lemma plan_schema_is_scan_schema:
  "plan_schema junk op files =
     (if complete op then
        and_then (HeapfileAccess_schema junk (scanned op) files) (\<lambda>(t, files).
          Inr (\<lparr>st_name = st_name t, st_columns = output_columns op (st_columns t)\<rparr>, files))
      else Inl NullDeref)"
  using plan_schema_complete plan_schema_incomplete by simp

text \<open>
  Printing a plan works for a bare scan only: for every other operator \<^verbatim>\<open>pretty\<close> destroys the input in
  the condition of its loop and then follows the null pointer that is left.
\<close>

lemma pretty_crashes_on_inputs:
  "pretty (Suc (Suc fuel)) junk (Some op) indent files =
     (case op of
        LogicalScan path \<Rightarrow>
          and_then (HeapfileAccess_schema junk path files) (\<lambda>(t, files).
            Inr ([CHR 0x0A] @ replicate indent (CHR 0x09) @ ''Scan: '' @ st_name t, files))
      | _ \<Rightarrow> Inl NullDeref)"
proof -
  have "pretty (Suc fuel) junk None i f = Inl NullDeref" for i f by simp
  moreover have "pretty_loop 2 rec (LogicalScan path) 0 f = Inr ([], f)" for rec path f
    by (simp add: numeral_2_eq_2)
  ultimately show ?thesis
    by (cases op; cases "op_toString junk op files")
      (auto simp: numeral_2_eq_2 and_then_assoc and_then_def split: sum.splits prod.splits)
qed

end
