(* ===== verification/Buffer_Pool.thy ===== *)
theory Buffer_Pool
  imports Clock_Replacer Heapfile
begin

text \<open>
  \<^verbatim>\<open>src/disk/bpm.c\<close> and \<^verbatim>\<open>bpm.h\<close>: the buffer pool. A \<open>Pool\<close> is what the operations work on: the C heap, the
  files and the manager. A pointer to a page of the pool is the number of its frame; \<open>None\<close> is the null
  pointer. The page table maps the decimal string of a page number to a heap cell with the frame number.

  \<open>pool_wf\<close> is the invariant of the manager together with the frames the replacer tracks.
\<close>

section \<open>State\<close>

record BpmPage =
  bp_data :: bytes
  bp_id :: page_id_t
  pin_count :: int
  is_dirty :: bool

record BufferPoolManager =
  pool_size :: nat
  bpages :: "BpmPage list"
  page_table :: HashTable
  free_list :: "bool list"
  replacer :: ClockReplacer
  disk_manager :: DiskManager

record Pool =
  p_mem :: cmem
  p_files :: fs
  p_bpm :: BufferPoolManager

section \<open>Operations\<close>

definition new_bpm :: "nat \<Rightarrow> DiskManager \<Rightarrow> BufferPoolManager" where
  "new_bpm n dm =
     \<lparr>pool_size = n,
      bpages = replicate n \<lparr>bp_data = replicate PAGE_SIZE 0, bp_id = 0, pin_count = 0, is_dirty = False\<rparr>,
      page_table = init_hash (of_nat n),
      free_list = replicate n True,
      replacer = clock_replacer_init n,
      disk_manager = dm\<rparr>"

text \<open>The key buffer has five bytes.\<close>

definition add_to_pagetable :: "page_id_t \<Rightarrow> addr \<Rightarrow> Pool \<Rightarrow> Pool res" where
  "add_to_pagetable key val st =
     and_then (sprintf_u 5 key) (\<lambda>s.
       let (key_str, m) = malloc (CStr s) (p_mem st) in
       and_then (hash_insert (Some key_str) (Some val) m (page_table (p_bpm st))) (\<lambda>pt.
         Inr (st\<lparr>p_mem := m, p_bpm := (p_bpm st)\<lparr>page_table := pt\<rparr>\<rparr>)))"

definition page_at :: "frame_id_t \<Rightarrow> Pool \<Rightarrow> BpmPage res" where
  "page_at fid st =
     (if unat fid < length (bpages (p_bpm st)) then Inr (bpages (p_bpm st) ! unat fid) else Inl OutOfBounds)"

definition set_page :: "frame_id_t \<Rightarrow> BpmPage \<Rightarrow> Pool \<Rightarrow> Pool" where
  "set_page fid page st = st\<lparr>p_bpm := (p_bpm st)\<lparr>bpages := (bpages (p_bpm st))[unat fid := page]\<rparr>\<rparr>"

definition set_free :: "frame_id_t \<Rightarrow> bool \<Rightarrow> Pool \<Rightarrow> Pool res" where
  "set_free fid b st =
     (if unat fid < length (free_list (p_bpm st))
      then Inr (st\<lparr>p_bpm := (p_bpm st)\<lparr>free_list := (free_list (p_bpm st))[unat fid := b]\<rparr>\<rparr>)
      else Inl OutOfBounds)"

definition frame_cell :: "addr \<Rightarrow> cmem \<Rightarrow> frame_id_t res" where
  "frame_cell a m = and_then (deref (Some a) m) as_u32"

definition page_entry :: "string \<Rightarrow> Pool \<Rightarrow> HashEl option res" where
  "page_entry pid_str st = hash_find pid_str (p_mem st) (page_table (p_bpm st))"

text \<open>Calls into the replacer.\<close>

definition pool_pin :: "frame_id_t \<Rightarrow> Pool \<Rightarrow> Pool res" where
  "pool_pin fid st =
     and_then (clock_replacer_pin fid (p_mem st) (replacer (p_bpm st))) (\<lambda>(m, r).
       Inr (st\<lparr>p_mem := m, p_bpm := (p_bpm st)\<lparr>replacer := r\<rparr>\<rparr>))"

definition pool_unpin :: "frame_id_t \<Rightarrow> Pool \<Rightarrow> Pool res" where
  "pool_unpin fid st =
     and_then (clock_replacer_unpin fid (p_mem st) (replacer (p_bpm st))) (\<lambda>(m, r).
       Inr (st\<lparr>p_mem := m, p_bpm := (p_bpm st)\<lparr>replacer := r\<rparr>\<rparr>))"

definition pool_evict :: "Pool \<Rightarrow> (frame_id_t \<times> Pool) res" where
  "pool_evict st =
     and_then (evict (p_mem st) (replacer (p_bpm st))) (\<lambda>(fid, m, r).
       Inr (fid, st\<lparr>p_mem := m, p_bpm := (p_bpm st)\<lparr>replacer := r\<rparr>\<rparr>))"

text \<open>\<^verbatim>\<open>fid\<close> points into the page table's entry and is read again after the entry was removed.\<close>

definition flush_page :: "page_id_t \<Rightarrow> Pool \<Rightarrow> (bool \<times> Pool) res" where
  "flush_page page_id st =
     and_then (sprintf_d 11 page_id) (\<lambda>pid_str.
     and_then (page_entry pid_str st) (\<lambda>entry.
       case entry of
         None \<Rightarrow> Inr (False, st)
       | Some e \<Rightarrow>
           and_then (frame_cell (el_data e) (p_mem st)) (\<lambda>f.
           and_then (page_at f st) (\<lambda>page.
           and_then (write_page page_id (disk_manager (p_bpm st)) (bp_data page) (p_files st)) (\<lambda>files.
           and_then (hash_remove pid_str (p_mem st) (page_table (p_bpm st))) (\<lambda>(ok, m, pt).
             let st = st\<lparr>p_mem := m, p_files := files, p_bpm := (p_bpm st)\<lparr>page_table := pt\<rparr>\<rparr> in
             and_then (frame_cell (el_data e) m) (\<lambda>f.
             and_then (set_free f True st) (\<lambda>st.
             and_then (pool_unpin f st) (\<lambda>st.
               Inr (True, st))))))))))"

text \<open>The first free frame, if there is one.\<close>

fun free_frame :: "bool list \<Rightarrow> nat \<Rightarrow> nat option" where
  "free_frame [] i = None"
| "free_frame (b # bs) i = (if b then Some i else free_frame bs (Suc i))"

text \<open>The frame a new page goes to, \<^verbatim>\<open>UINT32_MAX\<close> for none. A dirty victim is flushed by the number of its
  frame, not of its page.\<close>

definition find_frame :: "Pool \<Rightarrow> (frame_id_t \<times> Pool) res" where
  "find_frame st =
     (case free_frame (take (pool_size (p_bpm st)) (free_list (p_bpm st))) 0 of
        Some i \<Rightarrow> and_then (set_free (of_nat i) False st) (\<lambda>st. Inr (of_nat i, st))
      | None \<Rightarrow>
          and_then (pool_evict st) (\<lambda>(fid, st).
            if fid = UINT32_MAX then Inr (fid, st)
            else
              and_then (page_at fid st) (\<lambda>page.
                if is_dirty page then and_then (flush_page fid st) (\<lambda>(ok, st). Inr (fid, st))
                else Inr (fid, st))))"

definition new_bpm_page :: "page_id_t \<Rightarrow> Pool \<Rightarrow> (frame_id_t option \<times> Pool) res" where
  "new_bpm_page pid st =
     and_then (sprintf_d 11 pid) (\<lambda>pid_str.
     and_then (page_entry pid_str st) (\<lambda>found.
       case found of
         Some e \<Rightarrow> and_then (frame_cell (el_data e) (p_mem st)) (\<lambda>fidx. Inr (Some fidx, st))
       | None \<Rightarrow>
           let (fid, m) = malloc (CU32 UINT32_MAX) (p_mem st) in
           and_then (find_frame (st\<lparr>p_mem := m\<rparr>)) (\<lambda>(f, st).
             let st = st\<lparr>p_mem := (p_mem st)\<lparr>cells := (cells (p_mem st))(fid \<mapsto> CU32 f)\<rparr>\<rparr> in
             if f = UINT32_MAX then Inr (None, st)
             else
               and_then (page_at f st) (\<lambda>_.
               let st = set_page f \<lparr>bp_data = replicate PAGE_SIZE 0, bp_id = pid, pin_count = 1, is_dirty = False\<rparr> st in
               and_then (add_to_pagetable pid fid st) (\<lambda>st.
               and_then (pool_pin f st) (\<lambda>st.
                 Inr (Some f, st)))))))"

definition new_disk_page :: "bytes \<Rightarrow> PageType \<Rightarrow> Pool \<Rightarrow> (page_id_t \<times> Pool) res" where
  "new_disk_page junk type st =
     (case type of
        HEAP_PAGE \<Rightarrow>
          and_then (new_heap_page junk \<lparr>t_mem = p_mem st, t_dm = disk_manager (p_bpm st), t_files = p_files st\<rparr>) (\<lambda>(pid, t).
            Inr (pid, st\<lparr>p_mem := t_mem t, p_files := t_files t, p_bpm := (p_bpm st)\<lparr>disk_manager := t_dm t\<rparr>\<rparr>))
      | BTREE_INDEX_PAGE \<Rightarrow>
          and_then (new_btree_index_page junk (disk_manager (p_bpm st)) False (p_files st)) (\<lambda>(pid, files).
            Inr (pid, st\<lparr>p_files := files\<rparr>))
      | INVALID \<Rightarrow> Inl AssertFail)"

text \<open>The loop that waits for a frame.\<close>

primrec allocate_loop :: "nat \<Rightarrow> page_id_t \<Rightarrow> Pool \<Rightarrow> (frame_id_t \<times> Pool) res" where
  "allocate_loop 0 pid st = Inl Diverges"
| "allocate_loop (Suc fuel) pid st =
     and_then (new_bpm_page pid st) (\<lambda>(p, st).
       case p of Some f \<Rightarrow> Inr (f, st) | None \<Rightarrow> allocate_loop fuel pid st)"

definition allocate_new_page :: "nat \<Rightarrow> bytes \<Rightarrow> PageType \<Rightarrow> Pool \<Rightarrow> (frame_id_t \<times> Pool) res" where
  "allocate_new_page fuel junk type st =
     and_then (new_disk_page junk type st) (\<lambda>(pid, st). allocate_loop fuel pid st)"

definition unpin_page :: "page_id_t \<Rightarrow> bool \<Rightarrow> Pool \<Rightarrow> (bool \<times> Pool) res" where
  "unpin_page page_id dirty st =
     and_then (sprintf_d 15 page_id) (\<lambda>pid_str.
     and_then (page_entry pid_str st) (\<lambda>el.
       case el of
         None \<Rightarrow> Inr (False, st)
       | Some e \<Rightarrow>
           and_then (frame_cell (el_data e) (p_mem st)) (\<lambda>f.
           and_then (page_at f st) (\<lambda>page.
             if pin_count page = 0 then Inr (False, st)
             else
               and_then (guard IntOverflow (- (2 ^ 31) < pin_count page)) (\<lambda>_.
               let page = page\<lparr>is_dirty := dirty, pin_count := pin_count page - 1\<rparr>; st = set_page f page st in
               if pin_count page = 0 then and_then (pool_unpin f st) (\<lambda>st. Inr (True, st))
               else Inr (True, st))))))"

definition write_to_frame :: "frame_id_t \<Rightarrow> bytes \<Rightarrow> Pool \<Rightarrow> Pool res" where
  "write_to_frame fid data st =
     and_then (page_at fid st) (\<lambda>page.
     and_then (load 0 PAGE_SIZE data) (\<lambda>d.
       Inr (set_page fid (page\<lparr>bp_data := d, is_dirty := True\<rparr>) st)))"

definition add_pin :: "frame_id_t \<Rightarrow> Pool \<Rightarrow> Pool res" where
  "add_pin fid st =
     and_then (page_at fid st) (\<lambda>page.
     and_then (guard IntOverflow (pin_count page < 2 ^ 31 - 1)) (\<lambda>_.
       Inr (set_page fid (page\<lparr>pin_count := pin_count page + 1\<rparr>) st)))"

definition fetch_bpm_page :: "bytes \<Rightarrow> page_id_t \<Rightarrow> Pool \<Rightarrow> (frame_id_t \<times> Pool) res" where
  "fetch_bpm_page junk page_id st =
     and_then (sprintf_d 11 page_id) (\<lambda>pid_str.
     and_then (page_entry pid_str st) (\<lambda>entry.
       case entry of
         Some e \<Rightarrow>
           and_then (frame_cell (el_data e) (p_mem st)) (\<lambda>fid.
           and_then (add_pin fid st) (\<lambda>st. Inr (fid, st)))
       | None \<Rightarrow>
           and_then (new_bpm_page page_id st) (\<lambda>(newp, st).
           and_then (page_entry pid_str st) (\<lambda>entry.
             case entry of
               None \<Rightarrow> Inl NullDeref
             | Some e \<Rightarrow>
                 and_then (frame_cell (el_data e) (p_mem st)) (\<lambda>fid.
                 and_then (add_pin fid st) (\<lambda>st.
                 and_then (read_page junk page_id (disk_manager (p_bpm st)) (p_files st)) (\<lambda>(data, files).
                   case newp of
                     None \<Rightarrow> Inl NullDeref
                   | Some f \<Rightarrow>
                       and_then (page_at f st) (\<lambda>page.
                         Inr (f, set_page f (page\<lparr>bp_data := data\<rparr>) (st\<lparr>p_files := files\<rparr>))))))))))"

section \<open>The page table\<close>

definition pt_entry :: "cmem \<Rightarrow> nat \<Rightarrow> nat \<Rightarrow> HashEl \<Rightarrow> bool" where
  "pt_entry m n i e \<longleftrightarrow>
     (\<exists>p f. el_str m e = dec p \<and> p < 10000 \<and> p mod n = i \<and> cells m (el_data e) = Some (CU32 f) \<and> unat f < n)"

definition pt_ok :: "nat \<Rightarrow> cmem \<Rightarrow> HashTable \<Rightarrow> bool" where
  "pt_ok n m pt \<longleftrightarrow>
     table_wf m pt \<and> unat (ht_size pt) = n \<and>
     (\<forall>i < n. list_all (pt_entry m n i) (ht_arr pt ! i) \<and> distinct (map (el_str m) (ht_arr pt ! i)))"

definition bucket_of :: "HashTable \<Rightarrow> nat \<Rightarrow> HashEl list" where
  "bucket_of pt p = ht_arr pt ! (p mod unat (ht_size pt))"

definition pt_find :: "cmem \<Rightarrow> HashTable \<Rightarrow> nat \<Rightarrow> HashEl option" where
  "pt_find m pt p = find (\<lambda>e. el_str m e = dec p) (bucket_of pt p)"

text \<open>The frame that holds page \<open>p\<close>.\<close>

definition frame_of :: "cmem \<Rightarrow> HashTable \<Rightarrow> nat \<Rightarrow> frame_id_t option" where
  "frame_of m pt p =
     (case pt_find m pt p of
        None \<Rightarrow> None
      | Some e \<Rightarrow> (case cells m (el_data e) of Some (CU32 f) \<Rightarrow> Some f | _ \<Rightarrow> None))"

definition pt_addrs :: "HashTable \<Rightarrow> addr set" where
  "pt_addrs pt = (\<Union>b \<in> set (ht_arr pt). el_key ` set b \<union> el_data ` set b)"

lemma pt_ok_bucket:
  assumes "pt_ok n m pt"
  shows "p mod n < length (ht_arr pt)" and "bucket_of pt p \<in> set (ht_arr pt)"
    and "e \<in> set (bucket_of pt p) \<Longrightarrow> pt_entry m n (p mod n) e"
    and "list_all (live_el m) (bucket_of pt p)" and "0 < n" and "bucket_of pt p = ht_arr pt ! (p mod n)"
    and "distinct (map (el_str m) (bucket_of pt p))"
proof -
  have len: "length (ht_arr pt) = n" and n: "unat (ht_size pt) = n" and sz: "ht_size pt \<noteq> 0"
    using assms by (simp_all add: pt_ok_def table_wf_def)
  show pos: "0 < n" using unat_nonzero [OF sz] n by simp
  then show lt: "p mod n < length (ht_arr pt)" using len by simp
  show b: "bucket_of pt p = ht_arr pt ! (p mod n)" by (simp add: bucket_of_def n)
  show mem: "bucket_of pt p \<in> set (ht_arr pt)" using lt b by simp
  show "pt_entry m n (p mod n) e" if "e \<in> set (bucket_of pt p)"
    using assms that pos b by (simp add: pt_ok_def list_all_iff)
  show "list_all (live_el m) (bucket_of pt p)" using assms mem by (simp add: pt_ok_def table_wf_def)
  show "distinct (map (el_str m) (bucket_of pt p))" using assms pos b by (simp add: pt_ok_def)
qed

lemma pt_hash_find:
  assumes "pt_ok n m pt" and "p < 2 ^ 31"
  shows "hash_find (dec p) m pt = Inr (pt_find m pt p)"
proof -
  have "table_wf m pt" using assms(1) by (simp add: pt_ok_def)
  moreover have "int_key (dec p)" using assms(2) by (rule int_key_dec)
  ultimately show ?thesis
    by (simp add: hash_find_wf pt_find_def bucket_of_def slot_of_def)
qed

lemma pt_find_frame:
  assumes "pt_ok n m pt" and "pt_find m pt p = Some e"
  obtains f where "frame_of m pt p = Some f" and "cells m (el_data e) = Some (CU32 f)" and "unat f < n"
    and "el_str m e = dec p" and "p < 10000"
proof -
  from assms(2) have e: "e \<in> set (bucket_of pt p)" "el_str m e = dec p"
    unfolding pt_find_def by (auto simp: find_Some_iff)
  from pt_ok_bucket(3) [OF assms(1) e(1)] e(2) obtain f where
    "cells m (el_data e) = Some (CU32 f)" "unat f < n" "p < 10000" by (auto simp: pt_entry_def)
  with that e(2) assms(2) show thesis by (simp add: frame_of_def)
qed

lemma frame_of_None:
  assumes "pt_ok n m pt"
  shows "frame_of m pt p = None \<longleftrightarrow> pt_find m pt p = None"
proof (cases "pt_find m pt p")
  case (Some e)
  from pt_find_frame [OF assms Some] obtain f where "frame_of m pt p = Some f" by metis
  with Some show ?thesis by simp
qed (simp add: frame_of_def)

lemma frame_of_Some:
  assumes "pt_ok n m pt" and "frame_of m pt p = Some f"
  obtains e where "pt_find m pt p = Some e" and "cells m (el_data e) = Some (CU32 f)" and "unat f < n" and "p < 10000"
proof (cases "pt_find m pt p")
  case None
  with assms(2) show thesis by (simp add: frame_of_def)
next
  case (Some e)
  from pt_find_frame [OF assms(1) Some] obtain g where
    "frame_of m pt p = Some g" "cells m (el_data e) = Some (CU32 g)" "unat g < n" "p < 10000" by metis
  with that Some assms(2) show thesis by simp
qed

lemma pt_addrsI:
  assumes "b \<in> set (ht_arr pt)" and "e \<in> set b"
  shows "el_key e \<in> pt_addrs pt" and "el_data e \<in> pt_addrs pt"
  using assms by (auto simp: pt_addrs_def)

lemma pt_extends_but:
  assumes ok: "pt_ok n m pt" and ext: "extends_but A m m'" and disj: "pt_addrs pt \<inter> A = {}" and wf: "cmem_wf m'"
  shows "pt_ok n m' pt" and "frame_of m' pt p = frame_of m pt p" and "pt_find m' pt p = pt_find m pt p"
proof -
  have keep: "live_el m' e \<and> el_str m' e = el_str m e \<and> cells m' (el_data e) = cells m (el_data e)"
    if b: "b \<in> set (ht_arr pt)" and e: "e \<in> set b" for b e
  proof -
    have "live_el m e" using ok b e by (auto simp: pt_ok_def table_wf_def list_all_iff)
    then obtain c where c: "cells m (el_key e) = Some (CStr (el_str m e))" "cells m (el_data e) = Some c"
      by (auto simp: live_el_def)
    have "el_key e \<notin> A" "el_data e \<notin> A" using pt_addrsI [OF b e] disj by auto
    with c have "cells m' (el_key e) = Some (CStr (el_str m e))" "cells m' (el_data e) = Some c"
      using extends_butD [OF ext] by blast+
    with c(2) show ?thesis using live_elI by metis
  qed
  have entry: "pt_entry m' n i e" if "b \<in> set (ht_arr pt)" "e \<in> set b" "pt_entry m n i e" for b e i
    using keep [OF that(1,2)] that(3) by (simp add: pt_entry_def)
  have len: "length (ht_arr pt) = n" using ok by (simp add: pt_ok_def table_wf_def)
  have "list_all (live_el m') b" if "b \<in> set (ht_arr pt)" for b using keep [OF that] by (simp add: list_all_iff)
  then have "table_wf m' pt" using ok wf by (simp add: pt_ok_def table_wf_def)
  moreover have "list_all (pt_entry m' n i) (ht_arr pt ! i) \<and> distinct (map (el_str m') (ht_arr pt ! i))" if "i < n" for i
  proof -
    have b: "ht_arr pt ! i \<in> set (ht_arr pt)" using that len by simp
    have same: "map (el_str m') (ht_arr pt ! i) = map (el_str m) (ht_arr pt ! i)" using keep [OF b] by simp
    show ?thesis unfolding same using ok that entry [OF b] by (simp add: pt_ok_def list_all_iff)
  qed
  ultimately show "pt_ok n m' pt" using ok by (simp add: pt_ok_def)
  have b: "bucket_of pt p \<in> set (ht_arr pt)" using ok by (rule pt_ok_bucket)
  show f: "pt_find m' pt p = pt_find m pt p"
    unfolding pt_find_def by (rule find_cong) (use keep [OF b] in auto)
  show "frame_of m' pt p = frame_of m pt p"
  proof (cases "pt_find m pt p")
    case (Some e)
    then have "e \<in> set (bucket_of pt p)" by (auto simp: pt_find_def find_Some_iff)
    with keep [OF b] have "cells m' (el_data e) = cells m (el_data e)" by simp
    with Some f show ?thesis by (simp add: frame_of_def)
  qed (simp add: frame_of_def f)
qed

lemma chain_insert_absent:
  assumes "list_all (live_el m) b" and "find (\<lambda>e. el_str m e = k) b = None"
  shows "chain_insert k el m b = Inr (b @ [el])"
  using assms by (induction b) (auto split: if_splits)

lemma find_append: "find P (xs @ ys) = (case find P xs of None \<Rightarrow> find P ys | Some x \<Rightarrow> Some x)"
  by (induction xs) auto

lemma pt_set_bucket:
  assumes ok: "pt_ok n m pt" and w: "unat w = p mod n"
    and b: "list_all (live_el m) b" "list_all (pt_entry m n (p mod n)) b" "distinct (map (el_str m) b)"
  shows "pt_ok n m (set_bucket w b pt)"
    and "bucket_of (set_bucket w b pt) q = (if q mod n = p mod n then b else bucket_of pt q)"
proof -
  have lt: "p mod n < length (ht_arr pt)" using ok by (rule pt_ok_bucket)
  have n: "unat (ht_size pt) = n" using ok by (simp add: pt_ok_def)
  have tw: "table_wf m pt" using ok by (simp add: pt_ok_def)
  have "list_all (pt_entry m n i) ((ht_arr pt)[p mod n := b] ! i) \<and>
      distinct (map (el_str m) ((ht_arr pt)[p mod n := b] ! i))" if "i < n" for i
    using ok b(2,3) lt that by (cases "i = p mod n") (simp_all add: pt_ok_def)
  then show "pt_ok n m (set_bucket w b pt)"
    using set_bucket_wf [OF tw b(1), of w] n w by (simp add: pt_ok_def set_bucket_def)
  show "bucket_of (set_bucket w b pt) q = (if q mod n = p mod n then b else bucket_of pt q)"
    using lt w n by (simp add: bucket_of_def set_bucket_def)
qed

lemma pt_hash:
  assumes "pt_ok n m pt" and "p < 10000"
  obtains w where "hash (dec p) pt = Inr w" and "unat w = p mod n" and "bucket_at w pt = Inr (bucket_of pt p)"
proof -
  have "table_wf m pt" "int_key (dec p)" using assms int_key_dec [of p] by (simp_all add: pt_ok_def)
  then obtain w where "hash (dec p) pt = Inr w" "unat w = slot_of (dec p) pt"
    "bucket_at w pt = Inr (ht_arr pt ! slot_of (dec p) pt)" by (rule table_wf_bucket)
  with that assms(1) show thesis by (simp add: slot_of_def bucket_of_def pt_ok_def)
qed

lemma pt_insert:
  assumes ok: "pt_ok n m pt" and new: "pt_find m pt p = None" and p: "p < 10000"
    and k: "cells m k = Some (CStr (dec p))" and d: "cells m d = Some (CU32 f)" and f: "unat f < n"
  shows "\<exists>pt'. hash_insert (Some k) (Some d) m pt = Inr pt' \<and> pt_ok n m pt' \<and> frame_of m pt' p = Some f \<and>
    (\<forall>q. q \<noteq> p \<longrightarrow> frame_of m pt' q = frame_of m pt q) \<and> pt_addrs pt' \<subseteq> insert k (insert d (pt_addrs pt)) \<and>
    (\<forall>q. bucket_of pt' q =
       (if q mod n = p mod n then bucket_of pt p @ [\<lparr>el_key = k, el_data = d\<rparr>] else bucket_of pt q))"
proof -
  let ?el = "\<lparr>el_key = k, el_data = d\<rparr>" and ?b = "bucket_of pt p"
  from pt_hash [OF ok p] obtain w where w: "hash (dec p) pt = Inr w" "unat w = p mod n" "bucket_at w pt = Inr ?b" .
  let ?pt = "set_bucket w (?b @ [?el]) pt"
  have el: "live_el m ?el" "el_str m ?el = dec p" using live_elI [of m ?el] k d by simp_all
  have live: "list_all (live_el m) ?b" using ok by (rule pt_ok_bucket)
  have "chain_insert (dec p) ?el m ?b = Inr (?b @ [?el])"
    using chain_insert_absent [OF live] new by (simp add: pt_find_def)
  then have ins: "hash_insert (Some k) (Some d) m pt = Inr ?pt" using w k by simp
  have ent: "list_all (pt_entry m n (p mod n)) (?b @ [?el])"
    using pt_ok_bucket(3) [OF ok] el p d f by (auto simp: list_all_iff pt_entry_def)
  have live': "list_all (live_el m) (?b @ [?el])" using live el by simp
  have "distinct (map (el_str m) (?b @ [?el]))"
    using pt_ok_bucket(7) [OF ok] el(2) new by (auto simp: pt_find_def find_None_iff)
  note sb = pt_set_bucket [OF ok w(2) live' ent this]
  have same: "bucket_of pt q = ?b" if "q mod n = p mod n" for q
    using pt_ok_bucket(6) [OF ok, of q] pt_ok_bucket(6) [OF ok, of p] that by simp
  have fnd: "pt_find m ?pt q = (if q = p then Some ?el else pt_find m pt q)" for q
    using new same [of q] el(2) by (auto simp: pt_find_def sb(2) find_append split: option.split)
  have "frame_of m ?pt p = Some f" "\<forall>q. q \<noteq> p \<longrightarrow> frame_of m ?pt q = frame_of m pt q"
    using d by (simp_all add: frame_of_def fnd)
  moreover have "pt_addrs ?pt \<subseteq> insert k (insert d (pt_addrs pt))"
  proof
    fix a assume "a \<in> pt_addrs ?pt"
    then obtain b e where e: "b \<in> set (ht_arr ?pt)" "e \<in> set b" "a = el_key e \<or> a = el_data e"
      by (auto simp: pt_addrs_def)
    have "set (ht_arr ?pt) \<subseteq> insert (?b @ [?el]) (set (ht_arr pt))"
      by (simp add: set_bucket_def set_update_subset_insert)
    then consider "b = ?b @ [?el]" | "b \<in> set (ht_arr pt)" using e(1) by blast
    then show "a \<in> insert k (insert d (pt_addrs pt))"
    proof cases
      case 1
      have "?b \<in> set (ht_arr pt)" using ok by (rule pt_ok_bucket)
      then show ?thesis using 1 e(2,3) pt_addrsI by fastforce
    qed (use e pt_addrsI in blast)
  qed
  ultimately show ?thesis using ins sb by auto
qed

lemma pt_remove:
  assumes ok: "pt_ok n m pt" and p: "p < 10000" and b: "bucket_of pt p = [e]" "el_str m e = dec p"
  shows "\<exists>pt'. hash_remove (dec p) m pt = Inr (True, m, pt') \<and> pt_ok n m pt' \<and> frame_of m pt' p = None \<and>
    (\<forall>q. q \<noteq> p \<longrightarrow> frame_of m pt' q = frame_of m pt q) \<and> pt_addrs pt' \<subseteq> pt_addrs pt \<and>
    (\<forall>q. bucket_of pt' q = (if q mod n = p mod n then [] else bucket_of pt q))"
proof -
  from pt_hash [OF ok p] obtain w where w: "hash (dec p) pt = Inr w" "unat w = p mod n"
    "bucket_at w pt = Inr (bucket_of pt p)" .
  let ?pt = "set_bucket w [] pt"
  have "live_el m e" using pt_ok_bucket(4) [OF ok, of p] b by simp
  then have "chain_split (dec p) m [e] = Inr (Some ([], e, []))" using b(2) by simp
  then have rm: "hash_remove (dec p) m pt = Inr (True, m, ?pt)" using w b(1) by (simp add: hash_remove_def)
  have "list_all (live_el m) []" "list_all (pt_entry m n (p mod n)) []" "distinct (map (el_str m) [])" by simp_all
  note sb = pt_set_bucket [OF ok w(2) this]
  have same: "bucket_of pt q = [e]" if "q mod n = p mod n" for q
    using pt_ok_bucket(6) [OF ok, of q] pt_ok_bucket(6) [OF ok, of p] that b(1) by simp
  have fnd: "pt_find m ?pt q = (if q = p then None else pt_find m pt q)" for q
    using same [of q] b(2) by (auto simp: pt_find_def sb(2))
  have "pt_addrs ?pt \<subseteq> pt_addrs pt"
    using set_update_subset_insert [of "ht_arr pt" "unat w" "[]"] by (fastforce simp: pt_addrs_def set_bucket_def)
  moreover have "frame_of m ?pt p = None" "\<forall>q. q \<noteq> p \<longrightarrow> frame_of m ?pt q = frame_of m pt q"
    by (simp_all add: frame_of_def fnd)
  ultimately show ?thesis using rm sb by auto
qed

section \<open>The invariant\<close>

definition pool_wf :: "bytes \<Rightarrow> Pool \<Rightarrow> tracked \<Rightarrow> bool" where
  "pool_wf junk st fs \<longleftrightarrow>
     (let b = p_bpm st; n = pool_size b
      in 0 < n \<and> n < 65536 \<and> length (bpages b) = n \<and> length (free_list b) = n \<and>
         list_all (\<lambda>pg. length (bp_data pg) = PAGE_SIZE) (bpages b) \<and>
         pt_ok n (p_mem st) (page_table b) \<and> tracks (p_mem st) (replacer b) fs \<and>
         unat (ht_size (frame_table (replacer b))) = n \<and> cl_capacity (frames (replacer b)) = n \<and>
         pt_addrs (page_table b) \<inter> node_values (replacer b) = {} \<and>
         dm_inv (disk_manager b) junk (p_files st))"

text \<open>The frame that holds a page, its contents, and the disk below.\<close>

definition resident :: "Pool \<Rightarrow> nat \<Rightarrow> frame_id_t option" where
  "resident st p = frame_of (p_mem st) (page_table (p_bpm st)) p"

definition frame :: "Pool \<Rightarrow> nat \<Rightarrow> BpmPage" where
  "frame st i = bpages (p_bpm st) ! i"

definition disk_page :: "Pool \<Rightarrow> nat \<Rightarrow> bytes" where
  "disk_page st p = page_of (of_nat p) (disk_manager (p_bpm st)) (p_files st)"

definition disk_pages :: "Pool \<Rightarrow> page_id_t set" where
  "disk_pages st = dm_pages (disk_manager (p_bpm st)) (p_files st)"

lemma pool_wfD:
  assumes "pool_wf junk st fs"
  shows "0 < pool_size (p_bpm st)" and "pool_size (p_bpm st) < 65536"
    and "length (bpages (p_bpm st)) = pool_size (p_bpm st)" and "length (free_list (p_bpm st)) = pool_size (p_bpm st)"
    and "list_all (\<lambda>pg. length (bp_data pg) = PAGE_SIZE) (bpages (p_bpm st))"
    and "pt_ok (pool_size (p_bpm st)) (p_mem st) (page_table (p_bpm st))"
    and "tracks (p_mem st) (replacer (p_bpm st)) fs"
    and "unat (ht_size (frame_table (replacer (p_bpm st)))) = pool_size (p_bpm st)"
    and "cl_capacity (frames (replacer (p_bpm st))) = pool_size (p_bpm st)"
    and "pt_addrs (page_table (p_bpm st)) \<inter> node_values (replacer (p_bpm st)) = {}"
    and "dm_inv (disk_manager (p_bpm st)) junk (p_files st)"
    and "cmem_wf (p_mem st)"
  using assms by (simp_all add: pool_wf_def Let_def pt_ok_def table_wf_def)

lemma small_pid:
  assumes "p < 10000"
  shows "unat (of_nat p :: page_id_t) = p" and "sprintf_d 11 (of_nat p) = Inr (dec p)"
    and "sprintf_d 15 (of_nat p) = Inr (dec p)" and "sprintf_u 5 (of_nat p) = Inr (dec p)"
proof -
  show u: "unat (of_nat p :: page_id_t) = p" using assms by (simp add: unat_of_nat)
  show "sprintf_d 11 (of_nat p) = Inr (dec p)" "sprintf_d 15 (of_nat p) = Inr (dec p)"
    using assms by (simp_all add: sprintf_d_eq u)
  show "sprintf_u 5 (of_nat p) = Inr (dec p)" using sprintf_u_eq [of "of_nat p" 4 5] assms u by simp
qed

lemma small_frame:
  assumes "i < 65536"
  shows "unat (of_nat i :: frame_id_t) = i" and "(of_nat i :: frame_id_t) \<noteq> UINT32_MAX"
proof -
  show u: "unat (of_nat i :: frame_id_t) = i" using assms by (simp add: unat_of_nat)
  show "(of_nat i :: frame_id_t) \<noteq> UINT32_MAX"
  proof
    assume "(of_nat i :: frame_id_t) = UINT32_MAX"
    then have "unat (of_nat i :: frame_id_t) = unat UINT32_MAX" by simp
    then show False using assms u by (simp add: UINT32_MAX_def)
  qed
qed

lemma page_entry_wf:
  assumes "pool_wf junk st fs" and "p < 2 ^ 31"
  shows "page_entry (dec p) st = Inr (pt_find (p_mem st) (page_table (p_bpm st)) p)"
  using pt_hash_find [OF pool_wfD(6) [OF assms(1)] assms(2)] by (simp add: page_entry_def)

lemma resident_entry:
  assumes wf: "pool_wf junk st fs" and r: "resident st p = Some f"
  obtains e where "page_entry (dec p) st = Inr (Some e)" and "frame_cell (el_data e) (p_mem st) = Inr f"
    and "unat f < pool_size (p_bpm st)" and "p < 10000" and "pt_find (p_mem st) (page_table (p_bpm st)) p = Some e"
proof -
  from r have "frame_of (p_mem st) (page_table (p_bpm st)) p = Some f" by (simp add: resident_def)
  from frame_of_Some [OF pool_wfD(6) [OF wf] this] obtain e where
    e: "pt_find (p_mem st) (page_table (p_bpm st)) p = Some e" "cells (p_mem st) (el_data e) = Some (CU32 f)"
      "unat f < pool_size (p_bpm st)" "p < 10000" .
  moreover have "p < 2 ^ 31" using e(4) by simp
  ultimately show thesis using that page_entry_wf [OF wf] by (simp add: frame_cell_def)
qed

lemma absent_entry:
  assumes "pool_wf junk st fs" and "resident st p = None" and "p < 2 ^ 31"
  shows "page_entry (dec p) st = Inr None" and "pt_find (p_mem st) (page_table (p_bpm st)) p = None"
  using page_entry_wf [OF assms(1,3)] assms(2) frame_of_None [OF pool_wfD(6) [OF assms(1)]]
  by (simp_all add: resident_def)

lemma not_resident_entry:
  assumes wf: "pool_wf junk st fs" and r: "resident st p = None" and p: "p < 10000"
  shows "page_entry (dec p) st = Inr None" and "pt_find (p_mem st) (page_table (p_bpm st)) p = None"
  using absent_entry [OF wf r] p by simp_all

lemma page_at_wf:
  "pool_wf junk st fs \<Longrightarrow> unat f < pool_size (p_bpm st) \<Longrightarrow> page_at f st = Inr (frame st (unat f))"
  by (simp add: page_at_def frame_def pool_wfD(3))

lemma set_page_simps [simp]:
  "p_mem (set_page f pg st) = p_mem st" "p_files (set_page f pg st) = p_files st"
  "pool_size (p_bpm (set_page f pg st)) = pool_size (p_bpm st)"
  "page_table (p_bpm (set_page f pg st)) = page_table (p_bpm st)"
  "free_list (p_bpm (set_page f pg st)) = free_list (p_bpm st)"
  "replacer (p_bpm (set_page f pg st)) = replacer (p_bpm st)"
  "disk_manager (p_bpm (set_page f pg st)) = disk_manager (p_bpm st)"
  "bpages (p_bpm (set_page f pg st)) = (bpages (p_bpm st))[unat f := pg]"
  "resident (set_page f pg st) p = resident st p"
  "disk_page (set_page f pg st) p = disk_page st p"
  "disk_pages (set_page f pg st) = disk_pages st"
  by (simp_all add: set_page_def resident_def disk_page_def disk_pages_def)

lemma frame_set_page:
  assumes "pool_wf junk st fs" and "unat f < pool_size (p_bpm st)"
  shows "frame (set_page f pg st) i = (if i = unat f then pg else frame st i)"
  using assms pool_wfD(3) [OF assms(1)] by (simp add: frame_def nth_list_update)

lemma pool_wf_set_page:
  assumes "pool_wf junk st fs" and "length (bp_data pg) = PAGE_SIZE"
  shows "pool_wf junk (set_page f pg st) fs"
  using assms set_update_subset_insert [of "bpages (p_bpm st)" "unat f" pg]
  by (auto simp: pool_wf_def Let_def list_all_iff)

lemma frame_data_length:
  assumes "pool_wf junk st fs" and "i < pool_size (p_bpm st)"
  shows "length (bp_data (frame st i)) = PAGE_SIZE"
  using pool_wfD(3,5) [OF assms(1)] assms(2) by (simp add: frame_def list_all_length)

section \<open>Pinning and unpinning frames\<close>

text \<open>Pinning works for the first two tracked frames, or when nothing is tracked.\<close>

definition pinnable :: "nat \<Rightarrow> tracked \<Rightarrow> tracked \<Rightarrow> bool" where
  "pinnable i fs fs' \<longleftrightarrow>
     (fs = [] \<and> fs' = []) \<or> (\<exists>pre b post. fs = pre @ (i, b) # post \<and> length pre \<le> 1 \<and> fs' = pre @ post)"

text \<open>What a call into the replacer keeps of the pool.\<close>

definition same_pages :: "Pool \<Rightarrow> Pool \<Rightarrow> bool" where
  "same_pages st st' \<longleftrightarrow>
     p_files st' = p_files st \<and> pool_size (p_bpm st') = pool_size (p_bpm st) \<and> bpages (p_bpm st') = bpages (p_bpm st) \<and>
     page_table (p_bpm st') = page_table (p_bpm st) \<and> free_list (p_bpm st') = free_list (p_bpm st) \<and>
     disk_manager (p_bpm st') = disk_manager (p_bpm st) \<and> (\<forall>p. resident st' p = resident st p)"

lemma brk_not_in_table:
  assumes "pool_wf junk st fs"
  shows "brk (p_mem st) \<notin> pt_addrs (page_table (p_bpm st))"
proof
  assume "brk (p_mem st) \<in> pt_addrs (page_table (p_bpm st))"
  then obtain b e where e: "b \<in> set (ht_arr (page_table (p_bpm st)))" "e \<in> set b"
    "brk (p_mem st) = el_key e \<or> brk (p_mem st) = el_data e" by (auto simp: pt_addrs_def)
  then have "live_el (p_mem st) e"
    using pool_wfD(6) [OF assms] by (auto simp: pt_ok_def table_wf_def list_all_iff)
  with e(3) show False
    using cmem_wf_fresh [OF pool_wfD(12) [OF assms], of "brk (p_mem st)"] by (auto simp: live_el_def)
qed

lemma replacer_step:
  assumes wf: "pool_wf junk st fs" and tr: "tracks m r fs'" and sz: "same_sizes (replacer (p_bpm st)) r"
    and ext: "extends_but (node_values (replacer (p_bpm st))) (p_mem st) m"
    and nv: "node_values r \<subseteq> insert (brk (p_mem st)) (node_values (replacer (p_bpm st)))"
  defines "st' \<equiv> st\<lparr>p_mem := m, p_bpm := (p_bpm st)\<lparr>replacer := r\<rparr>\<rparr>"
  shows "pool_wf junk st' fs'" and "same_pages st st'"
proof -
  have cw: "cmem_wf m" using tracksD(1) [OF tr] by (simp add: slot_inv_def)
  note pt = pt_extends_but [OF pool_wfD(6) [OF wf] ext pool_wfD(10) [OF wf] cw]
  have "brk (p_mem st) \<notin> pt_addrs (page_table (p_bpm st))" using brk_not_in_table [OF wf] .
  with nv pool_wfD(10) [OF wf] have "pt_addrs (page_table (p_bpm st)) \<inter> node_values r = {}" by blast
  with pt(1) tr sz show "pool_wf junk st' fs'"
    using pool_wfD [OF wf] by (simp add: pool_wf_def Let_def st'_def same_sizes_def)
  show "same_pages st st'" using pt(2) by (simp add: same_pages_def st'_def resident_def)
qed

lemma pool_pin_ok:
  assumes wf: "pool_wf junk st fs" and pin: "pinnable (unat f) fs fs'" and f: "unat f < pool_size (p_bpm st)"
  shows "\<exists>st'. pool_pin f st = Inr st' \<and> pool_wf junk st' fs' \<and> same_pages st st'"
proof -
  let ?r = "replacer (p_bpm st)"
  have "\<exists>m r. clock_replacer_pin f (p_mem st) ?r = Inr (m, r) \<and> tracks m r fs' \<and> same_sizes ?r r \<and>
      extends_but (node_values ?r) (p_mem st) m \<and> node_values r \<subseteq> node_values ?r"
  proof (cases "fs = []")
    case True
    then have "fs' = []" using pin by (simp add: pinnable_def)
    then show ?thesis
      using pin_untracked [of "p_mem st" ?r f] pool_wfD(7,8) [OF wf] True f extends_but_extends by fastforce
  next
    case False
    with pin obtain pre b post where "fs = pre @ (unat f, b) # post" "length pre \<le> 1" "fs' = pre @ post"
      by (auto simp: pinnable_def)
    then show ?thesis using pin_tracks [of "p_mem st" ?r pre f b post] pool_wfD(7) [OF wf] by blast
  qed
  then obtain m r where r: "clock_replacer_pin f (p_mem st) ?r = Inr (m, r)" "tracks m r fs'" "same_sizes ?r r"
    "extends_but (node_values ?r) (p_mem st) m" "node_values r \<subseteq> node_values ?r" by blast
  have "node_values r \<subseteq> insert (brk (p_mem st)) (node_values ?r)" using r(5) by blast
  from replacer_step [OF wf r(2-4) this] r(1) show ?thesis by (simp add: pool_pin_def)
qed

lemma tracked_room:
  assumes wf: "pool_wf junk st fs" and f: "i < pool_size (p_bpm st)" "i \<notin> fst ` set fs"
  shows "length fs < pool_size (p_bpm st)"
proof -
  have sub: "fst ` set fs \<subseteq> {..< pool_size (p_bpm st)}"
  proof
    fix g assume "g \<in> fst ` set fs"
    then obtain b where "(g, b) \<in> set fs" by auto
    then obtain n where "node_tracks (p_mem st) (frame_table (replacer (p_bpm st))) n (g, b)"
      using tracksD(3) [OF pool_wfD(7) [OF wf]] by (metis in_set_conv_nth list_all2_conv_all_nth)
    then show "g \<in> {..< pool_size (p_bpm st)}" using pool_wfD(8) [OF wf] by (simp add: node_tracks_def)
  qed
  have "length fs = card (fst ` set fs)"
    using tracksD(4) [OF pool_wfD(7) [OF wf]] by (metis distinct_card length_map set_map)
  also have "\<dots> < card {..< pool_size (p_bpm st)}" using sub f by (intro psubset_card_mono) auto
  finally show ?thesis by simp
qed

lemma pool_unpin_ok:
  assumes wf: "pool_wf junk st fs" and f: "unat f < pool_size (p_bpm st)" "unat f \<notin> fst ` set fs"
  shows "\<exists>st'. pool_unpin f st = Inr st' \<and> pool_wf junk st' ((unat f, True) # fs) \<and> same_pages st st' \<and>
    hand (replacer (p_bpm st')) = hand (replacer (p_bpm st))"
proof -
  let ?r = "replacer (p_bpm st)"
  have "length fs < cl_capacity (frames ?r)" using tracked_room [OF wf f] pool_wfD(9) [OF wf] by simp
  from unpin_tracks [OF pool_wfD(7) [OF wf] _ f(2) this] f(1) pool_wfD(8) [OF wf] obtain m r where
    r: "clock_replacer_unpin f (p_mem st) ?r = Inr (m, r)" "tracks m r ((unat f, True) # fs)"
      "extends (p_mem st) m" "same_sizes ?r r" "node_values r \<subseteq> insert (brk (p_mem st)) (node_values ?r)"
      "hand r = hand ?r"
    by (auto simp: same_sizes_def)
  from replacer_step [OF wf r(2,4) extends_but_extends [OF r(3)] r(5)] r(1,6) show ?thesis
    by (simp add: pool_unpin_def)
qed

section \<open>Fetching\<close>

text \<open>No other page of the pool shares the bucket of \<open>p\<close>.\<close>

definition alone :: "Pool \<Rightarrow> nat \<Rightarrow> bool" where
  "alone st p \<longleftrightarrow>
     (\<forall>q. q \<noteq> p \<longrightarrow> q mod pool_size (p_bpm st) = p mod pool_size (p_bpm st) \<longrightarrow> resident st q = None)"

lemma alone_bucket:
  assumes wf: "pool_wf junk st fs" and al: "alone st p" and r: "resident st p = Some f"
  shows "\<exists>e. bucket_of (page_table (p_bpm st)) p = [e] \<and> el_str (p_mem st) e = dec p"
proof -
  let ?m = "p_mem st" and ?pt = "page_table (p_bpm st)" and ?n = "pool_size (p_bpm st)"
  note ok = pool_wfD(6) [OF wf]
  from resident_entry [OF wf r] obtain e where e: "pt_find ?m ?pt p = Some e" .
  then have e': "e \<in> set (bucket_of ?pt p)" "el_str ?m e = dec p" by (auto simp: pt_find_def find_Some_iff)
  have all: "el_str ?m d = dec p" if d: "d \<in> set (bucket_of ?pt p)" for d
  proof -
    from pt_ok_bucket(3) [OF ok d] obtain q where q: "el_str ?m d = dec q" "q mod ?n = p mod ?n"
      by (auto simp: pt_entry_def)
    then have "bucket_of ?pt q = bucket_of ?pt p" using pt_ok_bucket(6) [OF ok] by simp
    then have "pt_find ?m ?pt q \<noteq> None" using d q(1) by (auto simp: pt_find_def find_None_iff)
    then have "resident st q \<noteq> None" using frame_of_None [OF ok] by (simp add: resident_def)
    with al q show ?thesis by (cases "q = p") (simp_all add: alone_def)
  qed
  have "length (bucket_of ?pt p) \<le> 1"
  proof (rule ccontr)
    assume "\<not> ?thesis"
    then have "0 < length (bucket_of ?pt p)" "1 < length (bucket_of ?pt p)" by linarith+
    moreover have "el_str ?m (bucket_of ?pt p ! i) = dec p" if "i < length (bucket_of ?pt p)" for i
      using all that by simp
    ultimately show False using pt_ok_bucket(7) [OF ok, of p] nth_eq_iff_index_eq [of "map (el_str ?m) (bucket_of ?pt p)" 0 1]
      by simp
  qed
  then show ?thesis using e' by (cases "bucket_of ?pt p") auto
qed

lemma fetch_hit:
  assumes wf: "pool_wf junk st fs" and r: "resident st p = Some f" and pins: "pin_count (frame st (unat f)) < 2 ^ 31 - 1"
  shows "fetch_bpm_page junk (of_nat p) st =
    Inr (f, set_page f ((frame st (unat f))\<lparr>pin_count := pin_count (frame st (unat f)) + 1\<rparr>) st)"
proof -
  from resident_entry [OF wf r] obtain e where e: "page_entry (dec p) st = Inr (Some e)"
    "frame_cell (el_data e) (p_mem st) = Inr f" "unat f < pool_size (p_bpm st)" "p < 10000" .
  then show ?thesis
    using pins by (simp add: fetch_bpm_page_def small_pid page_at_wf [OF wf] add_pin_def)
qed

lemma free_frame_Some: "free_frame bs k = Some i \<Longrightarrow> k \<le> i \<and> i < k + length bs \<and> bs ! (i - k)"
proof (induction bs arbitrary: k)
  case (Cons b bs)
  show ?case
  proof (cases b)
    case False
    with Cons.prems have "free_frame bs (Suc k) = Some i" by simp
    from Cons.IH [OF this] show ?thesis by (auto simp: nth_Cons' Suc_diff_le)
  qed (use Cons.prems in simp)
qed simp

lemma add_to_pagetable_ok:
  assumes wf: "pool_wf junk st fs" and new: "resident st p = None" and p: "p < 10000"
    and d: "cells (p_mem st) d = Some (CU32 f)" and f: "unat f < pool_size (p_bpm st)"
  shows "\<exists>st'. add_to_pagetable (of_nat p) d st = Inr st' \<and> pool_wf junk st' fs \<and> resident st' p = Some f \<and>
    (\<forall>q. q \<noteq> p \<longrightarrow> resident st' q = resident st q) \<and> p_files st' = p_files st \<and>
    (\<exists>pt. p_bpm st' = (p_bpm st)\<lparr>page_table := pt\<rparr>)"
proof -
  let ?b = "p_bpm st" and ?m = "snd (malloc (CStr (dec p)) (p_mem st))" and ?k = "brk (p_mem st)"
  let ?n = "pool_size ?b"
  note cw = pool_wfD(12) [OF wf]
  have ext: "extends (p_mem st) ?m" and cw': "cmem_wf ?m" using malloc_extends [OF cw] cw by simp_all
  note pt = pt_extends_but [OF pool_wfD(6) [OF wf] extends_but_extends [OF ext, of "{}"] _ cw']
  have none: "pt_find ?m (page_table ?b) p = None" using not_resident_entry(2) [OF wf new p] pt(3) by simp
  have k: "cells ?m ?k = Some (CStr (dec p))" and d': "cells ?m d = Some (CU32 f)"
    using extendsD [OF ext d] by simp_all
  from pt_insert [OF pt(1) none p k d' f] obtain pt' where
    ins: "hash_insert (Some ?k) (Some d) ?m (page_table ?b) = Inr pt'" "pt_ok ?n ?m pt'" "frame_of ?m pt' p = Some f"
      "\<forall>q. q \<noteq> p \<longrightarrow> frame_of ?m pt' q = frame_of ?m (page_table ?b) q"
      "pt_addrs pt' \<subseteq> insert ?k (insert d (pt_addrs (page_table ?b)))" by auto
  let ?st = "st\<lparr>p_mem := ?m, p_bpm := ?b\<lparr>page_table := pt'\<rparr>\<rparr>"
  have run: "add_to_pagetable (of_nat p) d st = Inr ?st"
    using ins(1) by (simp add: add_to_pagetable_def small_pid [OF p] malloc_def)
  have tr: "tracks ?m (replacer ?b) fs" using malloc_str_tracks [OF pool_wfD(7) [OF wf]] .
  have strs: "\<exists>s. cells (p_mem st) a = Some (CStr s)" if "a \<in> node_values (replacer ?b)" for a
    using that tracksD(2) [OF pool_wfD(7) [OF wf]] by (auto simp: node_values_def cl_wf_def)
  then have "?k \<notin> node_values (replacer ?b)" "d \<notin> node_values (replacer ?b)"
    using cmem_wf_fresh [OF cw, of ?k] d by fastforce+
  then have "pt_addrs pt' \<inter> node_values (replacer ?b) = {}" using ins(5) pool_wfD(10) [OF wf] by blast
  then have "pool_wf junk ?st fs" using pool_wfD [OF wf] ins(2) tr by (simp add: pool_wf_def Let_def)
  with run ins(3,4) pt(2) show ?thesis by (auto simp: resident_def)
qed

lemma set_free_wf:
  assumes "pool_wf junk st fs" and "unat f < pool_size (p_bpm st)"
  shows "set_free f b st = Inr (st\<lparr>p_bpm := (p_bpm st)\<lparr>free_list := (free_list (p_bpm st))[unat f := b]\<rparr>\<rparr>)"
    and "pool_wf junk (st\<lparr>p_bpm := (p_bpm st)\<lparr>free_list := (free_list (p_bpm st))[unat f := b]\<rparr>\<rparr>) fs"
  using assms pool_wfD(4) [OF assms(1)] by (simp_all add: set_free_def pool_wf_def Let_def)

lemma pool_wf_extends:
  assumes wf: "pool_wf junk st fs" and ext: "extends (p_mem st) m" and cw: "cmem_wf m"
  shows "pool_wf junk (st\<lparr>p_mem := m\<rparr>) fs" and "resident (st\<lparr>p_mem := m\<rparr>) p = resident st p"
proof -
  note pt = pt_extends_but [OF pool_wfD(6) [OF wf] extends_but_extends [OF ext, of "{}"] _ cw]
  show "pool_wf junk (st\<lparr>p_mem := m\<rparr>) fs"
    using pool_wfD [OF wf] pt(1) tracks_extends [OF pool_wfD(7) [OF wf] ext cw] by (simp add: pool_wf_def Let_def)
  show "resident (st\<lparr>p_mem := m\<rparr>) p = resident st p" using pt(2) by (simp add: resident_def)
qed

text \<open>A new page in a free frame.\<close>

definition blank_frame :: "nat \<Rightarrow> BpmPage" where
  "blank_frame p = \<lparr>bp_data = replicate PAGE_SIZE 0, bp_id = of_nat p, pin_count = 1, is_dirty = False\<rparr>"

text \<open>The part of \<^verbatim>\<open>new_bpm_page\<close> after a frame was found: the page is set up and entered, and what is left is
  to pin the frame.\<close>

lemma new_bpm_page_entered:
  assumes wf: "pool_wf junk st fs" and new: "resident st p = None" and p: "p < 10000"
    and ff: "find_frame (st\<lparr>p_mem := snd (malloc (CU32 UINT32_MAX) (p_mem st))\<rparr>) = Inr (f, s0)" "f \<noteq> UINT32_MAX"
    and s1: "s1 = s0\<lparr>p_mem := (p_mem s0)\<lparr>cells := (cells (p_mem s0))(brk (p_mem st) \<mapsto> CU32 f)\<rparr>\<rparr>"
    and wf1: "pool_wf junk s1 fs1" and res1: "\<forall>q. resident s1 q = resident st q"
    and f: "unat f < pool_size (p_bpm s1)"
  shows "\<exists>s3. new_bpm_page (of_nat p) st = and_then (pool_pin f s3) (\<lambda>st. Inr (Some f, st)) \<and> pool_wf junk s3 fs1 \<and>
    resident s3 p = Some f \<and> (\<forall>q. q \<noteq> p \<longrightarrow> resident s3 q = resident st q) \<and>
    p_files s3 = p_files s0 \<and> pool_size (p_bpm s3) = pool_size (p_bpm s0) \<and>
    disk_manager (p_bpm s3) = disk_manager (p_bpm s0) \<and>
    bpages (p_bpm s3) = (bpages (p_bpm s0))[unat f := blank_frame p] \<and>
    free_list (p_bpm s3) = free_list (p_bpm s0)"
proof -
  let ?s2 = "set_page f (blank_frame p) s1" and ?d = "brk (p_mem st)"
  have wf2: "pool_wf junk ?s2 fs1" using pool_wf_set_page [OF wf1, of "blank_frame p" f] by (simp add: blank_frame_def)
  have "resident ?s2 p = None" "cells (p_mem ?s2) ?d = Some (CU32 f)" "unat f < pool_size (p_bpm ?s2)"
    using new res1 f by (simp_all add: s1)
  from add_to_pagetable_ok [OF wf2 this(1) p this(2,3)] obtain s3 pt where
    s3: "add_to_pagetable (of_nat p) ?d ?s2 = Inr s3" "pool_wf junk s3 fs1" "resident s3 p = Some f"
      "\<forall>q. q \<noteq> p \<longrightarrow> resident s3 q = resident ?s2 q" "p_files s3 = p_files ?s2" "p_bpm s3 = (p_bpm ?s2)\<lparr>page_table := pt\<rparr>"
    by blast
  have pa: "page_at f s1 = Inr (frame s1 (unat f))" using page_at_wf [OF wf1 f] .
  have "new_bpm_page (of_nat p) st = and_then (pool_pin f s3) (\<lambda>st. Inr (Some f, st))"
    using small_pid [OF p] not_resident_entry(1) [OF wf new p] ff pa s3(1)
    by (simp add: new_bpm_page_def malloc_def blank_frame_def s1)
  then show ?thesis using s3(2-6) res1 by (auto simp: s1)
qed

lemma new_bpm_page_placed:
  assumes "pool_wf junk st fs" and "resident st p = None" and "p < 10000"
    and "find_frame (st\<lparr>p_mem := snd (malloc (CU32 UINT32_MAX) (p_mem st))\<rparr>) = Inr (f, s0)" and "f \<noteq> UINT32_MAX"
    and "s1 = s0\<lparr>p_mem := (p_mem s0)\<lparr>cells := (cells (p_mem s0))(brk (p_mem st) \<mapsto> CU32 f)\<rparr>\<rparr>"
    and "pool_wf junk s1 fs1" and "\<forall>q. resident s1 q = resident st q"
    and f: "unat f < pool_size (p_bpm s1)" and pin: "pinnable (unat f) fs1 fs'"
  shows "\<exists>st'. new_bpm_page (of_nat p) st = Inr (Some f, st') \<and> pool_wf junk st' fs' \<and>
    resident st' p = Some f \<and> (\<forall>q. q \<noteq> p \<longrightarrow> resident st' q = resident st q) \<and>
    p_files st' = p_files s0 \<and> pool_size (p_bpm st') = pool_size (p_bpm s0) \<and>
    disk_manager (p_bpm st') = disk_manager (p_bpm s0) \<and>
    bpages (p_bpm st') = (bpages (p_bpm s0))[unat f := blank_frame p] \<and>
    free_list (p_bpm st') = free_list (p_bpm s0)"
proof -
  from new_bpm_page_entered [OF assms(1-9)] obtain s3 where
    s3: "new_bpm_page (of_nat p) st = and_then (pool_pin f s3) (\<lambda>st. Inr (Some f, st))" "pool_wf junk s3 fs1"
      "resident s3 p = Some f" "\<forall>q. q \<noteq> p \<longrightarrow> resident s3 q = resident st q"
      "p_files s3 = p_files s0" "pool_size (p_bpm s3) = pool_size (p_bpm s0)"
      "disk_manager (p_bpm s3) = disk_manager (p_bpm s0)"
      "bpages (p_bpm s3) = (bpages (p_bpm s0))[unat f := blank_frame p]" "free_list (p_bpm s3) = free_list (p_bpm s0)" by blast
  have "unat f < pool_size (p_bpm s3)" using f s3(6) by (simp add: assms(6))
  from pool_pin_ok [OF s3(2) pin this] obtain s4 where
    s4: "pool_pin f s3 = Inr s4" "pool_wf junk s4 fs'" "same_pages s3 s4" by blast
  then show ?thesis using s3 by (intro exI [of _ s4]) (simp add: same_pages_def)
qed

text \<open>The case of a free frame.\<close>

lemma free_frame_found:
  assumes wf: "pool_wf junk st fs" and free: "free_frame (free_list (p_bpm st)) 0 = Some i"
  defines "fl \<equiv> (free_list (p_bpm st))[i := False]" and "m \<equiv> snd (malloc (CU32 UINT32_MAX) (p_mem st))"
  defines "s0 \<equiv> st\<lparr>p_mem := m, p_bpm := (p_bpm st)\<lparr>free_list := fl\<rparr>\<rparr>"
  defines "s1 \<equiv> s0\<lparr>p_mem := m\<lparr>cells := (cells m)(brk (p_mem st) \<mapsto> CU32 (of_nat i))\<rparr>\<rparr>"
  shows "i < pool_size (p_bpm st)" and "unat (of_nat i :: frame_id_t) = i" and "(of_nat i :: frame_id_t) \<noteq> UINT32_MAX"
    and "find_frame (st\<lparr>p_mem := m\<rparr>) = Inr (of_nat i, s0)" and "pool_wf junk s1 fs" and "\<forall>q. resident s1 q = resident st q"
proof -
  show i: "i < pool_size (p_bpm st)" using free_frame_Some [OF free] pool_wfD(4) [OF wf] by simp
  then show uf: "unat (of_nat i :: frame_id_t) = i" and "(of_nat i :: frame_id_t) \<noteq> UINT32_MAX"
    using small_frame pool_wfD(2) [OF wf] by simp_all
  note cw = pool_wfD(12) [OF wf]
  let ?m1 = "m\<lparr>cells := (cells m)(brk (p_mem st) \<mapsto> CU32 (of_nat i))\<rparr>"
  have ext: "extends (p_mem st) ?m1" and cw1: "cmem_wf ?m1" using cw by (auto simp: extends_def cmem_wf_def m_def)
  have wf0: "pool_wf junk (st\<lparr>p_mem := m\<rparr>) fs"
    using pool_wf_extends [OF wf malloc_extends [OF cw] malloc_wf [OF cw]] by (simp add: m_def)
  show "find_frame (st\<lparr>p_mem := m\<rparr>) = Inr (of_nat i, s0)"
    using free pool_wfD(4) [OF wf] set_free_wf(1) [OF wf0, of "of_nat i" False] i uf by (simp add: find_frame_def s0_def fl_def)
  have "pool_wf junk (st\<lparr>p_bpm := (p_bpm st)\<lparr>free_list := fl\<rparr>\<rparr>) fs"
    using set_free_wf(2) [OF wf, of "of_nat i" False] i uf by (simp add: fl_def)
  from pool_wf_extends(1) [OF this] ext cw1 show "pool_wf junk s1 fs" by (simp add: s1_def s0_def)
  show "\<forall>q. resident s1 q = resident st q"
    using pool_wf_extends(2) [OF wf ext cw1] by (simp add: resident_def s1_def s0_def)
qed

lemma new_bpm_page_free:
  assumes wf: "pool_wf junk st fs" and new: "resident st p = None" and p: "p < 10000"
    and free: "free_frame (free_list (p_bpm st)) 0 = Some i" and pin: "pinnable i fs fs'"
  shows "\<exists>st'. new_bpm_page (of_nat p) st = Inr (Some (of_nat i), st') \<and> pool_wf junk st' fs' \<and>
    resident st' p = Some (of_nat i) \<and> (\<forall>q. q \<noteq> p \<longrightarrow> resident st' q = resident st q) \<and>
    p_files st' = p_files st \<and> pool_size (p_bpm st') = pool_size (p_bpm st) \<and>
    disk_manager (p_bpm st') = disk_manager (p_bpm st) \<and>
    bpages (p_bpm st') = (bpages (p_bpm st))[i := blank_frame p] \<and>
    free_list (p_bpm st') = (free_list (p_bpm st))[i := False]"
proof -
  note fr = free_frame_found [OF wf free]
  from new_bpm_page_placed [OF wf new p fr(4,3) _ fr(5,6), of fs'] fr(1,2) pin show ?thesis by simp
qed

text \<open>
  A free frame is not enough. Where the replacer tracks one frame and it is not the free one, pinning the free
  frame follows a null pointer, and with it the fetch of any page that is not resident.
\<close>

lemma fetch_unpinnable_crashes:
  assumes wf: "pool_wf junk st [(g, b)]" and new: "resident st p = None" and p: "p < 10000"
    and free: "free_frame (free_list (p_bpm st)) 0 = Some i" and g: "i \<noteq> g"
  shows "fetch_bpm_page junk (of_nat p) st = Inl NullDeref"
proof -
  note fr = free_frame_found [OF wf free]
  from new_bpm_page_entered [OF wf new p fr(4,3) _ fr(5,6)] fr(1) obtain s3 where
    s3: "new_bpm_page (of_nat p) st = and_then (pool_pin (of_nat i) s3) (\<lambda>st. Inr (Some (of_nat i), st))"
      "pool_wf junk s3 [(g, b)]" "pool_size (p_bpm s3) = pool_size (p_bpm st)" by (auto simp: fr(2))
  have "clock_replacer_pin (of_nat i) (p_mem s3) (replacer (p_bpm s3)) = Inl NullDeref"
    using pool_wfD(7,8) [OF s3(2)] fr(1,2) g s3(3) by (intro clock_pin_untracked_crashes) auto
  then show ?thesis
    using s3(1) small_pid [OF p] not_resident_entry(1) [OF wf new p] by (simp add: fetch_bpm_page_def pool_pin_def)
qed

lemma files_unchanged: "p_files st = files \<Longrightarrow> st\<lparr>p_files := files\<rparr> = st"
  by (cases st) simp

text \<open>The part of \<^verbatim>\<open>fetch_bpm_page\<close> after the page got a frame: it is pinned again and read from disk.\<close>

lemma fetch_placed:
  assumes new: "resident st p = None" and p: "p < 10000" and wf: "pool_wf junk st fs"
    and s1: "new_bpm_page (of_nat p) st = Inr (Some f, s1)" "pool_wf junk s1 fs'" "resident s1 p = Some f"
      "p_files s1 = p_files st" "disk_manager (p_bpm s1) = disk_manager (p_bpm st)"
      "bpages (p_bpm s1) = bs[unat f := blank_frame p]" "length bs = pool_size (p_bpm s1)"
    and dp: "of_nat p \<in> disk_pages st"
  defines "st' \<equiv> set_page f ((blank_frame p)\<lparr>pin_count := 2, bp_data := disk_page st p\<rparr>) s1"
  shows "fetch_bpm_page junk (of_nat p) st = Inr (f, st')" and "pool_wf junk st' fs'"
    and "bpages (p_bpm st') = bs[unat f := (blank_frame p)\<lparr>pin_count := 2, bp_data := disk_page st p\<rparr>]"
proof -
  from resident_entry [OF s1(2,3)] obtain e where e: "page_entry (dec p) s1 = Inr (Some e)"
    "frame_cell (el_data e) (p_mem s1) = Inr f" "unat f < pool_size (p_bpm s1)" by metis
  have fr: "frame s1 (unat f) = blank_frame p" using s1(6,7) e(3) by (simp add: frame_def)
  let ?s2 = "set_page f ((blank_frame p)\<lparr>pin_count := 2\<rparr>) s1"
  have ap: "add_pin f s1 = Inr ?s2"
    using page_at_wf [OF s1(2) e(3)] fr by (simp add: add_pin_def blank_frame_def)
  have wf2: "pool_wf junk ?s2 fs'" using pool_wf_set_page [OF s1(2)] by (simp add: blank_frame_def)
  have rd: "read_page junk (of_nat p) (disk_manager (p_bpm st)) (p_files st) = Inr (disk_page st p, p_files st)"
    and len: "length (disk_page st p) = PAGE_SIZE"
    using read_page_in_file [OF pool_wfD(11) [OF wf] dp [unfolded disk_pages_def]] by (simp_all add: disk_page_def)
  have pa: "page_at f ?s2 = Inr ((blank_frame p)\<lparr>pin_count := 2\<rparr>)"
    using page_at_wf [OF wf2, of f] frame_set_page [OF s1(2), of f _ "unat f"] e(3) by simp
  let ?pg = "(blank_frame p)\<lparr>pin_count := 2, bp_data := disk_page st p\<rparr>"
  have "?s2\<lparr>p_files := p_files st\<rparr> = ?s2" using s1(4) by (intro files_unchanged) simp
  then have "set_page f ?pg (?s2\<lparr>p_files := p_files st\<rparr>) = st'" by (simp add: st'_def set_page_def)
  then show "fetch_bpm_page junk (of_nat p) st = Inr (f, st')"
    using small_pid [OF p] not_resident_entry(1) [OF wf new p] s1(1,4,5) e ap rd pa
    by (simp add: fetch_bpm_page_def)
  show "pool_wf junk st' fs'" using pool_wf_set_page [OF s1(2), of ?pg f] len by (simp add: st'_def)
  show "bpages (p_bpm st') = bs[unat f := ?pg]" by (simp add: st'_def s1(6))
qed

lemma fetch_miss:
  assumes wf: "pool_wf junk st fs" and new: "resident st p = None" and p: "p < 10000"
    and free: "free_frame (free_list (p_bpm st)) 0 = Some i" and pin: "pinnable i fs fs'"
    and dp: "of_nat p \<in> disk_pages st"
  shows "\<exists>st'. fetch_bpm_page junk (of_nat p) st = Inr (of_nat i, st') \<and> pool_wf junk st' fs' \<and>
    resident st' p = Some (of_nat i) \<and> (\<forall>q. q \<noteq> p \<longrightarrow> resident st' q = resident st q) \<and>
    p_files st' = p_files st \<and> pool_size (p_bpm st') = pool_size (p_bpm st) \<and>
    disk_manager (p_bpm st') = disk_manager (p_bpm st) \<and>
    bpages (p_bpm st') = (bpages (p_bpm st))[i := (blank_frame p)\<lparr>pin_count := 2, bp_data := disk_page st p\<rparr>] \<and>
    free_list (p_bpm st') = (free_list (p_bpm st))[i := False]"
proof -
  let ?f = "of_nat i :: frame_id_t"
  from new_bpm_page_free [OF assms(1-5)] obtain s1 where
    s1: "new_bpm_page (of_nat p) st = Inr (Some ?f, s1)" "pool_wf junk s1 fs'" "resident s1 p = Some ?f"
      "\<forall>q. q \<noteq> p \<longrightarrow> resident s1 q = resident st q" "p_files s1 = p_files st"
      "pool_size (p_bpm s1) = pool_size (p_bpm st)" "disk_manager (p_bpm s1) = disk_manager (p_bpm st)"
      "bpages (p_bpm s1) = (bpages (p_bpm st))[i := blank_frame p]"
      "free_list (p_bpm s1) = (free_list (p_bpm st))[i := False]" by blast
  have "i < pool_size (p_bpm st)" using free_frame_Some [OF free] pool_wfD(4) [OF wf] by simp
  then have uf: "unat ?f = i" using small_frame(1) pool_wfD(2) [OF wf] by simp
  have "bpages (p_bpm s1) = (bpages (p_bpm st))[unat ?f := blank_frame p]"
    "length (bpages (p_bpm st)) = pool_size (p_bpm s1)" using s1(6,8) uf pool_wfD(3) [OF wf] by simp_all
  from fetch_placed [OF new p wf s1(1-3,5,7) this dp] s1(3-9) uf show ?thesis by simp
qed

section \<open>Flushing\<close>

lemma flush_ok:
  assumes wf: "pool_wf junk st fs" and r: "resident st p = Some f" and al: "alone st p"
    and nt: "unat f \<notin> fst ` set fs"
  shows "\<exists>st'. flush_page (of_nat p) st = Inr (True, st') \<and> pool_wf junk st' ((unat f, True) # fs) \<and>
    resident st' p = None \<and> (\<forall>q. q \<noteq> p \<longrightarrow> resident st' q = resident st q) \<and>
    pool_size (p_bpm st') = pool_size (p_bpm st) \<and> disk_manager (p_bpm st') = disk_manager (p_bpm st) \<and>
    bpages (p_bpm st') = bpages (p_bpm st) \<and> free_list (p_bpm st') = (free_list (p_bpm st))[unat f := True] \<and>
    disk_page st' p = bp_data (frame st (unat f)) \<and> insert (of_nat p) (disk_pages st) \<subseteq> disk_pages st' \<and>
    (\<forall>q. of_nat q \<in> disk_pages st \<longrightarrow> (of_nat q :: page_id_t) \<noteq> of_nat p \<longrightarrow> disk_page st' q = disk_page st q)"
proof -
  let ?b = "p_bpm st" and ?dm = "disk_manager (p_bpm st)" and ?m = "p_mem st"
  from resident_entry [OF wf r] obtain e where e: "page_entry (dec p) st = Inr (Some e)"
    "frame_cell (el_data e) ?m = Inr f" "unat f < pool_size ?b" "p < 10000" .
  let ?data = "bp_data (frame st (unat f))"
  have len: "length ?data = PAGE_SIZE" using frame_data_length [OF wf e(3)] .
  have v: "dm_valid (of_nat p)" using small_pid(1) [OF e(4)] e(4) by (simp add: dm_valid_def)
  let ?files = "(p_files st)(dm_path ?dm \<mapsto> file_write (unat (of_nat p :: page_id_t) * PAGE_SIZE) ?data (contents (dm_path ?dm) (p_files st)))"
  have w: "write_page (of_nat p) ?dm ?data (p_files st) = Inr ?files"
    using write_page_in_file [OF pool_wfD(11) [OF wf] v len] .
  note pw = page_of_write [OF len, where dm = ?dm and files = "p_files st" and p = "of_nat p"]
  have dinv: "dm_inv ?dm junk ?files" using pool_wfD(11) [OF wf] by (simp add: dm_inv_def)
  from alone_bucket [OF wf al r] obtain d where d: "bucket_of (page_table ?b) p = [d]" "el_str ?m d = dec p" by blast
  from pt_remove [OF pool_wfD(6) [OF wf] e(4) d] obtain pt where
    rm: "hash_remove (dec p) ?m (page_table ?b) = Inr (True, ?m, pt)" "pt_ok (pool_size ?b) ?m pt" "frame_of ?m pt p = None"
      "\<forall>q. q \<noteq> p \<longrightarrow> frame_of ?m pt q = frame_of ?m (page_table ?b) q" "pt_addrs pt \<subseteq> pt_addrs (page_table ?b)" by blast
  let ?s1 = "st\<lparr>p_mem := ?m, p_files := ?files, p_bpm := ?b\<lparr>page_table := pt\<rparr>\<rparr>"
  have "pt_addrs pt \<inter> node_values (replacer ?b) = {}" using rm(5) pool_wfD(10) [OF wf] by blast
  then have wf1: "pool_wf junk ?s1 fs" using pool_wfD [OF wf] rm(2) dinv by (simp add: pool_wf_def Let_def)
  let ?s2 = "?s1\<lparr>p_bpm := (p_bpm ?s1)\<lparr>free_list := (free_list ?b)[unat f := True]\<rparr>\<rparr>"
  have sf: "set_free f True ?s1 = Inr ?s2" and wf2: "pool_wf junk ?s2 fs"
    using set_free_wf [OF wf1, of f True] e(3) by simp_all
  have "unat f < pool_size (p_bpm ?s2)" using e(3) by simp
  from pool_unpin_ok [OF wf2 this nt] obtain s3 where
    s3: "pool_unpin f ?s2 = Inr s3" "pool_wf junk s3 ((unat f, True) # fs)" "same_pages ?s2 s3" by blast
  have run: "flush_page (of_nat p) st = Inr (True, s3)"
    using small_pid(2) [OF e(4)] e(1,2) page_at_wf [OF wf e(3)] w rm(1) sf s3(1) by (simp add: flush_page_def Let_def)
  have res: "resident ?s2 p = None" "\<forall>q. q \<noteq> p \<longrightarrow> resident ?s2 q = resident st q"
    using rm(3,4) by (simp_all add: resident_def)
  have "disk_page ?s2 p = ?data" "insert (of_nat p) (disk_pages st) \<subseteq> disk_pages ?s2"
    "\<forall>q. of_nat q \<in> disk_pages st \<longrightarrow> (of_nat q :: page_id_t) \<noteq> of_nat p \<longrightarrow> disk_page ?s2 q = disk_page st q"
    using pw v by (simp_all add: disk_page_def disk_pages_def)
  moreover have "disk_page s3 q = disk_page ?s2 q" "disk_pages s3 = disk_pages ?s2" for q
    using s3(3) by (simp_all add: same_pages_def disk_page_def disk_pages_def)
  ultimately show ?thesis using run s3(2,3) res by (auto simp: same_pages_def)
qed

section \<open>A pool with no free frame\<close>

lemma new_pool_wf:
  assumes "cmem_wf m" and "0 < n" and "n < 65536" and "dm_inv dm junk files"
  shows "pool_wf junk \<lparr>p_mem = m, p_files = files, p_bpm = new_bpm n dm\<rparr> []" (is "pool_wf junk ?st []")
    and "resident \<lparr>p_mem = m, p_files = files, p_bpm = new_bpm n dm\<rparr> p = None"
proof -
  have u: "unat (of_nat n :: u32) = n" using assms(3) by (simp add: unat_of_nat)
  then have ht: "ht_arr (init_hash (of_nat n)) = replicate n []" "unat (ht_size (init_hash (of_nat n))) = n"
    using unat_ucast_small [of "of_nat n :: u32"] assms(3) by (simp_all add: init_hash_def)
  have "slot_inv m (init_hash (of_nat n))" using assms u by (intro slot_inv_init) simp_all
  then have "table_wf m (init_hash (of_nat n))" using ht by (simp add: slot_inv_def table_wf_def list_all_iff)
  then have "pt_ok n m (init_hash (of_nat n))" using ht by (simp add: pt_ok_def)
  moreover have "frame_table (clock_replacer_init n) = init_hash (of_nat n)" "cl_capacity (frames (clock_replacer_init n)) = n"
    by (simp_all add: clock_replacer_init_def circular_list_init_def)
  moreover have "pt_addrs (init_hash (of_nat n)) = {}" using ht by (simp add: pt_addrs_def)
  ultimately show "pool_wf junk ?st []"
    using assms ht tracks_init [OF assms(1-3)] by (simp add: pool_wf_def Let_def new_bpm_def list_all_iff)
  show "resident ?st p = None" using ht assms(2) by (simp add: resident_def frame_of_def pt_find_def bucket_of_def new_bpm_def)
qed

lemma pool_evict_referenced:
  assumes wf: "pool_wf junk st fs" and fs: "list_all snd fs" "fs \<noteq> [] \<longrightarrow> sweep_starts_at (replacer (p_bpm st)) 0"
  shows "\<exists>st'. pool_evict st = Inr (UINT32_MAX, st') \<and> pool_wf junk st' (clear_bits fs) \<and> same_pages st st' \<and>
    extends (p_mem st) (p_mem st') \<and> (fs \<noteq> [] \<longrightarrow> sweep_starts_at (replacer (p_bpm st')) 0)"
proof -
  let ?r = "replacer (p_bpm st)"
  have "\<exists>m r. evict (p_mem st) ?r = Inr (UINT32_MAX, m, r) \<and> tracks m r (clear_bits fs) \<and> same_sizes ?r r \<and>
      extends (p_mem st) m \<and> node_values r = node_values ?r \<and> (fs \<noteq> [] \<longrightarrow> sweep_starts_at r 0)"
  proof (cases "fs = []")
    case True
    with pool_wfD(7) [OF wf] have "tracks (p_mem st) ?r []" "cl_size (frames ?r) = 0" using tracks_size by fastforce+
    then show ?thesis
      using True by (intro exI [of _ "p_mem st"] exI [of _ "?r\<lparr>latch := True\<rparr>"])
        (simp add: evict_def Let_def same_sizes_def node_values_def)
  qed (use evict_all_referenced [OF pool_wfD(7) [OF wf] _ fs(1)] fs(2) in blast)
  then obtain m r where r: "evict (p_mem st) ?r = Inr (UINT32_MAX, m, r)" "tracks m r (clear_bits fs)" "same_sizes ?r r"
    "extends (p_mem st) m" "node_values r = node_values ?r" "fs \<noteq> [] \<longrightarrow> sweep_starts_at r 0" by blast
  have "node_values r \<subseteq> insert (brk (p_mem st)) (node_values ?r)" using r(5) by blast
  from replacer_step [OF wf r(2,3) extends_but_extends [OF r(4)] this] r(1,4,6) show ?thesis
    by (simp add: pool_evict_def)
qed

lemma pool_evict_victim:
  assumes wf: "pool_wf junk st ((v, False) # fs)" and h: "sweep_starts_at (replacer (p_bpm st)) 0"
  shows "\<exists>st'. pool_evict st = Inr (of_nat v, st') \<and> pool_wf junk st' fs \<and> same_pages st st' \<and>
    extends_but (node_values (replacer (p_bpm st))) (p_mem st) (p_mem st')"
proof -
  let ?r = "replacer (p_bpm st)"
  have "tracks (p_mem st) ?r ([] @ [] @ (v, False) # fs)" "sweep_starts_at ?r (length ([] :: tracked))"
    using pool_wfD(7) [OF wf] h by simp_all
  from evict_victim [OF this] obtain m r where
    r: "evict (p_mem st) ?r = Inr (of_nat v, m, r)" "tracks m r fs" "same_sizes ?r r"
      "extends_but (node_values ?r) (p_mem st) m" "node_values r \<subseteq> node_values ?r" by auto
  have "node_values r \<subseteq> insert (brk (p_mem st)) (node_values ?r)" using r(5) by blast
  from replacer_step [OF wf r(2-4) this] r(1,4) show ?thesis by (simp add: pool_evict_def)
qed

text \<open>Storing another number in a cell that neither table uses.\<close>

lemma tracks_set_u32:
  assumes tr: "tracks m r fs" and d: "cells m d = Some (CU32 w)"
  shows "tracks (m\<lparr>cells := (cells m)(d \<mapsto> CU32 f)\<rparr>) r fs"
proof -
  let ?m = "m\<lparr>cells := (cells m)(d \<mapsto> CU32 f)\<rparr>"
  note wf = tracksD(1,2) [OF tr]
  have el: "live_el ?m e \<and> el_str ?m e = el_str m e" if "live_el m e" for e
    using that d live_elI [of ?m e "el_str m e"] by (cases "el_data e = d") (auto simp: live_el_def)
  have "slot_ok ?m i b" if "slot_ok m i b" for i b using that el by (auto simp: slot_ok_def)
  moreover have "cmem_wf ?m" using wf(1) d by (auto simp: slot_inv_def cmem_wf_def)
  ultimately have "slot_inv ?m (frame_table r)" using wf(1) by (simp add: slot_inv_def)
  moreover have "cl_wf ?m (frames r)" using wf(2) d by (fastforce simp: cl_wf_def)
  moreover have "list_all2 (node_tracks ?m (frame_table r)) (cl_nodes (frames r)) fs"
    using tracksD(3) [OF tr] by (rule nodes_track_mono) (use d in auto)
  ultimately show ?thesis using tracksD(4,5) [OF tr] by (intro tracksI)
qed

lemma pool_set_u32:
  fixes f :: u32
  assumes wf: "pool_wf junk st fs" and d: "cells (p_mem st) d = Some (CU32 w)" "d \<notin> pt_addrs (page_table (p_bpm st))"
  defines "st' \<equiv> st\<lparr>p_mem := (p_mem st)\<lparr>cells := (cells (p_mem st))(d \<mapsto> CU32 f)\<rparr>\<rparr>"
  shows "pool_wf junk st' fs" and "resident st' p = resident st p"
proof -
  let ?m = "(p_mem st)\<lparr>cells := (cells (p_mem st))(d \<mapsto> CU32 f)\<rparr>"
  have ext: "extends_but {d} (p_mem st) ?m" by (simp add: extends_but_def)
  have tr: "tracks ?m (replacer (p_bpm st)) fs" using tracks_set_u32 [OF pool_wfD(7) [OF wf] d(1)] .
  have "cmem_wf ?m" using tracksD(1) [OF tr] by (simp add: slot_inv_def)
  note pt = pt_extends_but [OF pool_wfD(6) [OF wf] ext _ this]
  show "pool_wf junk st' fs" using pool_wfD [OF wf] pt(1) tr d(2) by (simp add: pool_wf_def Let_def st'_def)
  show "resident st' p = resident st p" using pt(2) d(2) by (simp add: st'_def resident_def)
qed

lemma malloc_pool:
  fixes c :: cell
  assumes wf: "pool_wf junk st fs"
  defines "st' \<equiv> st\<lparr>p_mem := snd (malloc c (p_mem st))\<rparr>"
  shows "pool_wf junk st' fs" and "resident st' q = resident st q" and "cells (p_mem st') (brk (p_mem st)) = Some c"
    and "brk (p_mem st) \<notin> pt_addrs (page_table (p_bpm st'))" and "brk (p_mem st) \<notin> node_values (replacer (p_bpm st'))"
proof -
  note cw = pool_wfD(12) [OF wf]
  show "pool_wf junk st' fs" "resident st' q = resident st q"
    using pool_wf_extends [OF wf malloc_extends [OF cw] malloc_wf [OF cw]] by (simp_all add: st'_def)
  show "cells (p_mem st') (brk (p_mem st)) = Some c" by (simp add: st'_def)
  show "brk (p_mem st) \<notin> pt_addrs (page_table (p_bpm st'))" using brk_not_in_table [OF wf] by (simp add: st'_def)
  have "\<forall>a \<in> node_values (replacer (p_bpm st)). cells (p_mem st) a \<noteq> None"
    using tracksD(2) [OF pool_wfD(7) [OF wf]] by (auto simp: node_values_def cl_wf_def)
  then show "brk (p_mem st) \<notin> node_values (replacer (p_bpm st'))"
    using cmem_wf_fresh [OF cw, of "brk (p_mem st)"] by (auto simp: st'_def)
qed

lemma new_bpm_page_none:
  assumes wf: "pool_wf junk st fs" and new: "resident st p = None" and p: "p < 10000"
    and full: "free_frame (free_list (p_bpm st)) 0 = None"
    and fs: "list_all snd fs" "fs \<noteq> [] \<longrightarrow> sweep_starts_at (replacer (p_bpm st)) 0"
  shows "\<exists>st'. new_bpm_page (of_nat p) st = Inr (None, st') \<and> pool_wf junk st' (clear_bits fs) \<and> same_pages st st' \<and>
    (fs \<noteq> [] \<longrightarrow> sweep_starts_at (replacer (p_bpm st')) 0)"
proof -
  let ?s0 = "st\<lparr>p_mem := snd (malloc (CU32 UINT32_MAX) (p_mem st))\<rparr>" and ?d = "brk (p_mem st)"
  note s0 = malloc_pool [OF wf, of "CU32 UINT32_MAX"]
  have "fs \<noteq> [] \<longrightarrow> sweep_starts_at (replacer (p_bpm ?s0)) 0" using fs(2) by simp
  from pool_evict_referenced [OF s0(1) fs(1) this] obtain s1 where
    s1: "pool_evict ?s0 = Inr (UINT32_MAX, s1)" "pool_wf junk s1 (clear_bits fs)" "same_pages ?s0 s1"
      "extends (p_mem ?s0) (p_mem s1)" "fs \<noteq> [] \<longrightarrow> sweep_starts_at (replacer (p_bpm s1)) 0" by blast
  have ff: "find_frame ?s0 = Inr (UINT32_MAX, s1)"
    using full s1(1) pool_wfD(4) [OF wf] by (simp add: find_frame_def)
  have d: "cells (p_mem s1) ?d = Some (CU32 UINT32_MAX)" using extendsD [OF s1(4) s0(3)] .
  have "?d \<notin> pt_addrs (page_table (p_bpm s1))" using s0(4) s1(3) by (simp add: same_pages_def)
  note s2 = pool_set_u32 [OF s1(2) d this, of UINT32_MAX]
  have "new_bpm_page (of_nat p) st = Inr (None, s1\<lparr>p_mem := (p_mem s1)\<lparr>cells := (cells (p_mem s1))(?d \<mapsto> CU32 UINT32_MAX)\<rparr>\<rparr>)"
    using small_pid [OF p] not_resident_entry(1) [OF wf new p] ff by (simp add: new_bpm_page_def malloc_def)
  then show ?thesis using s2 s1(3,5) s0(2) by (auto simp: same_pages_def)
qed

lemma new_bpm_page_evicts:
  assumes wf: "pool_wf junk st [(v, False)]" and new: "resident st p = None" and p: "p < 10000"
    and full: "free_frame (free_list (p_bpm st)) 0 = None" and h: "sweep_starts_at (replacer (p_bpm st)) 0"
    and v: "v < pool_size (p_bpm st)" "resident st v = None"
  shows "\<exists>st'. new_bpm_page (of_nat p) st = Inr (Some (of_nat v), st') \<and> pool_wf junk st' [] \<and>
    resident st' p = Some (of_nat v) \<and> (\<forall>q. q \<noteq> p \<longrightarrow> resident st' q = resident st q) \<and>
    p_files st' = p_files st \<and> pool_size (p_bpm st') = pool_size (p_bpm st) \<and>
    disk_manager (p_bpm st') = disk_manager (p_bpm st) \<and>
    bpages (p_bpm st') = (bpages (p_bpm st))[v := blank_frame p] \<and> free_list (p_bpm st') = free_list (p_bpm st)"
proof -
  let ?s0 = "st\<lparr>p_mem := snd (malloc (CU32 UINT32_MAX) (p_mem st))\<rparr>" and ?d = "brk (p_mem st)" and ?f = "of_nat v :: frame_id_t"
  note s0 = malloc_pool [OF wf, of "CU32 UINT32_MAX"]
  have uf: "unat ?f = v" "?f \<noteq> UINT32_MAX" using small_frame v(1) pool_wfD(2) [OF wf] by simp_all
  have "sweep_starts_at (replacer (p_bpm ?s0)) 0" using h by simp
  from pool_evict_victim [OF s0(1) this] obtain s1 where
    s1: "pool_evict ?s0 = Inr (?f, s1)" "pool_wf junk s1 []" "same_pages ?s0 s1"
      "extends_but (node_values (replacer (p_bpm ?s0))) (p_mem ?s0) (p_mem s1)" by blast
  have lt: "unat ?f < pool_size (p_bpm s1)" using v(1) uf(1) s1(3) by (simp add: same_pages_def)
  have nr: "resident s1 v = None" "v < 2 ^ 31" using v s0(2) s1(3) pool_wfD(2) [OF wf] by (simp_all add: same_pages_def)
  have "sprintf_d 11 ?f = Inr (dec v)" using sprintf_d_eq [of ?f 11] nr(2) uf(1) by simp
  then have "flush_page ?f s1 = Inr (False, s1)"
    using absent_entry(1) [OF s1(2) nr] by (simp add: flush_page_def)
  then have ff: "find_frame ?s0 = Inr (?f, s1)"
    using full s1(1) pool_wfD(4) [OF wf] uf(2) page_at_wf [OF s1(2) lt] by (simp add: find_frame_def)
  have d: "cells (p_mem s1) ?d = Some (CU32 UINT32_MAX)" using extends_butD [OF s1(4) s0(3,5)] .
  have "?d \<notin> pt_addrs (page_table (p_bpm s1))" using s0(4) s1(3) by (simp add: same_pages_def)
  note s2 = pool_set_u32 [OF s1(2) d this, of ?f]
  have res: "\<forall>q. resident (s1\<lparr>p_mem := (p_mem s1)\<lparr>cells := (cells (p_mem s1))(?d \<mapsto> CU32 ?f)\<rparr>\<rparr>) q = resident st q"
    using s2(2) s0(2) s1(3) by (simp add: same_pages_def)
  have "pinnable (unat ?f) [] []" by (simp add: pinnable_def)
  from new_bpm_page_placed [OF wf new p ff uf(2) refl s2(1) res _ this] lt uf(1) s1(3) show ?thesis
    by (simp add: same_pages_def)
qed

section \<open>Properties\<close>

text \<open>
  C8. A page is written back and comes back. When the bytes of a resident page are replaced by
  \<^verbatim>\<open>write_to_frame\<close> and the page is flushed, the disk holds the new bytes, the page leaves the pool and
  every other page of the disk is as before; fetching the page again returns the first free frame with
  these bytes, and the pool stays well formed. The page is the only resident page of its hash bucket,
  its frame is not tracked by the replacer, and the replacer can pin the frame that is free afterwards: it is
  one of the first two frames that are then tracked.
\<close>

theorem flush_then_fetch:
  assumes wf: "pool_wf junk st fs" and r: "resident st p = Some f" and al: "alone st p"
    and nt: "unat f \<notin> fst ` set fs" and len: "length data = PAGE_SIZE"
    and free: "free_frame ((free_list (p_bpm st))[unat f := True]) 0 = Some i"
    and pin: "pinnable i ((unat f, True) # fs) fs'"
  shows "\<exists>s1 s2 s3. write_to_frame f data st = Inr s1 \<and> flush_page (of_nat p) s1 = Inr (True, s2) \<and>
    disk_page s2 p = data \<and> resident s2 p = None \<and>
    (\<forall>q. of_nat q \<in> disk_pages st \<longrightarrow> (of_nat q :: page_id_t) \<noteq> of_nat p \<longrightarrow> disk_page s2 q = disk_page st q) \<and>
    fetch_bpm_page junk (of_nat p) s2 = Inr (of_nat i, s3) \<and> bp_data (frame s3 i) = data \<and>
    resident s3 p = Some (of_nat i) \<and> pool_wf junk s3 fs'"
proof -
  from resident_entry [OF wf r] have f: "unat f < pool_size (p_bpm st)" and p: "p < 10000" by metis+
  let ?s1 = "set_page f ((frame st (unat f))\<lparr>bp_data := data, is_dirty := True\<rparr>) st"
  have w: "write_to_frame f data st = Inr ?s1"
    using page_at_wf [OF wf f] len by (simp add: write_to_frame_def load_ok)
  have wf1: "pool_wf junk ?s1 fs" using pool_wf_set_page [OF wf] len by simp
  have r1: "resident ?s1 p = Some f" "alone ?s1 p" using r al by (simp_all add: alone_def)
  from flush_ok [OF wf1 r1 nt] obtain s2 where
    s2: "flush_page (of_nat p) ?s1 = Inr (True, s2)" "pool_wf junk s2 ((unat f, True) # fs)" "resident s2 p = None"
      "free_list (p_bpm s2) = (free_list (p_bpm st))[unat f := True]" "disk_page s2 p = data"
      "of_nat p \<in> disk_pages s2" "pool_size (p_bpm s2) = pool_size (p_bpm st)"
      "\<forall>q. of_nat q \<in> disk_pages st \<longrightarrow> (of_nat q :: page_id_t) \<noteq> of_nat p \<longrightarrow> disk_page s2 q = disk_page st q"
    using frame_set_page [OF wf f, of _ "unat f"] by auto
  from free have free2: "free_frame (free_list (p_bpm s2)) 0 = Some i" by (simp add: s2(4))
  from fetch_miss [OF s2(2,3) p free2 pin s2(6)] obtain s3 where
    s3: "fetch_bpm_page junk (of_nat p) s2 = Inr (of_nat i, s3)" "pool_wf junk s3 fs'" "resident s3 p = Some (of_nat i)"
      "bpages (p_bpm s3) = (bpages (p_bpm s2))[i := (blank_frame p)\<lparr>pin_count := 2, bp_data := disk_page s2 p\<rparr>]"
    by blast
  have "i < length (bpages (p_bpm s2))" using free_frame_Some [OF free2] pool_wfD(3,4) [OF s2(2)] by simp
  then have "bp_data (frame s3 i) = data" by (simp add: frame_def s3(4) s2(5))
  with w s2 s3 show ?thesis by blast
qed

text \<open>
  C22. Fetching a page of the file that is not resident, whose number is below 10000, when there is a free frame and
  the replacer can pin the first one: it tracks no frame at all, or this frame as one of its first two. (Where it
  tracks one other frame only, the fetch follows a null pointer, by \<open>fetch_unpinnable_crashes\<close>.) Then the first free frame is taken, it holds the
  bytes of the disk page and the page's number, the disk and the other resident pages are untouched, and
  the pool stays well formed. The frame is pinned twice. Fetching the page again finds it in the same frame.
\<close>

theorem fetch_reads_disk_then_hits:
  assumes "pool_wf junk st fs" and "resident st p = None" and "p < 10000"
    and "free_frame (free_list (p_bpm st)) 0 = Some i" and "pinnable i fs fs'" and "of_nat p \<in> disk_pages st"
  shows "\<exists>s1. fetch_bpm_page junk (of_nat p) st = Inr (of_nat i, s1) \<and> pool_wf junk s1 fs' \<and>
    frame s1 i = \<lparr>bp_data = disk_page st p, bp_id = of_nat p, pin_count = 2, is_dirty = False\<rparr> \<and>
    p_files s1 = p_files st \<and> (\<forall>q. q \<noteq> p \<longrightarrow> resident s1 q = resident st q) \<and>
    fetch_bpm_page junk (of_nat p) s1 = Inr (of_nat i, set_page (of_nat i) ((frame s1 i)\<lparr>pin_count := 3\<rparr>) s1)"
proof -
  from fetch_miss [OF assms] obtain s1 where
    s1: "fetch_bpm_page junk (of_nat p) st = Inr (of_nat i, s1)" "pool_wf junk s1 fs'" "resident s1 p = Some (of_nat i)"
      "\<forall>q. q \<noteq> p \<longrightarrow> resident s1 q = resident st q" "p_files s1 = p_files st"
      "bpages (p_bpm s1) = (bpages (p_bpm st))[i := (blank_frame p)\<lparr>pin_count := 2, bp_data := disk_page st p\<rparr>]"
    by blast
  have i: "i < pool_size (p_bpm st)" using free_frame_Some [OF assms(4)] pool_wfD(4) [OF assms(1)] by simp
  then have uf: "unat (of_nat i :: frame_id_t) = i" using small_frame(1) pool_wfD(2) [OF assms(1)] by simp
  have fr: "frame s1 i = \<lparr>bp_data = disk_page st p, bp_id = of_nat p, pin_count = 2, is_dirty = False\<rparr>"
    using i pool_wfD(3) [OF assms(1)] by (simp add: frame_def s1(6) blank_frame_def)
  have "fetch_bpm_page junk (of_nat p) s1 = Inr (of_nat i, set_page (of_nat i) ((frame s1 i)\<lparr>pin_count := 3\<rparr>) s1)"
    using fetch_hit [OF s1(2,3)] uf by (simp add: fr)
  with s1 fr show ?thesis by blast
qed

text \<open>
  Unpinning a resident page on every branch: a page that is not pinned is left alone and the answer is
  false; otherwise the dirty bit is set as asked and the pin count drops by one, and when it reaches zero
  the replacer starts to track the frame. The page table and the disk do not change.
\<close>

lemma unpin_page_behaviour:
  assumes wf: "pool_wf junk st fs" and r: "resident st p = Some f" and nt: "unat f \<notin> fst ` set fs"
    and pc: "0 \<le> pin_count (frame st (unat f))"
  shows "\<exists>st'. unpin_page (of_nat p) d st = Inr (0 < pin_count (frame st (unat f)), st') \<and>
    pool_wf junk st' (if pin_count (frame st (unat f)) = 1 then (unat f, True) # fs else fs) \<and>
    frame st' (unat f) = (if 0 < pin_count (frame st (unat f))
      then (frame st (unat f))\<lparr>is_dirty := d, pin_count := pin_count (frame st (unat f)) - 1\<rparr>
      else frame st (unat f)) \<and>
    bpages (p_bpm st') = (bpages (p_bpm st))[unat f := frame st' (unat f)] \<and>
    free_list (p_bpm st') = free_list (p_bpm st) \<and> disk_manager (p_bpm st') = disk_manager (p_bpm st) \<and>
    p_files st' = p_files st \<and> (\<forall>q. resident st' q = resident st q)"
proof -
  let ?pg = "frame st (unat f)"
  let ?pg' = "?pg\<lparr>is_dirty := d, pin_count := pin_count ?pg - 1\<rparr>"
  from resident_entry [OF wf r] obtain e where e: "page_entry (dec p) st = Inr (Some e)"
    "frame_cell (el_data e) (p_mem st) = Inr f" "unat f < pool_size (p_bpm st)" "p < 10000" .
  note run = small_pid(3) [OF e(4)] e(1,2) page_at_wf [OF wf e(3)]
  let ?s1 = "set_page f ?pg' st"
  have wf1: "pool_wf junk ?s1 fs" using pool_wf_set_page [OF wf] frame_data_length [OF wf e(3)] by simp
  have fr1: "frame ?s1 (unat f) = ?pg'" using frame_set_page [OF wf e(3)] by simp
  consider "pin_count ?pg = 0" | "pin_count ?pg = 1" | "1 < pin_count ?pg" using pc by linarith
  then show ?thesis
  proof cases
    case 1
    then have "unpin_page (of_nat p) d st = Inr (False, st)" using run by (simp add: unpin_page_def)
    then show ?thesis using 1 wf by (simp add: frame_def)
  next
    case 2
    have "unat f < pool_size (p_bpm ?s1)" using e(3) by simp
    from pool_unpin_ok [OF wf1 this nt] obtain s2 where
      s2: "pool_unpin f ?s1 = Inr s2" "pool_wf junk s2 ((unat f, True) # fs)" "same_pages ?s1 s2" by blast
    then have "unpin_page (of_nat p) d st = Inr (True, s2)" using run 2 by (simp add: unpin_page_def)
    moreover have "frame s2 (unat f) = frame ?s1 (unat f)" using s2(3) by (simp add: frame_def same_pages_def)
    ultimately show ?thesis using 2 s2(2,3) fr1 by (simp add: same_pages_def)
  next
    case 3
    then have "unpin_page (of_nat p) d st = Inr (True, ?s1)" using run by (simp add: unpin_page_def Let_def)
    then show ?thesis using 3 wf1 fr1 by simp
  qed
qed

text \<open>What an allocation does when a frame is free.\<close>

lemma allocate_ok:
  assumes wf: "pool_wf junk st fs" and meta: "0 \<in> disk_pages st" "index_meta k (disk_page st 0)" and k: "unat k + 1 < 10000"
    and new: "resident st (unat k + 1) = None" and free: "free_frame (free_list (p_bpm st)) 0 = Some i" and pin: "pinnable i fs fs'"
  shows "\<exists>st'. allocate_new_page (Suc fuel) junk BTREE_INDEX_PAGE st = Inr (of_nat i, st') \<and> pool_wf junk st' fs' \<and>
    resident st' (unat k + 1) = Some (of_nat i) \<and> (\<forall>q. q \<noteq> unat k + 1 \<longrightarrow> resident st' q = resident st q) \<and>
    bpages (p_bpm st') = (bpages (p_bpm st))[i := blank_frame (unat k + 1)] \<and>
    free_list (p_bpm st') = (free_list (p_bpm st))[i := False] \<and>
    disk_page st' (unat k + 1) = replicate PAGE_SIZE 0 \<and> index_meta (k + 1) (disk_page st' 0) \<and>
    insert (of_nat (unat k + 1)) (disk_pages st) \<subseteq> disk_pages st' \<and>
    (\<forall>q \<in> disk_pages st. q \<noteq> 0 \<and> q \<noteq> of_nat (unat k + 1) \<longrightarrow> disk_page st' (unat q) = disk_page st (unat q))"
proof -
  let ?dm = "disk_manager (p_bpm st)" and ?p = "unat k + 1"
  have k1: "k \<noteq> 65535" and up: "unat (k + 1) = ?p" using k by (auto simp: unat_word_ariths)
  have pid: "(ucast (k + 1) :: page_id_t) = of_nat ?p"
    by (simp only: word_unat_eq_iff unat_ucast_wider up small_pid(1) [OF k])
  have m: "0 \<in> dm_pages ?dm (p_files st)" "index_meta k (page_of 0 ?dm (p_files st))"
    using meta by (simp_all add: disk_pages_def disk_page_def)
  from index_page_allocated [OF pool_wfD(11) [OF wf] m k1, of False] obtain files where
    f: "new_btree_index_page junk ?dm False (p_files st) = Inr (of_nat ?p, files)" "dm_inv ?dm junk files"
      "insert 0 (insert (of_nat ?p) (dm_pages ?dm (p_files st))) \<subseteq> dm_pages ?dm files"
      "page_of 0 ?dm files = with_node_count (k + 1) (page_of 0 ?dm (p_files st))" "page_of (of_nat ?p) ?dm files = blank_node False"
      "\<forall>q \<in> dm_pages ?dm (p_files st). q \<noteq> 0 \<and> q \<noteq> of_nat ?p \<longrightarrow> page_of q ?dm files = page_of q ?dm (p_files st)"
    unfolding pid by blast
  let ?st = "st\<lparr>p_files := files\<rparr>"
  have "pool_wf junk ?st fs" "resident ?st ?p = None" "free_frame (free_list (p_bpm ?st)) 0 = Some i"
    using wf new free f(2) by (simp_all add: pool_wf_def Let_def resident_def)
  from new_bpm_page_free [OF this(1,2) k this(3) pin] obtain s1 where
    s1: "new_bpm_page (of_nat ?p) ?st = Inr (Some (of_nat i), s1)" "pool_wf junk s1 fs'" "resident s1 ?p = Some (of_nat i)"
      "\<forall>q. q \<noteq> ?p \<longrightarrow> resident s1 q = resident st q"
      "p_files s1 = files" "disk_manager (p_bpm s1) = ?dm" "bpages (p_bpm s1) = (bpages (p_bpm st))[i := blank_frame ?p]"
      "free_list (p_bpm s1) = (free_list (p_bpm st))[i := False]"
    by (auto simp: resident_def)
  have run: "allocate_new_page (Suc fuel) junk BTREE_INDEX_PAGE st = Inr (of_nat i, s1)"
    using f(1) s1(1) by (simp add: allocate_new_page_def new_disk_page_def)
  have "disk_page s1 ?p = replicate PAGE_SIZE 0" using f(5) s1(5,6) blank_inner_node by (simp add: disk_page_def)
  moreover have "index_meta (k + 1) (disk_page s1 0)"
    using index_meta_with_node_count [OF m(2)] f(4) s1(5,6) by (simp add: disk_page_def)
  moreover have "insert (of_nat ?p) (disk_pages st) \<subseteq> disk_pages s1" using f(3) s1(5,6) by (simp add: disk_pages_def)
  moreover have "\<forall>q \<in> disk_pages st. q \<noteq> 0 \<and> q \<noteq> of_nat ?p \<longrightarrow> disk_page s1 (unat q) = disk_page st (unat q)"
    using f(6) s1(5,6) by (simp add: disk_pages_def disk_page_def)
  ultimately show ?thesis using run s1 by blast
qed

text \<open>
  C23. Allocation of an index page returns. The index file counts fewer than 9999 nodes, its next page is not resident,
  there is a free frame, and the replacer can pin the first one: it tracks no frame at all, or this frame as one of
  its first two. Then the loop of \<^verbatim>\<open>allocate_new_page\<close>, called for a \<open>BTREE_INDEX_PAGE\<close>, ends in its first round: the next page of the file is allocated and counted, its frame is the
  first free one, the page table maps the page to it, and the frame and the disk hold the same bytes.
\<close>

theorem allocate_new_page_returns:
  assumes wf: "pool_wf junk st fs" and meta: "0 \<in> disk_pages st" "index_meta k (disk_page st 0)" and k: "unat k + 1 < 10000"
    and new: "resident st (unat k + 1) = None" and free: "free_frame (free_list (p_bpm st)) 0 = Some i" and pin: "pinnable i fs fs'"
  shows "\<exists>st'. allocate_new_page (Suc fuel) junk BTREE_INDEX_PAGE st = Inr (of_nat i, st') \<and> pool_wf junk st' fs' \<and>
    resident st' (unat k + 1) = Some (of_nat i) \<and> bp_id (frame st' i) = of_nat (unat k + 1) \<and>
    bp_data (frame st' i) = disk_page st' (unat k + 1) \<and> index_meta (k + 1) (disk_page st' 0)"
proof -
  let ?p = "unat k + 1"
  from allocate_ok [OF assms, of fuel] obtain s1 where
    s1: "allocate_new_page (Suc fuel) junk BTREE_INDEX_PAGE st = Inr (of_nat i, s1)" "pool_wf junk s1 fs'"
      "resident s1 ?p = Some (of_nat i)" "bpages (p_bpm s1) = (bpages (p_bpm st))[i := blank_frame ?p]"
      "disk_page s1 ?p = replicate PAGE_SIZE 0" "index_meta (k + 1) (disk_page s1 0)" by blast
  have "i < length (bpages (p_bpm st))" using free_frame_Some [OF free] pool_wfD(3,4) [OF wf] by simp
  then have "frame s1 i = blank_frame ?p" by (simp add: frame_def s1(4))
  then show ?thesis using s1 by (simp add: blank_frame_def)
qed

text \<open>
  C35. A full pool. When no frame is free and no tracked frame has a clear reference bit, fetching a page
  that is not resident follows a null pointer, although frames could be evicted: \<^verbatim>\<open>new_bpm_page\<close> returns
  null and \<^verbatim>\<open>fetch_bpm_page\<close> reads the page table entry that was not made. When no frame is tracked at
  all, the loop of \<^verbatim>\<open>allocate_new_page\<close> runs for ever.
\<close>

theorem full_pool_crashes_or_spins:
  assumes wf: "pool_wf junk st fs" and new: "resident st p = None" and p: "p < 10000"
    and full: "free_frame (free_list (p_bpm st)) 0 = None" and fs: "list_all snd fs"
    and h: "fs \<noteq> [] \<longrightarrow> sweep_starts_at (replacer (p_bpm st)) 0"
  shows "fetch_bpm_page junk (of_nat p) st = Inl NullDeref \<and>
    (fs = [] \<longrightarrow> (\<forall>fuel. allocate_loop fuel (of_nat p) st = Inl Diverges))"
proof
  from new_bpm_page_none [OF assms] obtain s1 where
    s1: "new_bpm_page (of_nat p) st = Inr (None, s1)" "pool_wf junk s1 (clear_bits fs)" "same_pages st s1" by blast
  have "resident s1 p = None" using s1(3) new by (simp add: same_pages_def)
  then show "fetch_bpm_page junk (of_nat p) st = Inl NullDeref"
    using small_pid(2) [OF p] not_resident_entry(1) [OF wf new p] not_resident_entry(1) [OF s1(2) _ p] s1(1)
    by (simp add: fetch_bpm_page_def)
  have "allocate_loop fuel (of_nat p) s = Inl Diverges"
    if "pool_wf junk s []" "resident s p = None" "free_frame (free_list (p_bpm s)) 0 = None" for fuel s
    using that
  proof (induction fuel arbitrary: s)
    case (Suc fuel)
    from new_bpm_page_none [OF Suc.prems(1,2) p Suc.prems(3)] obtain s1 where
      s1: "new_bpm_page (of_nat p) s = Inr (None, s1)" "pool_wf junk s1 []" "same_pages s s1" by auto
    then show ?case using Suc.IH [OF s1(2)] Suc.prems(2,3) by (simp add: same_pages_def)
  qed simp
  then show "fs = [] \<longrightarrow> (\<forall>fuel. allocate_loop fuel (of_nat p) st = Inl Diverges)" using wf new full by blast
qed

text \<open>
  C34. Eviction loses a page. With no free frame, one tracked frame \<open>v\<close> with its bit set that holds page
  \<open>q\<close>, and no resident page whose number is \<open>v\<close>, allocating page \<open>p\<close> takes two rounds of the loop and puts
  \<open>p\<close> into frame \<open>v\<close>. Nothing is written to disk, dirty or not, and the page table keeps its entry for
  \<open>q\<close>: fetching \<open>q\<close> afterwards returns the blank page of \<open>p\<close>.
\<close>

theorem eviction_aliases_pages:
  assumes wf: "pool_wf junk st [(v, True)]" and h: "sweep_starts_at (replacer (p_bpm st)) 0"
    and full: "free_frame (free_list (p_bpm st)) 0 = None"
    and v: "v < pool_size (p_bpm st)" "resident st v = None" and q: "resident st q = Some (of_nat v)"
    and new: "resident st p = None" and p: "p < 10000"
  shows "\<exists>s1 s2. allocate_loop (Suc (Suc fuel)) (of_nat p) st = Inr (of_nat v, s1) \<and> p_files s1 = p_files st \<and>
    resident s1 p = Some (of_nat v) \<and> resident s1 q = Some (of_nat v) \<and>
    fetch_bpm_page junk (of_nat q) s1 = Inr (of_nat v, s2) \<and> bp_id (frame s2 v) = of_nat p \<and>
    bp_data (frame s2 v) = replicate PAGE_SIZE 0"
proof -
  from new_bpm_page_none [OF wf new p full] h obtain s0 where
    s0: "new_bpm_page (of_nat p) st = Inr (None, s0)" "pool_wf junk s0 [(v, False)]" "same_pages st s0"
      "sweep_starts_at (replacer (p_bpm s0)) 0" by auto
  have "resident s0 p = None" "free_frame (free_list (p_bpm s0)) 0 = None" "v < pool_size (p_bpm s0)" "resident s0 v = None"
    using s0(3) new full v by (simp_all add: same_pages_def)
  from new_bpm_page_evicts [OF s0(2) this(1) p this(2) s0(4) this(3,4)] obtain s1 where
    s1: "new_bpm_page (of_nat p) s0 = Inr (Some (of_nat v), s1)" "pool_wf junk s1 []" "resident s1 p = Some (of_nat v)"
      "\<forall>q. q \<noteq> p \<longrightarrow> resident s1 q = resident s0 q" "p_files s1 = p_files s0"
      "bpages (p_bpm s1) = (bpages (p_bpm s0))[v := blank_frame p]" by blast
  have uf: "unat (of_nat v :: frame_id_t) = v" using small_frame(1) v(1) pool_wfD(2) [OF wf] by simp
  have fr: "frame s1 v = blank_frame p"
    using s1(6) s0(3) v(1) pool_wfD(3) [OF wf] by (simp add: frame_def same_pages_def)
  have "q \<noteq> p" using q new by auto
  then have q1: "resident s1 q = Some (of_nat v)" using s1(4) s0(3) q by (simp add: same_pages_def)
  let ?s2 = "set_page (of_nat v) ((blank_frame p)\<lparr>pin_count := 2\<rparr>) s1"
  have "fetch_bpm_page junk (of_nat q) s1 = Inr (of_nat v, ?s2)"
    using fetch_hit [OF s1(2) q1] uf fr by (simp add: blank_frame_def)
  moreover have "frame ?s2 v = (blank_frame p)\<lparr>pin_count := 2\<rparr>"
    using v(1) pool_wfD(3) [OF wf] s1(6) s0(3) uf by (simp add: frame_def same_pages_def)
  ultimately show ?thesis
    using s0 s1 q1 by (intro exI [of _ s1] exI [of _ ?s2]) (simp add: blank_frame_def same_pages_def)
qed

text \<open>
  The key of the page table has room for four digits: fetching a page numbered 10000 or more through a
  free frame writes outside the key's buffer.
\<close>

lemma large_page_id_overflows_key:
  assumes wf: "pool_wf junk st fs" and p: "10000 \<le> p" "p < 2 ^ 31"
    and free: "free_frame (free_list (p_bpm st)) 0 = Some i"
  shows "fetch_bpm_page junk (of_nat p) st = Inl OutOfBounds"
proof -
  have u: "unat (of_nat p :: page_id_t) = p" using p(2) by (simp add: unat_of_nat)
  have d: "sprintf_d 11 (of_nat p) = Inr (dec p)" using sprintf_d_eq [of "of_nat p" 11] p(2) u by simp
  have "resident st p = None"
  proof (cases "resident st p")
    case (Some f)
    then have "p < 10000" using resident_entry [OF wf] by metis
    with p(1) show ?thesis by simp
  qed
  note none = absent_entry(1) [OF wf this p(2)]
  have "4 < length (dec p)"
  proof (rule ccontr)
    assume "\<not> ?thesis"
    then have "p < 10 ^ 4" using less_dec_length [of p] power_increasing [of "length (dec p)" 4 "10 :: nat"] by simp
    with p(1) show False by simp
  qed
  then have key: "sprintf_u 5 (of_nat p) = Inl OutOfBounds" by (simp add: sprintf_u_def u)
  let ?s0 = "st\<lparr>p_mem := snd (malloc (CU32 UINT32_MAX) (p_mem st))\<rparr>"
  have i: "i < pool_size (p_bpm st)" using free_frame_Some [OF free] pool_wfD(4) [OF wf] by simp
  then have uf: "unat (of_nat i :: frame_id_t) = i" "(of_nat i :: frame_id_t) \<noteq> UINT32_MAX"
    using small_frame pool_wfD(2) [OF wf] by simp_all
  have "find_frame ?s0 = Inr (of_nat i, ?s0\<lparr>p_bpm := (p_bpm st)\<lparr>free_list := (free_list (p_bpm st))[i := False]\<rparr>\<rparr>)"
    using free pool_wfD(4) [OF wf] i uf by (simp add: find_frame_def set_free_def)
  then have "new_bpm_page (of_nat p) st = Inl OutOfBounds"
    using d none uf key i pool_wfD(3) [OF wf]
    by (simp add: new_bpm_page_def malloc_def page_at_def add_to_pagetable_def)
  then show ?thesis using d none by (simp add: fetch_bpm_page_def)
qed

section \<open>Witnesses\<close>

text \<open>A file of three pages with different bytes below a fresh pool.\<close>

definition pool_files :: fs where
  "pool_files = [dm_path demo_dm \<mapsto> replicate PAGE_SIZE 0 @ replicate PAGE_SIZE 1 @ replicate PAGE_SIZE 2]"

definition demo_pool :: "nat \<Rightarrow> Pool" where
  "demo_pool n = \<lparr>p_mem = start_mem, p_files = pool_files, p_bpm = new_bpm n demo_dm\<rparr>"

lemma pool_files_ok: "dm_inv demo_dm demo_junk pool_files"
  by (simp add: dm_inv_def pool_files_def dm_path_def DBFILES_DIR_def demo_dm_def demo_junk_def)

lemma demo_pool_wf:
  assumes "0 < n" and "n < 65536"
  shows "pool_wf demo_junk (demo_pool n) []" and "resident (demo_pool n) p = None"
  using new_pool_wf [OF start_mem_wf assms pool_files_ok] by (simp_all add: demo_pool_def)

lemma demo_disk:
  "of_nat 2 \<in> disk_pages (demo_pool n)" "disk_page (demo_pool n) 2 = replicate PAGE_SIZE 2"
  by (simp_all add: disk_pages_def disk_page_def demo_pool_def new_bpm_def dm_pages_def dm_valid_def page_of_def
      contents_def pool_files_def PAGE_SIZE_def)

lemma demo_free: "0 < n \<Longrightarrow> free_frame (free_list (p_bpm (demo_pool n))) 0 = Some 0"
  by (cases n) (simp_all add: demo_pool_def new_bpm_def)

lemma pinnable_empty: "pinnable i [] []"
  by (simp add: pinnable_def)

lemma pinnable_head: "pinnable i ((i, b) # fs) fs"
  unfolding pinnable_def by (intro disjI2 exI [of _ "[]"] exI [of _ b] exI [of _ fs]) simp

theorem fetch_reads_disk_then_hits_witness:
  "\<exists>s1. fetch_bpm_page demo_junk (of_nat 2) (demo_pool 3) = Inr (of_nat 0, s1) \<and>
    bp_data (frame s1 0) = replicate PAGE_SIZE 2 \<and> pin_count (frame s1 0) = 2"
proof -
  have "(0 :: nat) < 3" "(3 :: nat) < 65536" "(2 :: nat) < 10000" by simp_all
  from fetch_reads_disk_then_hits [OF demo_pool_wf [OF this(1,2)] this(3) demo_free [OF this(1)] pinnable_empty demo_disk(1)]
  show ?thesis by (auto simp: demo_disk(2))
qed

theorem allocate_new_page_returns_witness:
  "\<exists>st'. allocate_new_page (Suc 0) demo_junk BTREE_INDEX_PAGE
      \<lparr>p_mem = start_mem, p_files = demo_index 4, p_bpm = new_bpm 3 demo_dm\<rparr> = Inr (of_nat 0, st') \<and>
    bp_data (frame st' 0) = disk_page st' 5"
proof -
  let ?st = "\<lparr>p_mem = start_mem, p_files = demo_index 4, p_bpm = new_bpm 3 demo_dm\<rparr>"
  have inv: "dm_inv demo_dm demo_junk (demo_index 4)" using demo_index_ok(1) by (simp add: demo_junk_def)
  have wf: "pool_wf demo_junk ?st []" "resident ?st p = None" for p
    using new_pool_wf [OF start_mem_wf _ _ inv, of 3] by simp_all
  have dm: "disk_manager (new_bpm 3 demo_dm) = demo_dm" by (simp add: new_bpm_def)
  have "0 \<in> disk_pages ?st" "index_meta 4 (disk_page ?st 0)" "unat (4 :: u16) + 1 < 10000"
    "free_frame (free_list (p_bpm ?st)) 0 = Some 0"
    using demo_index_ok(2,3) by (simp_all add: disk_pages_def disk_page_def dm) (simp add: new_bpm_def numeral_3_eq_3)
  from allocate_new_page_returns [OF wf(1) this(1-3) wf(2) this(4) pinnable_empty, of 0] show ?thesis by auto
qed

text \<open>Page 2 in the frame of a pool with one frame, fetched and so pinned twice.\<close>

lemma demo_fetched:
  "\<exists>s. fetch_bpm_page demo_junk (of_nat 2) (demo_pool 1) = Inr (0, s) \<and> pool_wf demo_junk s [] \<and>
    resident s 2 = Some 0 \<and> (\<forall>q. q \<noteq> 2 \<longrightarrow> resident s q = None) \<and> pool_size (p_bpm s) = 1 \<and>
    free_list (p_bpm s) = [False] \<and> pin_count (frame s 0) = 2"
proof -
  have "(0 :: nat) < 1" "(1 :: nat) < 65536" "(2 :: nat) < 10000" by simp_all
  note wf = demo_pool_wf [OF this(1,2)]
  have len: "length (bpages (p_bpm (demo_pool 1))) = 1" "pool_size (p_bpm (demo_pool 1)) = 1"
    "free_list (p_bpm (demo_pool 1)) = [True]" by (simp_all add: demo_pool_def new_bpm_def)
  from fetch_miss [OF wf(1) wf(2) _ demo_free pinnable_empty demo_disk(1)] show ?thesis
    using wf(2) len by (auto simp: frame_def)
qed

theorem full_pool_crashes_or_spins_witness:
  "\<exists>s. fetch_bpm_page demo_junk (of_nat 2) (demo_pool 1) = Inr (0, s) \<and>
    fetch_bpm_page demo_junk (of_nat 1) s = Inl NullDeref \<and> (\<forall>fuel. allocate_loop fuel (of_nat 1) s = Inl Diverges)"
proof -
  from demo_fetched obtain s where s: "fetch_bpm_page demo_junk (of_nat 2) (demo_pool 1) = Inr (0, s)"
    "pool_wf demo_junk s []" "\<forall>q. q \<noteq> 2 \<longrightarrow> resident s q = None" "free_list (p_bpm s) = [False]" by blast
  have "resident s 1 = None" using s(3) by simp
  from full_pool_crashes_or_spins [OF s(2) this] s(1,4) show ?thesis by auto
qed

theorem flush_then_fetch_witness:
  "\<exists>s s1 s2 s3. fetch_bpm_page demo_junk (of_nat 2) (demo_pool 1) = Inr (0, s) \<and>
    write_to_frame 0 (replicate PAGE_SIZE 9) s = Inr s1 \<and> flush_page (of_nat 2) s1 = Inr (True, s2) \<and>
    fetch_bpm_page demo_junk (of_nat 2) s2 = Inr (0, s3) \<and> bp_data (frame s3 0) = replicate PAGE_SIZE 9"
proof -
  from demo_fetched obtain s where s: "fetch_bpm_page demo_junk (of_nat 2) (demo_pool 1) = Inr (0, s)"
    "pool_wf demo_junk s []" "resident s 2 = Some 0" "\<forall>q. q \<noteq> 2 \<longrightarrow> resident s q = None"
    "free_list (p_bpm s) = [False]" by blast
  have "alone s 2" using s(4) by (simp add: alone_def)
  moreover have "free_frame ((free_list (p_bpm s))[unat (0 :: frame_id_t) := True]) 0 = Some 0" using s(5) by simp
  moreover have "pinnable 0 ((unat (0 :: frame_id_t), True) # []) []" using pinnable_head [of 0 True "[]"] by simp
  ultimately show ?thesis
    using flush_then_fetch [OF s(2,3), of "replicate PAGE_SIZE 9" 0 "[]"] s(1) by fastforce
qed

text \<open>Page 2 in the frame of a pool with one frame, unpinned, with the hand not set yet.\<close>

lemma demo_unpinned:
  "\<exists>st. pool_wf demo_junk st [(0, True)] \<and> sweep_starts_at (replacer (p_bpm st)) 0 \<and> pool_size (p_bpm st) = 1 \<and>
    free_list (p_bpm st) = [False] \<and> resident st 2 = Some 0 \<and> (\<forall>q. q \<noteq> 2 \<longrightarrow> resident st q = None)"
proof -
  let ?s0 = "(demo_pool 1)\<lparr>p_mem := snd (malloc (CU32 0) start_mem)\<rparr>"
  have "(0 :: nat) < 1" "(1 :: nat) < 65536" by simp_all
  note wf = demo_pool_wf [OF this]
  have mem: "p_mem (demo_pool 1) = start_mem" by (simp add: demo_pool_def)
  note s0 = malloc_pool [OF wf(1), of "CU32 0", unfolded mem]
  have "resident ?s0 2 = None" using s0(2) wf(2) by simp
  moreover have sz: "pool_size (p_bpm (demo_pool 1)) = 1" "free_list (p_bpm (demo_pool 1)) = [True]"
    "hand (replacer (p_bpm (demo_pool 1))) = None" by (simp_all add: demo_pool_def new_bpm_def clock_replacer_init_def)
  ultimately obtain s1 pt where s1: "pool_wf demo_junk s1 []" "resident s1 2 = Some 0"
    "\<forall>q. q \<noteq> 2 \<longrightarrow> resident s1 q = None" "p_bpm s1 = (p_bpm ?s0)\<lparr>page_table := pt\<rparr>"
    using add_to_pagetable_ok [OF s0(1) _ _ s0(3), of 2] s0(2) wf(2) by auto
  have f: "unat (0 :: frame_id_t) < pool_size (p_bpm s1)" using s1(4) sz(1) by simp
  note s2 = set_free_wf(2) [OF s1(1) f, of False]
  let ?s2 = "s1\<lparr>p_bpm := (p_bpm s1)\<lparr>free_list := (free_list (p_bpm s1))[unat (0 :: frame_id_t) := False]\<rparr>\<rparr>"
  have "unat (0 :: frame_id_t) < pool_size (p_bpm ?s2)" "unat (0 :: frame_id_t) \<notin> fst ` set ([] :: tracked)" using f by simp_all
  from pool_unpin_ok [OF s2 this] obtain s3 where
    s3: "pool_wf demo_junk s3 [(0, True)]" "same_pages ?s2 s3" "hand (replacer (p_bpm s3)) = hand (replacer (p_bpm ?s2))" by auto
  have "resident ?s2 q = resident s1 q" for q by (simp add: resident_def)
  then show ?thesis using s3 s1(2-4) sz by (intro exI [of _ s3]) (simp add: same_pages_def sweep_starts_at_def)
qed

theorem eviction_aliases_pages_witness:
  "\<exists>st s1 s2. resident st 2 = Some 0 \<and> allocate_loop 2 (of_nat 1) st = Inr (0, s1) \<and>
    fetch_bpm_page demo_junk (of_nat 2) s1 = Inr (0, s2) \<and> bp_id (frame s2 0) = 1"
proof -
  from demo_unpinned obtain st where st: "pool_wf demo_junk st [(0, True)]" "sweep_starts_at (replacer (p_bpm st)) 0"
    "pool_size (p_bpm st) = 1" "free_list (p_bpm st) = [False]" "resident st 2 = Some 0"
    "\<forall>q. q \<noteq> 2 \<longrightarrow> resident st q = None" by blast
  have "free_frame (free_list (p_bpm st)) 0 = None" "0 < pool_size (p_bpm st)" "resident st 0 = None"
    "resident st 2 = Some (of_nat 0)" "resident st 1 = None" "(1 :: nat) < 10000" using st(3-6) by simp_all
  from eviction_aliases_pages [OF st(1,2) this, of 0] st(5) show ?thesis by (auto simp: numeral_2_eq_2)
qed

end
