(* ===== verification/Pool_States.thy ===== *)
theory Pool_States
  imports Buffer_Pool
begin

text \<open>
  The buffer pool as a state machine: what a client may ask of the pool, the states that are reached, and the
  invariant that ties frames, page table, replacer and disk together. The frames the replacer tracks go along
  as a ghost component.
\<close>

section \<open>Operations of a client\<close>

datatype pool_op = Fetch nat | Write nat bytes | Unpin nat bool | Flush nat | Allocate

fun run_op :: "bytes \<Rightarrow> pool_op \<Rightarrow> Pool \<Rightarrow> Pool res" where
  "run_op junk (Fetch p) st = and_then (fetch_bpm_page junk (of_nat p) st) (\<lambda>(_, st). Inr st)"
| "run_op junk (Write p data) st = (case resident st p of None \<Rightarrow> Inr st | Some f \<Rightarrow> write_to_frame f data st)"
| "run_op junk (Unpin p dirty) st = and_then (unpin_page (of_nat p) dirty st) (\<lambda>(_, st). Inr st)"
| "run_op junk (Flush p) st = and_then (flush_page (of_nat p) st) (\<lambda>(_, st). Inr st)"
| "run_op junk Allocate st = and_then (allocate_new_page 1 junk BTREE_INDEX_PAGE st) (\<lambda>(_, st). Inr st)"

text \<open>
  When a client may do so. A page that is not resident is fetched into a free frame the replacer can pin, a
  resident one while somebody holds it. A client that unpins a dirty page says that it is dirty. A page is
  flushed while it is held, and alone in its bucket of the page table. An index page is allocated while the
  metadata page is not resident, since the allocation goes past the pool.
\<close>

definition room :: "Pool \<Rightarrow> tracked \<Rightarrow> tracked \<Rightarrow> bool" where
  "room st fs fs' \<longleftrightarrow> (\<exists>i. free_frame (free_list (p_bpm st)) 0 = Some i \<and> pinnable i fs fs')"

fun enabled :: "Pool \<Rightarrow> tracked \<Rightarrow> pool_op \<Rightarrow> tracked \<Rightarrow> bool" where
  "enabled st fs (Fetch p) fs' \<longleftrightarrow>
     (case resident st p of
        None \<Rightarrow> p < 10000 \<and> of_nat p \<in> disk_pages st \<and> room st fs fs'
      | Some f \<Rightarrow> 0 < pin_count (frame st (unat f)) \<and> pin_count (frame st (unat f)) < 2 ^ 31 - 1 \<and> fs' = fs)"
| "enabled st fs (Write p data) fs' \<longleftrightarrow> resident st p \<noteq> None \<and> length data = PAGE_SIZE \<and> fs' = fs"
| "enabled st fs (Unpin p dirty) fs' \<longleftrightarrow>
     (\<exists>f. resident st p = Some f \<and> 0 < pin_count (frame st (unat f)) \<and> (is_dirty (frame st (unat f)) \<longrightarrow> dirty) \<and>
        fs' = (if pin_count (frame st (unat f)) = 1 then (unat f, True) # fs else fs))"
| "enabled st fs (Flush p) fs' \<longleftrightarrow>
     (\<exists>f. resident st p = Some f \<and> 0 < pin_count (frame st (unat f)) \<and> alone st p \<and> fs' = (unat f, True) # fs)"
| "enabled st fs Allocate fs' \<longleftrightarrow>
     (\<exists>k. 0 \<in> disk_pages st \<and> index_meta k (disk_page st 0) \<and> unat k + 1 < 10000 \<and> resident st 0 = None \<and>
        resident st (unat k + 1) = None \<and> room st fs fs')"

inductive pool_reach :: "bytes \<Rightarrow> Pool \<Rightarrow> tracked \<Rightarrow> bool" for junk where
  opened: "cmem_wf m \<Longrightarrow> 0 < n \<Longrightarrow> n < 65536 \<Longrightarrow> dm_inv dm junk files \<Longrightarrow>
    pool_reach junk \<lparr>p_mem = m, p_files = files, p_bpm = new_bpm n dm\<rparr> []"
| stepped: "pool_reach junk st fs \<Longrightarrow> enabled st fs c fs' \<Longrightarrow> run_op junk c st = Inr st' \<Longrightarrow> pool_reach junk st' fs'"

section \<open>The invariant\<close>

text \<open>
  A resident page is in a taken frame with its number, is tracked by the replacer exactly when nobody holds it,
  and if it is not dirty the frame holds what is on disk.
\<close>

definition held :: "Pool \<Rightarrow> tracked \<Rightarrow> nat \<Rightarrow> nat \<Rightarrow> bool" where
  "held st fs p i \<longleftrightarrow>
     bp_id (frame st i) = of_nat p \<and> \<not> free_list (p_bpm st) ! i \<and> 0 \<le> pin_count (frame st i) \<and>
     (pin_count (frame st i) = 0 \<longleftrightarrow> i \<in> fst ` set fs) \<and> of_nat p \<in> disk_pages st \<and>
     (is_dirty (frame st i) \<or> bp_data (frame st i) = disk_page st p)"

definition coherent :: "Pool \<Rightarrow> tracked \<Rightarrow> bool" where
  "coherent st fs \<longleftrightarrow> (\<forall>p f. resident st p = Some f \<longrightarrow> held st fs p (unat f))"

lemma coherentD: "coherent st fs \<Longrightarrow> resident st p = Some f \<Longrightarrow> held st fs p (unat f)"
  by (simp add: coherent_def)

lemma held_pinned:
  assumes "coherent st fs" and "resident st p = Some f" and "0 < pin_count (frame st (unat f))"
  shows "unat f \<notin> fst ` set fs"
  using coherentD [OF assms(1,2)] assms(3) by (simp add: held_def)

lemma resident_inj:
  assumes "pool_wf junk st fs" and "coherent st fs" and "resident st p = Some f" and "resident st q = Some f"
  shows "p = q"
proof -
  from resident_entry [OF assms(1,3)] resident_entry [OF assms(1,4)] have "p < 10000" "q < 10000" by metis+
  moreover have "(of_nat p :: page_id_t) = of_nat q"
    using coherentD [OF assms(2,3)] coherentD [OF assms(2,4)] by (simp add: held_def)
  ultimately show ?thesis using small_pid(1) by metis
qed

text \<open>A step that works on page \<open>p\<close> and frame \<open>i\<close> keeps the other pages as they are.\<close>

lemma coherent_step:
  assumes wf: "pool_wf junk st fs" and co: "coherent st fs"
    and res: "\<And>q. q \<noteq> p \<Longrightarrow> resident st' q = resident st q"
    and mine: "\<And>f. resident st' p = Some f \<Longrightarrow> held st' fs' p (unat f)"
    and i: "\<And>q f. resident st q = Some f \<Longrightarrow> q \<noteq> p \<Longrightarrow> unat f \<noteq> i"
    and others: "\<And>k. k \<noteq> i \<Longrightarrow> frame st' k = frame st k \<and> free_list (p_bpm st') ! k = free_list (p_bpm st) ! k \<and>
      (k \<in> fst ` set fs' \<longleftrightarrow> k \<in> fst ` set fs)"
    and disk: "disk_pages st \<subseteq> disk_pages st'"
      "\<And>q f. q \<noteq> p \<Longrightarrow> resident st q = Some f \<Longrightarrow> of_nat q \<in> disk_pages st \<Longrightarrow> disk_page st' q = disk_page st q"
  shows "coherent st' fs'"
  unfolding coherent_def
proof (intro allI impI)
  fix q f
  assume r: "resident st' q = Some f"
  show "held st' fs' q (unat f)"
  proof (cases "q = p")
    case False
    then have rq: "resident st q = Some f" using r res by simp
    from coherentD [OF co rq] others [OF i [OF rq False]] disk(1) disk(2) [OF False rq]
    show ?thesis unfolding held_def by auto
  qed (use r mine in simp)
qed

section \<open>Every operation keeps the invariant\<close>

lemma pinnable_tracked:
  assumes "pinnable i fs fs'"
  shows "k \<noteq> i \<Longrightarrow> k \<in> fst ` set fs' \<longleftrightarrow> k \<in> fst ` set fs" and "distinct (map fst fs) \<Longrightarrow> i \<notin> fst ` set fs'"
proof -
  show "k \<in> fst ` set fs' \<longleftrightarrow> k \<in> fst ` set fs" if "k \<noteq> i" using assms that by (auto simp: pinnable_def)
  show "i \<notin> fst ` set fs'" if "distinct (map fst fs)"
    using assms that unfolding pinnable_def set_map [symmetric] by (elim disjE exE conjE) simp_all
qed

lemma free_not_resident:
  assumes co: "coherent st fs" and free: "free_frame (free_list (p_bpm st)) 0 = Some i" and r: "resident st q = Some f"
  shows "unat f \<noteq> i"
  using free_frame_Some [OF free] coherentD [OF co r] by (auto simp: held_def)

lemma disk_unchanged:
  assumes "p_files st' = p_files st" and "disk_manager (p_bpm st') = disk_manager (p_bpm st)"
  shows "disk_page st' q = disk_page st q" and "disk_pages st' = disk_pages st"
  using assms by (simp_all add: disk_page_def disk_pages_def)

text \<open>A page that was just put into a free frame.\<close>

lemma coherent_placed:
  assumes wf: "pool_wf junk st fs" and co: "coherent st fs" and free: "free_frame (free_list (p_bpm st)) 0 = Some i"
    and pin: "pinnable i fs fs'"
    and st': "resident st' p = Some (of_nat i)" "\<forall>q. q \<noteq> p \<longrightarrow> resident st' q = resident st q"
      "bpages (p_bpm st') = (bpages (p_bpm st))[i := pg]" "free_list (p_bpm st') = (free_list (p_bpm st))[i := False]"
    and pg: "bp_id pg = of_nat p" "0 < pin_count pg" "bp_data pg = disk_page st' p" "of_nat p \<in> disk_pages st'"
    and disk: "disk_pages st \<subseteq> disk_pages st'"
      "\<And>q f. q \<noteq> p \<Longrightarrow> resident st q = Some f \<Longrightarrow> of_nat q \<in> disk_pages st \<Longrightarrow> disk_page st' q = disk_page st q"
  shows "coherent st' fs'"
proof (rule coherent_step [OF wf co, where p = p and i = i])
  have i: "i < pool_size (p_bpm st)" using free_frame_Some [OF free] pool_wfD(4) [OF wf] by simp
  then have uf: "unat (of_nat i :: frame_id_t) = i" using small_frame(1) pool_wfD(2) [OF wf] by simp
  have "i \<notin> fst ` set fs'" using pinnable_tracked(2) [OF pin] tracksD(4) [OF pool_wfD(7) [OF wf]] by simp
  then show "held st' fs' p (unat f)" if "resident st' p = Some f" for f
    using that st' pg i uf pool_wfD(3,4) [OF wf] by (simp add: held_def frame_def)
  show "unat f \<noteq> i" if "resident st q = Some f" for q f using free_not_resident [OF co free that] .
  show "frame st' k = frame st k \<and> free_list (p_bpm st') ! k = free_list (p_bpm st) ! k \<and>
      (k \<in> fst ` set fs' \<longleftrightarrow> k \<in> fst ` set fs)" if "k \<noteq> i" for k
    using that st'(3,4) pinnable_tracked(1) [OF pin that] by (simp add: frame_def)
qed (use st' disk in auto)

text \<open>A change of the page in the frame of a resident page.\<close>

lemma coherent_changed:
  assumes wf: "pool_wf junk st fs" and co: "coherent st fs" and r: "resident st p = Some f"
    and st': "\<forall>q. resident st' q = resident st q" "bpages (p_bpm st') = (bpages (p_bpm st))[unat f := pg]"
      "free_list (p_bpm st') = free_list (p_bpm st)" "p_files st' = p_files st" "disk_manager (p_bpm st') = disk_manager (p_bpm st)"
    and tr: "\<And>k. k \<noteq> unat f \<Longrightarrow> k \<in> fst ` set fs' \<longleftrightarrow> k \<in> fst ` set fs"
    and pg: "bp_id pg = of_nat p" "0 \<le> pin_count pg" "pin_count pg = 0 \<longleftrightarrow> unat f \<in> fst ` set fs'"
      "is_dirty pg \<or> bp_data pg = disk_page st p"
  shows "coherent st' fs'"
proof (rule coherent_step [OF wf co, where p = p and i = "unat f"])
  note disk = disk_unchanged [OF st'(4,5)]
  from resident_entry [OF wf r] have "unat f < pool_size (p_bpm st)" by metis
  then have fr: "frame st' (unat f) = pg" using st'(2) pool_wfD(3) [OF wf] by (simp add: frame_def)
  show "held st' fs' p (unat g)" if "resident st' p = Some g" for g
  proof -
    have "g = f" using that r st'(1) by simp
    then show ?thesis using coherentD [OF co r] pg st'(3) by (simp add: held_def fr disk)
  qed
  show "unat g \<noteq> unat f" if "resident st q = Some g" "q \<noteq> p" for q g
    using resident_inj [OF wf co] r that by (metis word_unat_eq_iff)
  show "frame st' k = frame st k \<and> free_list (p_bpm st') ! k = free_list (p_bpm st) ! k \<and>
      (k \<in> fst ` set fs' \<longleftrightarrow> k \<in> fst ` set fs)" if "k \<noteq> unat f" for k
    using that st'(2,3) tr by (simp add: frame_def)
  show "disk_pages st \<subseteq> disk_pages st'" "disk_page st' q = disk_page st q" for q by (simp_all add: disk)
qed (use st' in simp)

lemma fetch_keeps:
  assumes wf: "pool_wf junk st fs" and co: "coherent st fs" and en: "enabled st fs (Fetch p) fs'"
  shows "\<exists>st'. run_op junk (Fetch p) st = Inr st' \<and> pool_wf junk st' fs' \<and> coherent st' fs'"
proof (cases "resident st p")
  case None
  with en obtain i where p: "p < 10000" "of_nat p \<in> disk_pages st" and
    i: "free_frame (free_list (p_bpm st)) 0 = Some i" "pinnable i fs fs'" by (auto simp: room_def)
  from fetch_miss [OF wf None p(1) i p(2)] obtain st' where
    st': "fetch_bpm_page junk (of_nat p) st = Inr (of_nat i, st')" "pool_wf junk st' fs'"
      "resident st' p = Some (of_nat i)" "\<forall>q. q \<noteq> p \<longrightarrow> resident st' q = resident st q"
      "p_files st' = p_files st" "disk_manager (p_bpm st') = disk_manager (p_bpm st)"
      "bpages (p_bpm st') = (bpages (p_bpm st))[i := (blank_frame p)\<lparr>pin_count := 2, bp_data := disk_page st p\<rparr>]"
      "free_list (p_bpm st') = (free_list (p_bpm st))[i := False]" by blast
  have "coherent st' fs'"
    by (rule coherent_placed [OF wf co i st'(3,4,7,8)])
      (simp_all add: blank_frame_def disk_unchanged [OF st'(5,6)] p(2))
  then show ?thesis using st'(1,2) by simp
next
  case (Some f)
  let ?pg = "frame st (unat f)"
  let ?st = "set_page f (?pg\<lparr>pin_count := pin_count ?pg + 1\<rparr>) st"
  have pins: "0 < pin_count ?pg" "pin_count ?pg < 2 ^ 31 - 1" "fs' = fs" using en Some by simp_all
  from resident_entry [OF wf Some] have f: "unat f < pool_size (p_bpm st)" by metis
  have wf': "pool_wf junk ?st fs" using pool_wf_set_page [OF wf] frame_data_length [OF wf f] by simp
  have "coherent ?st fs"
    using coherentD [OF co Some] pins
    by (intro coherent_changed [OF wf co Some, where pg = "?pg\<lparr>pin_count := pin_count ?pg + 1\<rparr>"]) (simp_all add: held_def)
  then show ?thesis using fetch_hit [OF wf Some pins(2)] wf' pins(3) by simp
qed

lemma write_keeps:
  assumes wf: "pool_wf junk st fs" and co: "coherent st fs" and en: "enabled st fs (Write p data) fs'"
  shows "\<exists>st'. run_op junk (Write p data) st = Inr st' \<and> pool_wf junk st' fs' \<and> coherent st' fs'"
proof -
  from en obtain f where r: "resident st p = Some f" and len: "length data = PAGE_SIZE" and fs: "fs' = fs" by auto
  from resident_entry [OF wf r] have f: "unat f < pool_size (p_bpm st)" by metis
  let ?pg = "(frame st (unat f))\<lparr>bp_data := data, is_dirty := True\<rparr>"
  have "write_to_frame f data st = Inr (set_page f ?pg st)"
    using len by (simp add: write_to_frame_def page_at_wf [OF wf f] load_def)
  moreover have "pool_wf junk (set_page f ?pg st) fs" using pool_wf_set_page [OF wf] len by simp
  moreover have "coherent (set_page f ?pg st) fs"
    using coherentD [OF co r] by (intro coherent_changed [OF wf co r, where pg = ?pg]) (simp_all add: held_def)
  ultimately show ?thesis using r fs by simp
qed

lemma unpin_keeps:
  assumes wf: "pool_wf junk st fs" and co: "coherent st fs" and en: "enabled st fs (Unpin p d) fs'"
  shows "\<exists>st'. run_op junk (Unpin p d) st = Inr st' \<and> pool_wf junk st' fs' \<and> coherent st' fs'"
proof -
  from en obtain f where r: "resident st p = Some f" and pin: "0 < pin_count (frame st (unat f))"
    and d: "is_dirty (frame st (unat f)) \<longrightarrow> d"
    and fs: "fs' = (if pin_count (frame st (unat f)) = 1 then (unat f, True) # fs else fs)" by auto
  let ?pg = "frame st (unat f)"
  note h = coherentD [OF co r]
  from unpin_page_behaviour [OF wf r held_pinned [OF co r pin], of d] pin obtain st' where
    st': "unpin_page (of_nat p) d st = Inr (True, st')" "pool_wf junk st' fs'"
      "frame st' (unat f) = ?pg\<lparr>is_dirty := d, pin_count := pin_count ?pg - 1\<rparr>"
      "bpages (p_bpm st') = (bpages (p_bpm st))[unat f := frame st' (unat f)]"
      "free_list (p_bpm st') = free_list (p_bpm st)" "disk_manager (p_bpm st') = disk_manager (p_bpm st)"
      "p_files st' = p_files st" "\<forall>q. resident st' q = resident st q" by (auto simp: fs)
  have "coherent st' fs'"
    using h pin d held_pinned [OF co r pin]
    by (intro coherent_changed [OF wf co r st'(8,4,5,7,6)]) (auto simp: st'(3) held_def fs)
  then show ?thesis using st'(1,2) by simp
qed

lemma flush_keeps:
  assumes wf: "pool_wf junk st fs" and co: "coherent st fs" and en: "enabled st fs (Flush p) fs'"
  shows "\<exists>st'. run_op junk (Flush p) st = Inr st' \<and> pool_wf junk st' fs' \<and> coherent st' fs'"
proof -
  from en obtain f where r: "resident st p = Some f" and pin: "0 < pin_count (frame st (unat f))" and al: "alone st p"
    and fs: "fs' = (unat f, True) # fs" by auto
  from flush_ok [OF wf r al held_pinned [OF co r pin]] obtain st' where
    st': "flush_page (of_nat p) st = Inr (True, st')" "pool_wf junk st' fs'" "resident st' p = None"
      "\<forall>q. q \<noteq> p \<longrightarrow> resident st' q = resident st q" "bpages (p_bpm st') = bpages (p_bpm st)"
      "free_list (p_bpm st') = (free_list (p_bpm st))[unat f := True]" "insert (of_nat p) (disk_pages st) \<subseteq> disk_pages st'"
      "\<forall>q. of_nat q \<in> disk_pages st \<longrightarrow> (of_nat q :: page_id_t) \<noteq> of_nat p \<longrightarrow> disk_page st' q = disk_page st q"
    unfolding fs by blast
  have "coherent st' fs'"
  proof (rule coherent_step [OF wf co, where p = p and i = "unat f"])
    show "unat g \<noteq> unat f" if "resident st q = Some g" "q \<noteq> p" for q g
      using resident_inj [OF wf co] r that by (metis word_unat_eq_iff)
    show "disk_page st' q = disk_page st q" if "q \<noteq> p" "resident st q = Some g" "of_nat q \<in> disk_pages st" for q g
    proof -
      from resident_entry [OF wf r] resident_entry [OF wf that(2)] have "p < 10000" "q < 10000" by metis+
      then have "(of_nat q :: page_id_t) \<noteq> of_nat p" using that(1) small_pid(1) by metis
      then show ?thesis using st'(8) that(3) by simp
    qed
  qed (use st' fs in \<open>auto simp: frame_def\<close>)
  then show ?thesis using st'(1,2) by simp
qed

lemma allocate_keeps:
  assumes wf: "pool_wf junk st fs" and co: "coherent st fs" and en: "enabled st fs Allocate fs'"
  shows "\<exists>st'. run_op junk Allocate st = Inr st' \<and> pool_wf junk st' fs' \<and> coherent st' fs'"
proof -
  from en obtain k i where meta: "0 \<in> disk_pages st" "index_meta k (disk_page st 0)" "unat k + 1 < 10000"
    and new: "resident st 0 = None" "resident st (unat k + 1) = None"
    and i: "free_frame (free_list (p_bpm st)) 0 = Some i" "pinnable i fs fs'" by (auto simp: room_def)
  let ?p = "unat k + 1"
  from allocate_ok [OF wf meta new(2) i, of 0] obtain st' where
    st': "allocate_new_page (Suc 0) junk BTREE_INDEX_PAGE st = Inr (of_nat i, st')" "pool_wf junk st' fs'"
      "resident st' ?p = Some (of_nat i)" "\<forall>q. q \<noteq> ?p \<longrightarrow> resident st' q = resident st q"
      "bpages (p_bpm st') = (bpages (p_bpm st))[i := blank_frame ?p]" "free_list (p_bpm st') = (free_list (p_bpm st))[i := False]"
      "disk_page st' ?p = replicate PAGE_SIZE 0" "insert (of_nat ?p) (disk_pages st) \<subseteq> disk_pages st'"
      "\<forall>q \<in> disk_pages st. q \<noteq> 0 \<and> q \<noteq> of_nat ?p \<longrightarrow> disk_page st' (unat q) = disk_page st (unat q)" by blast
  have "coherent st' fs'"
  proof (rule coherent_placed [OF wf co i st'(3-6)])
    show "disk_page st' q = disk_page st q" if "q \<noteq> ?p" "resident st q = Some f" "of_nat q \<in> disk_pages st" for q f
    proof -
      from resident_entry [OF wf that(2)] have "q < 10000" by metis
      note u = small_pid(1) [OF this]
      have "q \<noteq> 0" using that(2) new(1) by (metis option.distinct(1))
      then have "(of_nat q :: page_id_t) \<noteq> 0" "(of_nat q :: page_id_t) \<noteq> of_nat ?p"
        using u small_pid(1) [OF meta(3)] that(1) by (metis unat_0, metis)
      then show ?thesis using st'(9) that(3) u by metis
    qed
  qed (use st'(7,8) in \<open>simp_all add: blank_frame_def\<close>)
  then show ?thesis using st'(1,2) by simp
qed

lemmas op_keeps = fetch_keeps write_keeps unpin_keeps flush_keeps allocate_keeps

lemma enabled_op_keeps:
  assumes "pool_wf junk st fs" and "coherent st fs" and "enabled st fs c fs'"
  shows "\<exists>st'. run_op junk c st = Inr st' \<and> pool_wf junk st' fs' \<and> coherent st' fs'"
  using assms(3) by (cases c) (auto simp only: intro: op_keeps [OF assms(1,2)])

lemma pool_reach_inv: "pool_reach junk st fs \<Longrightarrow> pool_wf junk st fs \<and> coherent st fs"
proof (induction rule: pool_reach.induct)
  case (opened m n dm files)
  then show ?case using new_pool_wf by (simp add: coherent_def)
next
  case (stepped st fs c fs' st')
  then show ?case using enabled_op_keeps [of junk st fs c fs'] by auto
qed

text \<open>
  C5. In every state that clients reach from an opened pool by fetching, writing, unpinning, flushing and
  allocating index pages, each when it is allowed, the pool is well formed and coherent: two pages are never in one
  frame, a resident page is in a taken frame with its own number, the replacer tracks its frame exactly when
  nobody holds it, and a frame that is not dirty holds what is on disk. Moreover an allowed operation never fails.
\<close>

theorem reachable_pools_are_coherent:
  assumes "pool_reach junk st fs"
  shows "pool_wf junk st fs \<and> coherent st fs \<and>
    (\<forall>p q f. resident st p = Some f \<longrightarrow> resident st q = Some f \<longrightarrow> p = q) \<and>
    (\<forall>c fs'. enabled st fs c fs' \<longrightarrow> (\<exists>st'. run_op junk c st = Inr st' \<and> pool_reach junk st' fs'))"
proof -
  have wf: "pool_wf junk st fs" and co: "coherent st fs" using pool_reach_inv [OF assms] by simp_all
  have "\<exists>st'. run_op junk c st = Inr st' \<and> pool_reach junk st' fs'" if "enabled st fs c fs'" for c fs'
    using enabled_op_keeps [OF wf co that] pool_reach.stepped [OF assms that] by blast
  then show ?thesis using wf co resident_inj [OF wf co] by blast
qed

text \<open>
  Why a page nobody holds must not be fetched again: the fetch pins the page but does not tell the replacer, which
  goes on tracking the frame, so that the page may be evicted while it is used.
\<close>

lemma refetched_page_stays_tracked:
  assumes wf: "pool_wf junk st fs" and co: "coherent st fs" and r: "resident st p = Some f"
    and pin: "pin_count (frame st (unat f)) = 0"
  shows "\<exists>st'. fetch_bpm_page junk (of_nat p) st = Inr (f, st') \<and> pool_wf junk st' fs \<and>
    pin_count (frame st' (unat f)) = 1 \<and> unat f \<in> fst ` set fs"
proof -
  from resident_entry [OF wf r] have f: "unat f < pool_size (p_bpm st)" by metis
  let ?pg = "(frame st (unat f))\<lparr>pin_count := 1\<rparr>"
  have "fetch_bpm_page junk (of_nat p) st = Inr (f, set_page f ?pg st)" using fetch_hit [OF wf r] pin by simp
  moreover have "pool_wf junk (set_page f ?pg st) fs" using pool_wf_set_page [OF wf] frame_data_length [OF wf f] by simp
  moreover have "unat f \<in> fst ` set fs" using coherentD [OF co r] pin by (simp add: held_def)
  ultimately show ?thesis using frame_set_page [OF wf f] by simp
qed

section \<open>Witnesses\<close>

theorem reachable_pools_are_coherent_witness:
  "\<exists>s1. run_op demo_junk (Fetch 2) (demo_pool 3) = Inr s1 \<and> pool_reach demo_junk s1 [] \<and> coherent s1 []"
proof -
  have n: "(0 :: nat) < 3" "(3 :: nat) < 65536" by simp_all
  have start: "pool_reach demo_junk (demo_pool 3) []"
    unfolding demo_pool_def using pool_reach.opened [OF start_mem_wf n pool_files_ok] .
  have "enabled (demo_pool 3) [] (Fetch 2) []"
    using demo_pool_wf(2) [OF n] demo_disk(1) demo_free [OF n(1)] by (auto simp: room_def pinnable_empty)
  with reachable_pools_are_coherent [OF start] obtain s1 where
    "run_op demo_junk (Fetch 2) (demo_pool 3) = Inr s1" "pool_reach demo_junk s1 []" by blast
  then show ?thesis using reachable_pools_are_coherent [of demo_junk s1 "[]"] by blast
qed

end
