(* ===== verification/Btree.thy ===== *)
theory Btree
  imports Buffer_Pool Index_Page
begin

text \<open>
  \<^verbatim>\<open>src/index/btree_index.cpp\<close>, \<^verbatim>\<open>btree_index.hpp\<close>, \<^verbatim>\<open>btree_strategy.cpp\<close>: the B+tree on top of the buffer
  pool. A \<open>BTree\<close> holds the fields of the class, with the pool its pointer leads to. Nodes are values of
  \<open>Index_Page\<close>; what the code reads through a pointer to a page of the pool is read from the frame.

  The stack of breadcrumbs is a list with the top first. A template over the value type takes a flag that says
  whether the type is \<^verbatim>\<open>RID\<close>. \<open>Junk\<close> is what the code finds in memory it does not initialise.
\<close>

section \<open>State\<close>

record BTree =
  magic_num :: u32
  max_size :: u8
  bt_pool :: Pool
  root_pid :: page_id_t
  node_count :: u16

record Junk =
  j_page :: bytes
  j_flags :: u8
  j_right :: page_id_t
  j_next :: page_id_t

type_synonym breadcrumb = "page_id_t \<times> int"

definition BTREE_METADATA_PAGE_ID :: page_id_t where
  "BTREE_METADATA_PAGE_ID = 0"

section \<open>Metadata\<close>

text \<open>The constructor sets the pool only.\<close>

definition new_BTree :: "u32 \<Rightarrow> u8 \<Rightarrow> page_id_t \<Rightarrow> u16 \<Rightarrow> Pool \<Rightarrow> BTree" where
  "new_BTree junk_magic junk_max junk_root junk_count pool =
     \<lparr>magic_num = junk_magic, max_size = junk_max, bt_pool = pool, root_pid = junk_root, node_count = junk_count\<rparr>"

definition btree_serialize :: "Junk \<Rightarrow> BTree \<Rightarrow> bytes res" where
  "btree_serialize j t =
     and_then (store 0 (encode_uint32 (magic_num t)) (j_page j)) (\<lambda>data.
     and_then (store NODE_COUNT_OFFSET (encode_uint16 (node_count t)) data) (\<lambda>data.
     and_then (store CURR_ROOT_PID_OFFSET (encode_uint32 (root_pid t)) data) (\<lambda>data.
       store MAX_KEYSIZE_OFFSET [max_size t] data)))"

definition btree_deserialize :: "Junk \<Rightarrow> BTree \<Rightarrow> BTree res" where
  "btree_deserialize j t =
     (let st = bt_pool t in
      and_then (read_page (j_page j) BTREE_METADATA_PAGE_ID (disk_manager (p_bpm st)) (p_files st)) (\<lambda>(metadata, files).
      and_then (decode_uint32 metadata) (\<lambda>magic.
      and_then (guard AssertFail (magic = BTREE_INDEX)) (\<lambda>_.
      and_then (decode_uint16 (drop NODE_COUNT_OFFSET metadata)) (\<lambda>count.
      and_then (decode_uint32 (drop CURR_ROOT_PID_OFFSET metadata)) (\<lambda>root.
      and_then (byte_at MAX_KEYSIZE_OFFSET metadata) (\<lambda>max.
        Inr \<lparr>magic_num = magic, max_size = max, bt_pool = st\<lparr>p_files := files\<rparr>, root_pid = root, node_count = count\<rparr>)))))))"

section \<open>Nodes in the pool\<close>

text \<open>\<^verbatim>\<open>std::make_unique<BTreePage>(fetch_bpm_page(pid, bpm)->data)\<close>, with the page number in the frame.\<close>

definition fetch_node :: "Junk \<Rightarrow> page_id_t \<Rightarrow> BTree \<Rightarrow> (BTreePage \<times> page_id_t \<times> BTree) res" where
  "fetch_node j pid t =
     and_then (fetch_bpm_page (j_page j) pid (bt_pool t)) (\<lambda>(f, st).
     and_then (page_at f st) (\<lambda>page.
     and_then (deserialize (bp_data page)) (\<lambda>node.
       Inr (node, bp_id page, t\<lparr>bt_pool := st\<rparr>))))"

definition getBtreePage :: "Junk \<Rightarrow> page_id_t \<Rightarrow> BTree \<Rightarrow> (BTreePage \<times> BTree) res" where
  "getBtreePage j pid t = and_then (fetch_node j pid t) (\<lambda>(node, _, t). Inr (node, t))"

definition flush_node :: "Junk \<Rightarrow> page_id_t \<Rightarrow> bytes \<Rightarrow> Pool \<Rightarrow> Pool res" where
  "flush_node j node_pid data st =
     and_then (fetch_bpm_page (j_page j) node_pid st) (\<lambda>(f, st).
     and_then (page_at f st) (\<lambda>page.
     and_then (page_entry (dec (unat (bp_id page))) st) (\<lambda>entry.
       case entry of
         None \<Rightarrow> Inl NullDeref
       | Some e \<Rightarrow>
           and_then (frame_cell (el_data e) (p_mem st)) (\<lambda>fid.
           and_then (write_to_frame fid data st) (\<lambda>st.
           and_then (flush_page node_pid st) (\<lambda>(ok, st). Inr st))))))"

text \<open>\<^verbatim>\<open>flush_node(pid, node->serialize(), bpm)\<close> and the same for the metadata.\<close>

definition persist :: "Junk \<Rightarrow> page_id_t \<Rightarrow> BTreePage \<Rightarrow> BTree \<Rightarrow> BTree res" where
  "persist j pid node t =
     and_then (serialize (j_page j) node) (\<lambda>data.
     and_then (flush_node j pid data (bt_pool t)) (\<lambda>st. Inr (t\<lparr>bt_pool := st\<rparr>)))"

definition persist_metadata :: "Junk \<Rightarrow> BTree \<Rightarrow> BTree res" where
  "persist_metadata j t =
     and_then (btree_serialize j t) (\<lambda>data.
     and_then (flush_node j BTREE_METADATA_PAGE_ID data (bt_pool t)) (\<lambda>st. Inr (t\<lparr>bt_pool := st\<rparr>)))"

definition new_index_node :: "Junk \<Rightarrow> bool \<Rightarrow> BTree \<Rightarrow> (page_id_t \<times> BTree) res" where
  "new_index_node j leaf t =
     (let st = bt_pool t in
      and_then (new_btree_index_page (j_page j) (disk_manager (p_bpm st)) leaf (p_files st)) (\<lambda>(pid, files).
        Inr (pid, t\<lparr>bt_pool := st\<lparr>p_files := files\<rparr>\<rparr>)))"

definition fresh_node :: "Junk \<Rightarrow> bool \<Rightarrow> BTreePage" where
  "fresh_node j leaf = new_BTreePage (j_flags j) (j_right j) (j_next j) leaf"

definition getPrevBreadcrumbPid :: "Junk \<Rightarrow> breadcrumb list \<Rightarrow> BTree \<Rightarrow> (page_id_t \<times> breadcrumb list \<times> BTree) res" where
  "getPrevBreadcrumbPid j breadcrumbs t =
     (case breadcrumbs of
        [] \<Rightarrow> Inr (0, [], t)
      | crumb # rest \<Rightarrow>
          and_then (fetch_bpm_page (j_page j) (fst crumb) (bt_pool t)) (\<lambda>(f, st).
          and_then (page_at f st) (\<lambda>page. Inr (bp_id page, rest, t\<lparr>bt_pool := st\<rparr>))))"

section \<open>Finding a leaf\<close>

text \<open>The loop over the keys of an internal node, from index \<open>i\<close>. It goes on after it has descended, with the
  node it descended to. The counter is 16 bits wide: at index 65536 it is 0 again and reads key \<open>-1\<close>.\<close>

fun scan_keys :: "nat \<Rightarrow> Junk \<Rightarrow> BTreeKey \<Rightarrow> nat \<Rightarrow> BTreePage \<Rightarrow> page_id_t \<Rightarrow> breadcrumb list \<Rightarrow> BTree \<Rightarrow>
    (BTreePage \<times> page_id_t \<times> breadcrumb list \<times> BTree) res" where
  "scan_keys 0 j key i node pid crumbs t =
     (if keys node = [] then Inr (node, pid, crumbs, t) else Inl StdOutOfRange)"
| "scan_keys (Suc n) j key i node pid crumbs t =
     (if \<not> i < length (keys node) then Inr (node, pid, crumbs, t)
      else
        and_then (at (keys node) (i - 1)) (\<lambda>prev_key.
        and_then (at (keys node) i) (\<lambda>curr_key.
        and_then (cmpKeys prev_key key) (\<lambda>c1.
        and_then (if 0 < c1 then cmpKeys curr_key key else Inr 1) (\<lambda>c2.
          if 0 < c1 \<and> c2 \<le> 0 then
            and_then (INTERNAL_CHILDREN (vals node)) (\<lambda>cs.
            and_then (at cs i) (\<lambda>next_ptr.
            and_then (fetch_node j next_ptr t) (\<lambda>(node', pid', t).
              scan_keys n j key (i + 1) node' pid' ((pid, int i) # crumbs) t)))
          else scan_keys n j key (i + 1) node pid crumbs t)))))"

primrec findLeaf_loop :: "nat \<Rightarrow> Junk \<Rightarrow> BTreeKey \<Rightarrow> BTreePage \<Rightarrow> page_id_t \<Rightarrow> breadcrumb list \<Rightarrow> BTree \<Rightarrow>
    (BTreePage \<times> breadcrumb list \<times> page_id_t \<times> BTree) res" where
  "findLeaf_loop 0 j key node pid crumbs t = (if is_leaf node then Inr (node, crumbs, pid, t) else Inl Diverges)"
| "findLeaf_loop (Suc fuel) j key node pid crumbs t =
     (if is_leaf node then Inr (node, crumbs, pid, t)
      else
        and_then (at (keys node) 0) (\<lambda>first_key.
        and_then (cmpKeys first_key key) (\<lambda>c.
          if 0 < c then
            and_then (INTERNAL_CHILDREN (vals node)) (\<lambda>cs.
            and_then (at cs 0) (\<lambda>next_ptr.
            and_then (fetch_node j next_ptr t) (\<lambda>(node', pid', t).
              findLeaf_loop fuel j key node' pid' ((pid, 0) # crumbs) t)))
          else
            and_then (scan_keys 65535 j key 1 node pid crumbs t) (\<lambda>(node, pid, crumbs, t).
            and_then (fetch_node j (rightmost_ptr node) t) (\<lambda>(node', pid', t).
              findLeaf_loop fuel j key node' pid' ((pid, - 1) # crumbs) t)))))"

definition findLeaf :: "nat \<Rightarrow> Junk \<Rightarrow> BTreeKey \<Rightarrow> breadcrumb list \<Rightarrow> BTree \<Rightarrow>
    (BTreePage \<times> breadcrumb list \<times> page_id_t \<times> BTree) res" where
  "findLeaf fuel j key breadcrumbs t =
     and_then (fetch_node j (root_pid t) t) (\<lambda>(node, pid, t). findLeaf_loop fuel j key node pid breadcrumbs t)"

section \<open>Splitting\<close>

text \<open>\<^verbatim>\<open>redistribute_kv<RID>\<close> and \<^verbatim>\<open>redistribute_kv<u32>\<close>. The last statement of the latter drops the last element
  of a copy of the values.\<close>

definition redistribute_kv_RID :: "BTreePage \<Rightarrow> BTreePage \<Rightarrow> (BTreePage \<times> BTreePage) res" where
  "redistribute_kv_RID empty_node full_node =
     and_then (vec_second_half (keys full_node) (is_leaf empty_node)) (\<lambda>k2.
     and_then (vec_first_half (keys full_node) False) (\<lambda>k1.
     and_then (LEAF_RECORDS (vals full_node)) (\<lambda>full_vals.
     and_then (vec_second_half full_vals True) (\<lambda>v2.
     and_then (vec_first_half full_vals False) (\<lambda>v1.
       Inr (empty_node\<lparr>keys := k2, vals := LeafRecords v2\<rparr>, full_node\<lparr>keys := k1, vals := LeafRecords v1\<rparr>))))))"

definition redistribute_kv_u32 :: "BTreePage \<Rightarrow> BTreePage \<Rightarrow> (BTreePage \<times> BTreePage) res" where
  "redistribute_kv_u32 empty_node full_node =
     and_then (vec_second_half (keys full_node) (is_leaf empty_node)) (\<lambda>k2.
     and_then (vec_first_half (keys full_node) False) (\<lambda>k1.
     and_then (INTERNAL_CHILDREN (vals full_node)) (\<lambda>full_vals.
     and_then (vec_second_half full_vals False) (\<lambda>v2.
     and_then (vec_first_half full_vals True) (\<lambda>v1.
     and_then (at v1 (length v1 - 1)) (\<lambda>last_val.
       Inr (empty_node\<lparr>keys := k2, vals := InternalChildren v2, rightmost_ptr := rightmost_ptr full_node\<rparr>,
            full_node\<lparr>keys := k1, vals := InternalChildren v1, rightmost_ptr := last_val\<rparr>)))))))"

definition redistribute_kv :: "bool \<Rightarrow> BTreePage \<Rightarrow> BTreePage \<Rightarrow> (BTreePage \<times> BTreePage) res" where
  "redistribute_kv rid = (if rid then redistribute_kv_RID else redistribute_kv_u32)"

definition splitRootNode :: "Junk \<Rightarrow> bool \<Rightarrow> BTreePage \<Rightarrow> BTree \<Rightarrow> (BTreePage \<times> BTree) res" where
  "splitRootNode j rid old_root_node t =
     (let old_root_pid = root_pid t in
      and_then (at (keys old_root_node) (length (keys old_root_node) div 2)) (\<lambda>mid_key.
      and_then (new_index_node j rid t) (\<lambda>(new_node_id, t).
      and_then (new_index_node j False t) (\<lambda>(new_root_id, t).
        let t = t\<lparr>node_count := node_count t + 2\<rparr> in
        and_then (redistribute_kv rid (fresh_node j rid) old_root_node) (\<lambda>(new_node, old_root_node).
          let old_root_node = old_root_node\<lparr>next_pid := new_node_id\<rparr>;
              new_root = (fresh_node j False)\<lparr>keys := [mid_key], vals := InternalChildren [root_pid t], rightmost_ptr := new_node_id\<rparr>;
              t = t\<lparr>root_pid := new_root_id\<rparr>
          in and_then (guard AssertFail (new_node_id \<noteq> BTREE_METADATA_PAGE_ID \<and> new_root_id \<noteq> BTREE_METADATA_PAGE_ID)) (\<lambda>_.
             and_then (persist_metadata j t) (\<lambda>t.
             and_then (persist j new_node_id new_node t) (\<lambda>t.
             and_then (persist j (root_pid t) new_root t) (\<lambda>t.
             and_then (persist j old_root_pid old_root_node t) (\<lambda>t.
               Inr (old_root_node, t)))))))))))"

text \<open>\<^verbatim>\<open>BTreeKey::operator==\<close>.\<close>

definition key_eq :: "BTreeKey \<Rightarrow> BTreeKey \<Rightarrow> bool res" where
  "key_eq a b =
     (if key_length a = key_length b
      then and_then (memcmp (unat (key_length a)) (key_data a) (key_data b)) (\<lambda>c. Inr (c = 0))
      else Inr False)"

text \<open>The body of \<^verbatim>\<open>splitNonRootNode\<close> up to the check of the parent.\<close>

definition split_step :: "Junk \<Rightarrow> bool \<Rightarrow> BTreePage \<Rightarrow> page_id_t \<Rightarrow> breadcrumb list \<Rightarrow> BTree \<Rightarrow>
    (BTreePage \<times> BTreePage \<times> BTree) res" where
  "split_step j rid old_node old_node_pid breadcrumbs t =
     and_then (at (keys old_node) (length (keys old_node) div 2)) (\<lambda>mid_key.
     and_then (new_index_node j rid t) (\<lambda>(new_node_id, t).
       let t = t\<lparr>node_count := node_count t + 1\<rparr> in
       and_then (redistribute_kv rid (fresh_node j rid) old_node) (\<lambda>(new_node, old_node).
         let new_node = new_node\<lparr>next_pid := next_pid old_node\<rparr>; old_node = old_node\<lparr>next_pid := new_node_id\<rparr> in
         and_then (getPrevBreadcrumbPid j breadcrumbs t) (\<lambda>(parent_pid, _, t).
         and_then (getBtreePage j parent_pid t) (\<lambda>(parent, t).
         and_then (insertIntoNode_u32 mid_key old_node_pid parent) (\<lambda>parent.
         and_then (at (keys parent) (length (keys parent) - 1)) (\<lambda>last_key.
         and_then (key_eq last_key mid_key) (\<lambda>same.
           let parent = (if same then parent\<lparr>rightmost_ptr := new_node_id\<rparr> else parent) in
           and_then (guard AssertFail (new_node_id \<noteq> BTREE_METADATA_PAGE_ID \<and> old_node_pid \<noteq> BTREE_METADATA_PAGE_ID)) (\<lambda>_.
           and_then (persist j parent_pid parent t) (\<lambda>t.
           and_then (persist j new_node_id new_node t) (\<lambda>t.
           and_then (persist j old_node_pid old_node t) (\<lambda>t.
             Inr (old_node, parent, t)))))))))))))"

text \<open>The recursion takes two breadcrumbs, the parent's and the one above it.\<close>

function splitNonRootNode :: "Junk \<Rightarrow> bool \<Rightarrow> BTreePage \<Rightarrow> page_id_t \<Rightarrow> breadcrumb list \<Rightarrow> BTree \<Rightarrow>
    (BTreePage \<times> BTree) res" where
  "splitNonRootNode j rid old_node old_node_pid breadcrumbs t =
     and_then (split_step j rid old_node old_node_pid breadcrumbs t) (\<lambda>(old_node, parent, t).
       if unat (max_size t) < length (keys parent) then
         (case tl breadcrumbs of
            [] \<Rightarrow>
              and_then (getBtreePage j (root_pid t) t) (\<lambda>(root_page, t).
              and_then (splitRootNode j False root_page t) (\<lambda>(_, t). Inr (old_node, t)))
          | crumb # rest \<Rightarrow>
              and_then (getPrevBreadcrumbPid j (crumb # rest) t) (\<lambda>(top_pid, _, t).
              and_then (getBtreePage j top_pid t) (\<lambda>(top_node, t).
              and_then (splitNonRootNode j False top_node top_pid rest t) (\<lambda>(_, t). Inr (old_node, t)))))
       else Inr (old_node, t))"
  by pat_completeness auto

termination splitNonRootNode
proof (relation "measure (\<lambda>(j, rid, old, pid, crumbs, t). length crumbs)", goal_cases)
  case (2 j rid old_node old_node_pid breadcrumbs t)
  then show ?case by (cases breadcrumbs) auto
qed simp

declare splitNonRootNode.simps [simp del]

section \<open>Insertion\<close>

fun has_key :: "BTreeKey \<Rightarrow> BTreeKey list \<Rightarrow> bool res" where
  "has_key key [] = Inr False"
| "has_key key (k # ks) = and_then (cmpKeys k key) (\<lambda>c. if c = 0 then Inr True else has_key key ks)"

definition btree_insert :: "nat \<Rightarrow> Junk \<Rightarrow> BTreeKey \<Rightarrow> NodeRID \<Rightarrow> BTree \<Rightarrow> (page_id_t \<times> BTree) res" where
  "btree_insert fuel j key val t =
     and_then
       (if root_pid t \<le> BTREE_METADATA_PAGE_ID then
          and_then (new_index_node j True t) (\<lambda>(pid, t).
          and_then (guard AssertFail (pid \<noteq> BTREE_METADATA_PAGE_ID)) (\<lambda>_.
            Inr (t\<lparr>root_pid := pid, node_count := node_count t + 1\<rparr>)))
        else Inr t) (\<lambda>t.
     and_then (findLeaf fuel j key [] t) (\<lambda>(leaf, breadcrumbs, leaf_pid, t).
     and_then (guard AssertFail (leaf_pid \<noteq> BTREE_METADATA_PAGE_ID)) (\<lambda>_.
     and_then (has_key key (keys leaf)) (\<lambda>dup.
       if dup then Inr (0, t)
       else
         and_then (insertIntoNode_RID key val leaf) (\<lambda>leaf.
         and_then
           (if unat (max_size t) < length (keys leaf) then
              and_then (guard AssertFail (root_pid t \<noteq> BTREE_METADATA_PAGE_ID)) (\<lambda>_.
                if breadcrumbs = [] then splitRootNode j True leaf t
                else splitNonRootNode j True leaf leaf_pid breadcrumbs t)
            else Inr (leaf, t)) (\<lambda>(leaf, t).
         and_then (persist j leaf_pid leaf t) (\<lambda>t.
           Inr (leaf_pid, t))))))))"

section \<open>Removal\<close>

text \<open>\<^verbatim>\<open>erase(begin() + i)\<close> needs an element there, \<^verbatim>\<open>pop_back\<close> a last one.\<close>

definition erase :: "'a list \<Rightarrow> nat \<Rightarrow> 'a list res" where
  "erase xs i = (if i < length xs then Inr (take i xs @ drop (Suc i) xs) else Inl OutOfBounds)"

definition pop_back :: "'a list \<Rightarrow> 'a list res" where
  "pop_back xs = (if xs = [] then Inl OutOfBounds else Inr (butlast xs))"

text \<open>The information \<^verbatim>\<open>BTreePageLocalInfo\<close> about a node, its sibling and their parent.\<close>

record LocalInfo =
  l_node :: BTreePage
  l_node_pid :: page_id_t
  l_sibling :: BTreePage
  l_sibling_pid :: page_id_t
  l_parent :: BTreePage
  l_parent_pid :: page_id_t

definition merge_leaf_left :: "Junk \<Rightarrow> LocalInfo \<Rightarrow> BTree \<Rightarrow> (LocalInfo \<times> BTree) res" where
  "merge_leaf_left j l t =
     and_then (LEAF_RECORDS (vals (l_sibling l))) (\<lambda>sibling_vals.
     and_then (LEAF_RECORDS (vals (l_node l))) (\<lambda>node_vals.
     and_then (INTERNAL_CHILDREN (vals (l_parent l))) (\<lambda>parent_vals.
       let sib = (l_sibling l)\<lparr>keys := keys (l_sibling l) @ keys (l_node l), vals := LeafRecords (sibling_vals @ node_vals)\<rparr> in
       and_then (persist j (l_sibling_pid l) sib t) (\<lambda>t.
       and_then
         (if length (keys (l_parent l)) = 1
          then and_then (set_at parent_vals 0 (l_sibling_pid l)) (\<lambda>vs. Inr (vs, rightmost_ptr (l_parent l)))
          else Inr (parent_vals, l_sibling_pid l)) (\<lambda>(vs, right).
       and_then (pop_back vs) (\<lambda>vs.
       and_then (pop_back (keys (l_parent l))) (\<lambda>ks.
         Inr (l\<lparr>l_sibling := sib,
               l_parent := (l_parent l)\<lparr>keys := ks, rightmost_ptr := right, vals := InternalChildren vs\<rparr>\<rparr>, t))))))))"

definition merge_leaf_right :: "Junk \<Rightarrow> nat \<Rightarrow> LocalInfo \<Rightarrow> BTree \<Rightarrow> (LocalInfo \<times> BTree) res" where
  "merge_leaf_right j idx l t =
     and_then (LEAF_RECORDS (vals (l_sibling l))) (\<lambda>sibling_vals.
     and_then (LEAF_RECORDS (vals (l_node l))) (\<lambda>node_vals.
     and_then (INTERNAL_CHILDREN (vals (l_parent l))) (\<lambda>parent_vals.
       let node = (l_node l)\<lparr>keys := keys (l_node l) @ keys (l_sibling l), vals := LeafRecords (node_vals @ sibling_vals)\<rparr> in
       and_then
         (if l_sibling_pid l = rightmost_ptr (l_parent l) then Inr (node, (l_parent l)\<lparr>rightmost_ptr := 0\<rparr>)
          else
            and_then (erase parent_vals idx) (\<lambda>vs.
            and_then (set_at vs idx (l_node_pid l)) (\<lambda>vs.
            and_then (erase (keys (l_parent l)) idx) (\<lambda>ks.
              Inr (node\<lparr>next_pid := next_pid (l_sibling l)\<rparr>,
                   (l_parent l)\<lparr>keys := ks, vals := InternalChildren vs\<rparr>))))) (\<lambda>(node, parent).
       and_then (persist j (l_node_pid l) node t) (\<lambda>t.
         Inr (l\<lparr>l_node := node, l_parent := parent\<rparr>, t))))))"

definition MergeLeaf_merge :: "Junk \<Rightarrow> breadcrumb \<Rightarrow> bool \<Rightarrow> LocalInfo \<Rightarrow> BTree \<Rightarrow> (LocalInfo \<times> BTree) res" where
  "MergeLeaf_merge j parent_crumb is_left_sib l t =
     and_then (LEAF_RECORDS (vals (l_sibling l))) (\<lambda>_.
     and_then (LEAF_RECORDS (vals (l_node l))) (\<lambda>_.
     and_then (INTERNAL_CHILDREN (vals (l_parent l))) (\<lambda>_.
       if keys (l_sibling l) = [] \<or> unat (max_size t) < length (keys (l_node l)) + length (keys (l_sibling l))
       then Inr (l, t)
       else if is_left_sib then merge_leaf_left j l t
       else merge_leaf_right j (nat (snd parent_crumb)) l t)))"

definition merge_inner_left :: "Junk \<Rightarrow> LocalInfo \<Rightarrow> BTree \<Rightarrow> (LocalInfo \<times> BTree) res" where
  "merge_inner_left j l t =
     and_then (INTERNAL_CHILDREN (vals (l_sibling l))) (\<lambda>sibling_vals.
     and_then (INTERNAL_CHILDREN (vals (l_node l))) (\<lambda>node_vals.
     and_then (at (keys (l_parent l)) (length (keys (l_parent l)) - 1)) (\<lambda>demoted_key.
       let parent = (l_parent l)\<lparr>keys := butlast (keys (l_parent l)), rightmost_ptr := 0\<rparr>;
           sib = (l_sibling l)\<lparr>keys := keys (l_sibling l) @ demoted_key # keys (l_node l),
                               rightmost_ptr := rightmost_ptr (l_node l),
                               vals := InternalChildren (sibling_vals @ rightmost_ptr (l_sibling l) # node_vals)\<rparr>
       in and_then (persist j (l_sibling_pid l) sib t) (\<lambda>t.
            Inr (l\<lparr>l_sibling := sib, l_parent := parent\<rparr>, t)))))"

definition merge_inner_right :: "Junk \<Rightarrow> nat \<Rightarrow> LocalInfo \<Rightarrow> BTree \<Rightarrow> (LocalInfo \<times> BTree) res" where
  "merge_inner_right j idx l t =
     and_then (INTERNAL_CHILDREN (vals (l_sibling l))) (\<lambda>sibling_vals.
     and_then (INTERNAL_CHILDREN (vals (l_node l))) (\<lambda>node_vals.
     and_then (at (keys (l_parent l)) idx) (\<lambda>demoted_key.
     and_then (erase (keys (l_parent l)) idx) (\<lambda>ks.
       let parent = (l_parent l)\<lparr>keys := ks\<rparr>;
           node = (l_node l)\<lparr>keys := keys (l_node l) @ demoted_key # keys (l_sibling l),
                             rightmost_ptr := rightmost_ptr (l_sibling l),
                             vals := InternalChildren (node_vals @ sibling_vals)\<rparr>
       in and_then (persist j (l_node_pid l) node t) (\<lambda>t.
            Inr (l\<lparr>l_node := node, l_parent := parent\<rparr>, t))))))"

definition MergeNonLeaf_merge :: "Junk \<Rightarrow> breadcrumb \<Rightarrow> bool \<Rightarrow> LocalInfo \<Rightarrow> BTree \<Rightarrow> (LocalInfo \<times> BTree) res" where
  "MergeNonLeaf_merge j parent_crumb is_left_sib l t =
     (let total_ptr_num = of_nat (length (keys (l_node l)) + 1 + length (keys (l_sibling l)) + 1) :: u16 in
      if unat (max_size t) + 1 < unat total_ptr_num then Inr (l, t)
      else
        and_then (if is_left_sib then merge_inner_left j l t else merge_inner_right j (nat (snd parent_crumb)) l t) (\<lambda>(l, t).
        and_then (persist j (fst parent_crumb) (l_parent l) t) (\<lambda>t.
          Inr (l, t))))"

text \<open>
  The strategy pattern of \<^verbatim>\<open>btree_strategy.hpp\<close>. A context has no strategy at first; calling \<^verbatim>\<open>merge\<close> then would follow a null
  pointer. The nodes and the tree, which the context holds by reference, are passed along.
\<close>

datatype MergeStrategy = MergeLeafNodeStrategy | MergeNonLeafNodeStrategy

record MergeContext =
  strategy :: "MergeStrategy option"
  ctx_crumb :: breadcrumb
  ctx_is_left_sib :: bool

definition new_MergeContext :: "breadcrumb \<Rightarrow> bool \<Rightarrow> MergeContext" where
  "new_MergeContext crumb is_left = \<lparr>strategy = None, ctx_crumb = crumb, ctx_is_left_sib = is_left\<rparr>"

definition setStrategy :: "MergeStrategy \<Rightarrow> MergeContext \<Rightarrow> MergeContext" where
  "setStrategy s c = c\<lparr>strategy := Some s\<rparr>"

definition context_merge :: "Junk \<Rightarrow> MergeContext \<Rightarrow> LocalInfo \<Rightarrow> BTree \<Rightarrow> (LocalInfo \<times> BTree) res" where
  "context_merge j c local t =
     (case strategy c of
        None \<Rightarrow> Inl NullDeref
      | Some MergeLeafNodeStrategy \<Rightarrow> MergeLeaf_merge j (ctx_crumb c) (ctx_is_left_sib c) local t
      | Some MergeNonLeafNodeStrategy \<Rightarrow> MergeNonLeaf_merge j (ctx_crumb c) (ctx_is_left_sib c) local t)"

lemma context_merge_simps [simp]:
  "context_merge j (setStrategy MergeLeafNodeStrategy (new_MergeContext crumb is_left)) local t = MergeLeaf_merge j crumb is_left local t"
  "context_merge j (setStrategy MergeNonLeafNodeStrategy (new_MergeContext crumb is_left)) local t = MergeNonLeaf_merge j crumb is_left local t"
  by (simp_all add: context_merge_def setStrategy_def new_MergeContext_def)

text \<open>\<^verbatim>\<open>BTree::merge\<close>; it is only called with a breadcrumb on the stack.\<close>

fun btree_merge :: "Junk \<Rightarrow> page_id_t \<Rightarrow> breadcrumb list \<Rightarrow> BTree \<Rightarrow> BTree res" where
  "btree_merge j node_pid [] t = Inl OutOfBounds"
| "btree_merge j node_pid (parent_crumb # breadcrumbs) t =
     and_then (getBtreePage j (fst parent_crumb) t) (\<lambda>(parent, t).
     and_then (INTERNAL_CHILDREN (vals parent)) (\<lambda>parent_vals.
     and_then (getBtreePage j node_pid t) (\<lambda>(node, t).
       let is_left_sib = (snd parent_crumb = - 1) in
       and_then (if is_left_sib then at parent_vals (length parent_vals - 1) else Inr (next_pid node)) (\<lambda>sib_pid.
       and_then (getBtreePage j sib_pid t) (\<lambda>(sib, t).
         let local = \<lparr>l_node = node, l_node_pid = node_pid, l_sibling = sib, l_sibling_pid = sib_pid,
                      l_parent = parent, l_parent_pid = fst parent_crumb\<rparr>;
             context = setStrategy (if is_leaf node then MergeLeafNodeStrategy else MergeNonLeafNodeStrategy)
                         (new_MergeContext parent_crumb is_left_sib)
         in and_then (context_merge j context local t) (\<lambda>(local, t).
            and_then (persist j (fst parent_crumb) (l_parent local) t) (\<lambda>t.
              if breadcrumbs = [] then
                (if keys (l_parent local) = [] then
                   persist_metadata j (t\<lparr>root_pid := (if is_left_sib then l_sibling_pid local else l_node_pid local)\<rparr>)
                 else Inr t)
              else btree_merge j (fst parent_crumb) breadcrumbs t)))))))"

text \<open>The index of the first key equal to the given one, or the number of keys.\<close>

fun key_index :: "BTreeKey \<Rightarrow> BTreeKey list \<Rightarrow> nat res" where
  "key_index key [] = Inr 0"
| "key_index key (k # ks) =
     and_then (key_eq k key) (\<lambda>same. if same then Inr 0 else and_then (key_index key ks) (\<lambda>i. Inr (Suc i)))"

definition btree_remove :: "nat \<Rightarrow> Junk \<Rightarrow> BTreeKey \<Rightarrow> BTree \<Rightarrow> BTree res" where
  "btree_remove fuel j key t =
     and_then (findLeaf fuel j key [] t) (\<lambda>(leaf, breadcrumbs, leaf_pid, t).
     and_then (LEAF_RECORDS (vals leaf)) (\<lambda>leaf_vals.
     and_then (key_index key (keys leaf)) (\<lambda>i.
     and_then (erase (keys leaf) i) (\<lambda>ks.
     and_then (erase leaf_vals i) (\<lambda>vs.
     and_then (persist j leaf_pid (leaf\<lparr>keys := ks, vals := LeafRecords vs\<rparr>) t) (\<lambda>t.
       if breadcrumbs \<noteq> [] then btree_merge j leaf_pid breadcrumbs t else Inr t))))))"

end
