(* ===== verification/Btree_Nodes.thy ===== *)
theory Btree_Nodes
  imports Btree
begin

text \<open>
  What the operations of \<open>Btree\<close> on single pages do: the metadata page, writing a node through the pool with
  \<open>flush_node\<close> and reading it with \<open>fetch_node\<close>. \<open>at_rest\<close> is the state of the pool between two operations on
  the tree: no page is resident, every frame is free, and the replacer tracks at most the frames 0 and 1.
\<close>

section \<open>Writing a page through the pool\<close>

text \<open>What \<open>flush_node\<close> of page \<open>p\<close> does to the pool and the disk.\<close>

definition flushed :: "nat \<Rightarrow> bytes \<Rightarrow> Pool \<Rightarrow> Pool \<Rightarrow> bool" where
  "flushed p data st st' \<longleftrightarrow>
     (\<forall>q. resident st' q = (if q = p then None else resident st q)) \<and>
     pool_size (p_bpm st') = pool_size (p_bpm st) \<and> disk_manager (p_bpm st') = disk_manager (p_bpm st) \<and>
     insert (of_nat p) (disk_pages st) \<subseteq> disk_pages st' \<and> disk_page st' p = data \<and>
     (\<forall>q. of_nat q \<in> disk_pages st \<longrightarrow> (of_nat q :: page_id_t) \<noteq> of_nat p \<longrightarrow> disk_page st' q = disk_page st q)"

lemma pinnable_not_tracked:
  assumes "distinct (map fst fs)" and "pinnable i fs fs'"
  shows "i \<notin> fst ` set fs'"
proof (cases "fs = []")
  case False
  with assms(2) obtain pre b post where fs: "fs = pre @ (i, b) # post" "fs' = pre @ post" by (auto simp: pinnable_def)
  from assms(1) have "i \<notin> fst ` set pre" "i \<notin> fst ` set post" unfolding fs(1) by simp_all
  then show ?thesis by (simp add: fs(2) image_Un)
qed (use assms(2) in \<open>simp add: pinnable_def\<close>)

lemma flush_node_resident:
  assumes wf: "pool_wf (j_page j) st fs" and r: "resident st p = Some f" and al: "alone st p"
    and nt: "unat f \<notin> fst ` set fs" and len: "length data = PAGE_SIZE"
    and id: "bp_id (frame st (unat f)) = of_nat p" and pins: "pin_count (frame st (unat f)) < 2 ^ 31 - 1"
  shows "\<exists>st'. flush_node j (of_nat p) data st = Inr st' \<and> pool_wf (j_page j) st' ((unat f, True) # fs) \<and>
    flushed p data st st' \<and> free_list (p_bpm st') = (free_list (p_bpm st))[unat f := True] \<and>
    (\<forall>k. k \<noteq> unat f \<longrightarrow> frame st' k = frame st k)"
proof -
  let ?pg = "frame st (unat f)"
  let ?s1 = "set_page f (?pg\<lparr>pin_count := pin_count ?pg + 1\<rparr>) st"
  let ?s2 = "set_page f (?pg\<lparr>pin_count := pin_count ?pg + 1, bp_data := data, is_dirty := True\<rparr>) ?s1"
  from resident_entry [OF wf r] obtain e0 where f: "unat f < pool_size (p_bpm st)" and p: "p < 10000" by metis
  have wf1: "pool_wf (j_page j) ?s1 fs" using pool_wf_set_page [OF wf] frame_data_length [OF wf f] by simp
  have fr1: "frame ?s1 (unat f) = ?pg\<lparr>pin_count := pin_count ?pg + 1\<rparr>" using frame_set_page [OF wf f] by simp
  have r1: "resident ?s1 p = Some f" "unat f < pool_size (p_bpm ?s1)" using r f by simp_all
  from resident_entry [OF wf1 r1(1)] obtain e where e: "page_entry (dec p) ?s1 = Inr (Some e)"
    "frame_cell (el_data e) (p_mem ?s1) = Inr f" by metis
  have wr: "write_to_frame f data ?s1 = Inr ?s2"
    using page_at_wf [OF wf1 r1(2)] len by (simp add: write_to_frame_def load_ok fr1)
  have wf2: "pool_wf (j_page j) ?s2 fs" using pool_wf_set_page [OF wf1] len by simp
  have r2: "resident ?s2 p = Some f" "alone ?s2 p" using r al by (simp_all add: alone_def)
  have fr2: "frame ?s2 (unat f) = ?pg\<lparr>pin_count := pin_count ?pg + 1, bp_data := data, is_dirty := True\<rparr>"
    using frame_set_page [OF wf1 r1(2)] by simp
  from flush_ok [OF wf2 r2 nt] obtain s3 where
    s3: "flush_page (of_nat p) ?s2 = Inr (True, s3)" "pool_wf (j_page j) s3 ((unat f, True) # fs)" "resident s3 p = None"
      "\<forall>q. q \<noteq> p \<longrightarrow> resident s3 q = resident st q" "pool_size (p_bpm s3) = pool_size (p_bpm st)"
      "disk_manager (p_bpm s3) = disk_manager (p_bpm st)" "bpages (p_bpm s3) = bpages (p_bpm ?s2)"
      "free_list (p_bpm s3) = (free_list (p_bpm st))[unat f := True]"
      "disk_page s3 p = data" "insert (of_nat p) (disk_pages st) \<subseteq> disk_pages s3"
      "\<forall>q. of_nat q \<in> disk_pages st \<longrightarrow> (of_nat q :: page_id_t) \<noteq> of_nat p \<longrightarrow> disk_page s3 q = disk_page st q"
    by (auto simp: fr2)
  have "flush_node j (of_nat p) data st = Inr s3"
    using fetch_hit [OF wf r pins] page_at_wf [OF wf1 r1(2)] fr1 id small_pid(1) [OF p] e wr s3(1)
    by (simp add: flush_node_def)
  moreover have "\<forall>k. k \<noteq> unat f \<longrightarrow> frame s3 k = frame st k" using s3(7) by (simp add: frame_def)
  ultimately show ?thesis using s3 by (auto simp: flushed_def)
qed

lemma flush_node_absent:
  assumes wf: "pool_wf (j_page j) st fs" and new: "resident st p = None" and p: "p < 10000" and al: "alone st p"
    and dp: "of_nat p \<in> disk_pages st" and len: "length data = PAGE_SIZE"
    and free: "free_frame (free_list (p_bpm st)) 0 = Some i" and pin: "pinnable i fs fs'"
  shows "\<exists>st'. flush_node j (of_nat p) data st = Inr st' \<and> pool_wf (j_page j) st' ((i, True) # fs') \<and>
    flushed p data st st' \<and> free_list (p_bpm st') = free_list (p_bpm st) \<and> (\<forall>k. k \<noteq> i \<longrightarrow> frame st' k = frame st k)"
proof -
  let ?f = "of_nat i :: frame_id_t"
  from fetch_miss [OF wf new p free pin dp] obtain s1 where
    s1: "fetch_bpm_page (j_page j) (of_nat p) st = Inr (?f, s1)" "pool_wf (j_page j) s1 fs'" "resident s1 p = Some ?f"
      "\<forall>q. q \<noteq> p \<longrightarrow> resident s1 q = resident st q" "p_files s1 = p_files st"
      "pool_size (p_bpm s1) = pool_size (p_bpm st)" "disk_manager (p_bpm s1) = disk_manager (p_bpm st)"
      "bpages (p_bpm s1) = (bpages (p_bpm st))[i := (blank_frame p)\<lparr>pin_count := 2, bp_data := disk_page st p\<rparr>]"
      "free_list (p_bpm s1) = (free_list (p_bpm st))[i := False]" by blast
  have fl: "free_list (p_bpm st) ! i" and i: "i < pool_size (p_bpm st)"
    using free_frame_Some [OF free] pool_wfD(4) [OF wf] by simp_all
  then have uf: "unat ?f = i" using small_frame(1) pool_wfD(2) [OF wf] by simp
  let ?pg = "(blank_frame p)\<lparr>pin_count := 2, bp_data := disk_page st p\<rparr>"
  have fr: "frame s1 i = ?pg" using s1(8) i pool_wfD(3) [OF wf] by (simp add: frame_def)
  from resident_entry [OF s1(2,3)] obtain e where e: "page_entry (dec p) s1 = Inr (Some e)"
    "frame_cell (el_data e) (p_mem s1) = Inr ?f" by metis
  let ?s2 = "set_page ?f (?pg\<lparr>bp_data := data, is_dirty := True\<rparr>) s1"
  have f1: "unat ?f < pool_size (p_bpm s1)" using i uf s1(6) by simp
  have wr: "write_to_frame ?f data s1 = Inr ?s2"
    using page_at_wf [OF s1(2) f1] len fr uf by (simp add: write_to_frame_def load_ok)
  have wf2: "pool_wf (j_page j) ?s2 fs'" using pool_wf_set_page [OF s1(2)] len by simp
  have r2: "resident ?s2 p = Some ?f" "alone ?s2 p"
    using s1(3,4,6) al by (simp_all add: alone_def)
  have nt: "unat ?f \<notin> fst ` set fs'"
    using pinnable_not_tracked [OF tracksD(4) [OF pool_wfD(7) [OF wf]] pin] uf by simp
  have fr2: "frame ?s2 i = ?pg\<lparr>bp_data := data, is_dirty := True\<rparr>" using frame_set_page [OF s1(2) f1] uf by simp
  have same: "disk_page ?s2 q = disk_page st q" "disk_pages ?s2 = disk_pages st" for q
    using s1(5,7) by (simp_all add: disk_page_def disk_pages_def)
  from flush_ok [OF wf2 r2 nt] obtain s3 where
    s3: "flush_page (of_nat p) ?s2 = Inr (True, s3)" "pool_wf (j_page j) s3 ((i, True) # fs')" "resident s3 p = None"
      "\<forall>q. q \<noteq> p \<longrightarrow> resident s3 q = resident ?s2 q" "pool_size (p_bpm s3) = pool_size (p_bpm st)"
      "disk_manager (p_bpm s3) = disk_manager (p_bpm st)" "bpages (p_bpm s3) = bpages (p_bpm ?s2)"
      "free_list (p_bpm s3) = (free_list (p_bpm s1))[i := True]"
      "disk_page s3 p = data" "insert (of_nat p) (disk_pages st) \<subseteq> disk_pages s3"
      "\<forall>q. of_nat q \<in> disk_pages st \<longrightarrow> (of_nat q :: page_id_t) \<noteq> of_nat p \<longrightarrow> disk_page s3 q = disk_page st q"
    unfolding same uf fr2 using s1(6,7) by auto
  have "flush_node j (of_nat p) data st = Inr s3"
    using s1(1) page_at_wf [OF s1(2) f1] fr uf small_pid(1) [OF p] e wr s3(1)
    by (simp add: flush_node_def blank_frame_def)
  moreover have "free_list (p_bpm s3) = free_list (p_bpm st)"
    using s3(8) s1(9) fl list_update_id [of "free_list (p_bpm st)" i] by simp
  moreover have "\<forall>k. k \<noteq> i \<longrightarrow> frame s3 k = frame st k" using s3(7) s1(8) uf by (simp add: frame_def)
  ultimately show ?thesis using s3 s1(4) by (auto simp: flushed_def)
qed

section \<open>The pool between operations\<close>

definition at_rest :: "bytes \<Rightarrow> Pool \<Rightarrow> bool" where
  "at_rest junk st \<longleftrightarrow>
     (pool_wf junk st [] \<or> pool_wf junk st [(0, True)] \<or> pool_wf junk st [(0, True), (1, True)]) \<and>
     2 \<le> pool_size (p_bpm st) \<and> free_list (p_bpm st) = replicate (pool_size (p_bpm st)) True \<and>
     (\<forall>p. resident st p = None)"

text \<open>Page \<open>p\<close> alone is resident, in frame 0, fetched once.\<close>

definition holding :: "bytes \<Rightarrow> Pool \<Rightarrow> nat \<Rightarrow> bool" where
  "holding junk st p \<longleftrightarrow>
     (pool_wf junk st [] \<or> pool_wf junk st [(1, True)]) \<and>
     2 \<le> pool_size (p_bpm st) \<and> free_list (p_bpm st) = (replicate (pool_size (p_bpm st)) True)[0 := False] \<and>
     (\<forall>q. resident st q = (if q = p then Some 0 else None)) \<and>
     bp_id (frame st 0) = of_nat p \<and> pin_count (frame st 0) = 2"

lemma new_pool_at_rest:
  assumes "cmem_wf m" and "2 \<le> n" and "n < 65536" and "dm_inv dm junk files"
  shows "at_rest junk \<lparr>p_mem = m, p_files = files, p_bpm = new_bpm n dm\<rparr>"
proof -
  have "0 < n" using assms(2) by simp
  note wf = new_pool_wf [OF assms(1) this assms(3,4)]
  have "pool_size (new_bpm n dm) = n" "free_list (new_bpm n dm) = replicate n True" by (simp_all add: new_bpm_def)
  then show ?thesis using wf assms(2) by (simp add: at_rest_def)
qed

lemma rest_pinnable:
  assumes "at_rest junk st"
  obtains fs fs' where "pool_wf junk st fs" and "pinnable 0 fs fs'" and "fs' = [] \<or> fs' = [(1, True)]"
proof -
  from assms consider "pool_wf junk st []" | "pool_wf junk st [(0, True)]" | "pool_wf junk st [(0, True), (1, True)]"
    by (auto simp: at_rest_def)
  then show thesis
    by cases (use that pinnable_empty pinnable_head in blast)+
qed

lemma rest_free:
  assumes "at_rest junk st"
  shows "free_frame (free_list (p_bpm st)) 0 = Some 0"
  using assms by (cases "pool_size (p_bpm st)") (simp_all add: at_rest_def)

lemma rest_fetch:
  assumes rest: "at_rest junk st" and p: "p < 10000" and dp: "of_nat p \<in> disk_pages st"
  shows "\<exists>st'. fetch_bpm_page junk (of_nat p) st = Inr (0, st') \<and> holding junk st' p \<and>
    bp_data (frame st' 0) = disk_page st p \<and> p_files st' = p_files st \<and>
    pool_size (p_bpm st') = pool_size (p_bpm st) \<and> disk_manager (p_bpm st') = disk_manager (p_bpm st)"
proof -
  from rest_pinnable [OF rest] obtain fs fs' where fs: "pool_wf junk st fs" "pinnable 0 fs fs'" "fs' = [] \<or> fs' = [(1, True)]" .
  have none: "resident st p = None" and n: "2 \<le> pool_size (p_bpm st)"
    and fl: "free_list (p_bpm st) = replicate (pool_size (p_bpm st)) True" using rest by (simp_all add: at_rest_def)
  from fetch_miss [OF fs(1) none p rest_free [OF rest] fs(2) dp] obtain s1 where
    s1: "fetch_bpm_page junk (of_nat p) st = Inr (of_nat 0, s1)" "pool_wf junk s1 fs'" "resident s1 p = Some (of_nat 0)"
      "\<forall>q. q \<noteq> p \<longrightarrow> resident s1 q = resident st q" "p_files s1 = p_files st"
      "pool_size (p_bpm s1) = pool_size (p_bpm st)" "disk_manager (p_bpm s1) = disk_manager (p_bpm st)"
      "bpages (p_bpm s1) = (bpages (p_bpm st))[0 := (blank_frame p)\<lparr>pin_count := 2, bp_data := disk_page st p\<rparr>]"
      "free_list (p_bpm s1) = (free_list (p_bpm st))[0 := False]" by blast
  have fr: "frame s1 0 = (blank_frame p)\<lparr>pin_count := 2, bp_data := disk_page st p\<rparr>"
    using s1(8) n pool_wfD(3) [OF fs(1)] by (simp add: frame_def)
  then have "holding junk s1 p"
    using s1 fs(3) n fl rest by (auto simp: holding_def at_rest_def blank_frame_def)
  then show ?thesis using s1(1,5-7) fr by simp
qed

lemma holding_flush:
  assumes h: "holding (j_page j) st p" and len: "length data = PAGE_SIZE"
  shows "\<exists>st'. flush_node j (of_nat p) data st = Inr st' \<and> at_rest (j_page j) st' \<and> flushed p data st st'"
proof -
  from h obtain fs where fs: "pool_wf (j_page j) st fs" "fs = [] \<or> fs = [(1, True)]" by (auto simp: holding_def)
  have r: "resident st p = Some 0" "alone st p" using h by (simp_all add: holding_def alone_def)
  have nt: "unat (0 :: frame_id_t) \<notin> fst ` set fs" using fs(2) by auto
  have fr: "bp_id (frame st (unat (0 :: frame_id_t))) = of_nat p" "pin_count (frame st (unat (0 :: frame_id_t))) < 2 ^ 31 - 1"
    using h by (simp_all add: holding_def)
  from flush_node_resident [OF fs(1) r nt len fr] obtain st' where
    st': "flush_node j (of_nat p) data st = Inr st'" "pool_wf (j_page j) st' ((0, True) # fs)" "flushed p data st st'"
      "free_list (p_bpm st') = (free_list (p_bpm st))[0 := True]" by auto
  have sz: "pool_size (p_bpm st') = pool_size (p_bpm st)" using st'(3) by (simp add: flushed_def)
  have "free_list (p_bpm st') = (replicate (pool_size (p_bpm st)) True)[0 := True]" using st'(4) h by (simp add: holding_def)
  also have "\<dots> = replicate (pool_size (p_bpm st)) True"
    by (cases "pool_size (p_bpm st)") simp_all
  finally have "at_rest (j_page j) st'"
    using st'(2,3) fs(2) h sz by (auto simp: at_rest_def flushed_def holding_def)
  with st' show ?thesis by blast
qed

lemma holding_free:
  assumes "holding junk st p"
  shows "free_frame (free_list (p_bpm st)) 0 = Some 1"
proof -
  from assms obtain n where "pool_size (p_bpm st) = Suc (Suc n)"
    unfolding holding_def by (metis add_2_eq_Suc le_Suc_ex)
  with assms show ?thesis by (simp add: holding_def)
qed

lemma holding_flush_other:
  assumes h: "holding (j_page j) st p" and len: "length data = PAGE_SIZE"
    and q: "q < 10000" "of_nat q \<in> disk_pages st" "q mod pool_size (p_bpm st) \<noteq> p mod pool_size (p_bpm st)"
  shows "\<exists>st'. flush_node j (of_nat q) data st = Inr st' \<and> holding (j_page j) st' p \<and> flushed q data st st'"
proof -
  from h obtain fs where fs: "pool_wf (j_page j) st fs" "pinnable 1 fs []"
    unfolding holding_def using pinnable_empty pinnable_head by metis
  have "q \<noteq> p" using q(3) by auto
  then have r: "resident st q = None" "alone st q" using h q(3) by (auto simp: holding_def alone_def)
  from flush_node_absent [OF fs(1) r(1) q(1) r(2) q(2) len holding_free [OF h] fs(2)] obtain st' where
    st': "flush_node j (of_nat q) data st = Inr st'" "pool_wf (j_page j) st' [(1, True)]" "flushed q data st st'"
      "free_list (p_bpm st') = free_list (p_bpm st)" "\<forall>k. k \<noteq> 1 \<longrightarrow> frame st' k = frame st k" by blast
  have "frame st' 0 = frame st 0" using st'(5) by simp
  then have "holding (j_page j) st' p"
    using h st' \<open>q \<noteq> p\<close> by (auto simp: holding_def flushed_def)
  with st' show ?thesis by blast
qed

lemma rest_flush:
  assumes rest: "at_rest (j_page j) st" and len: "length data = PAGE_SIZE" and q: "q < 10000" "of_nat q \<in> disk_pages st"
  shows "\<exists>st'. flush_node j (of_nat q) data st = Inr st' \<and> at_rest (j_page j) st' \<and> flushed q data st st'"
proof -
  from rest_pinnable [OF rest] obtain fs fs' where
    fs: "pool_wf (j_page j) st fs" "pinnable 0 fs fs'" "fs' = [] \<or> fs' = [(1, True)]" .
  have r: "resident st q = None" "alone st q" using rest by (auto simp: at_rest_def alone_def)
  from flush_node_absent [OF fs(1) r(1) q(1) r(2) q(2) len rest_free [OF rest] fs(2)] obtain st' where
    st': "flush_node j (of_nat q) data st = Inr st'" "pool_wf (j_page j) st' ((0, True) # fs')" "flushed q data st st'"
      "free_list (p_bpm st') = free_list (p_bpm st)" by blast
  then have "at_rest (j_page j) st'" using rest fs(3) by (auto simp: at_rest_def flushed_def)
  with st' show ?thesis by blast
qed

section \<open>The metadata page\<close>

definition meta_bytes :: "Junk \<Rightarrow> BTree \<Rightarrow> bytes" where
  "meta_bytes j t =
     put 6 [max_size t] (put 7 (encode_uint32 (root_pid t)) (put 4 (encode_uint16 (node_count t))
       (put 0 (encode_uint32 (magic_num t)) (j_page j))))"

lemma meta_bytes_ok:
  assumes "length (j_page j) = PAGE_SIZE"
  shows "btree_serialize j t = Inr (meta_bytes j t)" and "length (meta_bytes j t) = PAGE_SIZE"
    and "decode_uint32 (meta_bytes j t) = Inr (magic_num t)"
    and "decode_uint16 (drop 4 (meta_bytes j t)) = Inr (node_count t)"
    and "decode_uint32 (drop 7 (meta_bytes j t)) = Inr (root_pid t)"
    and "byte_at 6 (meta_bytes j t) = Inr (max_size t)"
proof -
  have len: "length (j_page j) = 4096" using assms by (simp add: PAGE_SIZE_def)
  show "btree_serialize j t = Inr (meta_bytes j t)"
    using len by (simp add: btree_serialize_def meta_bytes_def layout_defs store_ok)
  show "length (meta_bytes j t) = PAGE_SIZE" using len by (simp add: meta_bytes_def PAGE_SIZE_def)
  have magic: "decode_uint32 (put off src buf) = decode_uint32 buf"
    if "4 \<le> off" "off + length src \<le> length buf" for off src buf
    using u32c.decode_stored_elsewhere [of off src buf 0] that by simp
  show "decode_uint32 (meta_bytes j t) = Inr (magic_num t)"
    using len u32c.decode_stored [of 0 "j_page j" "magic_num t"] by (simp add: meta_bytes_def magic)
  show "decode_uint16 (drop 4 (meta_bytes j t)) = Inr (node_count t)"
    using len by (simp add: meta_bytes_def u16c.decode_stored_elsewhere u16c.decode_stored)
  show "decode_uint32 (drop 7 (meta_bytes j t)) = Inr (root_pid t)"
    using len by (simp add: meta_bytes_def u32c.decode_stored_elsewhere u32c.decode_stored)
  show "byte_at 6 (meta_bytes j t) = Inr (max_size t)"
    using len by (simp add: meta_bytes_def byte_at_def put_nth)
qed

lemma rest_junk: "at_rest junk st \<Longrightarrow> length junk = PAGE_SIZE"
  using pool_wfD(11) by (fastforce simp: at_rest_def dm_inv_def)

lemma rest_dm: "at_rest junk st \<Longrightarrow> dm_inv (disk_manager (p_bpm st)) junk (p_files st)"
  using pool_wfD(11) by (auto simp: at_rest_def)

lemma rest_read:
  assumes "at_rest junk st" and "of_nat p \<in> disk_pages st"
  shows "read_page junk (of_nat p) (disk_manager (p_bpm st)) (p_files st) = Inr (disk_page st p, p_files st)"
    and "length (disk_page st p) = PAGE_SIZE"
  using read_page_in_file [OF rest_dm [OF assms(1)] assms(2) [unfolded disk_pages_def]] by (simp_all add: disk_page_def)

lemma deserialize_meta:
  assumes inv: "dm_inv (disk_manager (p_bpm (bt_pool t))) (j_page j) (p_files (bt_pool t))" and dp: "0 \<in> disk_pages (bt_pool t)"
    and m: "disk_page (bt_pool t) 0 = meta_bytes j u" and magic: "magic_num u = BTREE_INDEX"
  shows "btree_deserialize j t = Inr (u\<lparr>bt_pool := bt_pool t\<rparr>)"
proof -
  have junk: "length (j_page j) = PAGE_SIZE" using inv by (simp add: dm_inv_def)
  have rd: "read_page (j_page j) 0 (disk_manager (p_bpm (bt_pool t))) (p_files (bt_pool t)) = Inr (disk_page (bt_pool t) 0, p_files (bt_pool t))"
    using read_page_in_file [OF inv dp [unfolded disk_pages_def]] by (simp add: disk_page_def)
  show ?thesis
    using rd m magic meta_bytes_ok(3-6) [OF junk, of u]
    by (simp add: btree_deserialize_def Let_def BTREE_METADATA_PAGE_ID_def layout_defs)
qed

lemmas deserialize_rest = deserialize_meta [OF rest_dm]

section \<open>Nodes\<close>

lemma fetch_node_rest:
  assumes rest: "at_rest (j_page j) (bt_pool t)" and p: "p < 10000" and dp: "of_nat p \<in> disk_pages (bt_pool t)"
    and d: "deserialize (disk_page (bt_pool t) p) = Inr node"
  shows "\<exists>st. fetch_node j (of_nat p) t = Inr (node, of_nat p, t\<lparr>bt_pool := st\<rparr>) \<and> holding (j_page j) st p \<and>
    p_files st = p_files (bt_pool t) \<and> pool_size (p_bpm st) = pool_size (p_bpm (bt_pool t)) \<and>
    disk_manager (p_bpm st) = disk_manager (p_bpm (bt_pool t))"
proof -
  from rest_fetch [OF rest p dp] obtain st where
    st: "fetch_bpm_page (j_page j) (of_nat p) (bt_pool t) = Inr (0, st)" "holding (j_page j) st p"
      "bp_data (frame st 0) = disk_page (bt_pool t) p" "p_files st = p_files (bt_pool t)"
      "pool_size (p_bpm st) = pool_size (p_bpm (bt_pool t))" "disk_manager (p_bpm st) = disk_manager (p_bpm (bt_pool t))" by blast
  from st(2) obtain fs where "pool_wf (j_page j) st fs" "2 \<le> pool_size (p_bpm st)" "bp_id (frame st 0) = of_nat p"
    by (auto simp: holding_def)
  then have "page_at 0 st = Inr (frame st 0)" "bp_id (frame st 0) = of_nat p" using page_at_wf [of _ st fs 0] by simp_all
  then show ?thesis using st d by (intro exI [of _ st]) (simp add: fetch_node_def)
qed

text \<open>Page \<open>p\<close> of the disk is node \<open>n\<close>.\<close>

definition node_on_disk :: "Pool \<Rightarrow> page_id_t \<Rightarrow> BTreePage \<Rightarrow> bool" where
  "node_on_disk st p n \<longleftrightarrow> p \<in> disk_pages st \<and> deserialize (disk_page st (unat p)) = Inr n"

lemma serialized:
  assumes "node_ok n" and "node_fits n" and "length (j_page j) = PAGE_SIZE"
  obtains data where "serialize (j_page j) n = Inr data" and "length data = PAGE_SIZE" and "deserialize data = Inr n"
  using serialize_deserialize [OF assms] that by blast

lemma flushed_node:
  assumes "flushed (unat p) data st st'" and "deserialize data = Inr n"
  shows "node_on_disk st' p n"
    and "node_on_disk st q m \<Longrightarrow> q \<noteq> p \<Longrightarrow> node_on_disk st' q m"
  using assms by (auto simp: flushed_def node_on_disk_def)

text \<open>
  C27. The metadata of the tree, written through the pool, is what a tree opened later on the same file reads:
  the magic number, the number of nodes, the limit on keys and the root.
\<close>

theorem btree_metadata_round_trip:
  assumes rest: "at_rest (j_page j) (bt_pool t)" and dp: "0 \<in> disk_pages (bt_pool t)" and magic: "magic_num t = BTREE_INDEX"
  shows "\<exists>t'. persist_metadata j t = Inr t' \<and> at_rest (j_page j) (bt_pool t') \<and>
    root_pid t' = root_pid t \<and> max_size t' = max_size t \<and> node_count t' = node_count t \<and>
    btree_deserialize j (new_BTree a b c d (bt_pool t')) = Inr t'"
proof -
  note m = meta_bytes_ok [OF rest_junk [OF rest], of t]
  have "of_nat 0 \<in> disk_pages (bt_pool t)" using dp by simp
  from rest_flush [OF rest m(2) _ this] obtain st where
    st: "flush_node j 0 (meta_bytes j t) (bt_pool t) = Inr st" "at_rest (j_page j) st" "flushed 0 (meta_bytes j t) (bt_pool t) st"
    by auto
  let ?t = "t\<lparr>bt_pool := st\<rparr>"
  have "persist_metadata j t = Inr ?t" using st(1) m(1) by (simp add: persist_metadata_def BTREE_METADATA_PAGE_ID_def)
  moreover have "btree_deserialize j (new_BTree a b c d st) = Inr ?t"
    using deserialize_rest [of j "new_BTree a b c d st" t] st(2,3) dp magic by (simp add: new_BTree_def flushed_def)
  ultimately show ?thesis using st(2) by simp
qed

section \<open>A concrete tree\<close>

text \<open>An empty index file below a pool of eight frames; the tree has no root yet and takes one key per node.\<close>

definition demo_j :: Junk where
  "demo_j = \<lparr>j_page = demo_junk, j_flags = 1, j_right = 2, j_next = 3\<rparr>"

definition demo_tree :: BTree where
  "demo_tree = \<lparr>magic_num = BTREE_INDEX, max_size = 1,
     bt_pool = \<lparr>p_mem = start_mem, p_files = demo_index 0, p_bpm = new_bpm 8 demo_dm\<rparr>, root_pid = 0, node_count = 0\<rparr>"

lemma demo_tree_rest: "at_rest (j_page demo_j) (bt_pool demo_tree)"
  using new_pool_at_rest [OF start_mem_wf _ _ demo_index_ok(1), of 8 0]
  by (simp add: demo_tree_def demo_j_def demo_junk_def)

lemma demo_tree_disk:
  "0 \<in> disk_pages (bt_pool demo_tree)" "index_meta 0 (disk_page (bt_pool demo_tree) 0)"
  "decode_uint32 (drop CURR_ROOT_PID_OFFSET (disk_page (bt_pool demo_tree) 0)) = Inr 0"
proof -
  have dm: "disk_manager (new_bpm 8 demo_dm) = demo_dm" by (simp add: new_bpm_def)
  show "0 \<in> disk_pages (bt_pool demo_tree)" "index_meta 0 (disk_page (bt_pool demo_tree) 0)"
    using demo_index_ok(2,3) by (simp_all add: demo_tree_def disk_pages_def disk_page_def dm)
  let ?z = "replicate PAGE_SIZE 0 :: bytes"
  have "decode_uint32 (drop 7 ?z) = Inr 0" by (simp add: PAGE_SIZE_def replicate_Suc [symmetric] numeral_eq_Suc)
  moreover have "disk_page (bt_pool demo_tree) 0 = put 4 (encode_uint16 0) (put 0 (encode_uint32 BTREE_INDEX) ?z)"
    by (simp add: demo_tree_def disk_page_def dm page_of_def contents_def demo_index_def with_node_count_def layout_defs PAGE_SIZE_def)
  ultimately show "decode_uint32 (drop CURR_ROOT_PID_OFFSET (disk_page (bt_pool demo_tree) 0)) = Inr 0"
    by (simp add: layout_defs u32c.decode_stored_elsewhere PAGE_SIZE_def)
qed

theorem btree_metadata_round_trip_witness:
  "\<exists>t'. persist_metadata demo_j (demo_tree\<lparr>root_pid := 5, node_count := 9\<rparr>) = Inr t' \<and> root_pid t' = 5 \<and>
    btree_deserialize demo_j (new_BTree 1 2 3 4 (bt_pool t')) = Inr t'"
proof -
  let ?t = "demo_tree\<lparr>root_pid := 5, node_count := 9\<rparr>"
  have "at_rest (j_page demo_j) (bt_pool ?t)" "0 \<in> disk_pages (bt_pool ?t)" "magic_num ?t = BTREE_INDEX"
    using demo_tree_rest demo_tree_disk(1) by simp_all (simp add: demo_tree_def)
  from btree_metadata_round_trip [OF this, of 1 2 3 4] show ?thesis by auto
qed

end
