(* ===== verification/Btree_Insert.thy ===== *)
theory Btree_Insert
  imports Btree_Nodes
begin

text \<open>
  Insertion into the B+tree. A leaf with sorted keys of one length stands for the finite map \<open>leaf_map\<close> from key
  numbers to records; inserting refines the update of that map, and a split of the root keeps the entries.
\<close>

section \<open>Leaves as maps\<close>

definition records :: "BTreePage \<Rightarrow> NodeRID list" where
  "records n = (case vals n of LeafRecords rs \<Rightarrow> rs | InternalChildren _ \<Rightarrow> [])"

definition leaf_ok :: "nat \<Rightarrow> BTreePage \<Rightarrow> bool" where
  "leaf_ok L n \<longleftrightarrow>
     is_leaf n \<and> vals n = LeafRecords (records n) \<and> length (records n) = length (keys n) \<and>
     list_all (key_of_size L) (keys n) \<and> sorted (map key_num (keys n)) \<and> distinct (map key_num (keys n))"

definition leaf_map :: "BTreePage \<Rightarrow> nat \<rightharpoonup> NodeRID" where
  "leaf_map n = map_of (zip (map key_num (keys n)) (records n))"

text \<open>\<open>k\<close> pairs with keys of \<open>L\<close> bytes, their pointers and the header fit a page.\<close>

definition leaf_fits :: "nat \<Rightarrow> nat \<Rightarrow> bool" where
  "leaf_fits L k \<longleftrightarrow> 26 + k * (L + 13) \<le> 4096"

lemma leaf_fits_mono: "leaf_fits L m \<Longrightarrow> k \<le> m \<Longrightarrow> leaf_fits L k"
  unfolding leaf_fits_def by (rule order_trans [OF add_left_mono [OF mult_le_mono1]])

lemma leaf_node_ok:
  assumes "leaf_ok L n" and "0 < L"
  shows "node_ok n"
proof -
  have "key_length k \<noteq> 0 \<and> length (key_data k) = unat (key_length k)" if "key_of_size L k" for k
    using that assms(2) by (auto simp: key_of_size_def)
  then have "list_all (\<lambda>k. key_length k \<noteq> 0 \<and> length (key_data k) = unat (key_length k)) (keys n)"
    using assms(1) by (auto simp: leaf_ok_def list_all_iff)
  moreover obtain rs where rs: "vals n = LeafRecords rs" using assms(1) by (auto simp: leaf_ok_def)
  moreover have "is_leaf n" "length rs = length (keys n)" using assms(1) rs by (simp_all add: leaf_ok_def records_def)
  ultimately show ?thesis by (simp add: node_ok_def)
qed

lemma leaf_pairs_length:
  assumes "leaf_ok L n" and "k \<le> length (keys n)"
  shows "length (pairs n k) = k * (L + 9)"
  using assms(2)
proof (induction k)
  case (Suc k)
  obtain rs where rs: "vals n = LeafRecords rs" using assms(1) by (auto simp: leaf_ok_def)
  have "key_of_size L (keys n ! k)" using assms(1) Suc.prems by (simp add: leaf_ok_def list_all_length)
  then have "length (kv n k) = L + 9" using rs by (simp add: kv_def vb_def key_of_size_def)
  then show ?case using Suc by (simp add: pairs_Suc)
qed (simp add: pairs_def)

lemma leaf_node_fits:
  assumes "leaf_ok L n" and "leaf_fits L (length (keys n))"
  shows "node_fits n"
  using assms(2) leaf_pairs_length [OF assms(1) le_refl]
  by (simp add: node_fits_def leaf_fits_def layout_defs algebra_simps)

lemma has_key_mem:
  assumes "list_all (key_of_size L) ks" and "key_of_size L key"
  shows "has_key key ks = Inr (key_num key \<in> key_num ` set ks)"
  using assms(1)
proof (induction ks)
  case (Cons k ks)
  then show ?case using cmpKeys_num [of L k key] assms(2) by auto
qed simp

lemma map_of_ins:
  assumes "length ks = length vs" and "i \<le> length ks" and "x \<notin> set ks"
  shows "map_of (zip (ins i x ks) (ins i v vs)) = (map_of (zip ks vs))(x \<mapsto> v)"
proof -
  let ?a = "zip (take i ks) (take i vs)" and ?b = "zip (drop i ks) (drop i vs)"
  have z: "zip (ins i x ks) (ins i v vs) = ?a @ (x, v) # ?b"
    using assms(1,2) by (simp add: ins_def)
  have "zip ks vs = zip (take i ks @ drop i ks) (take i vs @ drop i vs)" by simp
  also have "\<dots> = ?a @ ?b" using assms(1,2) by (subst zip_append) simp_all
  finally have ab: "zip ks vs = ?a @ ?b" .
  have "x \<notin> fst ` set ?a" using assms(3) by (auto dest!: set_zip_leftD in_set_takeD)
  then have "map_of ?a x = None" by (simp add: map_of_eq_None_iff)
  then show ?thesis unfolding z ab by (intro ext) (auto simp: map_add_def split: option.splits)
qed

lemma insert_leaf:
  assumes ok: "leaf_ok L n" and key: "key_of_size L key" "key_num key \<notin> key_num ` set (keys n)"
    and len: "length (keys n) < 65535"
  shows "\<exists>n'. insertIntoNode_RID key val n = Inr n' \<and> leaf_ok L n' \<and> leaf_map n' = (leaf_map n)(key_num key \<mapsto> val) \<and>
    length (keys n') = Suc (length (keys n)) \<and> next_pid n' = next_pid n"
proof -
  let ?d = "\<lparr>n_pid = 0, n_slot_num = 0\<rparr> :: NodeRID"
  have h: "list_all (key_of_size L) (keys n)" "length (records n) = length (keys n)" "sorted (map key_num (keys n))"
    "vals n = LeafRecords (records n)" "is_leaf n" "distinct (map key_num (keys n))"
    using ok by (simp_all add: leaf_ok_def)
  from insert_kv_sorted [OF h(1) key(1) h(2) len h(3), of ?d val] obtain i where
    i: "i \<le> length (keys n)" "insert_kv ?d key val (keys n) (records n) = Inr (ins i key (keys n), ins i val (records n))"
      "sorted (map key_num (ins i key (keys n)))" by blast
  let ?n = "n\<lparr>keys := ins i key (keys n), vals := LeafRecords (ins i val (records n))\<rparr>"
  have run: "insertIntoNode_RID key val n = Inr ?n"
    unfolding insertIntoNode_RID_def h(4) LEAF_RECORDS.simps and_then_simps i(2) by simp
  have rec: "records ?n = ins i val (records n)" by (simp add: records_def)
  have "list_all (key_of_size L) (ins i key (keys n))"
    using h(1) key(1) by (auto simp: ins_def list_all_iff dest: in_set_takeD in_set_dropD)
  moreover have "distinct (ins i (key_num key) (map key_num (keys n)))"
    using h(6) key(2) set_take_disj_set_drop_if_distinct [OF h(6) le_refl, of i]
    by (auto simp: ins_def dest: in_set_takeD in_set_dropD)
  ultimately have "leaf_ok L ?n"
    unfolding leaf_ok_def rec using h(2,5) i(1,3) by (simp add: map_ins) (simp add: ins_def)
  moreover have "leaf_map ?n = (leaf_map n)(key_num key \<mapsto> val)"
    unfolding leaf_map_def rec using map_of_ins [of "map key_num (keys n)" "records n" i "key_num key" val] h(2) i(1) key(2)
    by (simp add: map_ins)
  moreover have "length (keys ?n) = Suc (length (keys n))" using i(1) by (simp add: ins_def)
  ultimately show ?thesis using run by simp
qed

section \<open>A tree of one leaf\<close>

definition leaf_tree :: "nat \<Rightarrow> Junk \<Rightarrow> BTree \<Rightarrow> BTreePage \<Rightarrow> bool" where
  "leaf_tree L j t n \<longleftrightarrow>
     at_rest (j_page j) (bt_pool t) \<and> root_pid t \<noteq> 0 \<and> unat (root_pid t) < 10000 \<and>
     node_on_disk (bt_pool t) (root_pid t) n \<and> leaf_ok L n \<and> 0 < L"

lemma same_disk:
  assumes "p_files st' = p_files st" and "disk_manager (p_bpm st') = disk_manager (p_bpm st)"
  shows "disk_page st' p = disk_page st p" and "disk_pages st' = disk_pages st"
    and "node_on_disk st' q n = node_on_disk st q n"
  using assms by (simp_all add: disk_page_def disk_pages_def node_on_disk_def)

lemma find_root_leaf:
  assumes "leaf_tree L j t n"
  shows "\<exists>st. findLeaf fuel j key [] t = Inr (n, [], root_pid t, t\<lparr>bt_pool := st\<rparr>) \<and>
    holding (j_page j) st (unat (root_pid t)) \<and> p_files st = p_files (bt_pool t) \<and>
    pool_size (p_bpm st) = pool_size (p_bpm (bt_pool t)) \<and> disk_manager (p_bpm st) = disk_manager (p_bpm (bt_pool t))"
proof -
  have h: "at_rest (j_page j) (bt_pool t)" "unat (root_pid t) < 10000" "of_nat (unat (root_pid t)) \<in> disk_pages (bt_pool t)"
    "deserialize (disk_page (bt_pool t) (unat (root_pid t))) = Inr n" "is_leaf n"
    using assms by (simp_all add: leaf_tree_def node_on_disk_def leaf_ok_def)
  from fetch_node_rest [OF h(1-4)] obtain st where
    st: "fetch_node j (root_pid t) t = Inr (n, root_pid t, t\<lparr>bt_pool := st\<rparr>)" "holding (j_page j) st (unat (root_pid t))"
      "p_files st = p_files (bt_pool t)" "pool_size (p_bpm st) = pool_size (p_bpm (bt_pool t))"
      "disk_manager (p_bpm st) = disk_manager (p_bpm (bt_pool t))" by auto
  have "findLeaf_loop fuel j key n (root_pid t) [] t' = Inr (n, [], root_pid t, t')" for t'
    using h(5) by (cases fuel) simp_all
  then show ?thesis using st by (intro exI [of _ st]) (simp add: findLeaf_def)
qed

lemma insert_leaf_tree:
  assumes t: "leaf_tree L j t n" and key: "key_of_size L key" "key_num key \<notin> dom (leaf_map n)"
    and room: "length (keys n) < unat (max_size t)" "leaf_fits L (Suc (length (keys n)))"
  shows "\<exists>t' n'. btree_insert fuel j key val t = Inr (root_pid t, t') \<and> leaf_tree L j t' n' \<and>
    leaf_map n' = (leaf_map n)(key_num key \<mapsto> val) \<and> length (keys n') = Suc (length (keys n)) \<and>
    t' = t\<lparr>bt_pool := bt_pool t'\<rparr> \<and> pool_size (p_bpm (bt_pool t')) = pool_size (p_bpm (bt_pool t)) \<and>
    disk_pages (bt_pool t) \<subseteq> disk_pages (bt_pool t') \<and>
    (\<forall>q. of_nat q \<in> disk_pages (bt_pool t) \<longrightarrow> of_nat q \<noteq> root_pid t \<longrightarrow> disk_page (bt_pool t') q = disk_page (bt_pool t) q)"
proof -
  have h: "root_pid t \<noteq> 0" "leaf_ok L n" "0 < L" "at_rest (j_page j) (bt_pool t)" using t by (simp_all add: leaf_tree_def)
  have lens: "length (keys n) = length (records n)" "list_all (key_of_size L) (keys n)" using h(2) by (simp_all add: leaf_ok_def)
  then have fresh: "key_num key \<notin> key_num ` set (keys n)" using key(2) by (simp add: leaf_map_def dom_map_of_zip)
  from find_root_leaf [OF t, of fuel key] obtain st where
    st: "findLeaf fuel j key [] t = Inr (n, [], root_pid t, t\<lparr>bt_pool := st\<rparr>)" "holding (j_page j) st (unat (root_pid t))"
      "p_files st = p_files (bt_pool t)" "disk_manager (p_bpm st) = disk_manager (p_bpm (bt_pool t))"
      "pool_size (p_bpm st) = pool_size (p_bpm (bt_pool t))" by blast
  have "length (keys n) < 65535" using room(1) unat_bounds(1) [of "max_size t"] by simp
  from insert_leaf [OF h(2) key(1) fresh this, of val] obtain n' where
    n': "insertIntoNode_RID key val n = Inr n'" "leaf_ok L n'" "leaf_map n' = (leaf_map n)(key_num key \<mapsto> val)"
      "length (keys n') = Suc (length (keys n))" by blast
  have "node_ok n'" "node_fits n'" using leaf_node_ok [OF n'(2) h(3)] leaf_node_fits [OF n'(2)] n'(4) room(2) by simp_all
  from serialized [OF this rest_junk [OF h(4)]] obtain data where
    d: "serialize (j_page j) n' = Inr data" "length data = PAGE_SIZE" "deserialize data = Inr n'" .
  from holding_flush [OF st(2) d(2)] obtain st' where
    st': "flush_node j (root_pid t) data st = Inr st'" "at_rest (j_page j) st'" "flushed (unat (root_pid t)) data st st'" by auto
  let ?t = "t\<lparr>bt_pool := st'\<rparr>"
  have run: "btree_insert fuel j key val t = Inr (root_pid t, ?t)"
    using h(1) st(1) has_key_mem [OF lens(2) key(1)] fresh n'(1,4) room(1) d(1) st'(1)
    by (simp add: btree_insert_def BTREE_METADATA_PAGE_ID_def persist_def)
  have "node_on_disk st' (root_pid t) n'" using flushed_node(1) [OF st'(3) d(3)] .
  then have "leaf_tree L j ?t n'" using t n'(2) st'(2) by (simp add: leaf_tree_def)
  moreover have "disk_pages (bt_pool t) \<subseteq> disk_pages st'"
    "\<forall>q. of_nat q \<in> disk_pages (bt_pool t) \<longrightarrow> of_nat q \<noteq> root_pid t \<longrightarrow> disk_page st' q = disk_page (bt_pool t) q"
    using st'(3) same_disk [OF st(3,4)] by (auto simp: flushed_def)
  moreover have "pool_size (p_bpm st') = pool_size (p_bpm (bt_pool t))" using st'(3) st(5) by (simp add: flushed_def)
  ultimately show ?thesis using run n' by (intro exI [of _ ?t] exI [of _ n']) simp
qed

section \<open>Allocating a node\<close>

lemma rest_files:
  assumes "at_rest junk st" and "dm_inv (disk_manager (p_bpm st)) junk files"
  shows "at_rest junk (st\<lparr>p_files := files\<rparr>)"
  using assms by (auto simp: at_rest_def pool_wf_def Let_def resident_def)

lemma holding_files:
  assumes "holding junk st p" and "dm_inv (disk_manager (p_bpm st)) junk files"
  shows "holding junk (st\<lparr>p_files := files\<rparr>) p"
  using assms by (auto simp: holding_def pool_wf_def Let_def resident_def frame_def)

text \<open>What the disk is after a node was allocated in a pool whose metadata counts \<open>k\<close> nodes.\<close>

definition allocated :: "u16 \<Rightarrow> bool \<Rightarrow> Pool \<Rightarrow> Pool \<Rightarrow> bool" where
  "allocated k leaf st st' \<longleftrightarrow>
     insert 0 (insert (ucast (k + 1)) (disk_pages st)) \<subseteq> disk_pages st' \<and>
     disk_page st' 0 = with_node_count (k + 1) (disk_page st 0) \<and> index_meta (k + 1) (disk_page st' 0) \<and>
     disk_page st' (unat (k + 1)) = blank_node leaf \<and>
     (\<forall>q. of_nat q \<in> disk_pages st \<longrightarrow> (of_nat q :: page_id_t) \<noteq> 0 \<longrightarrow> (of_nat q :: page_id_t) \<noteq> ucast (k + 1) \<longrightarrow>
       disk_page st' q = disk_page st q)"

lemma ucast_of_nat_unat: "(of_nat (unat (h :: u16)) :: u32) = ucast h"
  by (simp add: word_unat_eq_iff unat_ucast_wider unat_of_nat unsigned_less [THEN order.strict_trans])

lemma new_index_node_ok:
  assumes inv: "dm_inv (disk_manager (p_bpm (bt_pool t))) (j_page j) (p_files (bt_pool t))"
    and meta: "0 \<in> disk_pages (bt_pool t)" "index_meta k (disk_page (bt_pool t) 0)" and k: "k \<noteq> 65535"
  shows "\<exists>files. new_index_node j leaf t = Inr (ucast (k + 1), t\<lparr>bt_pool := (bt_pool t)\<lparr>p_files := files\<rparr>\<rparr>) \<and>
    dm_inv (disk_manager (p_bpm (bt_pool t))) (j_page j) files \<and>
    allocated k leaf (bt_pool t) ((bt_pool t)\<lparr>p_files := files\<rparr>)"
proof -
  let ?dm = "disk_manager (p_bpm (bt_pool t))" and ?new = "ucast (k + 1) :: page_id_t"
  have m: "0 \<in> dm_pages ?dm (p_files (bt_pool t))" "index_meta k (page_of 0 ?dm (p_files (bt_pool t)))"
    using meta by (simp_all add: disk_pages_def disk_page_def)
  from index_page_allocated [OF inv m k, of leaf] obtain files where
    f: "new_btree_index_page (j_page j) ?dm leaf (p_files (bt_pool t)) = Inr (?new, files)" "dm_inv ?dm (j_page j) files"
      "insert 0 (insert ?new (dm_pages ?dm (p_files (bt_pool t)))) \<subseteq> dm_pages ?dm files"
      "page_of 0 ?dm files = with_node_count (k + 1) (page_of 0 ?dm (p_files (bt_pool t)))"
      "page_of ?new ?dm files = blank_node leaf"
      "\<forall>q \<in> dm_pages ?dm (p_files (bt_pool t)). q \<noteq> 0 \<and> q \<noteq> ?new \<longrightarrow> page_of q ?dm files = page_of q ?dm (p_files (bt_pool t))"
    by blast
  have "allocated k leaf (bt_pool t) ((bt_pool t)\<lparr>p_files := files\<rparr>)"
    using f(3-6) index_meta_with_node_count [OF m(2)]
    by (simp add: allocated_def disk_pages_def disk_page_def ucast_of_nat_unat)
  with f(1,2) show ?thesis by (intro exI [of _ files]) (simp add: new_index_node_def Let_def)
qed

lemma deserialize_fields:
  assumes rest: "at_rest (j_page j) (bt_pool t)" and meta: "0 \<in> disk_pages (bt_pool t)" "index_meta k (disk_page (bt_pool t) 0)"
    and root: "decode_uint32 (drop CURR_ROOT_PID_OFFSET (disk_page (bt_pool t) 0)) = Inr r"
  shows "\<exists>u. btree_deserialize j t = Inr u \<and> root_pid u = r \<and> node_count u = k"
proof -
  have "of_nat 0 \<in> disk_pages (bt_pool t)" using meta(1) by simp
  note rd = rest_read [OF rest this]
  have "byte_at MAX_KEYSIZE_OFFSET (disk_page (bt_pool t) 0) = Inr (disk_page (bt_pool t) 0 ! 6)"
    using rd(2) by (simp add: byte_at_def layout_defs)
  then show ?thesis
    using rd(1) meta(2) root by (simp add: btree_deserialize_def Let_def BTREE_METADATA_PAGE_ID_def index_meta_def)
qed

text \<open>
  Inserting into a tree of one leaf refines the update of a finite map. For a key of the tree's key length
  that is not there yet, in a leaf with fewer keys than the limit and with room on the page, \<^verbatim>\<open>insert\<close> returns the
  page of the leaf, and the leaf on disk stands for the old map with the new entry, sorted; the pool is at rest
  again, and the tree is again a tree of one leaf.
\<close>

lemma insert_refines_map_update:
  assumes "leaf_tree L j t n" and "key_of_size L key" and "key_num key \<notin> dom (leaf_map n)"
    and "length (keys n) < unat (max_size t)" and "leaf_fits L (Suc (length (keys n)))"
  shows "\<exists>t' n'. btree_insert fuel j key val t = Inr (root_pid t, t') \<and> leaf_tree L j t' n' \<and>
    leaf_map n' = (leaf_map n)(key_num key \<mapsto> val) \<and> root_pid t' = root_pid t \<and> max_size t' = max_size t \<and>
    (\<forall>q. of_nat q \<in> disk_pages (bt_pool t) \<longrightarrow> of_nat q \<noteq> root_pid t \<longrightarrow> disk_page (bt_pool t') q = disk_page (bt_pool t) q)"
proof -
  from insert_leaf_tree [OF assms, of fuel val] obtain t' n' where
    t': "btree_insert fuel j key val t = Inr (root_pid t, t')" "leaf_tree L j t' n'"
      "leaf_map n' = (leaf_map n)(key_num key \<mapsto> val)" "t' = t\<lparr>bt_pool := bt_pool t'\<rparr>"
      "\<forall>q. of_nat q \<in> disk_pages (bt_pool t) \<longrightarrow> of_nat q \<noteq> root_pid t \<longrightarrow> disk_page (bt_pool t') q = disk_page (bt_pool t) q"
    by blast
  from arg_cong [OF t'(4), of root_pid] arg_cong [OF t'(4), of max_size] have "root_pid t' = root_pid t" "max_size t' = max_size t"
    by simp_all
  with t' show ?thesis by blast
qed

text \<open>
  Keys of different lengths. A key that starts with one of the leaf's keys and is longer is not the same key, as
  \<^verbatim>\<open>operator==\<close> says, but \<^verbatim>\<open>cmpKeys\<close> finds them equal: \<^verbatim>\<open>insert\<close> takes it for a duplicate, returns 0 and stores
  nothing.
\<close>

lemma memcmp_defined: "n \<le> length a \<Longrightarrow> n \<le> length b \<Longrightarrow> \<exists>c. memcmp n a b = Inr c"
  by (induction n a b rule: memcmp.induct) simp_all

lemma has_key_prefix:
  assumes "list_all (key_of_size L) ks" and "k \<in> set ks" and "key_data key = key_data k @ rest"
    and "unat (key_length key) = length (key_data key)"
  shows "has_key key ks = Inr True"
  using assms(1,2)
proof (induction ks)
  case (Cons x xs)
  have sz: "key_of_size L k" using Cons.prems by (auto simp: list_all_iff)
  show ?case
  proof (cases "x = k")
    case True
    have "cmpKeys k key = Inr 0" using sz assms(3,4) by (intro cmpKeys_prefix) (auto simp: key_of_size_def)
    with True show ?thesis by simp
  next
    case False
    have "\<exists>c. cmpKeys x key = Inr c"
      unfolding cmpKeys_def using Cons.prems(1) assms(4) by (intro memcmp_defined) (simp_all add: key_of_size_def)
    then obtain c where "cmpKeys x key = Inr c" by blast
    with False Cons show ?thesis by simp
  qed
qed simp

lemma longer_key_refused:
  assumes t: "leaf_tree L j t n" and k: "k \<in> set (keys n)" and key: "key_data key = key_data k @ rest" "rest \<noteq> []"
    "unat (key_length key) = length (key_data key)"
  shows "key_eq k key = Inr False \<and> (\<exists>t'. btree_insert fuel j key val t = Inr (0, t') \<and> node_on_disk (bt_pool t') (root_pid t) n)"
proof
  have h: "root_pid t \<noteq> 0" "list_all (key_of_size L) (keys n)" "node_on_disk (bt_pool t) (root_pid t) n"
    using t by (simp_all add: leaf_tree_def leaf_ok_def)
  have "key_of_size L k" using h(2) k by (simp add: list_all_iff)
  then have "unat (key_length k) \<noteq> unat (key_length key)" using key by (simp add: key_of_size_def)
  then show "key_eq k key = Inr False" by (auto simp: key_eq_def)
  from find_root_leaf [OF t, of fuel key] obtain st where
    st: "findLeaf fuel j key [] t = Inr (n, [], root_pid t, t\<lparr>bt_pool := st\<rparr>)" "p_files st = p_files (bt_pool t)"
      "disk_manager (p_bpm st) = disk_manager (p_bpm (bt_pool t))" by blast
  have "btree_insert fuel j key val t = Inr (0, t\<lparr>bt_pool := st\<rparr>)"
    using h(1) st(1) has_key_prefix [OF h(2) k key(1,3)] by (simp add: btree_insert_def BTREE_METADATA_PAGE_ID_def)
  then show "\<exists>t'. btree_insert fuel j key val t = Inr (0, t') \<and> node_on_disk (bt_pool t') (root_pid t) n"
    using h(3) same_disk(3) [OF st(2,3)] by (intro exI [of _ "t\<lparr>bt_pool := st\<rparr>"]) simp
qed

lemma first_insert:
  assumes rest: "at_rest (j_page j) (bt_pool t)" and root: "root_pid t = 0"
    and meta: "0 \<in> disk_pages (bt_pool t)" "index_meta k (disk_page (bt_pool t) 0)" "unat k + 1 < 10000"
    and key: "key_of_size L key" "0 < L" "leaf_fits L 1" and max: "0 < unat (max_size t)"
  shows "\<exists>t' n'. btree_insert fuel j key val t = Inr (ucast (k + 1), t') \<and> root_pid t' = ucast (k + 1) \<and>
    leaf_tree L j t' n' \<and> leaf_map n' = [key_num key \<mapsto> val] \<and> length (keys n') = 1 \<and>
    magic_num t' = magic_num t \<and> max_size t' = max_size t \<and>
    pool_size (p_bpm (bt_pool t')) = pool_size (p_bpm (bt_pool t)) \<and>
    0 \<in> disk_pages (bt_pool t') \<and> disk_page (bt_pool t') 0 = with_node_count (k + 1) (disk_page (bt_pool t) 0) \<and>
    node_count t' = node_count t + 1"
proof -
  let ?p = "ucast (k + 1) :: page_id_t"
  have kk: "k \<noteq> 65535" using meta(3) by auto
  have up: "unat ?p = unat k + 1" "unat (k + 1) = unat k + 1"
    using meta(3) by (simp_all add: unat_ucast_wider unat_word_ariths)
  then have p: "?p \<noteq> 0" by auto
  from new_index_node_ok [OF rest_dm [OF rest] meta(1,2) kk, of True] obtain files where
    f: "new_index_node j True t = Inr (?p, t\<lparr>bt_pool := (bt_pool t)\<lparr>p_files := files\<rparr>\<rparr>)"
      "dm_inv (disk_manager (p_bpm (bt_pool t))) (j_page j) files"
      "allocated k True (bt_pool t) ((bt_pool t)\<lparr>p_files := files\<rparr>)" by blast
  let ?st = "(bt_pool t)\<lparr>p_files := files\<rparr>"
  let ?t = "t\<lparr>bt_pool := ?st, root_pid := ?p, node_count := node_count t + 1\<rparr>"
  let ?n = "\<lparr>is_leaf = True, keys = [], flags = 0, rightmost_ptr = 0, next_pid = 0, vals = LeafRecords []\<rparr>"
  have "disk_page ?st (unat ?p) = blank_node True" using f(3) up by (simp add: allocated_def)
  then have "node_on_disk ?st ?p ?n"
    using f(3) blank_leaf by (simp add: node_on_disk_def allocated_def)
  then have lt: "leaf_tree L j ?t ?n"
    using rest_files [OF rest f(2)] p up(1) meta(3) key(2) by (simp add: leaf_tree_def leaf_ok_def records_def)
  have same: "btree_insert fuel j key val t = btree_insert fuel j key val ?t"
    using root f(1) p by (simp add: btree_insert_def BTREE_METADATA_PAGE_ID_def)
  have "key_num key \<notin> dom (leaf_map ?n)" "length (keys ?n) < unat (max_size ?t)" "leaf_fits L (Suc (length (keys ?n)))"
    using max key(3) by (simp_all add: leaf_map_def)
  from insert_leaf_tree [OF lt key(1) this, of fuel val] obtain t' n' where
    t': "btree_insert fuel j key val ?t = Inr (?p, t')" "leaf_tree L j t' n'" "leaf_map n' = (leaf_map ?n)(key_num key \<mapsto> val)"
      "length (keys n') = Suc (length (keys ?n))" "t' = ?t\<lparr>bt_pool := bt_pool t'\<rparr>"
      "pool_size (p_bpm (bt_pool t')) = pool_size (p_bpm ?st)" "disk_pages ?st \<subseteq> disk_pages (bt_pool t')"
      "\<forall>q. of_nat q \<in> disk_pages ?st \<longrightarrow> of_nat q \<noteq> ?p \<longrightarrow> disk_page (bt_pool t') q = disk_page ?st q" by auto
  have z: "0 \<in> disk_pages ?st" using f(3) by (simp add: allocated_def)
  then have "disk_page (bt_pool t') 0 = with_node_count (k + 1) (disk_page (bt_pool t) 0)"
    using t'(8) [rule_format, of 0] p f(3) by (simp add: allocated_def)
  moreover have "root_pid t' = ?p" "magic_num t' = magic_num t" "max_size t' = max_size t" "node_count t' = node_count t + 1"
    using arg_cong [OF t'(5), of root_pid] arg_cong [OF t'(5), of magic_num] arg_cong [OF t'(5), of max_size]
      arg_cong [OF t'(5), of node_count] by simp_all
  ultimately show ?thesis using same t' z by (auto simp: leaf_map_def)
qed

text \<open>
  C36. The first insertion into an index without a root allocates page \<open>n + 1\<close> as a leaf and stores the entry
  there. The metadata page on disk still names no root: a tree opened on the same file afterwards has root 0, so
  the entry is lost.
\<close>

theorem first_insert_loses_root_on_reopen:
  assumes "at_rest (j_page j) (bt_pool t)" and "root_pid t = 0"
    and meta: "0 \<in> disk_pages (bt_pool t)" "index_meta k (disk_page (bt_pool t) 0)" "unat k + 1 < 10000"
    and root: "decode_uint32 (drop CURR_ROOT_PID_OFFSET (disk_page (bt_pool t) 0)) = Inr 0"
    and "key_of_size L key" and "0 < L" and "leaf_fits L 1" and "0 < unat (max_size t)"
  shows "\<exists>t' n'. btree_insert fuel j key val t = Inr (ucast (k + 1), t') \<and> root_pid t' = ucast (k + 1) \<and>
    leaf_tree L j t' n' \<and> leaf_map n' = [key_num key \<mapsto> val] \<and>
    (\<exists>u. btree_deserialize j (new_BTree a b c d (bt_pool t')) = Inr u \<and> root_pid u = 0)"
proof -
  from first_insert [OF assms(1-5,7-10), of fuel val] obtain t' n' where
    t': "btree_insert fuel j key val t = Inr (ucast (k + 1), t')" "root_pid t' = ucast (k + 1)" "leaf_tree L j t' n'"
      "leaf_map n' = [key_num key \<mapsto> val]" "0 \<in> disk_pages (bt_pool t')"
      "disk_page (bt_pool t') 0 = with_node_count (k + 1) (disk_page (bt_pool t) 0)" by blast
  have len: "length (disk_page (bt_pool t) 0) = 4096" using meta(2) by (simp add: index_meta_def PAGE_SIZE_def)
  have "decode_uint32 (drop CURR_ROOT_PID_OFFSET (disk_page (bt_pool t') 0)) = Inr 0"
    using root len by (simp add: t'(6) with_node_count_def layout_defs u32c.decode_stored_elsewhere)
  moreover have "index_meta (k + 1) (disk_page (bt_pool t') 0)" using index_meta_with_node_count [OF meta(2)] by (simp add: t'(6))
  moreover have "at_rest (j_page j) (bt_pool t')" using t'(3) by (simp add: leaf_tree_def)
  ultimately have "\<exists>u. btree_deserialize j (new_BTree a b c d (bt_pool t')) = Inr u \<and> root_pid u = 0"
    using deserialize_fields [of j "new_BTree a b c d (bt_pool t')" "k + 1" 0] t'(5) by (auto simp: new_BTree_def)
  then show ?thesis using t' by blast
qed

section \<open>Witnesses\<close>

definition demo_key :: "u8 \<Rightarrow> BTreeKey" where
  "demo_key b = \<lparr>key_data = [b], key_length = 1\<rparr>"

definition demo_rid :: NodeRID where
  "demo_rid = \<lparr>n_pid = 2, n_slot_num = 0\<rparr>"

lemma demo_key_ok: "key_of_size 1 (demo_key b)" "key_num (demo_key b) = unat b"
  by (simp_all add: demo_key_def key_of_size_def key_num_def)

lemma demo_fits: "k \<le> 200 \<Longrightarrow> leaf_fits 1 k"
  by (simp add: leaf_fits_def)

text \<open>The index with one entry, for a limit of \<open>m\<close> keys.\<close>

lemma demo_leaf_tree:
  assumes "0 < unat m"
  shows "\<exists>t n. btree_insert 0 demo_j (demo_key 5) demo_rid (demo_tree\<lparr>max_size := m\<rparr>) = Inr (1, t) \<and>
    leaf_tree 1 demo_j t n \<and> leaf_map n = [5 \<mapsto> demo_rid] \<and> length (keys n) = 1 \<and> root_pid t = 1 \<and>
    magic_num t = BTREE_INDEX \<and> max_size t = m \<and> pool_size (p_bpm (bt_pool t)) = 8 \<and>
    0 \<in> disk_pages (bt_pool t) \<and> index_meta 1 (disk_page (bt_pool t) 0) \<and> node_count t = 1"
proof -
  let ?t = "demo_tree\<lparr>max_size := m\<rparr>"
  have f: "root_pid ?t = 0" "magic_num ?t = BTREE_INDEX" "max_size ?t = m" "pool_size (p_bpm (bt_pool ?t)) = 8"
    "node_count ?t = 0" by (simp_all add: demo_tree_def new_bpm_def)
  have h: "at_rest (j_page demo_j) (bt_pool ?t)" "0 \<in> disk_pages (bt_pool ?t)" "index_meta 0 (disk_page (bt_pool ?t) 0)"
    using demo_tree_rest demo_tree_disk by simp_all
  have one: "(ucast (0 + 1 :: u16) :: page_id_t) = 1" by simp
  have "unat (0 :: u16) + 1 < 10000" "leaf_fits 1 1" "0 < unat (max_size ?t)" using assms f(3) demo_fits by simp_all
  from first_insert [OF h(1) f(1) h(2,3) this(1) demo_key_ok(1) _ this(2,3), of 0 5 demo_rid] obtain t n where
    t: "btree_insert 0 demo_j (demo_key 5) demo_rid ?t = Inr (1, t)" "root_pid t = 1" "leaf_tree 1 demo_j t n"
      "leaf_map n = [key_num (demo_key 5) \<mapsto> demo_rid]" "length (keys n) = 1" "magic_num t = magic_num ?t"
      "max_size t = max_size ?t" "pool_size (p_bpm (bt_pool t)) = pool_size (p_bpm (bt_pool ?t))" "0 \<in> disk_pages (bt_pool t)"
      "disk_page (bt_pool t) 0 = with_node_count (0 + 1) (disk_page (bt_pool ?t) 0)" "node_count t = node_count ?t + 1"
    unfolding one by auto
  have "index_meta 1 (disk_page (bt_pool t) 0)" using index_meta_with_node_count [OF h(3), of 1] t(10) by simp
  with t f show ?thesis by (intro exI [of _ t] exI [of _ n]) (simp add: demo_key_ok)
qed

theorem first_insert_loses_root_on_reopen_witness:
  "\<exists>t u. btree_insert 0 demo_j (demo_key 5) demo_rid demo_tree = Inr (1, t) \<and> root_pid t = 1 \<and>
    btree_deserialize demo_j (new_BTree 0 0 0 0 (bt_pool t)) = Inr u \<and> root_pid u = 0"
proof -
  have f: "root_pid demo_tree = 0" "max_size demo_tree = 1" by (simp_all add: demo_tree_def)
  have one: "(ucast (0 + 1 :: u16) :: page_id_t) = 1" by simp
  have "unat (0 :: u16) + 1 < 10000" "leaf_fits 1 1" "0 < unat (max_size demo_tree)" using f(2) demo_fits by simp_all
  from first_insert_loses_root_on_reopen [OF demo_tree_rest f(1) demo_tree_disk(1,2) this(1) demo_tree_disk(3)
      demo_key_ok(1) _ this(2,3), of 0 5 demo_rid 0 0 0 0]
  show ?thesis unfolding one by auto
qed

end
