(* ===== verification/Btree_Split.thy ===== *)
theory Btree_Split
  imports Btree_Insert
begin

text \<open>
  Splitting the root leaf, and what the search for a leaf does in a tree of two levels.
\<close>

section \<open>The two halves of a leaf\<close>

definition left_half :: "BTreePage \<Rightarrow> page_id_t \<Rightarrow> BTreePage" where
  "left_half n right =
     n\<lparr>keys := take (length (keys n) div 2) (keys n), vals := LeafRecords (take (length (keys n) div 2) (records n)),
       next_pid := right\<rparr>"

definition right_half :: "Junk \<Rightarrow> BTreePage \<Rightarrow> BTreePage" where
  "right_half j n =
     (fresh_node j True)\<lparr>keys := drop (length (keys n) div 2) (keys n),
       vals := LeafRecords (drop (length (keys n) div 2) (records n))\<rparr>"

lemma redistribute_leaf:
  assumes "leaf_ok L n"
  shows "redistribute_kv True (fresh_node j True) n =
    Inr (right_half j n, n\<lparr>keys := take (length (keys n) div 2) (keys n),
      vals := LeafRecords (take (length (keys n) div 2) (records n))\<rparr>)"
proof -
  have h: "vals n = LeafRecords (records n)" "length (records n) = length (keys n)" using assms by (simp_all add: leaf_ok_def)
  have leaf: "is_leaf (fresh_node j True)" by (simp add: fresh_node_def new_BTreePage_def)
  have "LEAF_RECORDS (vals n) = Inr (records n)" by (metis h(1) LEAF_RECORDS.simps(1))
  then show ?thesis
    using h(2) leaf by (simp add: redistribute_kv_def redistribute_kv_RID_def vec_second_half_def vec_first_half_def Let_def right_half_def)
qed

lemma half_leaves:
  assumes ok: "leaf_ok L n"
  shows "leaf_ok L (left_half n right)" and "leaf_ok L (right_half j n)"
    and "length (keys (left_half n right)) \<le> length (keys n)" and "length (keys (right_half j n)) \<le> length (keys n)"
    and "leaf_map (right_half j n) ++ leaf_map (left_half n right) = leaf_map n"
proof -
  let ?h = "length (keys n) div 2" and ?ks = "map key_num (keys n)"
  have h: "length (records n) = length (keys n)" "list_all (key_of_size L) (keys n)" "sorted ?ks" "distinct ?ks" "is_leaf n"
    using ok by (simp_all add: leaf_ok_def)
  have rec: "records (left_half n right) = take ?h (records n)" "records (right_half j n) = drop ?h (records n)"
    by (simp_all add: records_def left_half_def right_half_def)
  have "list_all (key_of_size L) (take ?h (keys n))" "list_all (key_of_size L) (drop ?h (keys n))"
    using h(2) by (auto simp: list_all_iff dest: in_set_takeD in_set_dropD)
  moreover have "sorted (take ?h ?ks)" "sorted (drop ?h ?ks)" "distinct (take ?h ?ks)" "distinct (drop ?h ?ks)"
    using h(3,4) by (simp_all add: sorted_wrt_take sorted_wrt_drop)
  ultimately show "leaf_ok L (left_half n right)" "leaf_ok L (right_half j n)"
    unfolding leaf_ok_def rec using h(1,5)
    by (simp_all add: left_half_def right_half_def fresh_node_def new_BTreePage_def take_map drop_map)
  show "length (keys (left_half n right)) \<le> length (keys n)" "length (keys (right_half j n)) \<le> length (keys n)"
    by (simp_all add: left_half_def right_half_def)
  have "zip ?ks (records n) = zip (take ?h ?ks @ drop ?h ?ks) (take ?h (records n) @ drop ?h (records n))" by simp
  also have "\<dots> = zip (take ?h ?ks) (take ?h (records n)) @ zip (drop ?h ?ks) (drop ?h (records n))"
    using h(1) by (subst zip_append) simp_all
  finally show "leaf_map (right_half j n) ++ leaf_map (left_half n right) = leaf_map n"
    unfolding leaf_map_def rec by (simp add: left_half_def right_half_def take_map drop_map)
qed

text \<open>The separator is the first key of the right half.\<close>

lemma halves_separated:
  assumes ok: "leaf_ok L n" and two: "2 \<le> length (keys n)"
  defines "mid \<equiv> key_num (keys n ! (length (keys n) div 2))"
  shows "x \<in> dom (leaf_map (left_half n right)) \<Longrightarrow> x < mid" and "x \<in> dom (leaf_map (right_half j n)) \<Longrightarrow> mid \<le> x"
proof -
  let ?h = "length (keys n) div 2" and ?ks = "map key_num (keys n)"
  have h: "length (records n) = length (keys n)" "sorted ?ks" "distinct ?ks" using ok by (simp_all add: leaf_ok_def)
  have hl: "?h < length ?ks" using two by simp
  have mid: "mid = ?ks ! ?h" using hl by (simp add: mid_def)
  have strict: "?ks ! i < ?ks ! k" if "i < k" "k < length ?ks" for i k
    using that h(2,3) sorted_nth_mono [OF h(2), of i k] nth_eq_iff_index_eq [OF h(3), of i k] by force
  have "dom (leaf_map (left_half n right)) = set (take ?h ?ks)" "dom (leaf_map (right_half j n)) = set (drop ?h ?ks)"
    using h(1) by (simp_all add: leaf_map_def records_def left_half_def right_half_def dom_map_of_zip take_map drop_map)
  moreover have "x < mid" if "x \<in> set (take ?h ?ks)"
  proof -
    from that obtain i where "i < ?h" "x = ?ks ! i" by (auto simp: in_set_conv_nth)
    then show ?thesis using strict hl mid by simp
  qed
  moreover have "mid \<le> x" if "x \<in> set (drop ?h ?ks)"
  proof -
    from that obtain i where "i < length ?ks - ?h" "x = ?ks ! (?h + i)" by (auto simp: in_set_conv_nth)
    then show ?thesis using sorted_nth_mono [OF h(2), of ?h "?h + i"] mid by simp
  qed
  ultimately show "x \<in> dom (leaf_map (left_half n right)) \<Longrightarrow> x < mid" "x \<in> dom (leaf_map (right_half j n)) \<Longrightarrow> mid \<le> x" by auto
qed

section \<open>Persisting while a page is held\<close>

lemma holding_wf: "holding junk st p \<Longrightarrow> \<exists>fs. pool_wf junk st fs"
  by (auto simp: holding_def)

lemma holding_dm: "holding junk st p \<Longrightarrow> dm_inv (disk_manager (p_bpm st)) junk (p_files st)"
  using pool_wfD(11) by (auto simp: holding_def)

lemma holding_junk: "holding junk st p \<Longrightarrow> length junk = PAGE_SIZE"
  using holding_dm by (auto simp: dm_inv_def)

text \<open>What one \<open>persist\<close> or \<open>persist_metadata\<close> of page \<open>q\<close> leaves.\<close>

definition stored :: "page_id_t \<Rightarrow> bytes \<Rightarrow> Pool \<Rightarrow> Pool \<Rightarrow> bool" where
  "stored q data st st' \<longleftrightarrow>
     pool_size (p_bpm st') = pool_size (p_bpm st) \<and> insert q (disk_pages st) \<subseteq> disk_pages st' \<and>
     disk_page st' (unat q) = data \<and> (\<forall>r \<in> disk_pages st. r \<noteq> q \<longrightarrow> disk_page st' (unat r) = disk_page st (unat r))"

lemma flushed_stored:
  assumes f: "flushed (unat q) data st st'"
  shows "stored q data st st'"
proof -
  have "disk_page st' (unat r) = disk_page st (unat r)" if r: "r \<in> disk_pages st" "r \<noteq> q" for r
  proof -
    have "of_nat (unat r) \<in> disk_pages st" "(of_nat (unat r) :: page_id_t) \<noteq> of_nat (unat q)" using r by simp_all
    with f show ?thesis unfolding flushed_def by blast
  qed
  with f show ?thesis by (simp add: flushed_def stored_def)
qed

lemma stored_node:
  assumes "stored q data st st'"
  shows "deserialize data = Inr n \<Longrightarrow> node_on_disk st' q n"
    and "node_on_disk st r m \<Longrightarrow> r \<noteq> q \<Longrightarrow> node_on_disk st' r m"
  using assms by (auto simp: stored_def node_on_disk_def)

lemma persist_other:
  assumes h: "holding (j_page j) (bt_pool t) p" and n: "node_ok n" "node_fits n"
    and q: "unat q < 10000" "q \<in> disk_pages (bt_pool t)" "unat q mod pool_size (p_bpm (bt_pool t)) \<noteq> p mod pool_size (p_bpm (bt_pool t))"
  shows "\<exists>st data. persist j q n t = Inr (t\<lparr>bt_pool := st\<rparr>) \<and> holding (j_page j) st p \<and> stored q data (bt_pool t) st \<and>
    deserialize data = Inr n"
proof -
  from serialized [OF n holding_junk [OF h]] obtain data where
    d: "serialize (j_page j) n = Inr data" "length data = PAGE_SIZE" "deserialize data = Inr n" .
  have "of_nat (unat q) \<in> disk_pages (bt_pool t)" using q(2) by simp
  from holding_flush_other [OF h d(2) q(1) this q(3)] obtain st where
    st: "flush_node j q data (bt_pool t) = Inr st" "holding (j_page j) st p" "flushed (unat q) data (bt_pool t) st" by auto
  then show ?thesis using d flushed_stored [OF st(3)]
    by (intro exI [of _ st] exI [of _ data]) (simp add: persist_def)
qed

lemma persist_held:
  assumes h: "holding (j_page j) (bt_pool t) (unat q)" and n: "node_ok n" "node_fits n"
  shows "\<exists>st data. persist j q n t = Inr (t\<lparr>bt_pool := st\<rparr>) \<and> at_rest (j_page j) st \<and> stored q data (bt_pool t) st \<and>
    deserialize data = Inr n"
proof -
  from serialized [OF n holding_junk [OF h]] obtain data where
    d: "serialize (j_page j) n = Inr data" "length data = PAGE_SIZE" "deserialize data = Inr n" .
  from holding_flush [OF h d(2)] obtain st where
    st: "flush_node j q data (bt_pool t) = Inr st" "at_rest (j_page j) st" "flushed (unat q) data (bt_pool t) st" by auto
  then show ?thesis using d flushed_stored [OF st(3)]
    by (intro exI [of _ st] exI [of _ data]) (simp add: persist_def)
qed

lemma persist_rest:
  assumes h: "at_rest (j_page j) (bt_pool t)" and n: "node_ok n" "node_fits n"
    and q: "unat q < 10000" "q \<in> disk_pages (bt_pool t)"
  shows "\<exists>st data. persist j q n t = Inr (t\<lparr>bt_pool := st\<rparr>) \<and> at_rest (j_page j) st \<and> stored q data (bt_pool t) st \<and>
    deserialize data = Inr n"
proof -
  from serialized [OF n rest_junk [OF h]] obtain data where
    d: "serialize (j_page j) n = Inr data" "length data = PAGE_SIZE" "deserialize data = Inr n" .
  have "of_nat (unat q) \<in> disk_pages (bt_pool t)" using q(2) by simp
  from rest_flush [OF h d(2) q(1) this] obtain st where
    st: "flush_node j q data (bt_pool t) = Inr st" "at_rest (j_page j) st" "flushed (unat q) data (bt_pool t) st" by auto
  then show ?thesis using d flushed_stored [OF st(3)]
    by (intro exI [of _ st] exI [of _ data]) (simp add: persist_def)
qed

lemma persist_metadata_held:
  assumes h: "holding (j_page j) (bt_pool t) p" and q: "0 \<in> disk_pages (bt_pool t)" "p mod pool_size (p_bpm (bt_pool t)) \<noteq> 0"
  shows "\<exists>st. persist_metadata j t = Inr (t\<lparr>bt_pool := st\<rparr>) \<and> holding (j_page j) st p \<and>
    stored 0 (meta_bytes j t) (bt_pool t) st"
proof -
  note m = meta_bytes_ok [OF holding_junk [OF h], of t]
  have "of_nat 0 \<in> disk_pages (bt_pool t)" "0 mod pool_size (p_bpm (bt_pool t)) \<noteq> p mod pool_size (p_bpm (bt_pool t))"
    using q by simp_all
  from holding_flush_other [OF h m(2) _ this] obtain st where
    st: "flush_node j 0 (meta_bytes j t) (bt_pool t) = Inr st" "holding (j_page j) st p"
      "flushed 0 (meta_bytes j t) (bt_pool t) st" by auto
  moreover have "stored 0 (meta_bytes j t) (bt_pool t) st" using flushed_stored [of 0] st(3) by simp
  ultimately show ?thesis using m(1) by (intro exI [of _ st]) (simp add: persist_metadata_def BTREE_METADATA_PAGE_ID_def)
qed

section \<open>The new root\<close>

definition new_root_node :: "Junk \<Rightarrow> BTreeKey \<Rightarrow> page_id_t \<Rightarrow> page_id_t \<Rightarrow> BTreePage" where
  "new_root_node j mid left right =
     (fresh_node j False)\<lparr>keys := [mid], vals := InternalChildren [left], rightmost_ptr := right\<rparr>"

lemma new_root_node_ok:
  assumes "key_of_size L mid" and "0 < L"
  shows "node_ok (new_root_node j mid left right)" and "node_fits (new_root_node j mid left right)"
proof -
  have len: "length (key_data mid) = unat (key_length mid)" "key_length mid \<noteq> 0" "unat (key_length mid) < 256"
    using assms unat_bounds(1) [of "key_length mid"] by (auto simp: key_of_size_def)
  then show "node_ok (new_root_node j mid left right)"
    by (simp add: new_root_node_def node_ok_def fresh_node_def new_BTreePage_def)
  show "node_fits (new_root_node j mid left right)"
    using len by (simp add: node_fits_def pairs_def kv_def vb_def new_root_node_def layout_defs)
qed

text \<open>Allocating the two pages of a root split while the root is held.\<close>

lemma two_nodes_allocated:
  assumes h: "holding (j_page j) (bt_pool t) p"
    and meta: "0 \<in> disk_pages (bt_pool t)" "index_meta k (disk_page (bt_pool t) 0)" and k: "unat k + 2 < 10000"
  shows "\<exists>files1 files2. new_index_node j True t = Inr (ucast (k + 1), t\<lparr>bt_pool := (bt_pool t)\<lparr>p_files := files1\<rparr>\<rparr>) \<and>
    new_index_node j False (t\<lparr>bt_pool := (bt_pool t)\<lparr>p_files := files1\<rparr>\<rparr>) =
      Inr (ucast (k + 2), t\<lparr>bt_pool := (bt_pool t)\<lparr>p_files := files2\<rparr>\<rparr>) \<and>
    holding (j_page j) ((bt_pool t)\<lparr>p_files := files2\<rparr>) p \<and>
    insert 0 (insert (ucast (k + 1)) (insert (ucast (k + 2)) (disk_pages (bt_pool t)))) \<subseteq> disk_pages ((bt_pool t)\<lparr>p_files := files2\<rparr>)"
proof -
  have k1: "k \<noteq> 65535" "k + 1 \<noteq> 65535"
    using k by (auto simp: word_unat_eq_iff unat_word_ariths)
  from new_index_node_ok [OF holding_dm [OF h] meta k1(1), of True] obtain f1 where
    f1: "new_index_node j True t = Inr (ucast (k + 1), t\<lparr>bt_pool := (bt_pool t)\<lparr>p_files := f1\<rparr>\<rparr>)"
      "dm_inv (disk_manager (p_bpm (bt_pool t))) (j_page j) f1" "allocated k True (bt_pool t) ((bt_pool t)\<lparr>p_files := f1\<rparr>)" by blast
  let ?t = "t\<lparr>bt_pool := (bt_pool t)\<lparr>p_files := f1\<rparr>\<rparr>"
  have "dm_inv (disk_manager (p_bpm (bt_pool ?t))) (j_page j) (p_files (bt_pool ?t))"
    "0 \<in> disk_pages (bt_pool ?t)" "index_meta (k + 1) (disk_page (bt_pool ?t) 0)"
    using f1(2,3) index_meta_with_node_count [OF meta(2)] by (simp_all add: allocated_def)
  from new_index_node_ok [OF this k1(2), of False] obtain f2 where
    f2: "new_index_node j False ?t = Inr (ucast (k + 1 + 1), t\<lparr>bt_pool := (bt_pool t)\<lparr>p_files := f2\<rparr>\<rparr>)"
      "dm_inv (disk_manager (p_bpm (bt_pool t))) (j_page j) f2"
      "allocated (k + 1) False ((bt_pool t)\<lparr>p_files := f1\<rparr>) ((bt_pool t)\<lparr>p_files := f2\<rparr>)" by auto
  have "k + 1 + 1 = k + 2" by simp
  with f1 f2 holding_files [OF h f2(2)] show ?thesis
    by (intro exI [of _ f1] exI [of _ f2]) (auto simp: allocated_def)
qed

text \<open>The root and the two new pages are in different buckets of the page table.\<close>

lemma split_pages:
  assumes k: "unat (k :: u16) + 2 < N" "N < 65536" and r: "(r :: page_id_t) \<noteq> 0" "unat r \<le> unat k"
  shows "unat (ucast (k + 1) :: page_id_t) = unat k + 1" and "unat (ucast (k + 2) :: page_id_t) = unat k + 2"
    and "unat r mod N \<noteq> 0" and "unat (ucast (k + 1) :: page_id_t) mod N \<noteq> unat r mod N"
    and "unat (ucast (k + 2) :: page_id_t) mod N \<noteq> unat r mod N"
    and "(ucast (k + 1) :: page_id_t) \<noteq> 0" and "(ucast (k + 2) :: page_id_t) \<noteq> 0"
    and "(ucast (k + 1) :: page_id_t) \<noteq> ucast (k + 2)" and "r \<noteq> ucast (k + 1)" and "r \<noteq> ucast (k + 2)"
proof -
  show u: "unat (ucast (k + 1) :: page_id_t) = unat k + 1" "unat (ucast (k + 2) :: page_id_t) = unat k + 2"
    using k by (simp_all add: unat_ucast_wider unat_word_ariths)
  have r0: "0 < unat r" using unat_nonzero [OF r(1)] .
  show "unat r mod N \<noteq> 0" "unat (ucast (k + 1) :: page_id_t) mod N \<noteq> unat r mod N"
    "unat (ucast (k + 2) :: page_id_t) mod N \<noteq> unat r mod N"
    using u r0 r(2) k(1) by simp_all
  have distinct: "x \<noteq> y" if "unat x \<noteq> unat y" for x y :: page_id_t using that by auto
  show "(ucast (k + 1) :: page_id_t) \<noteq> 0" "(ucast (k + 2) :: page_id_t) \<noteq> 0" "(ucast (k + 1) :: page_id_t) \<noteq> ucast (k + 2)"
    "r \<noteq> ucast (k + 1)" "r \<noteq> ucast (k + 2)"
    using u r(2) by (auto intro!: distinct simp del: unat_eq_0 unsigned_eq_0_iff)
qed

section \<open>Splitting the root\<close>

lemma stored_meta: "stored q data st st' \<Longrightarrow> q \<noteq> 0 \<Longrightarrow> 0 \<in> disk_pages st \<Longrightarrow> disk_page st' 0 = disk_page st 0"
  unfolding stored_def by fastforce

text \<open>The four writes of a root split: metadata, right half, root, left half.\<close>

lemma split_writes:
  fixes k :: u16
  assumes h: "holding (j_page j) (bt_pool t) (unat p)" and ok: "leaf_ok L n" "0 < L" "leaf_fits L (length (keys n))"
    and mid: "key_of_size L mid"
    and pages: "unat k + 2 < pool_size (p_bpm (bt_pool t))" "pool_size (p_bpm (bt_pool t)) < 65536" "unat k + 2 < 10000"
      "p \<noteq> 0" "unat p \<le> unat k"
    and sub: "insert 0 (insert (ucast (k + 1)) (insert (ucast (k + 2)) {p})) \<subseteq> disk_pages (bt_pool t)"
  shows "\<exists>s1 s2 s3 s4. persist_metadata j t = Inr (t\<lparr>bt_pool := s1\<rparr>) \<and>
    persist j (ucast (k + 1)) (right_half j n) (t\<lparr>bt_pool := s1\<rparr>) = Inr (t\<lparr>bt_pool := s2\<rparr>) \<and>
    persist j (ucast (k + 2)) (new_root_node j mid p (ucast (k + 1))) (t\<lparr>bt_pool := s2\<rparr>) = Inr (t\<lparr>bt_pool := s3\<rparr>) \<and>
    persist j p (left_half n (ucast (k + 1))) (t\<lparr>bt_pool := s3\<rparr>) = Inr (t\<lparr>bt_pool := s4\<rparr>) \<and>
    at_rest (j_page j) s4 \<and> node_on_disk s4 (ucast (k + 1)) (right_half j n) \<and>
    node_on_disk s4 (ucast (k + 2)) (new_root_node j mid p (ucast (k + 1))) \<and>
    node_on_disk s4 p (left_half n (ucast (k + 1))) \<and> 0 \<in> disk_pages s4 \<and> disk_page s4 0 = meta_bytes j t \<and>
    pool_size (p_bpm s4) = pool_size (p_bpm (bt_pool t))"
proof -
  let ?a = "ucast (k + 1) :: page_id_t" and ?b = "ucast (k + 2) :: page_id_t" and ?N = "pool_size (p_bpm (bt_pool t))"
  note pg = split_pages [OF pages(1,2,4,5)]
  note hl = half_leaves(1,3) [OF ok(1), of ?a] and hr = half_leaves(2,4) [OF ok(1), of j]
  have fits: "leaf_fits L (length (keys (left_half n ?a)))" "leaf_fits L (length (keys (right_half j n)))"
    using leaf_fits_mono [OF ok(3)] hl(2) hr(2) by simp_all
  note l = leaf_node_ok [OF hl(1) ok(2)] leaf_node_fits [OF hl(1) fits(1)]
  note r = leaf_node_ok [OF hr(1) ok(2)] leaf_node_fits [OF hr(1) fits(2)]
  note rt = new_root_node_ok [OF mid ok(2), of j p ?a]
  have "0 \<in> disk_pages (bt_pool t)" using sub by simp
  from persist_metadata_held [OF h this pg(3)] obtain s1 where
    s1: "persist_metadata j t = Inr (t\<lparr>bt_pool := s1\<rparr>)" "holding (j_page j) s1 (unat p)" "stored 0 (meta_bytes j t) (bt_pool t) s1" by blast
  let ?t1 = "t\<lparr>bt_pool := s1\<rparr>"
  have c1: "holding (j_page j) (bt_pool ?t1) (unat p)" "unat ?a < 10000" "?a \<in> disk_pages (bt_pool ?t1)"
    "unat ?a mod pool_size (p_bpm (bt_pool ?t1)) \<noteq> unat p mod pool_size (p_bpm (bt_pool ?t1))"
    using s1(2,3) pg(1,4) pages(3) sub by (auto simp: stored_def)
  from persist_other [OF c1(1) r c1(2-4)] obtain s2 d2 where
    s2: "persist j ?a (right_half j n) ?t1 = Inr (t\<lparr>bt_pool := s2\<rparr>)" "holding (j_page j) s2 (unat p)"
      "stored ?a d2 s1 s2" "deserialize d2 = Inr (right_half j n)" by auto
  let ?t2 = "t\<lparr>bt_pool := s2\<rparr>"
  have c2: "holding (j_page j) (bt_pool ?t2) (unat p)" "unat ?b < 10000" "?b \<in> disk_pages (bt_pool ?t2)"
    "unat ?b mod pool_size (p_bpm (bt_pool ?t2)) \<noteq> unat p mod pool_size (p_bpm (bt_pool ?t2))"
    using s1(3) s2(2,3) pg(2,5) pages(3) sub by (auto simp: stored_def)
  from persist_other [OF c2(1) rt c2(2-4)] obtain s3 d3 where
    s3: "persist j ?b (new_root_node j mid p ?a) ?t2 = Inr (t\<lparr>bt_pool := s3\<rparr>)" "holding (j_page j) s3 (unat p)"
      "stored ?b d3 s2 s3" "deserialize d3 = Inr (new_root_node j mid p ?a)" by auto
  have "holding (j_page j) (bt_pool (t\<lparr>bt_pool := s3\<rparr>)) (unat p)" using s3(2) by simp
  from persist_held [OF this l] obtain s4 d4 where
    s4: "persist j p (left_half n ?a) (t\<lparr>bt_pool := s3\<rparr>) = Inr (t\<lparr>bt_pool := s4\<rparr>)" "at_rest (j_page j) s4"
      "stored p d4 s3 s4" "deserialize d4 = Inr (left_half n ?a)" by auto
  have "node_on_disk s4 ?a (right_half j n)"
    using stored_node(1) [OF s2(3,4)] stored_node(2) [OF s3(3)] stored_node(2) [OF s4(3)] pg(8,9) by metis
  moreover have "node_on_disk s4 ?b (new_root_node j mid p ?a)"
    using stored_node(1) [OF s3(3,4)] stored_node(2) [OF s4(3)] pg(10) by metis
  moreover have z: "0 \<in> disk_pages s1" "0 \<in> disk_pages s2" "0 \<in> disk_pages s3" "0 \<in> disk_pages s4"
    using s1(3) s2(3) s3(3) s4(3) by (auto simp: stored_def)
  moreover have "disk_page s1 0 = meta_bytes j t" using s1(3) by (simp add: stored_def)
  then have "disk_page s4 0 = meta_bytes j t"
    using stored_meta [OF s2(3) pg(6) z(1)] stored_meta [OF s3(3) pg(7) z(2)] stored_meta [OF s4(3) pages(4) z(3)] by simp
  moreover have "pool_size (p_bpm s4) = ?N" using s1(3) s2(3) s3(3) s4(3) by (simp add: stored_def)
  ultimately show ?thesis using s1(1) s2(1) s3(1) s4(1,2) stored_node(1) [OF s4(3,4)] by blast
qed

lemma split_root_leaf:
  assumes h: "holding (j_page j) (bt_pool t) (unat (root_pid t))" and ok: "leaf_ok L n" "0 < L" "leaf_fits L (length (keys n))"
    and two: "2 \<le> length (keys n)"
    and meta: "0 \<in> disk_pages (bt_pool t)" "index_meta k (disk_page (bt_pool t) 0)"
    and pages: "unat k + 2 < pool_size (p_bpm (bt_pool t))" "unat k + 2 < 10000" "root_pid t \<noteq> 0" "unat (root_pid t) \<le> unat k"
      "root_pid t \<in> disk_pages (bt_pool t)"
  defines "mid \<equiv> keys n ! (length (keys n) div 2)" and "a \<equiv> ucast (k + 1) :: page_id_t" and "b \<equiv> ucast (k + 2) :: page_id_t"
  shows "\<exists>st t'. splitRootNode j True n t = Inr (left_half n a, t') \<and>
    t' = t\<lparr>bt_pool := st, node_count := node_count t + 2, root_pid := b\<rparr> \<and> at_rest (j_page j) st \<and>
    node_on_disk st a (right_half j n) \<and> node_on_disk st b (new_root_node j mid (root_pid t) a) \<and>
    node_on_disk st (root_pid t) (left_half n a) \<and> 0 \<in> disk_pages st \<and> disk_page st 0 = meta_bytes j t' \<and>
    pool_size (p_bpm st) = pool_size (p_bpm (bt_pool t))"
proof -
  let ?st = "bt_pool t"
  have m: "at (keys n) (length (keys n) div 2) = Inr mid" using two by (simp add: at_def mid_def)
  have "key_of_size L mid" using ok(1) two by (simp add: leaf_ok_def list_all_length mid_def)
  from two_nodes_allocated [OF h meta pages(2)] obtain f1 f2 where
    f: "new_index_node j True t = Inr (a, t\<lparr>bt_pool := ?st\<lparr>p_files := f1\<rparr>\<rparr>)"
      "new_index_node j False (t\<lparr>bt_pool := ?st\<lparr>p_files := f1\<rparr>\<rparr>) = Inr (b, t\<lparr>bt_pool := ?st\<lparr>p_files := f2\<rparr>\<rparr>)"
      "holding (j_page j) (?st\<lparr>p_files := f2\<rparr>) (unat (root_pid t))"
      "insert 0 (insert a (insert b (disk_pages ?st))) \<subseteq> disk_pages (?st\<lparr>p_files := f2\<rparr>)"
    by (auto simp: a_def b_def)
  let ?t = "t\<lparr>bt_pool := ?st\<lparr>p_files := f2\<rparr>, node_count := node_count t + 2, root_pid := b\<rparr>"
  from holding_wf [OF h] pool_wfD(2) have N: "pool_size (p_bpm ?st) < 65536" by blast
  note pg = split_pages [OF pages(1) N pages(3,4)]
  have "holding (j_page j) (bt_pool ?t) (unat (root_pid t))" "unat k + 2 < pool_size (p_bpm (bt_pool ?t))"
    "pool_size (p_bpm (bt_pool ?t)) < 65536"
    "insert 0 (insert (ucast (k + 1)) (insert (ucast (k + 2)) {root_pid t})) \<subseteq> disk_pages (bt_pool ?t)"
    using f(3,4) pages N by (auto simp: a_def b_def)
  from split_writes [OF this(1) ok \<open>key_of_size L mid\<close> this(2,3) pages(2-4) this(4)] obtain s1 s2 s3 s4 where
    s: "persist_metadata j ?t = Inr (?t\<lparr>bt_pool := s1\<rparr>)"
      "persist j a (right_half j n) (?t\<lparr>bt_pool := s1\<rparr>) = Inr (?t\<lparr>bt_pool := s2\<rparr>)"
      "persist j b (new_root_node j mid (root_pid t) a) (?t\<lparr>bt_pool := s2\<rparr>) = Inr (?t\<lparr>bt_pool := s3\<rparr>)"
      "persist j (root_pid t) (left_half n a) (?t\<lparr>bt_pool := s3\<rparr>) = Inr (?t\<lparr>bt_pool := s4\<rparr>)"
      "at_rest (j_page j) s4" "node_on_disk s4 a (right_half j n)" "node_on_disk s4 b (new_root_node j mid (root_pid t) a)"
      "node_on_disk s4 (root_pid t) (left_half n a)" "0 \<in> disk_pages s4" "disk_page s4 0 = meta_bytes j ?t"
      "pool_size (p_bpm s4) = pool_size (p_bpm (bt_pool ?t))"
    unfolding a_def b_def by blast
  have "splitRootNode j True n t = Inr (left_half n a, ?t\<lparr>bt_pool := s4\<rparr>)"
    unfolding splitRootNode_def Let_def m and_then_simps f(1) prod.case f(2) redistribute_leaf [OF ok(1)]
    using s(1-4) pg(6,7) by (simp add: BTREE_METADATA_PAGE_ID_def new_root_node_def left_half_def a_def b_def)
  moreover have "meta_bytes j ?t = meta_bytes j (?t\<lparr>bt_pool := s4\<rparr>)" by (simp add: meta_bytes_def)
  ultimately show ?thesis using s(5-11) by (intro exI [of _ s4] exI [of _ "?t\<lparr>bt_pool := s4\<rparr>"]) simp
qed

text \<open>The split and the write of the old root that \<^verbatim>\<open>insert\<close> makes once more.\<close>

lemma split_root_persist:
  assumes h: "holding (j_page j) (bt_pool t) (unat (root_pid t))" and ok: "leaf_ok L n" "0 < L" "leaf_fits L (length (keys n))"
    and two: "2 \<le> length (keys n)"
    and meta: "0 \<in> disk_pages (bt_pool t)" "index_meta k (disk_page (bt_pool t) 0)"
    and pages: "unat k + 2 < pool_size (p_bpm (bt_pool t))" "unat k + 2 < 10000" "root_pid t \<noteq> 0" "unat (root_pid t) \<le> unat k"
      "root_pid t \<in> disk_pages (bt_pool t)"
  defines "mid \<equiv> keys n ! (length (keys n) div 2)" and "a \<equiv> ucast (k + 1) :: page_id_t" and "b \<equiv> ucast (k + 2) :: page_id_t"
  shows "\<exists>t1 st. splitRootNode j True n t = Inr (left_half n a, t1) \<and> persist j (root_pid t) (left_half n a) t1 = Inr (t1\<lparr>bt_pool := st\<rparr>) \<and>
    root_pid t1 = b \<and> magic_num t1 = magic_num t \<and> max_size t1 = max_size t \<and> node_count t1 = node_count t + 2 \<and> at_rest (j_page j) st \<and>
    node_on_disk st a (right_half j n) \<and> node_on_disk st b (new_root_node j mid (root_pid t) a) \<and>
    node_on_disk st (root_pid t) (left_half n a) \<and> 0 \<in> disk_pages st \<and> disk_page st 0 = meta_bytes j t1 \<and>
    pool_size (p_bpm st) = pool_size (p_bpm (bt_pool t))"
proof -
  let ?p = "root_pid t"
  from split_root_leaf [OF assms(1-12), folded mid_def a_def b_def] obtain s1 t1 where
    s1: "splitRootNode j True n t = Inr (left_half n a, t1)"
      "t1 = t\<lparr>bt_pool := s1, node_count := node_count t + 2, root_pid := b\<rparr>" "at_rest (j_page j) s1"
      "node_on_disk s1 a (right_half j n)" "node_on_disk s1 b (new_root_node j mid ?p a)"
      "node_on_disk s1 ?p (left_half n a)" "0 \<in> disk_pages s1" "disk_page s1 0 = meta_bytes j t1"
      "pool_size (p_bpm s1) = pool_size (p_bpm (bt_pool t))" by blast
  have N: "pool_size (p_bpm (bt_pool t)) < 65536" using holding_wf [OF h] pool_wfD(2) by metis
  note pg = split_pages [OF pages(1) N pages(3,4), folded a_def b_def]
  note half = half_leaves(1,3) [OF ok(1), of a]
  have "leaf_fits L (length (keys (left_half n a)))"
    using leaf_fits_mono [OF ok(3) half(2)] .
  note l = leaf_node_ok [OF half(1) ok(2)] leaf_node_fits [OF half(1) this]
  have "at_rest (j_page j) (bt_pool t1)" "unat ?p < 10000" "?p \<in> disk_pages (bt_pool t1)"
    using s1(2,3,6) pages(2,4) by (simp_all add: node_on_disk_def)
  from persist_rest [OF this(1) l this(2,3)] obtain s2 d2 where
    s2: "persist j ?p (left_half n a) t1 = Inr (t1\<lparr>bt_pool := s2\<rparr>)" "at_rest (j_page j) s2" "stored ?p d2 s1 s2"
      "deserialize d2 = Inr (left_half n a)" using s1(2) by auto
  have "node_on_disk s2 ?p (left_half n a)" "node_on_disk s2 a (right_half j n)" "node_on_disk s2 b (new_root_node j mid ?p a)"
    using stored_node(1) [OF s2(3,4)] stored_node(2) [OF s2(3) s1(4)] stored_node(2) [OF s2(3) s1(5)] pg(9,10) by metis+
  moreover have "disk_page s2 0 = meta_bytes j t1" "0 \<in> disk_pages s2"
    using stored_meta [OF s2(3) pages(3) s1(7)] s1(7,8) s2(3) by (auto simp: stored_def)
  moreover have "pool_size (p_bpm s2) = pool_size (p_bpm (bt_pool t))" using s1(9) s2(3) by (simp add: stored_def)
  ultimately show ?thesis using s1(1,2) s2(1,2) by (intro exI [of _ t1] exI [of _ s2]) simp
qed

lemma insert_full_root:
  assumes t: "leaf_tree L j t n" "magic_num t = BTREE_INDEX" and key: "key_of_size L key" "key_num key \<notin> dom (leaf_map n)"
    and full: "length (keys n) = unat (max_size t)" "0 < unat (max_size t)" "leaf_fits L (Suc (length (keys n)))"
    and meta: "0 \<in> disk_pages (bt_pool t)" "index_meta k (disk_page (bt_pool t) 0)"
    and pages: "unat k + 2 < pool_size (p_bpm (bt_pool t))" "unat k + 2 < 10000" "unat (root_pid t) \<le> unat k"
  shows "\<exists>t' l r mid. btree_insert fuel j key val t = Inr (root_pid t, t') \<and> at_rest (j_page j) (bt_pool t') \<and>
    root_pid t' = ucast (k + 2) \<and>
    node_on_disk (bt_pool t') (root_pid t') (new_root_node j mid (root_pid t) (ucast (k + 1))) \<and>
    node_on_disk (bt_pool t') (root_pid t) l \<and> node_on_disk (bt_pool t') (ucast (k + 1)) r \<and>
    leaf_ok L l \<and> leaf_ok L r \<and> next_pid l = ucast (k + 1) \<and> key_of_size L mid \<and>
    leaf_map r ++ leaf_map l = (leaf_map n)(key_num key \<mapsto> val) \<and>
    (\<forall>x \<in> dom (leaf_map l). x < key_num mid) \<and> (\<forall>x \<in> dom (leaf_map r). key_num mid \<le> x) \<and>
    (\<exists>u. btree_deserialize j (new_BTree a b c d (bt_pool t')) = Inr u \<and> root_pid u = root_pid t') \<and>
    magic_num t' = magic_num t \<and> max_size t' = max_size t \<and> 0 \<in> disk_pages (bt_pool t') \<and>
    pool_size (p_bpm (bt_pool t')) = pool_size (p_bpm (bt_pool t)) \<and>
    node_count t' = node_count t + 2 \<and> index_meta (node_count t') (disk_page (bt_pool t') 0) \<and>
    length (keys l) = Suc (length (keys n)) div 2 \<and> length (keys l) + length (keys r) = Suc (length (keys n))"
proof -
  let ?p = "root_pid t" and ?a = "ucast (k + 1) :: page_id_t"
  have h: "?p \<noteq> 0" "leaf_ok L n" "0 < L" "?p \<in> disk_pages (bt_pool t)" using t(1) by (simp_all add: leaf_tree_def node_on_disk_def)
  have lens: "list_all (key_of_size L) (keys n)" "length (keys n) = length (records n)" using h(2) by (simp_all add: leaf_ok_def)
  then have fresh: "key_num key \<notin> key_num ` set (keys n)" using key(2) by (simp add: leaf_map_def dom_map_of_zip)
  from find_root_leaf [OF t(1), of fuel key] obtain st where
    st: "findLeaf fuel j key [] t = Inr (n, [], ?p, t\<lparr>bt_pool := st\<rparr>)" "holding (j_page j) st (unat ?p)"
      "p_files st = p_files (bt_pool t)" "pool_size (p_bpm st) = pool_size (p_bpm (bt_pool t))"
      "disk_manager (p_bpm st) = disk_manager (p_bpm (bt_pool t))" by blast
  have "length (keys n) < 65535" using full(1) unat_bounds(1) [of "max_size t"] by simp
  from insert_leaf [OF h(2) key(1) fresh this, of val] obtain n' where
    n': "insertIntoNode_RID key val n = Inr n'" "leaf_ok L n'" "leaf_map n' = (leaf_map n)(key_num key \<mapsto> val)"
      "length (keys n') = Suc (length (keys n))" by blast
  let ?t = "t\<lparr>bt_pool := st\<rparr>" and ?mid = "keys n' ! (length (keys n') div 2)"
  have two: "2 \<le> length (keys n')" and fits: "leaf_fits L (length (keys n'))" using n'(4) full by simp_all
  have hyps: "holding (j_page j) (bt_pool ?t) (unat (root_pid ?t))" "0 \<in> disk_pages (bt_pool ?t)"
    "index_meta k (disk_page (bt_pool ?t) 0)" "unat k + 2 < pool_size (p_bpm (bt_pool ?t))" "root_pid ?t \<noteq> 0"
    "unat (root_pid ?t) \<le> unat k" "root_pid ?t \<in> disk_pages (bt_pool ?t)"
    using st(2,4) same_disk [OF st(3,5)] meta pages h(1,4) by simp_all
  from split_root_persist [OF hyps(1) n'(2) h(3) fits two hyps(2-4) pages(2) hyps(5-7)] obtain t1 s where
    s: "splitRootNode j True n' ?t = Inr (left_half n' ?a, t1)" "persist j ?p (left_half n' ?a) t1 = Inr (t1\<lparr>bt_pool := s\<rparr>)"
      "root_pid t1 = ucast (k + 2)" "magic_num t1 = magic_num t" "max_size t1 = max_size t" "at_rest (j_page j) s" "node_on_disk s ?a (right_half j n')"
      "node_on_disk s (ucast (k + 2)) (new_root_node j ?mid ?p ?a)" "node_on_disk s ?p (left_half n' ?a)"
      "0 \<in> disk_pages s" "disk_page s 0 = meta_bytes j t1" "pool_size (p_bpm s) = pool_size (p_bpm (bt_pool t))"
      "node_count t1 = node_count t + 2"
    using st(4) by auto
  have run: "btree_insert fuel j key val t = Inr (?p, t1\<lparr>bt_pool := s\<rparr>)"
    using h(1) st(1) has_key_mem [OF lens(1) key(1)] fresh n'(1,4) full(1) s(1,2)
    by (simp add: btree_insert_def BTREE_METADATA_PAGE_ID_def)
  have "btree_deserialize j (new_BTree a b c d s) = Inr (t1\<lparr>bt_pool := s\<rparr>)"
    using deserialize_rest [of j "new_BTree a b c d s" t1] s(4,6,10,11) t(2) by (simp add: new_BTree_def)
  moreover have "index_meta (node_count t1) (disk_page s 0)"
    using meta_bytes_ok(2-4) [OF rest_junk [OF s(6)], of t1] s(4,11) t(2) by (simp add: index_meta_def layout_defs)
  moreover have "key_of_size L ?mid" using n'(2) two by (simp add: leaf_ok_def list_all_length)
  moreover have "leaf_map (right_half j n') ++ leaf_map (left_half n' ?a) = (leaf_map n)(key_num key \<mapsto> val)"
    using half_leaves(5) [OF n'(2)] n'(3) by simp
  moreover have "length (keys (left_half n' ?a)) + length (keys (right_half j n')) = Suc (length (keys n))"
    "length (keys (left_half n' ?a)) = Suc (length (keys n)) div 2" using two n'(4) by (simp_all add: left_half_def right_half_def)
  ultimately show ?thesis
    using run s half_leaves(1,2) [OF n'(2)] halves_separated [OF n'(2) two]
    by (intro exI [of _ "t1\<lparr>bt_pool := s\<rparr>"] exI [of _ "left_half n' ?a"] exI [of _ "right_half j n'"] exI [of _ ?mid])
      (simp add: left_half_def)
qed

text \<open>
  C7. Inserting into a full root leaf splits it. When the leaf has as many keys as the limit, \<^verbatim>\<open>insert\<close> leaves on disk
  two sorted leaves that together hold the old entries and the new one, the left one on the old page and linked
  to the right one, and a new root with one separator: keys below it are in the left leaf, the others in the right
  one. The metadata names the new root, so that a tree opened later finds it, and the pool is at rest. The index
  counts \<open>k\<close> nodes and the pool has more frames than pages. All keys have the same length.
\<close>

theorem insert_splits_full_root:
  assumes t: "leaf_tree L j t n" "magic_num t = BTREE_INDEX" and key: "key_of_size L key" "key_num key \<notin> dom (leaf_map n)"
    and full: "length (keys n) = unat (max_size t)" "0 < unat (max_size t)" "leaf_fits L (Suc (length (keys n)))"
    and meta: "0 \<in> disk_pages (bt_pool t)" "index_meta k (disk_page (bt_pool t) 0)"
    and pages: "unat k + 2 < pool_size (p_bpm (bt_pool t))" "unat k + 2 < 10000" "unat (root_pid t) \<le> unat k"
  shows "\<exists>t' l r mid. btree_insert fuel j key val t = Inr (root_pid t, t') \<and> at_rest (j_page j) (bt_pool t') \<and>
    root_pid t' = ucast (k + 2) \<and>
    node_on_disk (bt_pool t') (root_pid t') (new_root_node j mid (root_pid t) (ucast (k + 1))) \<and>
    node_on_disk (bt_pool t') (root_pid t) l \<and> node_on_disk (bt_pool t') (ucast (k + 1)) r \<and>
    leaf_ok L l \<and> leaf_ok L r \<and> next_pid l = ucast (k + 1) \<and> key_of_size L mid \<and>
    leaf_map r ++ leaf_map l = (leaf_map n)(key_num key \<mapsto> val) \<and>
    (\<forall>x \<in> dom (leaf_map l). x < key_num mid) \<and> (\<forall>x \<in> dom (leaf_map r). key_num mid \<le> x) \<and>
    (\<exists>u. btree_deserialize j (new_BTree a b c d (bt_pool t')) = Inr u \<and> root_pid u = root_pid t')"
  using insert_full_root [OF assms, of fuel val a b c d] by blast

section \<open>Witnesses\<close>

text \<open>The second key of a tree that takes one key per node.\<close>

lemma demo_full:
  "\<exists>t n. btree_insert 0 demo_j (demo_key 5) demo_rid (demo_tree\<lparr>max_size := 1\<rparr>) = Inr (1, t) \<and> leaf_tree 1 demo_j t n \<and>
    magic_num t = BTREE_INDEX \<and> key_num (demo_key 9) \<notin> dom (leaf_map n) \<and> length (keys n) = unat (max_size t) \<and>
    0 < unat (max_size t) \<and> leaf_fits 1 (Suc (length (keys n))) \<and> 0 \<in> disk_pages (bt_pool t) \<and>
    index_meta 1 (disk_page (bt_pool t) 0) \<and> unat (1 :: u16) + 2 < pool_size (p_bpm (bt_pool t)) \<and>
    unat (1 :: u16) + 2 < 10000 \<and> unat (root_pid t) \<le> unat (1 :: u16) \<and> root_pid t = 1"
proof -
  have "0 < unat (1 :: u8)" by simp
  from demo_leaf_tree [OF this] obtain t n where
    t: "btree_insert 0 demo_j (demo_key 5) demo_rid (demo_tree\<lparr>max_size := 1\<rparr>) = Inr (1, t)" "leaf_tree 1 demo_j t n"
      "leaf_map n = [5 \<mapsto> demo_rid]" "length (keys n) = 1" "root_pid t = 1" "magic_num t = BTREE_INDEX" "max_size t = 1"
      "pool_size (p_bpm (bt_pool t)) = 8" "0 \<in> disk_pages (bt_pool t)" "index_meta 1 (disk_page (bt_pool t) 0)" by blast
  have "leaf_fits 1 (Suc (length (keys n)))" using t(4) by (intro demo_fits) simp
  moreover have "key_num (demo_key 9) \<notin> dom (leaf_map n)" by (simp add: t(3) demo_key_ok)
  ultimately show ?thesis using t by (intro exI [of _ t] exI [of _ n]) simp
qed

theorem insert_splits_full_root_witness:
  "\<exists>t t' l r. btree_insert 0 demo_j (demo_key 5) demo_rid (demo_tree\<lparr>max_size := 1\<rparr>) = Inr (1, t) \<and>
    btree_insert 0 demo_j (demo_key 9) demo_rid t = Inr (1, t') \<and> root_pid t' = 3 \<and>
    node_on_disk (bt_pool t') 1 l \<and> node_on_disk (bt_pool t') 2 r \<and> leaf_ok 1 l \<and> leaf_ok 1 r"
proof -
  from demo_full obtain t n where t: "btree_insert 0 demo_j (demo_key 5) demo_rid (demo_tree\<lparr>max_size := 1\<rparr>) = Inr (1, t)"
    "leaf_tree 1 demo_j t n" "magic_num t = BTREE_INDEX" "key_num (demo_key 9) \<notin> dom (leaf_map n)"
    "length (keys n) = unat (max_size t)" "0 < unat (max_size t)" "leaf_fits 1 (Suc (length (keys n)))"
    "0 \<in> disk_pages (bt_pool t)" "index_meta 1 (disk_page (bt_pool t) 0)"
    "unat (1 :: u16) + 2 < pool_size (p_bpm (bt_pool t))" "unat (1 :: u16) + 2 < 10000" "unat (root_pid t) \<le> unat (1 :: u16)"
    "root_pid t = 1" by blast
  have num: "(ucast (1 + 1 :: u16) :: page_id_t) = 2" "(ucast (1 + 2 :: u16) :: page_id_t) = 3" by simp_all
  from insert_splits_full_root [OF t(2,3) demo_key_ok(1) t(4-12), of 0 demo_rid 0 0 0 0] t(1,13) show ?thesis
    unfolding num by auto
qed

end
