(* ===== verification/Btree_Remove.thy ===== *)
theory Btree_Remove
  imports Btree_Split
begin

text \<open>
  The search for a leaf in a tree of two levels, removal from a tree of one leaf, and merging.
\<close>

section \<open>Search\<close>

lemma holding_fetch:
  assumes h: "holding junk st p" and q: "q \<noteq> p" "q < 10000" "of_nat q \<in> disk_pages st"
  shows "\<exists>st'. fetch_bpm_page junk (of_nat q) st = Inr (1, st') \<and>
    page_at 1 st' = Inr \<lparr>bp_data = disk_page st q, bp_id = of_nat q, pin_count = 2, is_dirty = False\<rparr>"
proof -
  from h obtain fs where fs: "pool_wf junk st fs" "pinnable 1 fs []"
    unfolding holding_def using pinnable_empty pinnable_head by metis
  have none: "resident st q = None" using h q(1) by (simp add: holding_def)
  have n: "2 \<le> pool_size (p_bpm st)" using h by (simp add: holding_def)
  from fetch_miss [OF fs(1) none q(2) holding_free [OF h] fs(2) q(3)] obtain s1 where
    s1: "fetch_bpm_page junk (of_nat q) st = Inr (of_nat 1, s1)" "pool_wf junk s1 []"
      "pool_size (p_bpm s1) = pool_size (p_bpm st)"
      "bpages (p_bpm s1) = (bpages (p_bpm st))[1 := (blank_frame q)\<lparr>pin_count := 2, bp_data := disk_page st q\<rparr>]" by blast
  have "frame s1 1 = (blank_frame q)\<lparr>pin_count := 2, bp_data := disk_page st q\<rparr>"
    using s1(4) n pool_wfD(3) [OF fs(1)] by (simp add: frame_def)
  moreover have "page_at 1 s1 = Inr (frame s1 1)" using page_at_wf [OF s1(2), of 1] n s1(3) by simp
  ultimately show ?thesis using s1(1) by (intro exI [of _ s1]) (simp add: blank_frame_def)
qed

lemma fetch_node_holding:
  assumes h: "holding (j_page j) (bt_pool t) p" and q: "unat q \<noteq> p" "unat q < 10000" and n: "node_on_disk (bt_pool t) q node"
  shows "\<exists>t'. fetch_node j q t = Inr (node, q, t')"
proof -
  have "of_nat (unat q) \<in> disk_pages (bt_pool t)" using n by (simp add: node_on_disk_def)
  from holding_fetch [OF h q this] obtain st where
    "fetch_bpm_page (j_page j) q (bt_pool t) = Inr (1, st)"
    "page_at 1 st = Inr \<lparr>bp_data = disk_page (bt_pool t) (unat q), bp_id = q, pin_count = 2, is_dirty = False\<rparr>" by auto
  then show ?thesis using n by (simp add: fetch_node_def node_on_disk_def)
qed

text \<open>The loop over sorted keys never descends.\<close>

lemma scan_sorted:
  assumes "list_all (key_of_size L) (keys node)" and "key_of_size L key" and "sorted (map key_num (keys node))"
    and "1 \<le> i" and "length (keys node) < n + i" and "0 < n"
  shows "scan_keys n j key i node pid crumbs t = Inr (node, pid, crumbs, t)"
  using assms(4-6)
proof (induction n arbitrary: i)
  case (Suc n)
  show ?case
  proof (cases "i < length (keys node)")
    case True
    have sz: "key_of_size L (keys node ! (i - 1))" "key_of_size L (keys node ! i)"
      using assms(1) True by (simp_all add: list_all_length)
    have le: "key_num (keys node ! (i - 1)) \<le> key_num (keys node ! i)"
      using sorted_nth_mono [OF assms(3), of "i - 1" i] True by simp
    have i: "i - 1 < length (keys node)" using True by simp
    have "scan_keys (Suc n) j key i node pid crumbs t = scan_keys n j key (i + 1) node pid crumbs t"
      using True le i cmpKeys_num [OF sz(1) assms(2)] cmpKeys_num [OF sz(2) assms(2)] by (simp add: at_def)
    also have "\<dots> = Inr (node, pid, crumbs, t)" using Suc.prems True by (intro Suc.IH) simp_all
    finally show ?thesis .
  qed simp
qed simp

text \<open>The step from an internal node with sorted keys to a leaf.\<close>

lemma descend:
  assumes rt: "\<not> is_leaf rt" "keys rt \<noteq> []" "length (keys rt) < 65536" "list_all (key_of_size L) (keys rt)"
      "sorted (map key_num (keys rt))" "vals rt = InternalChildren (c0 # cs)"
    and key: "key_of_size L key" and child: "child = (if key_num key < key_num (hd (keys rt)) then c0 else rightmost_ptr rt)"
    and f: "fetch_node j child t = Inr (leaf, child, t')" "is_leaf leaf"
  shows "findLeaf_loop (Suc fuel) j key rt p crumbs t =
    Inr (leaf, (p, if key_num key < key_num (hd (keys rt)) then 0 else - 1) # crumbs, child, t')"
proof -
  have leaf: "findLeaf_loop fuel j key leaf child c t' = Inr (leaf, c, child, t')" for c
    using f(2) by (cases fuel) simp_all
  have first: "at (keys rt) 0 = Inr (hd (keys rt))" "key_of_size L (hd (keys rt))"
    using rt(2,4) by (cases "keys rt"; simp add: at_def)+
  have scan: "scan_keys 65535 j key 1 rt p crumbs t = Inr (rt, p, crumbs, t)"
    using rt(3) by (intro scan_sorted [OF rt(4) key rt(5)]) simp_all
  show ?thesis
  proof (cases "key_num key < key_num (hd (keys rt))")
    case True
    then show ?thesis using rt(1,6) first cmpKeys_num [OF first(2) key] f(1) leaf child by (simp add: at_def)
  next
    case False
    then have "cmpKeys (hd (keys rt)) key = Inr (if key_num (hd (keys rt)) < key_num key then - 1 else 0)"
      using cmpKeys_num [OF first(2) key] by simp
    with False show ?thesis using rt(1) first(1) f(1) leaf child scan by simp
  qed
qed

text \<open>
  Where the search goes from an internal root with sorted keys, one level above the leaves: to the first child
  when the key is below the first separator, and to the rightmost child for every other key. With one
  separator this is the right leaf; with more, the children between are never visited, since the condition that
  should find them compares the wrong way round.
\<close>

lemma findLeaf_visits_first_or_rightmost:
  assumes rest: "at_rest (j_page j) (bt_pool t)" and root: "node_on_disk (bt_pool t) (root_pid t) rt" "unat (root_pid t) < 10000"
    and rt: "\<not> is_leaf rt" "keys rt \<noteq> []" "length (keys rt) < 65536" "list_all (key_of_size L) (keys rt)"
      "sorted (map key_num (keys rt))" "vals rt = InternalChildren (c0 # cs)"
    and key: "key_of_size L key"
    and child: "child = (if key_num key < key_num (hd (keys rt)) then c0 else rightmost_ptr rt)"
      "node_on_disk (bt_pool t) child leaf" "is_leaf leaf" "child \<noteq> root_pid t" "unat child < 10000"
  shows "\<exists>t'. findLeaf (Suc fuel) j key [] t =
    Inr (leaf, [(root_pid t, if key_num key < key_num (hd (keys rt)) then 0 else - 1)], child, t')"
proof -
  let ?p = "root_pid t"
  have "of_nat (unat ?p) \<in> disk_pages (bt_pool t)" "deserialize (disk_page (bt_pool t) (unat ?p)) = Inr rt"
    using root(1) by (simp_all add: node_on_disk_def)
  from fetch_node_rest [OF rest root(2) this] obtain st where
    st: "fetch_node j ?p t = Inr (rt, ?p, t\<lparr>bt_pool := st\<rparr>)" "holding (j_page j) st (unat ?p)"
      "p_files st = p_files (bt_pool t)" "disk_manager (p_bpm st) = disk_manager (p_bpm (bt_pool t))" by auto
  let ?t = "t\<lparr>bt_pool := st\<rparr>"
  have "holding (j_page j) (bt_pool ?t) (unat ?p)" "unat child \<noteq> unat ?p" "node_on_disk (bt_pool ?t) child leaf"
    using st(2) child(2,4) same_disk(3) [OF st(3,4)] by (simp_all add: word_unat_eq_iff)
  from fetch_node_holding [OF this(1,2) child(5) this(3)] obtain t' where f: "fetch_node j child ?t = Inr (leaf, child, t')" by blast
  from descend [OF rt key child(1) f child(3), of fuel ?p "[]"] show ?thesis using st(1) by (simp add: findLeaf_def)
qed

section \<open>Removal\<close>

lemma key_eq_num:
  assumes "key_of_size L a" and "key_of_size L b"
  shows "key_eq a b = Inr (key_num a = key_num b)"
proof -
  have "key_length a = key_length b" using assms by (simp add: key_of_size_def word_unat_eq_iff)
  then have "key_eq a b = and_then (cmpKeys a b) (\<lambda>c. Inr (c = 0))" by (simp add: key_eq_def cmpKeys_def)
  then show ?thesis using cmpKeys_num [OF assms] by simp
qed

lemma key_index_find:
  assumes "list_all (key_of_size L) ks" and "key_of_size L key"
  shows "\<exists>i \<le> length ks. key_index key ks = Inr i \<and> (i < length ks \<longrightarrow> key_num (ks ! i) = key_num key) \<and>
    (i = length ks \<longrightarrow> key_num key \<notin> key_num ` set ks)"
  using assms(1)
proof (induction ks)
  case (Cons k ks)
  then have k: "key_eq k key = Inr (key_num k = key_num key)" using key_eq_num [of L k key] assms(2) by simp
  show ?case
  proof (cases "key_num k = key_num key")
    case False
    from Cons obtain i where "i \<le> length ks" "key_index key ks = Inr i" "i < length ks \<longrightarrow> key_num (ks ! i) = key_num key"
      "i = length ks \<longrightarrow> key_num key \<notin> key_num ` set ks" by auto
    then show ?thesis using k False by (intro exI [of _ "Suc i"]) auto
  qed (use k in auto)
qed simp

lemma map_of_erase:
  assumes "length ks = length vs" and "i < length ks" and "distinct ks"
  shows "map_of (zip (take i ks @ drop (Suc i) ks) (take i vs @ drop (Suc i) vs)) = (map_of (zip ks vs))(ks ! i := None)"
proof -
  let ?a = "zip (take i ks) (take i vs)" and ?b = "zip (drop (Suc i) ks) (drop (Suc i) vs)" and ?x = "ks ! i"
  have s: "ks = take i ks @ ?x # drop (Suc i) ks" "vs = take i vs @ vs ! i # drop (Suc i) vs"
    using assms(1,2) by (simp_all add: id_take_nth_drop)
  have "zip ks vs = zip (take i ks @ ?x # drop (Suc i) ks) (take i vs @ vs ! i # drop (Suc i) vs)" using s by metis
  also have "\<dots> = ?a @ (?x, vs ! i) # ?b" using assms(1,2) by (subst zip_append) simp_all
  finally have z: "zip ks vs = ?a @ (?x, vs ! i) # ?b" .
  have "distinct (take i ks @ ?x # drop (Suc i) ks)" using s(1) assms(3) by metis
  then have "?x \<notin> set (take i ks)" "?x \<notin> set (drop (Suc i) ks)" by auto
  then have "?x \<notin> fst ` set ?a" "?x \<notin> fst ` set ?b" by (auto dest!: set_zip_leftD)
  then have n: "map_of ?a ?x = None" "map_of ?b ?x = None" by (simp_all add: map_of_eq_None_iff)
  have "zip (take i ks @ drop (Suc i) ks) (take i vs @ drop (Suc i) vs) = ?a @ ?b" using assms(1) by simp
  then show ?thesis unfolding z using n by (intro ext) (auto simp: map_add_def split: option.splits)
qed

text \<open>Taking out the pair at index \<open>i\<close>.\<close>

definition drop_pair :: "nat \<Rightarrow> BTreePage \<Rightarrow> BTreePage" where
  "drop_pair i n = n\<lparr>keys := take i (keys n) @ drop (Suc i) (keys n),
     vals := LeafRecords (take i (records n) @ drop (Suc i) (records n))\<rparr>"

lemma drop_pair_ok:
  assumes ok: "leaf_ok L n" and i: "i < length (keys n)"
  shows "leaf_ok L (drop_pair i n)" and "leaf_map (drop_pair i n) = (leaf_map n)(key_num (keys n ! i) := None)"
    and "length (keys (drop_pair i n)) \<le> length (keys n)"
proof -
  let ?ks = "map key_num (keys n)"
  have h: "length (records n) = length (keys n)" "list_all (key_of_size L) (keys n)" "sorted ?ks" "distinct ?ks" "is_leaf n"
    using ok by (simp_all add: leaf_ok_def)
  have rec: "records (drop_pair i n) = take i (records n) @ drop (Suc i) (records n)" by (simp add: records_def drop_pair_def)
  have ks: "map key_num (keys (drop_pair i n)) = take i ?ks @ drop (Suc i) ?ks" by (simp add: drop_pair_def take_map drop_map)
  have split: "?ks = take i ?ks @ ?ks ! i # drop (Suc i) ?ks" using i by (intro id_take_nth_drop) simp
  have "sorted (take i ?ks @ ?ks ! i # drop (Suc i) ?ks)" "distinct (take i ?ks @ ?ks ! i # drop (Suc i) ?ks)"
    using h(3,4) split by metis+
  then have "sorted (take i ?ks @ drop (Suc i) ?ks)" "distinct (take i ?ks @ drop (Suc i) ?ks)" by (auto simp: sorted_append)
  moreover have "list_all (key_of_size L) (keys (drop_pair i n))"
    using h(2) by (auto simp: drop_pair_def list_all_iff dest: in_set_takeD in_set_dropD)
  moreover have "length (records (drop_pair i n)) = length (keys (drop_pair i n))" using h(1) rec by (simp add: drop_pair_def)
  ultimately show "leaf_ok L (drop_pair i n)"
    unfolding leaf_ok_def ks using h(5) rec by (simp add: drop_pair_def)
  show "leaf_map (drop_pair i n) = (leaf_map n)(key_num (keys n ! i) := None)"
    unfolding leaf_map_def ks rec using map_of_erase [of ?ks "records n" i] h(1,4) i by simp
  show "length (keys (drop_pair i n)) \<le> length (keys n)" using i by (simp add: drop_pair_def)
qed

lemma find_to_remove:
  assumes t: "leaf_tree L j t n" and key: "key_of_size L key"
  obtains i st where "i \<le> length (keys n)" and "i < length (keys n) \<longleftrightarrow> key_num key \<in> dom (leaf_map n)"
    and "i < length (keys n) \<Longrightarrow> key_num (keys n ! i) = key_num key" and "holding (j_page j) st (unat (root_pid t))"
    and "btree_remove fuel j key t =
      and_then (erase (keys n) i) (\<lambda>ks. and_then (erase (records n) i) (\<lambda>vs.
        persist j (root_pid t) (n\<lparr>keys := ks, vals := LeafRecords vs\<rparr>) (t\<lparr>bt_pool := st\<rparr>)))"
proof -
  have ok: "leaf_ok L n" using t by (simp add: leaf_tree_def)
  then have h: "list_all (key_of_size L) (keys n)" "length (records n) = length (keys n)" "LEAF_RECORDS (vals n) = Inr (records n)"
    by (auto simp: leaf_ok_def)
  then have dom: "dom (leaf_map n) = key_num ` set (keys n)" by (simp add: leaf_map_def dom_map_of_zip)
  from find_root_leaf [OF t, of fuel key] obtain st where
    st: "findLeaf fuel j key [] t = Inr (n, [], root_pid t, t\<lparr>bt_pool := st\<rparr>)" "holding (j_page j) st (unat (root_pid t))" by blast
  from key_index_find [OF h(1) key] obtain i where
    i: "i \<le> length (keys n)" "key_index key (keys n) = Inr i" "i < length (keys n) \<longrightarrow> key_num (keys n ! i) = key_num key"
      "i = length (keys n) \<longrightarrow> key_num key \<notin> key_num ` set (keys n)" by blast
  have m: "i < length (keys n) \<longleftrightarrow> key_num key \<in> dom (leaf_map n)"
  proof
    assume "i < length (keys n)"
    then have "key_num key = key_num (keys n ! i)" "keys n ! i \<in> set (keys n)" using i(3) by simp_all
    then show "key_num key \<in> dom (leaf_map n)" unfolding dom by (rule image_eqI)
  next
    assume "key_num key \<in> dom (leaf_map n)"
    then show "i < length (keys n)" using i(1,4) dom le_neq_implies_less by blast
  qed
  have e: "and_then x (\<lambda>t. Inr t) = x" for x :: "BTree res" by (cases x) simp_all
  show thesis using that [OF i(1) m _ st(2)] i(3) st(1) h(3) i(2) by (simp add: btree_remove_def e)
qed

lemma remove_leaf_tree:
  assumes t: "leaf_tree L j t n" "leaf_fits L (length (keys n))" and key: "key_of_size L key" "key_num key \<in> dom (leaf_map n)"
  shows "\<exists>t' n'. btree_remove fuel j key t = Inr t' \<and> leaf_tree L j t' n' \<and>
    leaf_map n' = (leaf_map n)(key_num key := None) \<and> length (keys n') \<le> length (keys n) \<and> t' = t\<lparr>bt_pool := bt_pool t'\<rparr>"
proof -
  have ok: "leaf_ok L n" "0 < L" "length (records n) = length (keys n)" using t(1) by (simp_all add: leaf_tree_def leaf_ok_def)
  from find_to_remove [OF t(1) key(1), of fuel] key(2) obtain i st where
    i: "i < length (keys n)" "key_num (keys n ! i) = key_num key" "holding (j_page j) st (unat (root_pid t))"
      "btree_remove fuel j key t = and_then (erase (keys n) i) (\<lambda>ks. and_then (erase (records n) i) (\<lambda>vs.
        persist j (root_pid t) (n\<lparr>keys := ks, vals := LeafRecords vs\<rparr>) (t\<lparr>bt_pool := st\<rparr>)))" by metis
  note dp = drop_pair_ok [OF ok(1) i(1)]
  have "leaf_fits L (length (keys (drop_pair i n)))"
    using leaf_fits_mono [OF t(2) dp(3)] .
  note nf = leaf_node_ok [OF dp(1) ok(2)] leaf_node_fits [OF dp(1) this]
  have "holding (j_page j) (bt_pool (t\<lparr>bt_pool := st\<rparr>)) (unat (root_pid t))" using i(3) by simp
  from persist_held [OF this nf] obtain s d where
    s: "persist j (root_pid t) (drop_pair i n) (t\<lparr>bt_pool := st\<rparr>) = Inr (t\<lparr>bt_pool := s\<rparr>)" "at_rest (j_page j) s"
      "stored (root_pid t) d st s" "deserialize d = Inr (drop_pair i n)" by auto
  have "btree_remove fuel j key t = Inr (t\<lparr>bt_pool := s\<rparr>)"
    using i(1,4) ok(3) s(1) by (simp add: erase_def drop_pair_def)
  moreover have "leaf_tree L j (t\<lparr>bt_pool := s\<rparr>) (drop_pair i n)"
    using t(1) s(2) stored_node(1) [OF s(3,4)] dp(1) by (simp add: leaf_tree_def)
  ultimately show ?thesis using dp(2,3) i(2) by (intro exI [of _ "t\<lparr>bt_pool := s\<rparr>"] exI [of _ "drop_pair i n"]) simp
qed

text \<open>
  C15. Removing from a tree of one leaf refines the deletion from a finite map: a key that is there is removed, the
  leaf on disk stays sorted and the pool is at rest. For a key that is not there the code erases past the end of
  the vector. All keys have the same length.
\<close>

theorem remove_refines_map_delete:
  assumes t: "leaf_tree L j t n" "leaf_fits L (length (keys n))" and key: "key_of_size L key"
  shows "if key_num key \<in> dom (leaf_map n)
    then \<exists>t' n'. btree_remove fuel j key t = Inr t' \<and> leaf_tree L j t' n' \<and> leaf_map n' = (leaf_map n)(key_num key := None)
    else btree_remove fuel j key t = Inl OutOfBounds"
proof (cases "key_num key \<in> dom (leaf_map n)")
  case True
  with remove_leaf_tree [OF t key True, of fuel] show ?thesis by auto
next
  case False
  from find_to_remove [OF t(1) key, of fuel] False show ?thesis by (auto simp: erase_def)
qed

section \<open>Merging\<close>

text \<open>
  Merging an internal node with its right sibling always throws: the keys of both and the demoted one are
  collected, but the rightmost pointer of the node is not added to the values, so writing the node asks for a value
  that is not there. The node and its sibling have one value per key and together fit a node.
\<close>

lemma merge_inner_right_throws:
  assumes nv: "vals (l_node l) = InternalChildren nv" "length nv = length (keys (l_node l))" "\<not> is_leaf (l_node l)"
    and sv: "vals (l_sibling l) = InternalChildren sv" "length sv = length (keys (l_sibling l))"
    and idx: "snd crumb = int i" "i < length (keys (l_parent l))"
    and fits: "length (keys (l_node l)) + length (keys (l_sibling l)) + 1 \<le> unat (max_size t)"
  shows "MergeNonLeaf_merge j crumb False l t = Inl StdOutOfRange"
proof -
  let ?n = "length (keys (l_node l)) + length (keys (l_sibling l))"
  have "unat (of_nat (length (keys (l_node l)) + 1 + length (keys (l_sibling l)) + 1) :: u16) = ?n + 2"
    using fits unat_bounds(1) [of "max_size t"] by (subst unat_of_nat) simp
  then have go: "\<not> unat (max_size t) + 1 < unat (of_nat (length (keys (l_node l)) + 1 + length (keys (l_sibling l)) + 1) :: u16)"
    using fits by simp
  let ?k = "keys (l_parent l) ! i"
  let ?node = "(l_node l)\<lparr>keys := keys (l_node l) @ ?k # keys (l_sibling l), rightmost_ptr := rightmost_ptr (l_sibling l),
    vals := InternalChildren (nv @ sv)\<rparr>"
  have len: "length (keys ?node) = Suc ?n" by simp
  have "at (keys ?node) ?n = Inr (keys ?node ! ?n)" "val_bytes ?node ?n = Inl StdOutOfRange"
    using nv(2,3) sv(2) by (simp_all add: at_def val_bytes_def)
  then have "serialize_loop ?node (length (keys ?node)) a b c = Inl StdOutOfRange" for a b c
    unfolding len serialize_loop.simps by simp
  then have "serialize (j_page j) ?node = Inl StdOutOfRange" by (simp add: serialize_def)
  then have "persist j (l_node_pid l) ?node t = Inl StdOutOfRange" by (simp add: persist_def)
  then have "merge_inner_right j i l t = Inl StdOutOfRange"
    using nv(1) sv(1) idx(2) by (simp add: merge_inner_right_def at_def erase_def Let_def)
  then show ?thesis using go idx(1) by (simp add: MergeNonLeaf_merge_def Let_def)
qed

text \<open>The node with its last child dropped, as the comment in the code says.\<close>

definition pop_child :: "BTreePage \<Rightarrow> BTreePage" where
  "pop_child n = (case vals n of InternalChildren cs \<Rightarrow> n\<lparr>vals := InternalChildren (butlast cs)\<rparr> | _ \<Rightarrow> n)"

lemma serialize_loop_pop:
  assumes "vals n = InternalChildren cs" and "length cs = Suc (length (keys n))" and "\<not> is_leaf n" and "i \<le> length (keys n)"
  shows "serialize_loop (pop_child n) i a b data = serialize_loop n i a b data"
  using assms(4)
proof (induction i arbitrary: a b data)
  case 0
  show ?case by (simp add: serialize_loop.simps)
next
  case (Suc i)
  have p: "pop_child n = n\<lparr>vals := InternalChildren (butlast cs)\<rparr>" using assms(1) by (simp add: pop_child_def)
  have v: "val_bytes (pop_child n) i = val_bytes n i"
    using assms(1-3) Suc.prems by (simp add: p val_bytes_def at_def nth_butlast)
  have k: "keys (pop_child n) = keys n" by (simp add: p)
  show ?case unfolding serialize_loop.simps v k using Suc by (simp cong: and_then_cong)
qed

text \<open>
  C32. Splitting the values of an internal node: the code drops the last child of a copy instead of the node, but the
  bytes that are written are the same, since only as many children are written as there are keys.
\<close>

theorem internal_split_equivalent:
  assumes "\<not> is_leaf n" and "\<not> is_leaf e" and "vals n = InternalChildren cs" and "length cs = length (keys n)" and "keys n \<noteq> []"
  shows "\<exists>r l. redistribute_kv False e n = Inr (r, l) \<and> serialize junk l = serialize junk (pop_child l) \<and>
    vals (pop_child l) = InternalChildren (take (length (keys n) div 2) cs) \<and>
    rightmost_ptr l = cs ! (length (keys n) div 2) \<and> rightmost_ptr r = rightmost_ptr n \<and>
    keys l @ keys n ! (length (keys n) div 2) # keys r = keys n"
proof -
  let ?h = "length (keys n) div 2"
  have h: "?h < length (keys n)" using assms(5) by (cases "keys n") simp_all
  let ?l = "n\<lparr>keys := take ?h (keys n), vals := InternalChildren (take (Suc ?h) cs), rightmost_ptr := cs ! ?h\<rparr>"
  let ?r = "e\<lparr>keys := drop (Suc ?h) (keys n), vals := InternalChildren (drop (Suc ?h) cs), rightmost_ptr := rightmost_ptr n\<rparr>"
  have len: "length (take (Suc ?h) cs) = Suc ?h" by (metis h assms(4) Suc_leI length_take min.absorb2)
  have "redistribute_kv False e n = Inr (?r, ?l)"
    using h assms(2-4) by (simp add: redistribute_kv_def redistribute_kv_u32_def vec_second_half_def vec_first_half_def at_def)
  moreover have "serialize junk ?l = serialize junk (pop_child ?l)"
  proof -
    have "serialize_loop (pop_child ?l) (length (keys ?l)) a b d = serialize_loop ?l (length (keys ?l)) a b d" for a b d
      using h assms(1,4) by (intro serialize_loop_pop [where cs = "take (Suc ?h) cs"]) (simp_all only: len, simp_all)
    then show ?thesis by (simp add: serialize_def pop_child_def)
  qed
  moreover have "butlast (take (Suc ?h) cs) = take ?h cs" using h assms(4) by (simp add: butlast_take)
  ultimately show ?thesis using h by (intro exI [of _ ?r] exI [of _ ?l]) (simp add: pop_child_def id_take_nth_drop [symmetric])
qed

section \<open>Witnesses\<close>

theorem remove_refines_map_delete_witness:
  "\<exists>t t'. btree_insert 0 demo_j (demo_key 5) demo_rid (demo_tree\<lparr>max_size := 3\<rparr>) = Inr (1, t) \<and>
    btree_remove 0 demo_j (demo_key 5) t = Inr t' \<and> btree_remove 0 demo_j (demo_key 6) t = Inl OutOfBounds"
proof -
  have "0 < unat (3 :: u8)" by simp
  from demo_leaf_tree [OF this] obtain t n where
    t: "btree_insert 0 demo_j (demo_key 5) demo_rid (demo_tree\<lparr>max_size := 3\<rparr>) = Inr (1, t)" "leaf_tree 1 demo_j t n"
      "leaf_map n = [5 \<mapsto> demo_rid]" "length (keys n) = 1" by blast
  have "leaf_fits 1 (length (keys n))" using t(4) demo_fits by simp
  note rm = remove_refines_map_delete [OF t(2) this demo_key_ok(1), where fuel = 0]
  from rm [of 5] obtain t' where "btree_remove 0 demo_j (demo_key 5) t = Inr t'" by (auto simp: t(3) demo_key_ok)
  moreover from rm [of 6] have "btree_remove 0 demo_j (demo_key 6) t = Inl OutOfBounds" by (simp add: t(3) demo_key_ok)
  ultimately show ?thesis using t(1) by blast
qed

definition demo_inner :: "BTreeKey list \<Rightarrow> u32 list \<Rightarrow> BTreePage" where
  "demo_inner ks cs = \<lparr>is_leaf = False, keys = ks, flags = 0, rightmost_ptr = 9, next_pid = 0, vals = InternalChildren cs\<rparr>"

theorem internal_split_equivalent_witness:
  "\<exists>r l. redistribute_kv False (fresh_node demo_j False) (demo_inner [demo_key 1, demo_key 2, demo_key 3] [4, 5, 6]) = Inr (r, l) \<and>
    serialize demo_junk l = serialize demo_junk (pop_child l) \<and> rightmost_ptr l = 5 \<and> rightmost_ptr r = 9"
  using internal_split_equivalent [of "demo_inner [demo_key 1, demo_key 2, demo_key 3] [4, 5, 6]" "fresh_node demo_j False"
      "[4, 5, 6]" demo_junk]
  by (auto simp: demo_inner_def fresh_node_def new_BTreePage_def)

end
