(* ===== verification/Btree_Index.thy ===== *)
theory Btree_Index
  imports Btree_Remove
begin

text \<open>
  The contract of an index: a store that stands for a finite map, takes new keys up to a capacity and gives up keys
  it has. What a client may do with it is proved once in the locale; the tree of one leaf provides the contract.
\<close>

section \<open>Sequences of commands\<close>

datatype ('k, 'v) command = Put 'k 'v | Del 'k

fun run_commands :: "('k \<Rightarrow> 'v \<Rightarrow> 's \<Rightarrow> 's res) \<Rightarrow> ('k \<Rightarrow> 's \<Rightarrow> 's res) \<Rightarrow> ('k, 'v) command list \<Rightarrow> 's \<Rightarrow> 's res" where
  "run_commands put_op del_op [] s = Inr s"
| "run_commands put_op del_op (Put k v # cs) s = and_then (put_op k v s) (run_commands put_op del_op cs)"
| "run_commands put_op del_op (Del k # cs) s = and_then (del_op k s) (run_commands put_op del_op cs)"

text \<open>What the commands mean for the map, and when each of them is allowed.\<close>

fun commands_map :: "('k \<Rightarrow> nat) \<Rightarrow> ('k, 'v) command list \<Rightarrow> (nat \<rightharpoonup> 'v) \<Rightarrow> (nat \<rightharpoonup> 'v)" where
  "commands_map num [] m = m"
| "commands_map num (Put k v # cs) m = commands_map num cs (m(num k \<mapsto> v))"
| "commands_map num (Del k # cs) m = commands_map num cs (m(num k := None))"

fun allowed :: "('k \<Rightarrow> bool) \<Rightarrow> ('k \<Rightarrow> nat) \<Rightarrow> nat \<Rightarrow> ('k, 'v) command list \<Rightarrow> (nat \<rightharpoonup> 'v) \<Rightarrow> bool" where
  "allowed ok num cap [] m \<longleftrightarrow> True"
| "allowed ok num cap (Put k v # cs) m \<longleftrightarrow>
     ok k \<and> num k \<notin> dom m \<and> card (dom m) < cap \<and> allowed ok num cap cs (m(num k \<mapsto> v))"
| "allowed ok num cap (Del k # cs) m \<longleftrightarrow> ok k \<and> num k \<in> dom m \<and> allowed ok num cap cs (m(num k := None))"

locale key_store =
  fixes sinv :: "'s \<Rightarrow> bool" and view :: "'s \<Rightarrow> nat \<rightharpoonup> 'v" and cap :: "'s \<Rightarrow> nat"
    and num :: "'k \<Rightarrow> nat" and ok :: "'k \<Rightarrow> bool"
    and put_op :: "'k \<Rightarrow> 'v \<Rightarrow> 's \<Rightarrow> 's res" and del_op :: "'k \<Rightarrow> 's \<Rightarrow> 's res"
  assumes put_new: "sinv s \<Longrightarrow> ok k \<Longrightarrow> num k \<notin> dom (view s) \<Longrightarrow> card (dom (view s)) < cap s \<Longrightarrow>
      \<exists>s'. put_op k v s = Inr s' \<and> sinv s' \<and> view s' = (view s)(num k \<mapsto> v) \<and> cap s' = cap s"
    and del_old: "sinv s \<Longrightarrow> ok k \<Longrightarrow> num k \<in> dom (view s) \<Longrightarrow>
      \<exists>s'. del_op k s = Inr s' \<and> sinv s' \<and> view s' = (view s)(num k := None) \<and> cap s' = cap s"
begin

lemma run_refines:
  assumes "sinv s" and "allowed ok num (cap s) cs (view s)"
  shows "\<exists>s'. run_commands put_op del_op cs s = Inr s' \<and> sinv s' \<and> view s' = commands_map num cs (view s) \<and> cap s' = cap s"
  using assms
proof (induction cs arbitrary: s)
  case (Cons c cs)
  show ?case
  proof (cases c)
    case (Put k v)
    with Cons.prems put_new [of s k v] obtain s1 where
      s1: "put_op k v s = Inr s1" "sinv s1" "view s1 = (view s)(num k \<mapsto> v)" "cap s1 = cap s" by auto
    have "allowed ok num (cap s1) cs (view s1)" using Cons.prems(2) Put s1(3,4) by simp
    from Cons.IH [OF s1(2) this] show ?thesis by (simp only: Put run_commands.simps commands_map.simps s1 and_then_simps)
  next
    case (Del k)
    with Cons.prems del_old [of s k] obtain s1 where
      s1: "del_op k s = Inr s1" "sinv s1" "view s1 = (view s)(num k := None)" "cap s1 = cap s" by auto
    have "allowed ok num (cap s1) cs (view s1)" using Cons.prems(2) Del s1(3,4) by simp
    from Cons.IH [OF s1(2) this] show ?thesis by (simp only: Del run_commands.simps commands_map.simps s1 and_then_simps)
  qed
qed simp

end

section \<open>The tree of one leaf\<close>

definition root_leaf :: "BTree \<Rightarrow> BTreePage" where
  "root_leaf t =
     (case deserialize (disk_page (bt_pool t) (unat (root_pid t))) of
        Inr n \<Rightarrow> n
      | Inl _ \<Rightarrow> \<lparr>is_leaf = True, keys = [], flags = 0, rightmost_ptr = 0, next_pid = 0, vals = LeafRecords []\<rparr>)"

definition tree_put :: "nat \<Rightarrow> Junk \<Rightarrow> BTreeKey \<Rightarrow> NodeRID \<Rightarrow> BTree \<Rightarrow> BTree res" where
  "tree_put fuel j key val t = and_then (btree_insert fuel j key val t) (\<lambda>(_, t). Inr t)"

definition tree_inv :: "nat \<Rightarrow> Junk \<Rightarrow> BTree \<Rightarrow> bool" where
  "tree_inv L j t \<longleftrightarrow>
     leaf_tree L j t (root_leaf t) \<and> length (keys (root_leaf t)) \<le> unat (max_size t) \<and> leaf_fits L (unat (max_size t))"

lemma root_leaf_eq: "leaf_tree L j t n \<Longrightarrow> root_leaf t = n"
  by (simp add: leaf_tree_def node_on_disk_def root_leaf_def)

lemma tree_invI:
  assumes "leaf_tree L j t n" and "length (keys n) \<le> unat (max_size t)" and "leaf_fits L (unat (max_size t))"
  shows "tree_inv L j t"
  using assms root_leaf_eq [OF assms(1)] by (simp add: tree_inv_def)

lemma card_leaf_map: "leaf_ok L n \<Longrightarrow> card (dom (leaf_map n)) = length (keys n)"
  by (simp add: leaf_ok_def leaf_map_def dom_map_of_zip distinct_card flip: set_map)

interpretation one_leaf: key_store "tree_inv L j" "\<lambda>t. leaf_map (root_leaf t)" "\<lambda>t. unat (max_size t)"
  key_num "key_of_size L" "tree_put fuel j" "btree_remove fuel j" for L j fuel
proof unfold_locales
  fix t k v
  assume inv: "tree_inv L j t" and k: "key_of_size L k" and new: "key_num k \<notin> dom (leaf_map (root_leaf t))"
    and room: "card (dom (leaf_map (root_leaf t))) < unat (max_size t)"
  let ?n = "root_leaf t"
  have lt: "leaf_tree L j t ?n" and ok: "leaf_ok L ?n" and fits: "leaf_fits L (unat (max_size t))"
    using inv by (simp_all add: tree_inv_def leaf_tree_def)
  have len: "length (keys ?n) < unat (max_size t)" using room card_leaf_map [OF ok] by simp
  then have "leaf_fits L (Suc (length (keys ?n)))" using fits leaf_fits_mono by simp
  from insert_leaf_tree [OF lt k new len this, of fuel v] obtain t' n' where
    t': "btree_insert fuel j k v t = Inr (root_pid t, t')" "leaf_tree L j t' n'" "leaf_map n' = (leaf_map ?n)(key_num k \<mapsto> v)"
      "length (keys n') = Suc (length (keys ?n))" "t' = t\<lparr>bt_pool := bt_pool t'\<rparr>" by blast
  have m: "max_size t' = max_size t" using arg_cong [OF t'(5), of max_size] by simp
  then have "tree_inv L j t'" using tree_invI [OF t'(2)] t'(4) len fits by simp
  then show "\<exists>s'. tree_put fuel j k v t = Inr s' \<and> tree_inv L j s' \<and>
      leaf_map (root_leaf s') = (leaf_map (root_leaf t))(key_num k \<mapsto> v) \<and> unat (max_size s') = unat (max_size t)"
    using t'(1,3) m root_leaf_eq [OF t'(2)] by (simp add: tree_put_def)
next
  fix t k
  assume inv: "tree_inv L j t" and k: "key_of_size L k" and old: "key_num k \<in> dom (leaf_map (root_leaf t))"
  let ?n = "root_leaf t"
  have lt: "leaf_tree L j t ?n" and len: "length (keys ?n) \<le> unat (max_size t)" and fits: "leaf_fits L (unat (max_size t))"
    using inv by (simp_all add: tree_inv_def)
  from remove_leaf_tree [OF lt leaf_fits_mono [OF fits len] k old, of fuel] obtain t' n' where
    t': "btree_remove fuel j k t = Inr t'" "leaf_tree L j t' n'" "leaf_map n' = (leaf_map ?n)(key_num k := None)"
      "length (keys n') \<le> length (keys ?n)" "t' = t\<lparr>bt_pool := bt_pool t'\<rparr>" by blast
  have m: "max_size t' = max_size t" using arg_cong [OF t'(5), of max_size] by simp
  then have "tree_inv L j t'" using tree_invI [OF t'(2)] t'(4) len fits by simp
  then show "\<exists>s'. btree_remove fuel j k t = Inr s' \<and> tree_inv L j s' \<and>
      leaf_map (root_leaf s') = (leaf_map (root_leaf t))(key_num k := None) \<and> unat (max_size s') = unat (max_size t)"
    using t'(1,3) m root_leaf_eq [OF t'(2)] by simp
qed

text \<open>
  C3. On a tree of one leaf, any sequence of insertions of new keys and removals of present keys, all keys of one length, refines the same sequence of updates of a
  finite map, as long as the tree never has more keys than its limit and that many fit a page: every call
  succeeds, and after the sequence the leaf on disk stands for the resulting map.
\<close>

theorem tree_refines_map:
  assumes "leaf_tree L j t n" and "length (keys n) \<le> unat (max_size t)" and "leaf_fits L (unat (max_size t))"
    and "allowed (key_of_size L) key_num (unat (max_size t)) cs (leaf_map n)"
  shows "\<exists>t' n'. run_commands (tree_put fuel j) (btree_remove fuel j) cs t = Inr t' \<and> leaf_tree L j t' n' \<and>
    leaf_map n' = commands_map key_num cs (leaf_map n)"
proof -
  have "tree_inv L j t" using tree_invI [OF assms(1-3)] .
  from one_leaf.run_refines [OF this, of cs fuel] assms(4) obtain t' where
    t': "run_commands (tree_put fuel j) (btree_remove fuel j) cs t = Inr t'" "tree_inv L j t'"
      "leaf_map (root_leaf t') = commands_map key_num cs (leaf_map n)" unfolding root_leaf_eq [OF assms(1)] by blast
  then show ?thesis by (auto simp: tree_inv_def)
qed

theorem tree_refines_map_witness:
  "\<exists>t t' n'. btree_insert 0 demo_j (demo_key 5) demo_rid (demo_tree\<lparr>max_size := 3\<rparr>) = Inr (1, t) \<and>
    run_commands (tree_put 0 demo_j) (btree_remove 0 demo_j)
      [Put (demo_key 7) demo_rid, Put (demo_key 2) demo_rid, Del (demo_key 5)] t = Inr t' \<and>
    leaf_tree 1 demo_j t' n' \<and> leaf_map n' = [7 \<mapsto> demo_rid, 2 \<mapsto> demo_rid]"
proof -
  have "0 < unat (3 :: u8)" by simp
  from demo_leaf_tree [OF this] obtain t n where
    t: "btree_insert 0 demo_j (demo_key 5) demo_rid (demo_tree\<lparr>max_size := 3\<rparr>) = Inr (1, t)" "leaf_tree 1 demo_j t n"
      "leaf_map n = [5 \<mapsto> demo_rid]" "length (keys n) = 1" "max_size t = 3" by blast
  let ?cs = "[Put (demo_key 7) demo_rid, Put (demo_key 2) demo_rid, Del (demo_key 5)]"
  have "allowed (key_of_size 1) key_num (unat (max_size t)) ?cs (leaf_map n)"
    using t(3,5) demo_key_ok(1) by (simp add: demo_key_ok(2) card_insert_if)
  moreover have "length (keys n) \<le> unat (max_size t)" "leaf_fits 1 (unat (max_size t))" using t(4,5) demo_fits by simp_all
  ultimately obtain t' n' where
    "run_commands (tree_put 0 demo_j) (btree_remove 0 demo_j) ?cs t = Inr t'" "leaf_tree 1 demo_j t' n'"
    "leaf_map n' = commands_map key_num ?cs (leaf_map n)" using tree_refines_map [OF t(2)] by blast
  moreover have "commands_map key_num ?cs (leaf_map n) = [7 \<mapsto> demo_rid, 2 \<mapsto> demo_rid]"
    using t(3) by (auto simp: demo_key_ok(2) fun_eq_iff)
  ultimately show ?thesis using t(1) by auto
qed

end
