(* ===== verification/Btree_Pages.thy ===== *)
theory Btree_Pages
  imports Btree_Remove
begin

text \<open>
  Which pages the pool holds while an operation on the tree works on several of them. \<open>pool_layout\<close> says which page
  is in which frame; fetching and persisting a node change it in a predictable way, as long as the pool has more
  frames than the file has pages and the replacer can pin the first free frame.
\<close>

section \<open>Layouts\<close>

definition page_in :: "nat \<Rightarrow> Pool \<Rightarrow> tracked \<Rightarrow> nat \<Rightarrow> page_id_t \<Rightarrow> bool" where
  "page_in m st fs k q \<longleftrightarrow>
     k < pool_size (p_bpm st) \<and> unat q < pool_size (p_bpm st) \<and> unat q < 10000 \<and> q \<in> disk_pages st \<and> k \<notin> fst ` set fs \<and>
     bp_id (frame st k) = q \<and> pin_count (frame st k) \<le> int m \<and> bp_data (frame st k) = disk_page st (unat q)"

text \<open>\<open>occ\<close> maps the taken frames to their pages; no frame is pinned more than \<open>m\<close> times.\<close>

definition pool_layout :: "bytes \<Rightarrow> nat \<Rightarrow> Pool \<Rightarrow> tracked \<Rightarrow> (nat \<rightharpoonup> page_id_t) \<Rightarrow> bool" where
  "pool_layout junk m st fs occ \<longleftrightarrow>
     pool_wf junk st fs \<and> (\<forall>k < pool_size (p_bpm st). free_list (p_bpm st) ! k \<longleftrightarrow> occ k = None) \<and>
     (\<forall>p f. resident st p = Some f \<longleftrightarrow> (\<exists>q. occ (unat f) = Some q \<and> p = unat q)) \<and>
     (\<forall>k q. occ k = Some q \<longrightarrow> page_in m st fs k q)"

definition first_free :: "Pool \<Rightarrow> (nat \<rightharpoonup> page_id_t) \<Rightarrow> nat \<Rightarrow> bool" where
  "first_free st occ i \<longleftrightarrow> i < pool_size (p_bpm st) \<and> occ i = None \<and> (\<forall>k < i. occ k \<noteq> None)"

definition same_store :: "Pool \<Rightarrow> Pool \<Rightarrow> bool" where
  "same_store st st' \<longleftrightarrow>
     p_files st' = p_files st \<and> disk_manager (p_bpm st') = disk_manager (p_bpm st) \<and> pool_size (p_bpm st') = pool_size (p_bpm st)"

lemma same_storeD:
  assumes "same_store st st'"
  shows "disk_page st' p = disk_page st p" and "disk_pages st' = disk_pages st"
    and "node_on_disk st' q n = node_on_disk st q n" and "pool_size (p_bpm st') = pool_size (p_bpm st)"
    and "first_free st' occ i = first_free st occ i"
  using assms same_disk [of st' st] by (simp_all add: same_store_def first_free_def)

lemma layoutD:
  assumes "pool_layout junk m st fs occ"
  shows "pool_wf junk st fs" and "k < pool_size (p_bpm st) \<Longrightarrow> free_list (p_bpm st) ! k \<longleftrightarrow> occ k = None"
    and "resident st p = Some f \<longleftrightarrow> (\<exists>q. occ (unat f) = Some q \<and> p = unat q)"
    and "occ k = Some q \<Longrightarrow> page_in m st fs k q"
  using assms by (simp_all add: pool_layout_def)

lemma layout_frame:
  assumes lay: "pool_layout junk m st fs occ" and k: "occ k = Some q"
  shows "unat (of_nat k :: frame_id_t) = k" and "resident st (unat q) = Some (of_nat k)"
proof -
  have "k < 65536" using layoutD(4) [OF lay k] pool_wfD(2) [OF layoutD(1) [OF lay]] by (simp add: page_in_def)
  then show u: "unat (of_nat k :: frame_id_t) = k" by (rule small_frame)
  show "resident st (unat q) = Some (of_nat k)" using layoutD(3) [OF lay, of "unat q" "of_nat k"] u k by simp
qed

lemma layout_inj:
  assumes "pool_layout junk m st fs occ" and "occ k = Some q" and "occ i = Some q"
  shows "k = i"
  using layout_frame [OF assms(1,2)] layout_frame [OF assms(1,3)] by (metis option.inject)

lemma layout_absent:
  assumes lay: "pool_layout junk m st fs occ" and q: "q \<notin> ran occ"
  shows "resident st (unat q) = None"
proof (rule ccontr)
  assume "\<not> ?thesis"
  then obtain f where "resident st (unat q) = Some f" by auto
  with layoutD(3) [OF lay] obtain r where "occ (unat f) = Some r" "unat q = unat r" by blast
  then show False using q by (auto simp: word_unat_eq_iff [symmetric] intro: ranI)
qed

lemma layout_alone:
  assumes lay: "pool_layout junk m st fs occ" and q: "unat q < pool_size (p_bpm st)"
  shows "alone st (unat q)"
  unfolding alone_def
proof (intro allI impI)
  fix p
  assume p: "p \<noteq> unat q" "p mod pool_size (p_bpm st) = unat q mod pool_size (p_bpm st)"
  show "resident st p = None"
  proof (rule ccontr)
    assume "resident st p \<noteq> None"
    then obtain f where "resident st p = Some f" by auto
    with layoutD(3) [OF lay] obtain r where r: "occ (unat f) = Some r" "p = unat r" by blast
    have "p < pool_size (p_bpm st)" using layoutD(4) [OF lay r(1)] r(2) by (simp add: page_in_def)
    then show False using p q by simp
  qed
qed

lemma free_frame_first:
  assumes "i < length bs" and "bs ! i" and "\<forall>k < i. \<not> bs ! k"
  shows "free_frame bs n = Some (n + i)"
  using assms
proof (induction bs arbitrary: i n)
  case (Cons b bs)
  show ?case
  proof (cases i)
    case (Suc i')
    then have "\<not> b" "i' < length bs" "bs ! i'" "\<forall>k < i'. \<not> bs ! k" using Cons.prems by auto
    then show ?thesis using Cons.IH [of i' "Suc n"] Suc by simp
  qed (use Cons.prems in simp)
qed simp

lemma layout_free:
  assumes lay: "pool_layout junk m st fs occ" and i: "first_free st occ i"
  shows "free_frame (free_list (p_bpm st)) 0 = Some i"
proof -
  have n: "i < pool_size (p_bpm st)" using i by (simp add: first_free_def)
  have "free_list (p_bpm st) ! i" "\<forall>k < i. \<not> free_list (p_bpm st) ! k"
    using i n layoutD(2) [OF lay] by (auto simp: first_free_def)
  then show ?thesis using free_frame_first [of i "free_list (p_bpm st)" 0] n pool_wfD(4) [OF layoutD(1) [OF lay]] by simp
qed

section \<open>Fetching\<close>

lemma layout_hit:
  assumes lay: "pool_layout junk m st fs occ" and k: "occ k = Some q" and m: "m < 2 ^ 31 - 1"
  shows "\<exists>st'. fetch_bpm_page junk q st = Inr (of_nat k, st') \<and> pool_layout junk (Suc m) st' fs occ \<and> same_store st st'"
proof -
  note wf = layoutD(1) [OF lay] and pg = layoutD(4) [OF lay k] and fr = layout_frame [OF lay k]
  let ?f = "of_nat k :: frame_id_t" and ?pg = "(frame st k)\<lparr>pin_count := pin_count (frame st k) + 1\<rparr>"
  let ?st = "set_page ?f ?pg st"
  have f: "unat ?f < pool_size (p_bpm st)" using pg fr(1) by (simp add: page_in_def)
  have "pin_count (frame st (unat ?f)) < 2 ^ 31 - 1" using pg m fr(1) by (simp add: page_in_def)
  from fetch_hit [OF wf fr(2) this] have run: "fetch_bpm_page junk q st = Inr (?f, ?st)" using fr(1) by simp
  have wf': "pool_wf junk ?st fs" using pool_wf_set_page [OF wf] frame_data_length [OF wf f] fr(1) by simp
  have "page_in (Suc m) ?st fs i r" if "occ i = Some r" for i r
    using layoutD(4) [OF lay that] by (cases "i = k") (simp_all add: page_in_def frame_set_page [OF wf f] fr(1))
  then have "pool_layout junk (Suc m) ?st fs occ"
    using wf' layoutD(2,3) [OF lay] by (simp add: pool_layout_def)
  then show ?thesis using run by (simp add: same_store_def)
qed

lemma layout_miss:
  assumes lay: "pool_layout junk m st fs occ" and m: "2 \<le> m"
    and q: "q \<notin> ran occ" "unat q < pool_size (p_bpm st)" "unat q < 10000" "q \<in> disk_pages st"
    and i: "first_free st occ i" "pinnable i fs fs'"
  shows "\<exists>st'. fetch_bpm_page junk q st = Inr (of_nat i, st') \<and> pool_layout junk m st' fs' (occ(i \<mapsto> q)) \<and> same_store st st'"
proof -
  note wf = layoutD(1) [OF lay] and none = layout_absent [OF lay q(1)]
  have "of_nat (unat q) \<in> disk_pages st" using q(4) by simp
  from fetch_miss [OF wf none q(3) layout_free [OF lay i(1)] i(2) this] obtain st' where
    st': "fetch_bpm_page junk q st = Inr (of_nat i, st')" "pool_wf junk st' fs'" "resident st' (unat q) = Some (of_nat i)"
      "\<forall>p. p \<noteq> unat q \<longrightarrow> resident st' p = resident st p" "same_store st st'"
      "bpages (p_bpm st') = (bpages (p_bpm st))[i := (blank_frame (unat q))\<lparr>pin_count := 2, bp_data := disk_page st (unat q)\<rparr>]"
      "free_list (p_bpm st') = (free_list (p_bpm st))[i := False]" by (auto simp: same_store_def)
  note same = same_storeD [OF st'(5)]
  have n: "i < pool_size (p_bpm st)" "occ i = None" using i(1) by (simp_all add: first_free_def)
  then have uf: "unat (of_nat i :: frame_id_t) = i" using small_frame(1) pool_wfD(2) [OF wf] by simp
  have fr: "frame st' k = (if k = i then (blank_frame (unat q))\<lparr>pin_count := 2, bp_data := disk_page st (unat q)\<rparr> else frame st k)" for k
    using st'(6) n pool_wfD(3) [OF wf] by (simp add: frame_def)
  have tr: "k \<in> fst ` set fs \<Longrightarrow> k \<in> fst ` set fs' \<or> k = i" "k \<in> fst ` set fs' \<Longrightarrow> k \<in> fst ` set fs" for k
    using i(2) by (auto simp: pinnable_def)
  have nt: "i \<notin> fst ` set fs'" using pinnable_not_tracked [OF tracksD(4) [OF pool_wfD(7) [OF wf]] i(2)] .
  have "page_in m st' fs' k r" if "(occ(i \<mapsto> q)) k = Some r" for k r
  proof (cases "k = i")
    case True
    then show ?thesis using that q n nt m by (simp add: page_in_def fr same blank_frame_def)
  next
    case False
    then show ?thesis using that layoutD(4) [OF lay, of k r] tr(2) by (auto simp: page_in_def fr same)
  qed
  moreover have "free_list (p_bpm st') ! k \<longleftrightarrow> (occ(i \<mapsto> q)) k = None" if "k < pool_size (p_bpm st')" for k
    using that layoutD(2) [OF lay, of k] st'(7) pool_wfD(4) [OF wf] by (cases "k = i") (simp_all add: same)
  moreover have "resident st' p = Some f \<longleftrightarrow> (\<exists>r. (occ(i \<mapsto> q)) (unat f) = Some r \<and> p = unat r)" for p f
  proof (cases "p = unat q")
    case True
    have "f = of_nat i \<longleftrightarrow> unat f = i" using uf by (metis word_unat_eq_iff)
    moreover have "occ k \<noteq> Some q" for k using q(1) by (auto simp: ran_def)
    ultimately show ?thesis using st'(3) True by (auto simp: word_unat_eq_iff [symmetric])
  next
    case False
    moreover have "occ (unat f) \<noteq> None \<Longrightarrow> unat f \<noteq> i" using n(2) by auto
    ultimately show ?thesis using st'(4) layoutD(3) [OF lay, of p f] by auto
  qed
  ultimately have "pool_layout junk m st' fs' (occ(i \<mapsto> q))" using st'(2) by (simp add: pool_layout_def)
  then show ?thesis using st'(1,5) by blast
qed

lemma layout_node:
  assumes f: "fetch_bpm_page (j_page j) q (bt_pool t) = Inr (of_nat k, st)" and lay: "pool_layout (j_page j) m st fs occ"
    and k: "occ k = Some q" and same: "same_store (bt_pool t) st" and n: "node_on_disk (bt_pool t) q node"
  shows "fetch_node j q t = Inr (node, q, t\<lparr>bt_pool := st\<rparr>)"
proof -
  have "unat (of_nat k :: frame_id_t) = k" "page_in m st fs k q" using layout_frame(1) [OF lay k] layoutD(4) [OF lay k] .
  then have "page_at (of_nat k) st = Inr (frame st k)" "bp_id (frame st k) = q" "bp_data (frame st k) = disk_page st (unat q)"
    using page_at_wf [OF layoutD(1) [OF lay], of "of_nat k"] by (simp_all add: page_in_def)
  then show ?thesis using f n same_storeD(1) [OF same] by (simp add: fetch_node_def node_on_disk_def)
qed

text \<open>Reading a node that is in the pool, and one that is not.\<close>

lemma fetch_node_hit:
  assumes lay: "pool_layout (j_page j) m (bt_pool t) fs occ" and k: "occ k = Some q" and m: "m < 2 ^ 31 - 1"
    and n: "node_on_disk (bt_pool t) q node"
  shows "\<exists>st. fetch_node j q t = Inr (node, q, t\<lparr>bt_pool := st\<rparr>) \<and> pool_layout (j_page j) (Suc m) st fs occ \<and>
    same_store (bt_pool t) st"
proof -
  from layout_hit [OF lay k m] obtain st where
    st: "fetch_bpm_page (j_page j) q (bt_pool t) = Inr (of_nat k, st)" "pool_layout (j_page j) (Suc m) st fs occ"
      "same_store (bt_pool t) st" by blast
  then show ?thesis using layout_node [OF st(1,2) k st(3) n] by blast
qed

lemma fetch_node_miss:
  assumes lay: "pool_layout (j_page j) m (bt_pool t) fs occ" and m: "2 \<le> m"
    and q: "q \<notin> ran occ" "unat q < pool_size (p_bpm (bt_pool t))" "unat q < 10000" and n: "node_on_disk (bt_pool t) q node"
    and i: "first_free (bt_pool t) occ i" "pinnable i fs fs'"
  shows "\<exists>st. fetch_node j q t = Inr (node, q, t\<lparr>bt_pool := st\<rparr>) \<and> pool_layout (j_page j) m st fs' (occ(i \<mapsto> q)) \<and>
    same_store (bt_pool t) st"
proof -
  have "q \<in> disk_pages (bt_pool t)" using n by (simp add: node_on_disk_def)
  from layout_miss [OF lay m q this i] obtain st where
    st: "fetch_bpm_page (j_page j) q (bt_pool t) = Inr (of_nat i, st)" "pool_layout (j_page j) m st fs' (occ(i \<mapsto> q))"
      "same_store (bt_pool t) st" by blast
  then show ?thesis using layout_node [OF st(1,2) _ st(3) n] by auto
qed

section \<open>Writing\<close>

text \<open>What remains of a layout when page \<open>q\<close> was flushed from frame \<open>k\<close>.\<close>

lemma layout_flushed:
  assumes lay: "pool_layout junk m st fs occ" and wf: "pool_wf junk st' ((k, True) # fs')"
    and fs': "fst ` set fs' \<subseteq> fst ` set fs" and f: "flushed (unat q) data st st'"
    and fl: "free_list (p_bpm st') = (free_list (p_bpm st))[k := True]" "k < pool_size (p_bpm st)"
    and fr: "\<forall>i. i \<noteq> k \<longrightarrow> frame st' i = frame st i" and k: "occ k = Some q \<or> occ k = None \<and> q \<notin> ran occ"
  shows "pool_layout junk m st' ((k, True) # fs') (occ(k := None))"
proof -
  note s = flushed_stored [OF f]
  have other: "r \<noteq> q \<and> i \<noteq> k" if "(occ(k := None)) i = Some r" for i r
  proof -
    have i: "i \<noteq> k" "occ i = Some r" using that by (auto split: if_splits)
    then have "r \<noteq> q" using k layout_inj [OF lay, of k q i] by (auto intro: ranI)
    with i show ?thesis by simp
  qed
  have "page_in m st' ((k, True) # fs') i r" if i: "(occ(k := None)) i = Some r" for i r
  proof -
    have "occ i = Some r" using i by (auto split: if_splits)
    from layoutD(4) [OF lay this] other [OF i] s fr fs' show ?thesis by (auto simp: page_in_def stored_def)
  qed
  moreover have "free_list (p_bpm st') ! i \<longleftrightarrow> (occ(k := None)) i = None" if "i < pool_size (p_bpm st')" for i
    using that layoutD(2) [OF lay, of i] fl s pool_wfD(4) [OF layoutD(1) [OF lay]] by (cases "i = k") (simp_all add: stored_def)
  moreover have "resident st' p = Some g \<longleftrightarrow> (\<exists>r. (occ(k := None)) (unat g) = Some r \<and> p = unat r)" for p g
  proof (cases "p = unat q")
    case True
    then have "resident st' p = None" using f by (simp add: flushed_def)
    then show ?thesis using other [of "unat g"] True by (auto simp: word_unat_eq_iff [symmetric])
  next
    case False
    then have "resident st' p = resident st p" using f by (simp add: flushed_def)
    moreover have "occ k = Some r \<Longrightarrow> r = q" for r using k by auto
    ultimately show ?thesis using layoutD(3) [OF lay, of p g] False by auto
  qed
  ultimately show ?thesis using wf by (simp add: pool_layout_def)
qed

lemma layout_flush:
  assumes lay: "pool_layout (j_page j) m st fs occ" and k: "occ k = Some q" and m: "m < 2 ^ 31 - 1" and len: "length data = PAGE_SIZE"
  shows "\<exists>st'. flush_node j q data st = Inr st' \<and> pool_layout (j_page j) m st' ((k, True) # fs) (occ(k := None)) \<and> stored q data st st'"
proof -
  note pg = layoutD(4) [OF lay k, unfolded page_in_def] and fr = layout_frame [OF lay k]
  have al: "alone st (unat q)" using layout_alone [OF lay] pg by blast
  have "unat (of_nat k :: frame_id_t) \<notin> fst ` set fs" "bp_id (frame st (unat (of_nat k :: frame_id_t))) = of_nat (unat q)"
    "pin_count (frame st (unat (of_nat k :: frame_id_t))) < 2 ^ 31 - 1" using pg m fr(1) by simp_all
  from flush_node_resident [OF layoutD(1) [OF lay] fr(2) al this(1) len this(2,3)] obtain st' where
    st': "flush_node j q data st = Inr st'" "pool_wf (j_page j) st' ((k, True) # fs)" "flushed (unat q) data st st'"
      "free_list (p_bpm st') = (free_list (p_bpm st))[k := True]" "\<forall>i. i \<noteq> k \<longrightarrow> frame st' i = frame st i" using fr(1) by auto
  have kn: "k < pool_size (p_bpm st)" using pg by blast
  have "pool_layout (j_page j) m st' ((k, True) # fs) (occ(k := None))"
    by (rule layout_flushed [OF lay st'(2) subset_refl st'(3,4) kn st'(5)]) (use k in blast)
  then show ?thesis using st'(1) flushed_stored [OF st'(3)] by blast
qed

lemma layout_flush_absent:
  assumes lay: "pool_layout (j_page j) m st fs occ" and len: "length data = PAGE_SIZE"
    and q: "q \<notin> ran occ" "unat q < pool_size (p_bpm st)" "unat q < 10000" "q \<in> disk_pages st"
    and i: "first_free st occ i" "pinnable i fs fs'"
  shows "\<exists>st'. flush_node j q data st = Inr st' \<and> pool_layout (j_page j) m st' ((i, True) # fs') occ \<and> stored q data st st'"
proof -
  note wf = layoutD(1) [OF lay]
  have n: "i < pool_size (p_bpm st)" "occ i = None" using i(1) by (simp_all add: first_free_def)
  have "of_nat (unat q) \<in> disk_pages st" using q(4) by simp
  from flush_node_absent [OF wf layout_absent [OF lay q(1)] q(3) layout_alone [OF lay q(2)] this len layout_free [OF lay i(1)] i(2)]
  obtain st' where
    st': "flush_node j q data st = Inr st'" "pool_wf (j_page j) st' ((i, True) # fs')" "flushed (unat q) data st st'"
      "free_list (p_bpm st') = free_list (p_bpm st)" "\<forall>k. k \<noteq> i \<longrightarrow> frame st' k = frame st k" by auto
  have "free_list (p_bpm st) ! i" using layoutD(2) [OF lay n(1)] n(2) by simp
  then have fl: "free_list (p_bpm st') = (free_list (p_bpm st))[i := True]"
    using st'(4) list_update_id [of "free_list (p_bpm st)" i] by simp
  have sub: "fst ` set fs' \<subseteq> fst ` set fs" using i(2) by (auto simp: pinnable_def)
  have "pool_layout (j_page j) m st' ((i, True) # fs') (occ(i := None))"
    by (rule layout_flushed [OF lay st'(2) sub st'(3) fl n(1) st'(5)]) (use n q in blast)
  moreover have "occ(i := None) = occ" using n(2) by auto
  ultimately show ?thesis using st'(1) flushed_stored [OF st'(3)] by auto
qed

lemma layout_junk: "pool_layout junk m st fs occ \<Longrightarrow> length junk = PAGE_SIZE"
  using pool_wfD(11) [OF layoutD(1)] by (simp add: dm_inv_def)

lemma persist_resident:
  assumes lay: "pool_layout (j_page j) m (bt_pool t) fs occ" and k: "occ k = Some q" and m: "m < 2 ^ 31 - 1"
    and n: "node_ok n" "node_fits n"
  shows "\<exists>st data. persist j q n t = Inr (t\<lparr>bt_pool := st\<rparr>) \<and>
    pool_layout (j_page j) m st ((k, True) # fs) (occ(k := None)) \<and> stored q data (bt_pool t) st \<and> deserialize data = Inr n"
proof -
  from serialized [OF n layout_junk [OF lay]] obtain data where
    d: "serialize (j_page j) n = Inr data" "length data = PAGE_SIZE" "deserialize data = Inr n" .
  from layout_flush [OF lay k m d(2)] obtain st where
    "flush_node j q data (bt_pool t) = Inr st" "pool_layout (j_page j) m st ((k, True) # fs) (occ(k := None))"
    "stored q data (bt_pool t) st" by blast
  then show ?thesis using d by (intro exI [of _ st] exI [of _ data]) (simp add: persist_def)
qed

lemma persist_metadata_absent:
  assumes lay: "pool_layout (j_page j) m (bt_pool t) fs occ" and q: "0 \<notin> ran occ" "0 \<in> disk_pages (bt_pool t)"
    and i: "first_free (bt_pool t) occ i" "pinnable i fs fs'"
  shows "\<exists>st. persist_metadata j t = Inr (t\<lparr>bt_pool := st\<rparr>) \<and>
    pool_layout (j_page j) m st ((i, True) # fs') occ \<and> stored 0 (meta_bytes j t) (bt_pool t) st"
proof -
  note mb = meta_bytes_ok [OF layout_junk [OF lay], of t]
  have "unat (0 :: page_id_t) < pool_size (p_bpm (bt_pool t))" "unat (0 :: page_id_t) < 10000"
    using i(1) by (simp_all add: first_free_def)
  from layout_flush_absent [OF lay mb(2) q(1) this q(2) i] obtain st where
    "flush_node j 0 (meta_bytes j t) (bt_pool t) = Inr st" "pool_layout (j_page j) m st ((i, True) # fs') occ"
    "stored 0 (meta_bytes j t) (bt_pool t) st" by blast
  then show ?thesis using mb(1) by (intro exI [of _ st]) (simp add: persist_metadata_def BTREE_METADATA_PAGE_ID_def)
qed

lemma persist_absent:
  assumes lay: "pool_layout (j_page j) m (bt_pool t) fs occ" and n: "node_ok n" "node_fits n"
    and q: "q \<notin> ran occ" "unat q < pool_size (p_bpm (bt_pool t))" "unat q < 10000" "q \<in> disk_pages (bt_pool t)"
    and i: "first_free (bt_pool t) occ i" "pinnable i fs fs'"
  shows "\<exists>st data. persist j q n t = Inr (t\<lparr>bt_pool := st\<rparr>) \<and>
    pool_layout (j_page j) m st ((i, True) # fs') occ \<and> stored q data (bt_pool t) st \<and> deserialize data = Inr n"
proof -
  from serialized [OF n layout_junk [OF lay]] obtain data where
    d: "serialize (j_page j) n = Inr data" "length data = PAGE_SIZE" "deserialize data = Inr n" .
  from layout_flush_absent [OF lay d(2) q i] obtain st where
    "flush_node j q data (bt_pool t) = Inr st" "pool_layout (j_page j) m st ((i, True) # fs') occ"
    "stored q data (bt_pool t) st" by blast
  then show ?thesis using d by (intro exI [of _ st] exI [of _ data]) (simp add: persist_def)
qed

end
