(* ===== verification/Btree_Levels.thy ===== *)
theory Btree_Levels
  imports Btree_Pages
begin

text \<open>
  A tree of two levels: a root with one separator above two linked leaves. Insertion without a split refines the
  update of the map both leaves stand for; removal from the right leaf merges the leaves into a tree of one leaf
  again, and removal from the left leaf cuts the right part off.
\<close>

section \<open>Two leaves under a root\<close>

text \<open>The pool between operations: nothing is resident, or the root alone, in frame 0.\<close>

definition quiet :: "bytes \<Rightarrow> nat \<Rightarrow> Pool \<Rightarrow> page_id_t \<Rightarrow> bool" where
  "quiet junk m st root \<longleftrightarrow>
     pool_layout junk m st [] Map.empty \<or> pool_layout junk m st [(0, True)] Map.empty \<or>
     pool_layout junk m st [(0, True), (1, True)] Map.empty \<or>
     pool_layout junk m st [] [0 \<mapsto> root] \<or> pool_layout junk m st [(1, True)] [0 \<mapsto> root]"

record Two_Leaves =
  separator :: BTreeKey
  root_node :: BTreePage
  left_pid :: page_id_t
  right_pid :: page_id_t
  left_leaf :: BTreePage
  right_leaf :: BTreePage

definition tree_map :: "Two_Leaves \<Rightarrow> nat \<rightharpoonup> NodeRID" where
  "tree_map v = leaf_map (right_leaf v) ++ leaf_map (left_leaf v)"

definition small_page :: "Pool \<Rightarrow> page_id_t \<Rightarrow> bool" where
  "small_page st q \<longleftrightarrow> q \<noteq> 0 \<and> unat q < 10000 \<and> unat q < pool_size (p_bpm st)"

definition two_leaf_tree :: "nat \<Rightarrow> Junk \<Rightarrow> nat \<Rightarrow> BTree \<Rightarrow> Two_Leaves \<Rightarrow> bool" where
  "two_leaf_tree L j m t v \<longleftrightarrow>
     quiet (j_page j) m (bt_pool t) (root_pid t) \<and> 2 \<le> m \<and> 0 < L \<and> key_of_size L (separator v) \<and>
     \<not> is_leaf (root_node v) \<and> keys (root_node v) = [separator v] \<and> vals (root_node v) = InternalChildren [left_pid v] \<and>
     rightmost_ptr (root_node v) = right_pid v \<and> node_on_disk (bt_pool t) (root_pid t) (root_node v) \<and>
     node_on_disk (bt_pool t) (left_pid v) (left_leaf v) \<and> node_on_disk (bt_pool t) (right_pid v) (right_leaf v) \<and>
     leaf_ok L (left_leaf v) \<and> leaf_ok L (right_leaf v) \<and> next_pid (left_leaf v) = right_pid v \<and>
     (\<forall>x \<in> dom (leaf_map (left_leaf v)). x < key_num (separator v)) \<and>
     (\<forall>x \<in> dom (leaf_map (right_leaf v)). key_num (separator v) \<le> x) \<and>
     small_page (bt_pool t) (root_pid t) \<and> small_page (bt_pool t) (left_pid v) \<and> small_page (bt_pool t) (right_pid v) \<and>
     distinct [root_pid t, left_pid v, right_pid v] \<and> 3 \<le> pool_size (p_bpm (bt_pool t))"

lemma layout_mono:
  assumes "pool_layout junk m st fs occ" and "m \<le> n"
  shows "pool_layout junk n st fs occ"
proof -
  have "page_in n st fs k q" if "page_in m st fs k q" for k q using that assms(2) by (auto simp: page_in_def)
  then show ?thesis using assms(1) by (simp add: pool_layout_def)
qed

lemma rest_quiet:
  assumes "at_rest junk st"
  shows "quiet junk m st root"
proof -
  have "pool_layout junk m st fs Map.empty" if "pool_wf junk st fs" for fs
    using assms that by (simp add: at_rest_def pool_layout_def)
  then show ?thesis using assms by (auto simp: at_rest_def quiet_def)
qed

lemma fetch_quiet_root:
  assumes q: "quiet (j_page j) m (bt_pool t) root" "2 \<le> m" "m < 2 ^ 31 - 1" and p: "small_page (bt_pool t) root"
    and n: "node_on_disk (bt_pool t) root node"
  shows "\<exists>st fs. fetch_node j root t = Inr (node, root, t\<lparr>bt_pool := st\<rparr>) \<and>
    pool_layout (j_page j) (Suc m) st fs [0 \<mapsto> root] \<and> pinnable 1 fs [] \<and> same_store (bt_pool t) st"
proof -
  have free: "first_free (bt_pool t) Map.empty 0" using p by (simp add: first_free_def small_page_def)
  have miss: ?thesis if lay: "pool_layout (j_page j) m (bt_pool t) fs Map.empty" and f: "pinnable 0 fs fs'" "pinnable 1 fs' []" for fs fs'
  proof -
    from fetch_node_miss [OF lay q(2) _ _ _ n free f(1)] p obtain st where
      "fetch_node j root t = Inr (node, root, t\<lparr>bt_pool := st\<rparr>)" "pool_layout (j_page j) m st fs' [0 \<mapsto> root]"
      "same_store (bt_pool t) st" by (auto simp: small_page_def)
    then show ?thesis using f(2) layout_mono [of _ m st fs' "[0 \<mapsto> root]" "Suc m"] by auto
  qed
  have hit: ?thesis if lay: "pool_layout (j_page j) m (bt_pool t) fs [0 \<mapsto> root]" and f: "pinnable 1 fs []" for fs
    using fetch_node_hit [OF lay _ q(3) n, of 0] f by auto
  from q(1) show ?thesis
    unfolding quiet_def using miss hit pinnable_empty pinnable_head by metis
qed

text \<open>One level down from an internal root.\<close>

lemma find_child:
  assumes q: "quiet (j_page j) m (bt_pool t) (root_pid t)" "2 \<le> m" "m < 2 ^ 31 - 1"
    and root: "small_page (bt_pool t) (root_pid t)" "node_on_disk (bt_pool t) (root_pid t) rt"
    and rt: "\<not> is_leaf rt" "keys rt \<noteq> []" "length (keys rt) < 65536" "list_all (key_of_size L) (keys rt)"
      "sorted (map key_num (keys rt))" "vals rt = InternalChildren (c0 # cs)" and key: "key_of_size L key"
    and c: "c = (if key_num key < key_num (hd (keys rt)) then c0 else rightmost_ptr rt)"
      "small_page (bt_pool t) c" "node_on_disk (bt_pool t) c l" "is_leaf l" "c \<noteq> root_pid t" and N: "2 \<le> pool_size (p_bpm (bt_pool t))"
  shows "\<exists>st. findLeaf (Suc fuel) j key [] t =
      Inr (l, [(root_pid t, if key_num key < key_num (hd (keys rt)) then 0 else - 1)], c, t\<lparr>bt_pool := st\<rparr>) \<and>
    pool_layout (j_page j) (Suc m) st [] [0 \<mapsto> root_pid t, 1 \<mapsto> c] \<and> same_store (bt_pool t) st"
proof -
  from fetch_quiet_root [OF q root] obtain st fs where
    st: "fetch_node j (root_pid t) t = Inr (rt, root_pid t, t\<lparr>bt_pool := st\<rparr>)"
      "pool_layout (j_page j) (Suc m) st fs [0 \<mapsto> root_pid t]" "pinnable 1 fs []" "same_store (bt_pool t) st" by blast
  let ?t = "t\<lparr>bt_pool := st\<rparr>"
  note same = same_storeD [OF st(4)]
  have "pool_layout (j_page j) (Suc m) (bt_pool ?t) fs [0 \<mapsto> root_pid t]" "2 \<le> Suc m" "c \<notin> ran [0 \<mapsto> root_pid t]"
    "unat c < pool_size (p_bpm (bt_pool ?t))" "unat c < 10000" "node_on_disk (bt_pool ?t) c l"
    "first_free (bt_pool ?t) [0 \<mapsto> root_pid t] 1"
    using st(2) q(2) c(2,3,5) N same by (auto simp: small_page_def first_free_def)
  from fetch_node_miss [OF this st(3)] obtain st' where
    st': "fetch_node j c ?t = Inr (l, c, t\<lparr>bt_pool := st'\<rparr>)"
      "pool_layout (j_page j) (Suc m) st' [] [0 \<mapsto> root_pid t, 1 \<mapsto> c]" "same_store st st'" by auto
  have "same_store (bt_pool t) st'" using st(4) st'(3) by (simp add: same_store_def)
  then show ?thesis using st(1) st'(2) descend [OF rt key c(1) st'(1) c(4), of fuel "root_pid t" "[]"]
    by (intro exI [of _ st']) (simp add: findLeaf_def)
qed

definition child_of :: "Two_Leaves \<Rightarrow> BTreeKey \<Rightarrow> page_id_t" where
  "child_of v key = (if key_num key < key_num (separator v) then left_pid v else right_pid v)"

definition leaf_of :: "Two_Leaves \<Rightarrow> BTreeKey \<Rightarrow> BTreePage" where
  "leaf_of v key = (if key_num key < key_num (separator v) then left_leaf v else right_leaf v)"

lemma find_leaf:
  assumes t: "two_leaf_tree L j m t v" and m: "m < 2 ^ 31 - 1" and key: "key_of_size L key"
  shows "\<exists>st. findLeaf (Suc fuel) j key [] t =
      Inr (leaf_of v key, [(root_pid t, if key_num key < key_num (separator v) then 0 else - 1)], child_of v key, t\<lparr>bt_pool := st\<rparr>) \<and>
    pool_layout (j_page j) (Suc m) st [] [0 \<mapsto> root_pid t, 1 \<mapsto> child_of v key] \<and> same_store (bt_pool t) st"
proof -
  let ?c = "child_of v key" and ?l = "leaf_of v key" and ?rt = "root_node v"
  note h = t [unfolded two_leaf_tree_def]
  have c: "small_page (bt_pool t) ?c" "node_on_disk (bt_pool t) ?c ?l" "is_leaf ?l" "?c \<noteq> root_pid t"
    using h by (auto simp: child_of_def leaf_of_def leaf_ok_def)
  have q: "quiet (j_page j) m (bt_pool t) (root_pid t)" "2 \<le> m" and root: "small_page (bt_pool t) (root_pid t)"
    "node_on_disk (bt_pool t) (root_pid t) ?rt" and N: "2 \<le> pool_size (p_bpm (bt_pool t))" using h by simp_all
  have rt: "\<not> is_leaf ?rt" "keys ?rt \<noteq> []" "length (keys ?rt) < 65536" "list_all (key_of_size L) (keys ?rt)"
    "sorted (map key_num (keys ?rt))" "vals ?rt = InternalChildren (left_pid v # [])"
    "?c = (if key_num key < key_num (hd (keys ?rt)) then left_pid v else rightmost_ptr ?rt)" "hd (keys ?rt) = separator v"
    using h by (simp_all add: child_of_def)
  from find_child [OF q m root rt(1-6) key rt(7) c N] show ?thesis unfolding rt(8) .
qed

section \<open>Insertion\<close>

definition set_leaf :: "Two_Leaves \<Rightarrow> BTreeKey \<Rightarrow> BTreePage \<Rightarrow> Two_Leaves" where
  "set_leaf v key n = (if key_num key < key_num (separator v) then v\<lparr>left_leaf := n\<rparr> else v\<lparr>right_leaf := n\<rparr>)"

lemma set_leaf_simps [simp]:
  "separator (set_leaf v key n) = separator v" "root_node (set_leaf v key n) = root_node v"
  "left_pid (set_leaf v key n) = left_pid v" "right_pid (set_leaf v key n) = right_pid v"
  by (simp_all add: set_leaf_def)

lemma separated:
  assumes "two_leaf_tree L j m t v"
  shows "x \<in> dom (leaf_map (left_leaf v)) \<Longrightarrow> x < key_num (separator v)"
    and "x \<in> dom (leaf_map (right_leaf v)) \<Longrightarrow> key_num (separator v) \<le> x"
  using assms unfolding two_leaf_tree_def by blast+

text \<open>The tree after the leaf for \<open>key\<close> was replaced on disk.\<close>

lemma two_leaf_tree_set:
  assumes t: "two_leaf_tree L j m t v" and n: "leaf_ok L n" "next_pid n = next_pid (leaf_of v key)"
    and dom: "dom (leaf_map n) \<subseteq> insert (key_num key) (dom (leaf_map (leaf_of v key)))"
    and s: "same_store (bt_pool t) st" "stored (child_of v key) d st st'" "deserialize d = Inr n"
    and q: "quiet (j_page j) m' st' (root_pid t)" "2 \<le> m'"
  shows "two_leaf_tree L j m' (t\<lparr>bt_pool := st'\<rparr>) (set_leaf v key n)"
proof -
  note h = t [unfolded two_leaf_tree_def] and same = same_storeD [OF s(1)]
  let ?v = "set_leaf v key n"
  have sz: "pool_size (p_bpm st') = pool_size (p_bpm (bt_pool t))" using s(2) same(4) by (simp add: stored_def)
  have new: "node_on_disk st' (child_of v key) n" using stored_node(1) [OF s(2,3)] .
  have old: "node_on_disk st' p x" if "node_on_disk (bt_pool t) p x" "p \<noteq> child_of v key" for p x
    using stored_node(2) [OF s(2)] that same(3) by simp
  have "node_on_disk st' (root_pid t) (root_node v)" using h old [of "root_pid t"] by (auto simp: child_of_def)
  moreover have "node_on_disk st' (left_pid v) (left_leaf ?v)" "node_on_disk st' (right_pid v) (right_leaf ?v)"
    using h new old by (auto simp: child_of_def set_leaf_def)
  moreover have "leaf_ok L (left_leaf ?v)" "leaf_ok L (right_leaf ?v)" "next_pid (left_leaf ?v) = right_pid v"
    using h n by (auto simp: set_leaf_def leaf_of_def)
  moreover have side: "x = key_num key \<or> x \<in> dom (leaf_map (leaf_of v key))" if "x \<in> dom (leaf_map n)" for x
    using that dom by blast
  have "x < key_num (separator v)" if x: "x \<in> dom (leaf_map (left_leaf ?v))" for x
  proof (cases "key_num key < key_num (separator v)")
    case True
    then have "x = key_num key \<or> x \<in> dom (leaf_map (left_leaf v))" using x side [of x] by (simp add: set_leaf_def leaf_of_def)
    then show ?thesis using True separated(1) [OF t] by metis
  qed (use x separated(1) [OF t] in \<open>simp add: set_leaf_def\<close>)
  moreover have "key_num (separator v) \<le> x" if x: "x \<in> dom (leaf_map (right_leaf ?v))" for x
  proof (cases "key_num key < key_num (separator v)")
    case False
    then have "x = key_num key \<or> x \<in> dom (leaf_map (right_leaf v))" using x side [of x] by (simp add: set_leaf_def leaf_of_def)
    then show ?thesis using False separated(2) [OF t] by (metis not_less)
  qed (use x separated(2) [OF t] in \<open>simp add: set_leaf_def\<close>)
  ultimately show ?thesis using h q sz unfolding two_leaf_tree_def small_page_def by simp
qed

text \<open>The leaf decides about the keys on its side of the separator.\<close>

lemma tree_map_set_leaf:
  assumes t: "two_leaf_tree L j m t v" and n: "leaf_map n = (leaf_map (leaf_of v key))(key_num key := x)"
  shows "tree_map (set_leaf v key n) = (tree_map v)(key_num key := x)"
proof -
  have "key_num key \<notin> dom (leaf_map (left_leaf v))" if "\<not> key_num key < key_num (separator v)"
    using separated(1) [OF t] that by blast
  moreover have "key_num key \<notin> dom (leaf_map (right_leaf v))" if "key_num key < key_num (separator v)"
    using separated(2) [OF t] that by (meson linorder_not_le)
  ultimately show ?thesis
    using n by (auto simp: tree_map_def set_leaf_def leaf_of_def map_add_def fun_eq_iff domIff split: option.splits)
qed

lemma insert_two_leaves:
  assumes t: "two_leaf_tree L j m t v" and m: "m < 2 ^ 31 - 2" and key: "key_of_size L key" "key_num key \<notin> dom (tree_map v)"
    and room: "length (keys (leaf_of v key)) < unat (max_size t)" "leaf_fits L (Suc (length (keys (leaf_of v key))))"
  shows "\<exists>st v'. btree_insert (Suc fuel) j key val t = Inr (child_of v key, t\<lparr>bt_pool := st\<rparr>) \<and>
    two_leaf_tree L j (Suc m) (t\<lparr>bt_pool := st\<rparr>) v' \<and> tree_map v' = (tree_map v)(key_num key \<mapsto> val)"
proof -
  let ?c = "child_of v key" and ?n = "leaf_of v key"
  note h = t [unfolded two_leaf_tree_def]
  have ok: "leaf_ok L ?n" "0 < L" "root_pid t \<noteq> 0" "?c \<noteq> 0" "?c \<noteq> root_pid t"
    using h by (auto simp: leaf_of_def child_of_def small_page_def)
  have lens: "length (records ?n) = length (keys ?n)" "list_all (key_of_size L) (keys ?n)" using ok(1) by (simp_all add: leaf_ok_def)
  have "dom (leaf_map ?n) \<subseteq> dom (tree_map v)" by (auto simp: leaf_of_def tree_map_def)
  then have fresh: "key_num key \<notin> key_num ` set (keys ?n)" using key(2) lens by (auto simp: leaf_map_def dom_map_of_zip)
  have m1: "m < 2 ^ 31 - 1" "Suc m < 2 ^ 31 - 1" using m by simp_all
  from find_leaf [OF t m1(1) key(1), of fuel] obtain st crumbs where
    st: "findLeaf (Suc fuel) j key [] t = Inr (?n, crumbs, ?c, t\<lparr>bt_pool := st\<rparr>)"
      "pool_layout (j_page j) (Suc m) st [] [0 \<mapsto> root_pid t, 1 \<mapsto> ?c]" "same_store (bt_pool t) st" by blast
  have "length (keys ?n) < 65535" using room(1) unat_bounds(1) [of "max_size t"] by simp
  from insert_leaf [OF ok(1) key(1) fresh this, of val] obtain n' where
    n': "insertIntoNode_RID key val ?n = Inr n'" "leaf_ok L n'" "leaf_map n' = (leaf_map ?n)(key_num key \<mapsto> val)"
      "length (keys n') = Suc (length (keys ?n))" "next_pid n' = next_pid ?n" by blast
  have nf: "node_ok n'" "node_fits n'" using leaf_node_ok [OF n'(2) ok(2)] leaf_node_fits [OF n'(2)] n'(4) room(2) by simp_all
  have "pool_layout (j_page j) (Suc m) (bt_pool (t\<lparr>bt_pool := st\<rparr>)) [] [0 \<mapsto> root_pid t, 1 \<mapsto> ?c]" using st(2) by simp
  from persist_resident [OF this _ m1(2) nf, of 1 ?c] obtain st' d where
    st': "persist j ?c n' (t\<lparr>bt_pool := st\<rparr>) = Inr (t\<lparr>bt_pool := st'\<rparr>)"
      "pool_layout (j_page j) (Suc m) st' [(1, True)] ([0 \<mapsto> root_pid t, 1 \<mapsto> ?c](1 := None))"
      "stored ?c d st st'" "deserialize d = Inr n'" by auto
  have "[0 \<mapsto> root_pid t, 1 \<mapsto> ?c](1 := None) = [0 :: nat \<mapsto> root_pid t]" by (simp add: fun_eq_iff)
  then have q: "quiet (j_page j) (Suc m) st' (root_pid t)" using st'(2) by (simp add: quiet_def)
  have "btree_insert (Suc fuel) j key val t = Inr (?c, t\<lparr>bt_pool := st'\<rparr>)"
    using ok(3,4) st(1) has_key_mem [OF lens(2) key(1)] fresh n'(1,4) room(1) st'(1)
    by (simp add: btree_insert_def BTREE_METADATA_PAGE_ID_def)
  moreover have "two_leaf_tree L j (Suc m) (t\<lparr>bt_pool := st'\<rparr>) (set_leaf v key n')"
    using two_leaf_tree_set [OF t n'(2,5) _ st(3) st'(3,4) q] h n'(3) by simp
  ultimately show ?thesis using tree_map_set_leaf [OF t n'(3)] by blast
qed

text \<open>
  C28. Inserting into a tree of two levels refines the update of the map that its two leaves stand for. For a new key
  and a leaf with room, \<^verbatim>\<open>insert\<close> descends to the leaf on the right side of the separator and returns its page; the
  tree has two sorted and separated leaves again. The root stays in the pool and is pinned once more.
  All keys have the same length.
\<close>

theorem insert_two_levels_refines_map:
  assumes "two_leaf_tree L j m t v" and "m < 2 ^ 31 - 2" and "key_of_size L key" and "key_num key \<notin> dom (tree_map v)"
    and "length (keys (leaf_of v key)) < unat (max_size t)" and "leaf_fits L (Suc (length (keys (leaf_of v key))))"
  shows "\<exists>t' v'. btree_insert (Suc fuel) j key val t = Inr (child_of v key, t') \<and> two_leaf_tree L j (Suc m) t' v' \<and>
    tree_map v' = (tree_map v)(key_num key \<mapsto> val) \<and> root_pid t' = root_pid t \<and> max_size t' = max_size t"
proof -
  from insert_two_leaves [OF assms, of fuel val] obtain st v' where
    "btree_insert (Suc fuel) j key val t = Inr (child_of v key, t\<lparr>bt_pool := st\<rparr>)"
    "two_leaf_tree L j (Suc m) (t\<lparr>bt_pool := st\<rparr>) v'" "tree_map v' = (tree_map v)(key_num key \<mapsto> val)" by blast
  then show ?thesis by (intro exI [of _ "t\<lparr>bt_pool := st\<rparr>"] exI [of _ v']) simp
qed

section \<open>Removal\<close>

text \<open>Removal up to the call of \<^verbatim>\<open>merge\<close>: the leaf is on disk without the key.\<close>

lemma remove_reaches_merge:
  assumes t: "two_leaf_tree L j m t v" and m: "m < 2 ^ 31 - 2" and key: "key_of_size L key" "key_num key \<in> dom (tree_map v)"
    and fits: "leaf_fits L (length (keys (leaf_of v key)))"
  shows "\<exists>st n. btree_remove (Suc fuel) j key t =
      btree_merge j (child_of v key) [(root_pid t, if key_num key < key_num (separator v) then 0 else - 1)] (t\<lparr>bt_pool := st\<rparr>) \<and>
    pool_layout (j_page j) (Suc m) st [(1, True)] [0 \<mapsto> root_pid t] \<and> disk_pages (bt_pool t) \<subseteq> disk_pages st \<and>
    two_leaf_tree L j (Suc m) (t\<lparr>bt_pool := st\<rparr>) (set_leaf v key n) \<and>
    tree_map (set_leaf v key n) = (tree_map v)(key_num key := None) \<and> length (keys n) < length (keys (leaf_of v key))"
proof -
  let ?c = "child_of v key" and ?n = "leaf_of v key"
  note h = t [unfolded two_leaf_tree_def]
  have ok: "leaf_ok L ?n" "0 < L" using h by (auto simp: leaf_of_def)
  then have rec: "list_all (key_of_size L) (keys ?n)" "length (records ?n) = length (keys ?n)" "LEAF_RECORDS (vals ?n) = Inr (records ?n)"
    by (auto simp: leaf_ok_def)
  have m1: "m < 2 ^ 31 - 1" "Suc m < 2 ^ 31 - 1" using m by simp_all
  from find_leaf [OF t m1(1) key(1), of fuel] obtain st where
    st: "findLeaf (Suc fuel) j key [] t =
        Inr (?n, [(root_pid t, if key_num key < key_num (separator v) then 0 else - 1)], ?c, t\<lparr>bt_pool := st\<rparr>)"
      "pool_layout (j_page j) (Suc m) st [] [0 \<mapsto> root_pid t, 1 \<mapsto> ?c]" "same_store (bt_pool t) st" by blast
  have "key_num key \<in> dom (leaf_map ?n)"
  proof (cases "key_num key < key_num (separator v)")
    case True
    then have "key_num key \<notin> dom (leaf_map (right_leaf v))" using separated(2) [OF t] by (meson linorder_not_le)
    then show ?thesis using key(2) True by (simp add: tree_map_def leaf_of_def)
  next
    case False
    then have "key_num key \<notin> dom (leaf_map (left_leaf v))" using separated(1) [OF t] by blast
    then show ?thesis using key(2) False by (simp add: tree_map_def leaf_of_def)
  qed
  then have mem: "key_num key \<in> key_num ` set (keys ?n)" using rec(2) by (simp add: leaf_map_def dom_map_of_zip)
  from key_index_find [OF rec(1) key(1)] mem obtain i where
    i: "i < length (keys ?n)" "key_index key (keys ?n) = Inr i" "key_num (keys ?n ! i) = key_num key"
    by (metis le_neq_implies_less)
  let ?d = "drop_pair i ?n"
  note dp = drop_pair_ok [OF ok(1) i(1)]
  have len: "length (keys ?d) < length (keys ?n)" using i(1) by (simp add: drop_pair_def)
  have "leaf_fits L (length (keys ?d))" using leaf_fits_mono [OF fits dp(3)] .
  note nf = leaf_node_ok [OF dp(1) ok(2)] leaf_node_fits [OF dp(1) this]
  have "pool_layout (j_page j) (Suc m) (bt_pool (t\<lparr>bt_pool := st\<rparr>)) [] [0 \<mapsto> root_pid t, 1 \<mapsto> ?c]" using st(2) by simp
  from persist_resident [OF this _ m1(2) nf, of 1 ?c] obtain st' d where
    st': "persist j ?c ?d (t\<lparr>bt_pool := st\<rparr>) = Inr (t\<lparr>bt_pool := st'\<rparr>)"
      "pool_layout (j_page j) (Suc m) st' [(1, True)] ([0 \<mapsto> root_pid t, 1 \<mapsto> ?c](1 := None))"
      "stored ?c d st st'" "deserialize d = Inr ?d" by auto
  have "[0 \<mapsto> root_pid t, 1 \<mapsto> ?c](1 := None) = [0 :: nat \<mapsto> root_pid t]" by (simp add: fun_eq_iff)
  then have lay: "pool_layout (j_page j) (Suc m) st' [(1, True)] [0 \<mapsto> root_pid t]" using st'(2) by simp
  then have q: "quiet (j_page j) (Suc m) st' (root_pid t)" by (simp add: quiet_def)
  have "btree_remove (Suc fuel) j key t =
      btree_merge j ?c [(root_pid t, if key_num key < key_num (separator v) then 0 else - 1)] (t\<lparr>bt_pool := st'\<rparr>)"
    using st(1) rec(2,3) i(1,2) st'(1) by (simp add: btree_remove_def erase_def drop_pair_def)
  moreover have "two_leaf_tree L j (Suc m) (t\<lparr>bt_pool := st'\<rparr>) (set_leaf v key ?d)"
    using two_leaf_tree_set [OF t dp(1) _ _ st(3) st'(3,4) q] h dp(2) i(3) by (auto simp: drop_pair_def)
  moreover have "tree_map (set_leaf v key ?d) = (tree_map v)(key_num key := None)"
    using tree_map_set_leaf [OF t, of ?d key None] dp(2) i(3) by simp
  moreover have "disk_pages (bt_pool t) \<subseteq> disk_pages st'" using st'(3) same_storeD(2) [OF st(3)] by (auto simp: stored_def)
  ultimately show ?thesis using lay len by blast
qed

section \<open>Merging the leaves\<close>

definition joined :: "BTreePage \<Rightarrow> BTreePage \<Rightarrow> BTreePage" where
  "joined l r = l\<lparr>keys := keys l @ keys r, vals := LeafRecords (records l @ records r)\<rparr>"

lemma joined_ok:
  assumes t: "two_leaf_tree L j m t v"
  shows "leaf_ok L (joined (left_leaf v) (right_leaf v))" and "leaf_map (joined (left_leaf v) (right_leaf v)) = tree_map v"
proof -
  let ?l = "left_leaf v" and ?r = "right_leaf v" and ?j = "joined (left_leaf v) (right_leaf v)"
  have ok: "leaf_ok L ?l" "leaf_ok L ?r" using t by (simp_all add: two_leaf_tree_def)
  have rec: "records ?j = records ?l @ records ?r" by (simp add: records_def joined_def)
  have dom: "dom (leaf_map ?l) = key_num ` set (keys ?l)" "dom (leaf_map ?r) = key_num ` set (keys ?r)"
    using ok by (simp_all add: leaf_map_def leaf_ok_def dom_map_of_zip)
  have lt: "x < y" if "x \<in> key_num ` set (keys ?l)" "y \<in> key_num ` set (keys ?r)" for x y
    using separated [OF t, of x] separated(2) [OF t, of y] that dom by simp
  then have "sorted (map key_num (keys ?l) @ map key_num (keys ?r))" "distinct (map key_num (keys ?l) @ map key_num (keys ?r))"
    using ok by (fastforce simp: leaf_ok_def sorted_append)+
  then show "leaf_ok L ?j" using ok unfolding leaf_ok_def rec by (simp add: joined_def)
  show "leaf_map ?j = tree_map v"
    using ok unfolding leaf_map_def rec tree_map_def by (simp add: joined_def leaf_ok_def)
qed

lemma get_hit:
  assumes "pool_layout (j_page j) m (bt_pool t) fs occ" and "occ k = Some q" and "m < 2 ^ 31 - 1" and "node_on_disk (bt_pool t) q node"
  shows "\<exists>st. getBtreePage j q t = Inr (node, t\<lparr>bt_pool := st\<rparr>) \<and> pool_layout (j_page j) (Suc m) st fs occ \<and> same_store (bt_pool t) st"
  using fetch_node_hit [OF assms] by (auto simp: getBtreePage_def)

lemma get_miss:
  assumes "pool_layout (j_page j) m (bt_pool t) fs occ" and "2 \<le> m" and "q \<notin> ran occ" and "small_page (bt_pool t) q"
    and "node_on_disk (bt_pool t) q node" and "first_free (bt_pool t) occ i" and "pinnable i fs fs'"
  shows "\<exists>st. getBtreePage j q t = Inr (node, t\<lparr>bt_pool := st\<rparr>) \<and> pool_layout (j_page j) m st fs' (occ(i \<mapsto> q)) \<and> same_store (bt_pool t) st"
  using fetch_node_miss [OF assms(1-3) _ _ assms(5-7)] assms(4) by (auto simp: getBtreePage_def small_page_def)

text \<open>\<^verbatim>\<open>merge\<close> reads the parent, a leaf and its sibling into the frames 0, 1 and 2.\<close>

lemma merge_reads:
  assumes t: "two_leaf_tree L j m t v" and lay: "pool_layout (j_page j) m (bt_pool t) [(1, True)] [0 \<mapsto> root_pid t]" and m: "m < 2 ^ 31 - 1"
    and ab: "(a, x, b, y) = (left_pid v, left_leaf v, right_pid v, right_leaf v) \<or> (a, x, b, y) = (right_pid v, right_leaf v, left_pid v, left_leaf v)"
  shows "\<exists>s1 s2 s3. getBtreePage j (root_pid t) t = Inr (root_node v, t\<lparr>bt_pool := s1\<rparr>) \<and>
    getBtreePage j a (t\<lparr>bt_pool := s1\<rparr>) = Inr (x, t\<lparr>bt_pool := s2\<rparr>) \<and> getBtreePage j b (t\<lparr>bt_pool := s2\<rparr>) = Inr (y, t\<lparr>bt_pool := s3\<rparr>) \<and>
    pool_layout (j_page j) (Suc m) s3 [] [0 \<mapsto> root_pid t, 1 \<mapsto> a, 2 \<mapsto> b] \<and> same_store (bt_pool t) s3"
proof -
  note h = t [unfolded two_leaf_tree_def]
  have d: "node_on_disk (bt_pool t) a x" "node_on_disk (bt_pool t) b y" "small_page (bt_pool t) a" "small_page (bt_pool t) b"
    "a \<noteq> root_pid t" "b \<noteq> root_pid t" "a \<noteq> b" using ab h by auto
  have "node_on_disk (bt_pool t) (root_pid t) (root_node v)" using h by blast
  from get_hit [OF lay _ m this, of 0] obtain s1 where
    s1: "getBtreePage j (root_pid t) t = Inr (root_node v, t\<lparr>bt_pool := s1\<rparr>)"
      "pool_layout (j_page j) (Suc m) s1 [(1, True)] [0 \<mapsto> root_pid t]" "same_store (bt_pool t) s1" by auto
  note e1 = same_storeD [OF s1(3)]
  have "pool_layout (j_page j) (Suc m) (bt_pool (t\<lparr>bt_pool := s1\<rparr>)) [(1, True)] [0 \<mapsto> root_pid t]" "2 \<le> Suc m"
    "a \<notin> ran [0 :: nat \<mapsto> root_pid t]" "small_page (bt_pool (t\<lparr>bt_pool := s1\<rparr>)) a" "node_on_disk (bt_pool (t\<lparr>bt_pool := s1\<rparr>)) a x"
    "first_free (bt_pool (t\<lparr>bt_pool := s1\<rparr>)) [0 \<mapsto> root_pid t] 1"
    using s1(2) h d by (auto simp: small_page_def first_free_def e1)
  from get_miss [OF this pinnable_head] obtain s2 where
    s2: "getBtreePage j a (t\<lparr>bt_pool := s1\<rparr>) = Inr (x, t\<lparr>bt_pool := s2\<rparr>)"
      "pool_layout (j_page j) (Suc m) s2 [] [0 \<mapsto> root_pid t, 1 \<mapsto> a]" "same_store s1 s2" by auto
  note e2 = same_storeD [OF s2(3)]
  have "pool_layout (j_page j) (Suc m) (bt_pool (t\<lparr>bt_pool := s2\<rparr>)) [] [0 \<mapsto> root_pid t, 1 \<mapsto> a]" "2 \<le> Suc m"
    "b \<notin> ran [0 :: nat \<mapsto> root_pid t, 1 \<mapsto> a]" "small_page (bt_pool (t\<lparr>bt_pool := s2\<rparr>)) b" "node_on_disk (bt_pool (t\<lparr>bt_pool := s2\<rparr>)) b y"
    "first_free (bt_pool (t\<lparr>bt_pool := s2\<rparr>)) [0 \<mapsto> root_pid t, 1 \<mapsto> a] 2"
    using s2(2) h d by (auto simp: small_page_def first_free_def e1 e2 less_2_cases_iff)
  from get_miss [OF this pinnable_empty] obtain s3 where
    s3: "getBtreePage j b (t\<lparr>bt_pool := s2\<rparr>) = Inr (y, t\<lparr>bt_pool := s3\<rparr>)"
      "pool_layout (j_page j) (Suc m) s3 [] [0 \<mapsto> root_pid t, 1 \<mapsto> a, 2 \<mapsto> b]" "same_store s2 s3" by auto
  have "same_store (bt_pool t) s3" using s1(3) s2(3) s3(3) by (simp add: same_store_def)
  then show ?thesis using s1(1) s2(1) s3(1,2) by blast
qed

definition emptied :: "BTreePage \<Rightarrow> BTreePage" where
  "emptied n = n\<lparr>keys := [], vals := InternalChildren []\<rparr>"

lemma emptied_ok:
  assumes "\<not> is_leaf n"
  shows "node_ok (emptied n)" and "node_fits (emptied n)"
  using assms by (simp_all add: emptied_def node_ok_def node_fits_def pairs_def layout_defs)

text \<open>The left leaf takes the records of the right one and becomes the root.\<close>

lemma merge_leaf_left_joins:
  assumes t: "two_leaf_tree L j m t v" and s: "persist j (left_pid v) (joined (left_leaf v) (right_leaf v)) t' = Inr t''"
    and size: "keys (left_leaf v) \<noteq> []" "length (keys (left_leaf v)) + length (keys (right_leaf v)) \<le> unat (max_size t')"
  shows "MergeLeaf_merge j (root_pid t, - 1) True
      \<lparr>l_node = right_leaf v, l_node_pid = right_pid v, l_sibling = left_leaf v, l_sibling_pid = left_pid v,
       l_parent = root_node v, l_parent_pid = root_pid t\<rparr> t' =
    Inr (\<lparr>l_node = right_leaf v, l_node_pid = right_pid v, l_sibling = joined (left_leaf v) (right_leaf v), l_sibling_pid = left_pid v,
       l_parent = emptied (root_node v), l_parent_pid = root_pid t\<rparr>, t'')"
proof -
  note h = t [unfolded two_leaf_tree_def]
  have rec: "LEAF_RECORDS (vals (left_leaf v)) = Inr (records (left_leaf v))" "LEAF_RECORDS (vals (right_leaf v)) = Inr (records (right_leaf v))"
    using h by (metis leaf_ok_def LEAF_RECORDS.simps(1))+
  have rt: "vals (root_node v) = InternalChildren [left_pid v]" "keys (root_node v) = [separator v]" using h by blast+
  have go: "\<not> unat (max_size t') < length (keys (right_leaf v)) + length (keys (left_leaf v))" using size(2) by simp
  show ?thesis
    using s size(1) go rec rt
    by (simp add: MergeLeaf_merge_def merge_leaf_left_def joined_def emptied_def set_at_def pop_back_def)
qed

lemma merge_into_left:
  assumes t: "two_leaf_tree L j m t v" and lay: "pool_layout (j_page j) m (bt_pool t) [(1, True)] [0 \<mapsto> root_pid t]" and m: "m < 2 ^ 31 - 2"
    and size: "keys (left_leaf v) \<noteq> []" "length (keys (left_leaf v)) + length (keys (right_leaf v)) \<le> unat (max_size t)"
      "leaf_fits L (length (keys (left_leaf v)) + length (keys (right_leaf v)))" and dp: "0 \<in> disk_pages (bt_pool t)"
  shows "\<exists>s. btree_merge j (right_pid v) [(root_pid t, - 1)] t = Inr (t\<lparr>root_pid := left_pid v, bt_pool := s\<rparr>) \<and>
    pool_layout (j_page j) (Suc m) s [(0, True), (2, True)] [1 \<mapsto> right_pid v] \<and>
    node_on_disk s (left_pid v) (joined (left_leaf v) (right_leaf v)) \<and>
    0 \<in> disk_pages s \<and> disk_page s 0 = meta_bytes j (t\<lparr>root_pid := left_pid v\<rparr>)"
proof -
  let ?l = "left_pid v" and ?r = "right_pid v" and ?root = "root_pid t" and ?n = "joined (left_leaf v) (right_leaf v)"
  note h = t [unfolded two_leaf_tree_def]
  have rt: "\<not> is_leaf (root_node v)" "vals (root_node v) = InternalChildren [?l]" "is_leaf (right_leaf v)"
    using h by (auto simp: leaf_ok_def)
  have ne: "?l \<noteq> ?root" "?r \<noteq> ?root" "?l \<noteq> ?r" "?l \<noteq> 0" "?root \<noteq> 0" "?r \<noteq> 0" "0 < L" using h by (auto simp: small_page_def)
  have m1: "m < 2 ^ 31 - 1" "Suc m < 2 ^ 31 - 1" using m by simp_all
  from merge_reads [OF t lay m1(1), of ?r "right_leaf v" ?l "left_leaf v"] obtain s1 s2 s3 where
    rd: "getBtreePage j ?root t = Inr (root_node v, t\<lparr>bt_pool := s1\<rparr>)" "getBtreePage j ?r (t\<lparr>bt_pool := s1\<rparr>) = Inr (right_leaf v, t\<lparr>bt_pool := s2\<rparr>)"
      "getBtreePage j ?l (t\<lparr>bt_pool := s2\<rparr>) = Inr (left_leaf v, t\<lparr>bt_pool := s3\<rparr>)"
      "pool_layout (j_page j) (Suc m) s3 [] [0 \<mapsto> ?root, 1 \<mapsto> ?r, 2 \<mapsto> ?l]" "same_store (bt_pool t) s3" by auto
  note jo = joined_ok [OF t]
  have nf: "node_ok ?n" "node_fits ?n" using leaf_node_ok [OF jo(1) ne(7)] leaf_node_fits [OF jo(1)] size(3) by (simp_all add: joined_def)
  have l3: "pool_layout (j_page j) (Suc m) (bt_pool (t\<lparr>bt_pool := s3\<rparr>)) [] [0 \<mapsto> ?root, 1 \<mapsto> ?r, 2 \<mapsto> ?l]" using rd(4) by simp
  from persist_resident [OF l3 _ m1(2) nf, of 2 ?l] obtain s4 d4 where
    s4: "persist j ?l ?n (t\<lparr>bt_pool := s3\<rparr>) = Inr (t\<lparr>bt_pool := s4\<rparr>)" "stored ?l d4 s3 s4" "deserialize d4 = Inr ?n"
      "pool_layout (j_page j) (Suc m) s4 [(2, True)] ([0 \<mapsto> ?root, 1 \<mapsto> ?r, 2 \<mapsto> ?l](2 := None))" by auto
  have l4: "pool_layout (j_page j) (Suc m) (bt_pool (t\<lparr>bt_pool := s4\<rparr>)) [(2, True)] ([0 \<mapsto> ?root, 1 \<mapsto> ?r, 2 \<mapsto> ?l](2 := None))" using s4(4) by simp
  from persist_resident [OF l4 _ m1(2) emptied_ok [OF rt(1)], of 0 ?root] obtain s5 d5 where
    s5: "persist j ?root (emptied (root_node v)) (t\<lparr>bt_pool := s4\<rparr>) = Inr (t\<lparr>bt_pool := s5\<rparr>)" "stored ?root d5 s4 s5"
      "pool_layout (j_page j) (Suc m) s5 [(0, True), (2, True)] ([0 \<mapsto> ?root, 1 \<mapsto> ?r, 2 \<mapsto> ?l](2 := None, 0 := None))" by auto
  have o: "[0 :: nat \<mapsto> ?root, 1 \<mapsto> ?r, 2 \<mapsto> ?l](2 := None, 0 := None) = [1 \<mapsto> ?r]" by (simp add: fun_eq_iff)
  have dp5: "0 \<in> disk_pages s5" using dp same_storeD(2) [OF rd(5)] s4(2) s5(2) by (auto simp: stored_def)
  let ?t5 = "t\<lparr>root_pid := ?l, bt_pool := s5\<rparr>"
  have "pool_layout (j_page j) (Suc m) (bt_pool ?t5) [(0, True), (2, True)] [1 \<mapsto> ?r]" "0 \<notin> ran [1 :: nat \<mapsto> ?r]" "0 \<in> disk_pages (bt_pool ?t5)"
    "first_free (bt_pool ?t5) [1 \<mapsto> ?r] 0" using s5(3) o dp5 ne(6) s4(2) s5(2) same_storeD(4) [OF rd(5)] h
    by (auto simp: first_free_def stored_def)
  from persist_metadata_absent [OF this pinnable_head] obtain s6 where
    s6: "persist_metadata j ?t5 = Inr (t\<lparr>root_pid := ?l, bt_pool := s6\<rparr>)"
      "pool_layout (j_page j) (Suc m) s6 [(0, True), (2, True)] [1 \<mapsto> ?r]" "stored 0 (meta_bytes j ?t5) s5 s6" by auto
  have swap: "t\<lparr>bt_pool := s5, root_pid := ?l\<rparr> = ?t5" by (cases t) simp
  have "persist_metadata j (t\<lparr>bt_pool := s5, root_pid := ?l\<rparr>) = Inr (t\<lparr>root_pid := ?l, bt_pool := s6\<rparr>)" unfolding swap by (rule s6(1))
  then have "btree_merge j ?r [(?root, - 1)] t = Inr (t\<lparr>root_pid := ?l, bt_pool := s6\<rparr>)"
    using rd(1-3) rt(2,3) merge_leaf_left_joins [OF t s4(1) size(1)] size(2) s5(1)
    by (simp add: at_def emptied_def)
  moreover have "node_on_disk s6 ?l ?n"
    using stored_node(1) [OF s4(2,3)] stored_node(2) [OF s5(2)] stored_node(2) [OF s6(3)] ne(1,4) by metis
  moreover have "0 \<in> disk_pages s6" "disk_page s6 0 = meta_bytes j (t\<lparr>root_pid := ?l\<rparr>)"
    using s6(3) by (simp_all add: stored_def meta_bytes_def)
  ultimately show ?thesis using s6(2) by blast
qed

text \<open>
  C39. Removing from the right leaf of a tree of two levels when both leaves then fit in one: the key is removed, the
  leaves are merged, and the left leaf on disk is the root and stands for the whole map without the key. The
  metadata names the new root, so that a tree opened later finds it. The page of the right leaf stays in its
  frame, pinned and unused. All keys have the same length.
\<close>

theorem remove_merges_leaves:
  assumes t: "two_leaf_tree L j m t v" "magic_num t = BTREE_INDEX" and m: "m < 2 ^ 31 - 3"
    and key: "key_of_size L key" "key_num (separator v) \<le> key_num key" "key_num key \<in> dom (tree_map v)"
    and size: "keys (left_leaf v) \<noteq> []" "length (keys (left_leaf v)) + length (keys (right_leaf v)) \<le> Suc (unat (max_size t))"
      "leaf_fits L (length (keys (left_leaf v)) + length (keys (right_leaf v)))" and dp: "0 \<in> disk_pages (bt_pool t)"
  shows "\<exists>t' n. btree_remove (Suc fuel) j key t = Inr t' \<and> root_pid t' = left_pid v \<and>
    node_on_disk (bt_pool t') (left_pid v) n \<and> leaf_ok L n \<and> leaf_map n = (tree_map v)(key_num key := None) \<and>
    (\<exists>u. btree_deserialize j (new_BTree a b c d (bt_pool t')) = Inr u \<and> root_pid u = left_pid v) \<and>
    resident (bt_pool t') (unat (right_pid v)) = Some 1"
proof -
  have of: "leaf_of v key = right_leaf v" "child_of v key = right_pid v" "\<not> key_num key < key_num (separator v)"
    using key(2) by (simp_all add: leaf_of_def child_of_def)
  have fit: "leaf_fits L k" if "k \<le> length (keys (left_leaf v)) + length (keys (right_leaf v))" for k
    using leaf_fits_mono [OF size(3) that] .
  have "m < 2 ^ 31 - 2" "leaf_fits L (length (keys (leaf_of v key)))" using m fit by (simp_all add: of)
  from remove_reaches_merge [OF t(1) this(1) key(1,3) this(2), of fuel] obtain st n where
    st: "btree_remove (Suc fuel) j key t = btree_merge j (right_pid v) [(root_pid t, - 1)] (t\<lparr>bt_pool := st\<rparr>)"
      "pool_layout (j_page j) (Suc m) st [(1, True)] [0 \<mapsto> root_pid t]" "disk_pages (bt_pool t) \<subseteq> disk_pages st"
      "two_leaf_tree L j (Suc m) (t\<lparr>bt_pool := st\<rparr>) (set_leaf v key n)"
      "tree_map (set_leaf v key n) = (tree_map v)(key_num key := None)" "length (keys n) < length (keys (right_leaf v))"
    unfolding of using of(3) by auto
  let ?t = "t\<lparr>bt_pool := st\<rparr>" and ?v = "set_leaf v key n" and ?l = "left_pid v"
  have v: "left_leaf ?v = left_leaf v" "right_leaf ?v = n" using of(3) by (simp_all add: set_leaf_def)
  have "pool_layout (j_page j) (Suc m) (bt_pool ?t) [(1, True)] [0 \<mapsto> root_pid ?t]" "Suc m < 2 ^ 31 - 2" "keys (left_leaf ?v) \<noteq> []"
    "length (keys (left_leaf ?v)) + length (keys (right_leaf ?v)) \<le> unat (max_size ?t)"
    "leaf_fits L (length (keys (left_leaf ?v)) + length (keys (right_leaf ?v)))" "0 \<in> disk_pages (bt_pool ?t)"
    unfolding v using st(2,3,6) m size(1,2) dp fit by auto
  from merge_into_left [OF st(4) this] obtain s where
    s: "btree_merge j (right_pid v) [(root_pid t, - 1)] ?t = Inr (?t\<lparr>root_pid := ?l, bt_pool := s\<rparr>)"
      "pool_layout (j_page j) (Suc (Suc m)) s [(0, True), (2, True)] [1 \<mapsto> right_pid v]"
      "node_on_disk s ?l (joined (left_leaf ?v) (right_leaf ?v))" "0 \<in> disk_pages s"
      "disk_page s 0 = meta_bytes j (?t\<lparr>root_pid := ?l\<rparr>)" by auto
  let ?t' = "?t\<lparr>root_pid := ?l, bt_pool := s\<rparr>"
  have "btree_deserialize j (new_BTree a b c d s) = Inr ((?t\<lparr>root_pid := ?l\<rparr>)\<lparr>bt_pool := bt_pool (new_BTree a b c d s)\<rparr>)"
    using pool_wfD(11) [OF layoutD(1) [OF s(2)]] s(4,5) t(2) by (intro deserialize_meta) (simp_all add: new_BTree_def)
  moreover have "resident s (unat (right_pid v)) = Some 1" using layout_frame(2) [OF s(2), of 1 "right_pid v"] by simp
  ultimately show ?thesis
    using st(1,5) s(1,3) joined_ok [OF st(4)] by (intro exI [of _ ?t'] exI [of _ "joined (left_leaf ?v) (right_leaf ?v)"]) simp
qed

text \<open>
  Removing from the left leaf when both leaves then fit in one: the records of the right leaf move to the left
  one, but the root keeps its separator and its rightmost pointer becomes the page of the metadata, so that the
  search for the keys above the separator does not reach them any more.
\<close>

lemma merge_right_cuts_off:
  assumes t: "two_leaf_tree L j m t v" and lay: "pool_layout (j_page j) m (bt_pool t) [(1, True)] [0 \<mapsto> root_pid t]" and m: "m < 2 ^ 31 - 2"
    and size: "keys (right_leaf v) \<noteq> []" "length (keys (left_leaf v)) + length (keys (right_leaf v)) \<le> unat (max_size t)"
      "leaf_fits L (length (keys (left_leaf v)) + length (keys (right_leaf v)))"
  shows "\<exists>s. btree_merge j (left_pid v) [(root_pid t, 0)] t = Inr (t\<lparr>bt_pool := s\<rparr>) \<and>
    node_on_disk s (left_pid v) (joined (left_leaf v) (right_leaf v)) \<and>
    node_on_disk s (root_pid t) ((root_node v)\<lparr>rightmost_ptr := BTREE_METADATA_PAGE_ID\<rparr>)"
proof -
  let ?l = "left_pid v" and ?r = "right_pid v" and ?root = "root_pid t" and ?n = "joined (left_leaf v) (right_leaf v)"
  let ?rt = "(root_node v)\<lparr>rightmost_ptr := 0\<rparr>"
  note h = t [unfolded two_leaf_tree_def]
  have rt: "vals (root_node v) = InternalChildren [?l]" "keys (root_node v) = [separator v]" "rightmost_ptr (root_node v) = ?r"
    "\<not> is_leaf (root_node v)" "next_pid (left_leaf v) = ?r" "is_leaf (left_leaf v)" using h by (auto simp: leaf_ok_def)
  have ne: "?l \<noteq> ?root" "0 < L" "key_of_size L (separator v)" using h by auto
  have rec: "LEAF_RECORDS (vals (left_leaf v)) = Inr (records (left_leaf v))" "LEAF_RECORDS (vals (right_leaf v)) = Inr (records (right_leaf v))"
    using h by (metis leaf_ok_def LEAF_RECORDS.simps(1))+
  have m1: "m < 2 ^ 31 - 1" "Suc m < 2 ^ 31 - 1" using m by simp_all
  from merge_reads [OF t lay m1(1), of ?l "left_leaf v" ?r "right_leaf v"] obtain s1 s2 s3 where
    rd: "getBtreePage j ?root t = Inr (root_node v, t\<lparr>bt_pool := s1\<rparr>)" "getBtreePage j ?l (t\<lparr>bt_pool := s1\<rparr>) = Inr (left_leaf v, t\<lparr>bt_pool := s2\<rparr>)"
      "getBtreePage j ?r (t\<lparr>bt_pool := s2\<rparr>) = Inr (right_leaf v, t\<lparr>bt_pool := s3\<rparr>)"
      "pool_layout (j_page j) (Suc m) s3 [] [0 \<mapsto> ?root, 1 \<mapsto> ?l, 2 \<mapsto> ?r]" by auto
  note jo = joined_ok [OF t]
  have nf: "node_ok ?n" "node_fits ?n" using leaf_node_ok [OF jo(1) ne(2)] leaf_node_fits [OF jo(1)] size(3) by (simp_all add: joined_def)
  have "pool_layout (j_page j) (Suc m) (bt_pool (t\<lparr>bt_pool := s3\<rparr>)) [] [0 \<mapsto> ?root, 1 \<mapsto> ?l, 2 \<mapsto> ?r]" using rd(4) by simp
  from persist_resident [OF this _ m1(2) nf, of 1 ?l] obtain s4 d4 where
    s4: "persist j ?l ?n (t\<lparr>bt_pool := s3\<rparr>) = Inr (t\<lparr>bt_pool := s4\<rparr>)" "stored ?l d4 s3 s4" "deserialize d4 = Inr ?n"
      "pool_layout (j_page j) (Suc m) s4 [(1, True)] ([0 \<mapsto> ?root, 1 \<mapsto> ?l, 2 \<mapsto> ?r](1 := None))" by auto
  have len: "length (key_data (separator v)) = unat (key_length (separator v))" "key_length (separator v) \<noteq> 0"
    using ne(2,3) by (auto simp: key_of_size_def)
  then have rf: "node_ok ?rt" "node_fits ?rt" using rt(1,2,4) unat_bounds(1) [of "key_length (separator v)"]
    by (simp_all add: node_ok_def node_fits_def pairs_def kv_def vb_def layout_defs)
  have "pool_layout (j_page j) (Suc m) (bt_pool (t\<lparr>bt_pool := s4\<rparr>)) [(1, True)] ([0 \<mapsto> ?root, 1 \<mapsto> ?l, 2 \<mapsto> ?r](1 := None))" using s4(4) by simp
  from persist_resident [OF this _ m1(2) rf, of 0 ?root] obtain s5 d5 where
    s5: "persist j ?root ?rt (t\<lparr>bt_pool := s4\<rparr>) = Inr (t\<lparr>bt_pool := s5\<rparr>)" "stored ?root d5 s4 s5" "deserialize d5 = Inr ?rt" by auto
  have "btree_merge j ?l [(?root, 0)] t = Inr (t\<lparr>bt_pool := s5\<rparr>)"
    using rd(1-3) rt rec s4(1) s5(1) size(1,2)
    by (simp add: MergeLeaf_merge_def merge_leaf_right_def joined_def)
  moreover have "node_on_disk s5 ?l ?n" using stored_node(1) [OF s4(2,3)] stored_node(2) [OF s5(2)] ne(1) by metis
  ultimately show ?thesis using stored_node(1) [OF s5(2,3)] by (auto simp: BTREE_METADATA_PAGE_ID_def)
qed

section \<open>From one level to two\<close>

lemma full_root_gives_two_leaves:
  assumes t: "leaf_tree L j t n" "magic_num t = BTREE_INDEX" and key: "key_of_size L key" "key_num key \<notin> dom (leaf_map n)"
    and full: "length (keys n) = unat (max_size t)" "0 < unat (max_size t)" "leaf_fits L (Suc (length (keys n)))"
    and meta: "0 \<in> disk_pages (bt_pool t)" "index_meta k (disk_page (bt_pool t) 0)"
    and pages: "unat k + 2 < pool_size (p_bpm (bt_pool t))" "unat k + 2 < 10000" "unat (root_pid t) \<le> unat k"
  shows "\<exists>t' v. btree_insert fuel j key val t = Inr (root_pid t, t') \<and> two_leaf_tree L j 2 t' v \<and>
    tree_map v = (leaf_map n)(key_num key \<mapsto> val) \<and> left_pid v = root_pid t \<and>
    magic_num t' = BTREE_INDEX \<and> max_size t' = max_size t \<and> 0 \<in> disk_pages (bt_pool t') \<and>
    length (keys (left_leaf v)) = Suc (length (keys n)) div 2 \<and>
    length (keys (left_leaf v)) + length (keys (right_leaf v)) = Suc (length (keys n)) \<and>
    right_pid v = ucast (k + 1) \<and> root_pid t' = ucast (k + 2) \<and> node_count t' = node_count t + 2 \<and>
    index_meta (node_count t') (disk_page (bt_pool t') 0) \<and> pool_size (p_bpm (bt_pool t')) = pool_size (p_bpm (bt_pool t))"
proof -
  let ?a = "ucast (k + 1) :: page_id_t" and ?b = "ucast (k + 2) :: page_id_t"
  from insert_full_root [OF assms, of fuel val 0 0 0 0] obtain t' l r mid where
    t': "btree_insert fuel j key val t = Inr (root_pid t, t')" "at_rest (j_page j) (bt_pool t')" "root_pid t' = ?b"
      "node_on_disk (bt_pool t') (root_pid t') (new_root_node j mid (root_pid t) ?a)"
      "node_on_disk (bt_pool t') (root_pid t) l" "node_on_disk (bt_pool t') ?a r" "leaf_ok L l" "leaf_ok L r" "next_pid l = ?a"
      "key_of_size L mid" "leaf_map r ++ leaf_map l = (leaf_map n)(key_num key \<mapsto> val)"
      "\<forall>x \<in> dom (leaf_map l). x < key_num mid" "\<forall>x \<in> dom (leaf_map r). key_num mid \<le> x"
      "magic_num t' = magic_num t" "max_size t' = max_size t" "0 \<in> disk_pages (bt_pool t')"
      "pool_size (p_bpm (bt_pool t')) = pool_size (p_bpm (bt_pool t))"
      "length (keys l) = Suc (length (keys n)) div 2" "length (keys l) + length (keys r) = Suc (length (keys n))"
      "node_count t' = node_count t + 2" "index_meta (node_count t') (disk_page (bt_pool t') 0)" by blast
  have h: "at_rest (j_page j) (bt_pool t)" "root_pid t \<noteq> 0" "0 < L" using t(1) by (simp_all add: leaf_tree_def)
  have N: "pool_size (p_bpm (bt_pool t)) < 65536" using h(1) pool_wfD(2) by (auto simp: at_rest_def)
  note pg = split_pages [OF pages(1) N h(2) pages(3)]
  let ?v = "\<lparr>separator = mid, root_node = new_root_node j mid (root_pid t) ?a, left_pid = root_pid t, right_pid = ?a,
    left_leaf = l, right_leaf = r\<rparr>"
  have "two_leaf_tree L j 2 t' ?v"
    unfolding two_leaf_tree_def small_page_def using t' rest_quiet [OF t'(2)] h pg(1,2,6-10) pages
    by (simp add: new_root_node_def fresh_node_def new_BTreePage_def)
  then show ?thesis using t' t(2) by (intro exI [of _ t'] exI [of _ ?v]) (simp add: tree_map_def)
qed

section \<open>Witnesses\<close>

text \<open>The keys 5, 7 and 9 in a tree that takes two keys per node.\<close>

lemma demo_two_leaves:
  "\<exists>t v. two_leaf_tree 1 demo_j 2 t v \<and> magic_num t = BTREE_INDEX \<and> max_size t = 2 \<and> 0 \<in> disk_pages (bt_pool t) \<and>
    left_pid v = 1 \<and> tree_map v = [5 \<mapsto> demo_rid, 7 \<mapsto> demo_rid, 9 \<mapsto> demo_rid] \<and>
    length (keys (left_leaf v)) = 1 \<and> length (keys (right_leaf v)) = 2 \<and> right_pid v = 2 \<and> root_pid t = 3 \<and>
    index_meta 3 (disk_page (bt_pool t) 0) \<and> pool_size (p_bpm (bt_pool t)) = 8"
proof -
  have "0 < unat (2 :: u8)" by simp
  from demo_leaf_tree [OF this] obtain t n where
    t: "leaf_tree 1 demo_j t n" "leaf_map n = [5 \<mapsto> demo_rid]" "length (keys n) = 1" "root_pid t = 1" "magic_num t = BTREE_INDEX"
      "max_size t = 2" "pool_size (p_bpm (bt_pool t)) = 8" "0 \<in> disk_pages (bt_pool t)" "index_meta 1 (disk_page (bt_pool t) 0)"
      "node_count t = 1" by blast
  have "key_num (demo_key 7) \<notin> dom (leaf_map n)" "length (keys n) < unat (max_size t)" "leaf_fits 1 (Suc (length (keys n)))"
    using t(2,3,6) demo_fits by (simp_all add: demo_key_ok)
  from insert_leaf_tree [OF t(1) demo_key_ok(1) this, of 0 demo_rid] obtain u n' where
    u: "leaf_tree 1 demo_j u n'" "leaf_map n' = (leaf_map n)(key_num (demo_key 7) \<mapsto> demo_rid)"
      "length (keys n') = Suc (length (keys n))" "u = t\<lparr>bt_pool := bt_pool u\<rparr>"
      "pool_size (p_bpm (bt_pool u)) = pool_size (p_bpm (bt_pool t))" "disk_pages (bt_pool t) \<subseteq> disk_pages (bt_pool u)"
      "\<forall>q. of_nat q \<in> disk_pages (bt_pool t) \<longrightarrow> of_nat q \<noteq> root_pid t \<longrightarrow> disk_page (bt_pool u) q = disk_page (bt_pool t) q" by blast
  have f: "root_pid u = 1" "magic_num u = BTREE_INDEX" "max_size u = 2" "node_count u = 1"
    using arg_cong [OF u(4), of root_pid] arg_cong [OF u(4), of magic_num] arg_cong [OF u(4), of max_size]
      arg_cong [OF u(4), of node_count] t(4-6,10) by simp_all
  have num: "(ucast (1 + 1 :: u16) :: page_id_t) = 2" "(ucast (1 + 2 :: u16) :: page_id_t) = 3" by simp_all
  have "disk_page (bt_pool u) 0 = disk_page (bt_pool t) 0" using u(7) [rule_format, of 0] t(4,8) by simp
  then have "index_meta 1 (disk_page (bt_pool u) 0)" using t(9) by simp
  moreover have "key_num (demo_key 9) \<notin> dom (leaf_map n')" using u(2) t(2) by (simp add: demo_key_ok)
  moreover have "length (keys n') = unat (max_size u)" "0 < unat (max_size u)" "leaf_fits 1 (Suc (length (keys n')))"
    "0 \<in> disk_pages (bt_pool u)" "unat (1 :: u16) + 2 < pool_size (p_bpm (bt_pool u))" "unat (1 :: u16) + 2 < 10000"
    "unat (root_pid u) \<le> unat (1 :: u16)"
    using u(3,5,6) t(3,7,8) f demo_fits by auto
  ultimately obtain t' v where
    v: "two_leaf_tree 1 demo_j 2 t' v" "tree_map v = (leaf_map n')(key_num (demo_key 9) \<mapsto> demo_rid)" "left_pid v = root_pid u"
      "magic_num t' = BTREE_INDEX" "max_size t' = max_size u" "0 \<in> disk_pages (bt_pool t')"
      "length (keys (left_leaf v)) = Suc (length (keys n')) div 2"
      "length (keys (left_leaf v)) + length (keys (right_leaf v)) = Suc (length (keys n'))" "right_pid v = 2" "root_pid t' = 3"
      "node_count t' = node_count u + 2" "index_meta (node_count t') (disk_page (bt_pool t') 0)"
      "pool_size (p_bpm (bt_pool t')) = pool_size (p_bpm (bt_pool u))"
    using full_root_gives_two_leaves [OF u(1) f(2) demo_key_ok(1), of 9 1 0 demo_rid] unfolding num by blast
  have "tree_map v = [5 \<mapsto> demo_rid, 7 \<mapsto> demo_rid, 9 \<mapsto> demo_rid]" using v(2) u(2) t(2) by (simp add: demo_key_ok)
  then show ?thesis using v f u(3,5) t(3,7) by (intro exI [of _ t'] exI [of _ v]) simp
qed

lemma leaf_inhabited:
  assumes "leaf_ok L n" and "keys n \<noteq> []"
  obtains x where "x \<in> dom (leaf_map n)"
proof -
  have "dom (leaf_map n) = key_num ` set (keys n)" using assms(1) by (simp add: leaf_map_def leaf_ok_def dom_map_of_zip)
  then show thesis using that assms(2) by (cases "keys n") auto
qed

text \<open>Where the separator of that tree lies.\<close>

lemma demo_separator:
  assumes t: "two_leaf_tree 1 j m t v" and map: "tree_map v = [5 \<mapsto> demo_rid, 7 \<mapsto> demo_rid, 9 \<mapsto> demo_rid]"
    and "keys (left_leaf v) \<noteq> []" and "keys (right_leaf v) \<noteq> []"
  shows "5 < key_num (separator v)" and "key_num (separator v) \<le> 9"
proof -
  have ok: "leaf_ok 1 (left_leaf v)" "leaf_ok 1 (right_leaf v)" using t by (simp_all add: two_leaf_tree_def)
  from leaf_inhabited [OF ok(1) assms(3)] obtain x where x: "x \<in> dom (leaf_map (left_leaf v))" .
  from leaf_inhabited [OF ok(2) assms(4)] obtain y where y: "y \<in> dom (leaf_map (right_leaf v))" .
  have "dom (leaf_map (left_leaf v)) \<union> dom (leaf_map (right_leaf v)) = dom (tree_map v)" by (auto simp: tree_map_def)
  also have "\<dots> = {5, 7, 9}" by (auto simp: map)
  finally have "x \<in> {5, 7, 9}" "y \<in> {5, 7, 9}" using x y by blast+
  then show "5 < key_num (separator v)" "key_num (separator v) \<le> 9" using separated(1) [OF t x] separated(2) [OF t y] by auto
qed

theorem insert_two_levels_refines_map_witness:
  "\<exists>t t' v'. btree_insert 1 demo_j (demo_key 3) demo_rid t = Inr (1, t') \<and> two_leaf_tree 1 demo_j (Suc 2) t' v' \<and>
    tree_map v' = [5 \<mapsto> demo_rid, 7 \<mapsto> demo_rid, 9 \<mapsto> demo_rid, 3 \<mapsto> demo_rid]"
proof -
  from demo_two_leaves obtain t v where
    v: "two_leaf_tree 1 demo_j 2 t v" "max_size t = 2" "left_pid v = 1" "tree_map v = [5 \<mapsto> demo_rid, 7 \<mapsto> demo_rid, 9 \<mapsto> demo_rid]"
      "length (keys (left_leaf v)) = 1" "length (keys (right_leaf v)) = 2" by blast
  have ne: "keys (left_leaf v) \<noteq> []" "keys (right_leaf v) \<noteq> []" using v(5,6) by auto
  have lt: "key_num (demo_key 3) < key_num (separator v)" using demo_separator(1) [OF v(1,4) ne] by (simp add: demo_key_ok)
  have "(2 :: nat) < 2 ^ 31 - 2" "key_num (demo_key 3) \<notin> dom (tree_map v)" "length (keys (leaf_of v (demo_key 3))) < unat (max_size t)"
    "leaf_fits 1 (Suc (length (keys (leaf_of v (demo_key 3)))))"
    using lt v(2,4,5) demo_fits by (simp_all add: leaf_of_def demo_key_ok)
  from insert_two_levels_refines_map [OF v(1) this(1) demo_key_ok(1) this(2-4), of 0 demo_rid] show ?thesis
    using lt v(3,4) by (auto simp: child_of_def demo_key_ok)
qed

theorem remove_merges_leaves_witness:
  "\<exists>t t' n. btree_remove 1 demo_j (demo_key 9) t = Inr t' \<and> root_pid t' = 1 \<and> node_on_disk (bt_pool t') 1 n \<and>
    leaf_map n = [5 \<mapsto> demo_rid, 7 \<mapsto> demo_rid]"
proof -
  from demo_two_leaves obtain t v where
    v: "two_leaf_tree 1 demo_j 2 t v" "magic_num t = BTREE_INDEX" "max_size t = 2" "0 \<in> disk_pages (bt_pool t)" "left_pid v = 1"
      "tree_map v = [5 \<mapsto> demo_rid, 7 \<mapsto> demo_rid, 9 \<mapsto> demo_rid]" "length (keys (left_leaf v)) = 1" "length (keys (right_leaf v)) = 2" by blast
  have ne: "keys (left_leaf v) \<noteq> []" "keys (right_leaf v) \<noteq> []" using v(7,8) by auto
  have "(2 :: nat) < 2 ^ 31 - 3" "key_num (separator v) \<le> key_num (demo_key 9)" "key_num (demo_key 9) \<in> dom (tree_map v)"
    "length (keys (left_leaf v)) + length (keys (right_leaf v)) \<le> Suc (unat (max_size t))"
    "leaf_fits 1 (length (keys (left_leaf v)) + length (keys (right_leaf v)))"
    using demo_separator(2) [OF v(1,6) ne] v(3,6,7,8) demo_fits by (simp_all add: demo_key_ok)
  from remove_merges_leaves [OF v(1,2) this(1) demo_key_ok(1) this(2,3) ne(1) this(4,5) v(4), of 0 0 0 0 0] obtain t' n where
    t': "btree_remove (Suc 0) demo_j (demo_key 9) t = Inr t'" "root_pid t' = left_pid v" "node_on_disk (bt_pool t') (left_pid v) n"
      "leaf_map n = (tree_map v)(key_num (demo_key 9) := None)" by blast
  moreover have "(tree_map v)(key_num (demo_key 9) := None) = [5 \<mapsto> demo_rid, 7 \<mapsto> demo_rid]"
    by (simp add: v(6) demo_key_ok fun_eq_iff)
  ultimately show ?thesis using v(5) by auto
qed

end
