(* ===== verification/Btree_Grow.thy ===== *)
theory Btree_Grow
  imports Btree_Levels
begin

text \<open>
  Splitting a leaf below the root: \<^verbatim>\<open>splitNonRootNode\<close> when the full leaf is the rightmost one and the root has room
  for one more separator. The tree gets a third leaf. The search then no longer reaches the leaf in the middle.
\<close>

section \<open>Allocation while pages are held\<close>

lemma layout_allocated:
  assumes lay: "pool_layout junk m st fs occ" and inv: "dm_inv (disk_manager (p_bpm st)) junk files"
    and a: "allocated k leaf st (st\<lparr>p_files := files\<rparr>)" and z: "0 \<notin> ran occ" "ucast (k + 1) \<notin> ran occ"
  shows "pool_layout junk m (st\<lparr>p_files := files\<rparr>) fs occ"
proof -
  let ?st = "st\<lparr>p_files := files\<rparr>"
  have "pool_wf junk ?st fs" using layoutD(1) [OF lay] inv by (simp add: pool_wf_def Let_def)
  moreover have "resident ?st p = resident st p" "frame ?st i = frame st i" for p i by (simp_all add: resident_def frame_def)
  moreover have "page_in m ?st fs i q" if i: "occ i = Some q" for i q
  proof -
    have "of_nat (unat q) \<in> disk_pages st" "(of_nat (unat q) :: page_id_t) \<noteq> 0" "(of_nat (unat q) :: page_id_t) \<noteq> ucast (k + 1)"
      using layoutD(4) [OF lay i] z ranI [of occ i q] i by (auto simp: page_in_def)
    then have "disk_page ?st (unat q) = disk_page st (unat q)" using a unfolding allocated_def by blast
    moreover have "disk_pages st \<subseteq> disk_pages ?st" using a by (auto simp: allocated_def)
    ultimately show ?thesis using layoutD(4) [OF lay i] by (auto simp: page_in_def frame_def)
  qed
  ultimately show ?thesis using layoutD(2,3) [OF lay] by (simp add: pool_layout_def)
qed

lemma allocated_node:
  assumes "allocated k leaf st st'" and "node_on_disk st q n" and "q \<noteq> 0" and "q \<noteq> ucast (k + 1)"
  shows "node_on_disk st' q n"
proof -
  have "of_nat (unat q) \<in> disk_pages st" "(of_nat (unat q) :: page_id_t) \<noteq> 0" "(of_nat (unat q) :: page_id_t) \<noteq> ucast (k + 1)"
    using assms(2-4) by (simp_all add: node_on_disk_def)
  then have "disk_page st' (unat q) = disk_page st (unat q)" using assms(1) unfolding allocated_def by blast
  then show ?thesis using assms(1,2) by (auto simp: node_on_disk_def allocated_def)
qed

section \<open>A second separator\<close>

definition grown :: "BTreePage \<Rightarrow> BTreeKey \<Rightarrow> page_id_t \<Rightarrow> page_id_t \<Rightarrow> page_id_t \<Rightarrow> BTreePage" where
  "grown rt mid left right new = rt\<lparr>keys := keys rt @ [mid], vals := InternalChildren [left, right], rightmost_ptr := new\<rparr>"

lemma insert_separator:
  assumes "keys rt = [sep]" and "vals rt = InternalChildren [left]" and "key_of_size L sep" and "key_of_size L mid"
    and "key_num sep \<le> key_num mid"
  shows "insertIntoNode_u32 mid right rt = Inr (rt\<lparr>keys := [sep, mid], vals := InternalChildren [left, right]\<rparr>)"
proof -
  have "cmpKeys mid sep = Inr (if key_num sep < key_num mid then 1 else 0)"
    using cmpKeys_num [OF assms(4,3)] assms(5) by auto
  then show ?thesis
    using assms(1,2) by (simp add: insertIntoNode_u32_def insert_kv_def resize_def at_def set_at_def Let_def)
qed

lemma grown_ok:
  assumes "\<not> is_leaf rt" and "keys rt = [sep]" and "key_of_size L sep" and "key_of_size L mid" and "0 < L"
  shows "node_ok (grown rt mid left right new)" and "node_fits (grown rt mid left right new)"
proof -
  have "length (key_data sep) = unat (key_length sep)" "key_length sep \<noteq> 0" "length (key_data mid) = unat (key_length mid)"
    "key_length mid \<noteq> 0" "unat (key_length sep) < 256" "unat (key_length mid) < 256"
    using assms(3-5) unat_bounds(1) [of "key_length sep"] unat_bounds(1) [of "key_length mid"] by (auto simp: key_of_size_def)
  then show "node_ok (grown rt mid left right new)" "node_fits (grown rt mid left right new)"
    using assms(1,2) by (simp_all add: grown_def node_ok_def node_fits_def pairs_def kv_def vb_def layout_defs upt_rec [of 0])
qed

section \<open>The split\<close>

text \<open>The pages a split of the rightmost leaf \<open>q\<close> works on, in a file that counts \<open>k\<close> nodes.\<close>

definition split_ready :: "nat \<Rightarrow> Junk \<Rightarrow> nat \<Rightarrow> BTree \<Rightarrow> page_id_t \<Rightarrow> u16 \<Rightarrow> bool" where
  "split_ready L j m t q k \<longleftrightarrow>
     pool_layout (j_page j) m (bt_pool t) [] [0 \<mapsto> root_pid t, 1 \<mapsto> q] \<and> 2 \<le> m \<and> m < 2 ^ 31 - 4 \<and> 0 < L \<and>
     0 \<in> disk_pages (bt_pool t) \<and> index_meta k (disk_page (bt_pool t) 0) \<and>
     unat k + 1 < pool_size (p_bpm (bt_pool t)) \<and> unat k + 1 < 10000 \<and> root_pid t \<noteq> 0 \<and> q \<noteq> 0 \<and> q \<noteq> root_pid t \<and>
     unat (root_pid t) \<le> unat k \<and> unat q \<le> unat k"

lemma split_readyD:
  assumes "split_ready L j m t q k"
  shows "unat (ucast (k + 1) :: page_id_t) = unat k + 1" and "(ucast (k + 1) :: page_id_t) \<noteq> 0"
    and "(ucast (k + 1) :: page_id_t) \<noteq> root_pid t" and "(ucast (k + 1) :: page_id_t) \<noteq> q" and "k \<noteq> 65535"
proof -
  have k: "unat k + 1 < 10000" "unat (root_pid t) \<le> unat k" "unat q \<le> unat k" using assms by (simp_all add: split_ready_def)
  show u: "unat (ucast (k + 1) :: page_id_t) = unat k + 1" using k by (simp add: unat_ucast_wider unat_word_ariths)
  have ne: "x \<noteq> y" if "unat x \<noteq> unat y" for x y :: page_id_t using that by auto
  show "(ucast (k + 1) :: page_id_t) \<noteq> 0" "(ucast (k + 1) :: page_id_t) \<noteq> root_pid t" "(ucast (k + 1) :: page_id_t) \<noteq> q"
    using u k by (auto intro!: ne simp del: unat_eq_0 unsigned_eq_0_iff)
  show "k \<noteq> 65535" using k(1) by auto
qed

lemma key_eq_refl: "key_of_size L a \<Longrightarrow> key_eq a a = Inr True"
  using key_eq_num [of L a a] by simp

text \<open>Reading the parent: its page number from the breadcrumb, then the node.\<close>

lemma split_reads_parent:
  assumes lay: "pool_layout (j_page j) m (bt_pool t) fs occ" and k: "occ i = Some p" and m: "m < 2 ^ 31 - 2" and n: "node_on_disk (bt_pool t) p rt"
  shows "\<exists>s1 s2. getPrevBreadcrumbPid j [(p, c)] t = Inr (p, [], t\<lparr>bt_pool := s1\<rparr>) \<and>
    getBtreePage j p (t\<lparr>bt_pool := s1\<rparr>) = Inr (rt, t\<lparr>bt_pool := s2\<rparr>) \<and>
    pool_layout (j_page j) (m + 2) s2 fs occ \<and> same_store (bt_pool t) s2"
proof -
  have m1: "m < 2 ^ 31 - 1" "Suc m < 2 ^ 31 - 1" using m by simp_all
  from layout_hit [OF lay k m1(1)] obtain s1 where
    s1: "fetch_bpm_page (j_page j) p (bt_pool t) = Inr (of_nat i, s1)" "pool_layout (j_page j) (Suc m) s1 fs occ" "same_store (bt_pool t) s1" by blast
  have "page_at (of_nat i) s1 = Inr (frame s1 i)" "bp_id (frame s1 i) = p"
    using layout_frame(1) [OF s1(2) k] layoutD(4) [OF s1(2) k] page_at_wf [OF layoutD(1) [OF s1(2)], of "of_nat i"] by (simp_all add: page_in_def)
  then have c: "getPrevBreadcrumbPid j [(p, c)] t = Inr (p, [], t\<lparr>bt_pool := s1\<rparr>)" using s1(1) by (simp add: getPrevBreadcrumbPid_def)
  have "pool_layout (j_page j) (Suc m) (bt_pool (t\<lparr>bt_pool := s1\<rparr>)) fs occ" "node_on_disk (bt_pool (t\<lparr>bt_pool := s1\<rparr>)) p rt"
    using s1(2) n same_storeD(3) [OF s1(3)] by simp_all
  from get_hit [OF this(1) k m1(2) this(2)] obtain s2 where
    "getBtreePage j p (t\<lparr>bt_pool := s1\<rparr>) = Inr (rt, t\<lparr>bt_pool := s2\<rparr>)" "pool_layout (j_page j) (Suc (Suc m)) s2 fs occ" "same_store s1 s2" by auto
  then show ?thesis using c s1(3) by (intro exI [of _ s1] exI [of _ s2]) (simp add: same_store_def)
qed

definition new_leaf :: "Junk \<Rightarrow> BTreePage \<Rightarrow> BTreePage" where
  "new_leaf j n = (right_half j n)\<lparr>next_pid := next_pid n\<rparr>"

lemma new_leaf_ok:
  assumes "leaf_ok L n"
  shows "leaf_ok L (new_leaf j n)" and "leaf_map (new_leaf j n) = leaf_map (right_half j n)" and "keys (new_leaf j n) = keys (right_half j n)"
  using half_leaves(2) [OF assms, of j] by (simp_all add: new_leaf_def leaf_ok_def leaf_map_def records_def)

text \<open>The three writes of the split: parent, new leaf, old leaf.\<close>

lemma split_leaf_writes:
  fixes p q a :: page_id_t
  assumes lay: "pool_layout (j_page j) m (bt_pool t) [] [0 \<mapsto> p, 1 \<mapsto> q]" and m: "m < 2 ^ 31 - 1"
    and n: "node_ok rt" "node_fits rt" "node_ok r" "node_fits r" "node_ok l" "node_fits l"
    and a: "a \<noteq> p" "a \<noteq> q" "q \<noteq> p" "unat a < pool_size (p_bpm (bt_pool t))" "unat a < 10000" "a \<in> disk_pages (bt_pool t)"
  shows "\<exists>s1 s2 s3. persist j p rt t = Inr (t\<lparr>bt_pool := s1\<rparr>) \<and> persist j a r (t\<lparr>bt_pool := s1\<rparr>) = Inr (t\<lparr>bt_pool := s2\<rparr>) \<and>
    persist j q l (t\<lparr>bt_pool := s2\<rparr>) = Inr (t\<lparr>bt_pool := s3\<rparr>) \<and> pool_layout (j_page j) m s3 [(1, True), (0, True)] Map.empty \<and>
    node_on_disk s3 p rt \<and> node_on_disk s3 a r \<and> node_on_disk s3 q l \<and> pool_size (p_bpm s3) = pool_size (p_bpm (bt_pool t)) \<and>
    disk_pages (bt_pool t) \<subseteq> disk_pages s3 \<and>
    (\<forall>x y. node_on_disk (bt_pool t) x y \<longrightarrow> x \<notin> {p, a, q} \<longrightarrow> node_on_disk s3 x y)"
proof -
  from persist_resident [OF lay _ m n(1,2), of 0 p] obtain s1 d1 where
    s1: "persist j p rt t = Inr (t\<lparr>bt_pool := s1\<rparr>)" "stored p d1 (bt_pool t) s1" "deserialize d1 = Inr rt"
      "pool_layout (j_page j) m s1 [(0, True)] ([0 \<mapsto> p, 1 \<mapsto> q](0 := None))" by auto
  have o1: "[0 :: nat \<mapsto> p, 1 \<mapsto> q](0 := None) = [1 \<mapsto> q]" by (simp add: fun_eq_iff)
  let ?t1 = "t\<lparr>bt_pool := s1\<rparr>"
  have "pool_layout (j_page j) m (bt_pool ?t1) [(0, True)] [1 \<mapsto> q]" "a \<notin> ran [1 :: nat \<mapsto> q]" "unat a < pool_size (p_bpm (bt_pool ?t1))"
    "a \<in> disk_pages (bt_pool ?t1)" "first_free (bt_pool ?t1) [1 \<mapsto> q] 0"
    using s1(2,4) a o1 by (auto simp: stored_def first_free_def)
  from persist_absent [OF this(1) n(3,4) this(2,3) a(5) this(4,5) pinnable_head] obtain s2 d2 where
    s2: "persist j a r ?t1 = Inr (t\<lparr>bt_pool := s2\<rparr>)" "stored a d2 s1 s2" "deserialize d2 = Inr r"
      "pool_layout (j_page j) m s2 [(0, True)] [1 \<mapsto> q]" by auto
  have "pool_layout (j_page j) m (bt_pool (t\<lparr>bt_pool := s2\<rparr>)) [(0, True)] [1 \<mapsto> q]" using s2(4) by simp
  from persist_resident [OF this _ m n(5,6), of 1 q] obtain s3 d3 where
    s3: "persist j q l (t\<lparr>bt_pool := s2\<rparr>) = Inr (t\<lparr>bt_pool := s3\<rparr>)" "stored q d3 s2 s3" "deserialize d3 = Inr l"
      "pool_layout (j_page j) m s3 [(1, True), (0, True)] ([1 \<mapsto> q](1 := None))" by auto
  have o3: "[1 :: nat \<mapsto> q](1 := None) = Map.empty" by (simp add: fun_eq_iff)
  have keep: "node_on_disk s3 x y" if "node_on_disk (bt_pool t) x y" "x \<notin> {p, a, q}" for x y
    using that stored_node(2) [OF s1(2)] stored_node(2) [OF s2(2)] stored_node(2) [OF s3(2)] by auto
  moreover have "node_on_disk s3 p rt"
    using stored_node(1) [OF s1(2,3)] stored_node(2) [OF s2(2)] stored_node(2) [OF s3(2)] a(1,3) by metis
  moreover have "node_on_disk s3 a r" using stored_node(1) [OF s2(2,3)] stored_node(2) [OF s3(2)] a(2) by metis
  moreover have "pool_size (p_bpm s3) = pool_size (p_bpm (bt_pool t))" "disk_pages (bt_pool t) \<subseteq> disk_pages s3"
    using s1(2) s2(2) s3(2) by (auto simp: stored_def)
  ultimately show ?thesis using s1(1) s2(1) s3(1,4) o3 stored_node(1) [OF s3(2,3)]
    by (intro exI [of _ s1] exI [of _ s2] exI [of _ s3]) simp
qed

lemma split_right_leaf:
  assumes rd: "split_ready L j m t q k" and ok: "leaf_ok L n" "2 \<le> length (keys n)" "leaf_fits L (length (keys n))"
    and rt: "node_on_disk (bt_pool t) (root_pid t) rt" "\<not> is_leaf rt" "keys rt = [sep]" "vals rt = InternalChildren [left]" "key_of_size L sep"
    and sep: "\<forall>x \<in> key_num ` set (keys n). key_num sep \<le> x" and max: "2 \<le> unat (max_size t)"
  defines "a \<equiv> ucast (k + 1) :: page_id_t" and "mid \<equiv> keys n ! (length (keys n) div 2)"
  shows "\<exists>t' s. splitNonRootNode j True n q [(root_pid t, c)] t = Inr (left_half n a, t') \<and>
    t' = t\<lparr>bt_pool := s, node_count := node_count t + 1\<rparr> \<and>
    pool_layout (j_page j) (m + 2) s [(1, True), (0, True)] Map.empty \<and>
    node_on_disk s (root_pid t) (grown rt mid left q a) \<and> node_on_disk s a (new_leaf j n) \<and> node_on_disk s q (left_half n a) \<and>
    pool_size (p_bpm s) = pool_size (p_bpm (bt_pool t)) \<and>
    (\<forall>x y. node_on_disk (bt_pool t) x y \<longrightarrow> x \<notin> {0, root_pid t, a, q} \<longrightarrow> node_on_disk s x y)"
proof -
  note h = rd [unfolded split_ready_def] and ne = split_readyD [OF rd, folded a_def]
  let ?p = "root_pid t" and ?occ = "[0 \<mapsto> root_pid t, 1 \<mapsto> q] :: nat \<rightharpoonup> page_id_t"
  have lay: "pool_layout (j_page j) m (bt_pool t) [] ?occ" and L: "0 < L" and meta: "0 \<in> disk_pages (bt_pool t)" "index_meta k (disk_page (bt_pool t) 0)"
    using h by blast+
  have mid: "at (keys n) (length (keys n) div 2) = Inr mid" "key_of_size L mid" "key_num sep \<le> key_num mid"
    using ok(1,2) sep by (auto simp: at_def mid_def leaf_ok_def list_all_length)
  from new_index_node_ok [OF pool_wfD(11) [OF layoutD(1) [OF lay]] meta ne(5), of True] obtain files where
    f: "new_index_node j True t = Inr (a, t\<lparr>bt_pool := (bt_pool t)\<lparr>p_files := files\<rparr>\<rparr>)"
      "dm_inv (disk_manager (p_bpm (bt_pool t))) (j_page j) files" "allocated k True (bt_pool t) ((bt_pool t)\<lparr>p_files := files\<rparr>)"
    unfolding a_def by blast
  let ?st = "(bt_pool t)\<lparr>p_files := files\<rparr>"
  let ?t = "t\<lparr>bt_pool := ?st, node_count := node_count t + 1\<rparr>"
  have l1: "pool_layout (j_page j) m ?st [] ?occ" using h ne by (intro layout_allocated [OF lay f(2,3)]) (auto simp: a_def)
  have rt1: "node_on_disk ?st ?p rt" using allocated_node [OF f(3) rt(1)] h ne(3) by (auto simp: a_def)
  have "pool_layout (j_page j) m (bt_pool ?t) [] ?occ" "?occ 0 = Some ?p" "m < 2 ^ 31 - 2" "node_on_disk (bt_pool ?t) ?p rt"
    using l1 rt1 h by simp_all
  from split_reads_parent [OF this, of c] obtain s1 s2 where
    s: "getPrevBreadcrumbPid j [(?p, c)] ?t = Inr (?p, [], ?t\<lparr>bt_pool := s1\<rparr>)"
      "getBtreePage j ?p (?t\<lparr>bt_pool := s1\<rparr>) = Inr (rt, ?t\<lparr>bt_pool := s2\<rparr>)" "pool_layout (j_page j) (m + 2) s2 [] ?occ" "same_store (bt_pool ?t) s2" by blast
  note same = same_storeD [OF s(4)]
  note half = half_leaves(1,3) [OF ok(1), of a] and nl = new_leaf_ok [OF ok(1), of j]
  have fits: "leaf_fits L (length (keys (left_half n a)))" "leaf_fits L (length (keys (new_leaf j n)))"
    using leaf_fits_mono [OF ok(3)] half(2) half_leaves(4) [OF ok(1), of j] nl(3) by simp_all
  note ns = grown_ok [OF rt(2,3,5) mid(2) L, of left q a] leaf_node_ok [OF nl(1) L] leaf_node_fits [OF nl(1) fits(2)]
    leaf_node_ok [OF half(1) L] leaf_node_fits [OF half(1) fits(1)]
  have "pool_layout (j_page j) (m + 2) (bt_pool (?t\<lparr>bt_pool := s2\<rparr>)) [] [0 \<mapsto> ?p, 1 \<mapsto> q]" "m + 2 < 2 ^ 31 - 1" "q \<noteq> ?p"
    "unat a < pool_size (p_bpm (bt_pool (?t\<lparr>bt_pool := s2\<rparr>)))" "unat a < 10000" "a \<in> disk_pages (bt_pool (?t\<lparr>bt_pool := s2\<rparr>))"
    using s(3) h ne(1) f(3) same by (auto simp: allocated_def a_def)
  from split_leaf_writes [OF this(1,2) ns ne(3,4) this(3-6)] obtain s3 s4 s5 where
    w: "persist j ?p (grown rt mid left q a) (?t\<lparr>bt_pool := s2\<rparr>) = Inr (?t\<lparr>bt_pool := s3\<rparr>)"
      "persist j a (new_leaf j n) (?t\<lparr>bt_pool := s3\<rparr>) = Inr (?t\<lparr>bt_pool := s4\<rparr>)"
      "persist j q (left_half n a) (?t\<lparr>bt_pool := s4\<rparr>) = Inr (?t\<lparr>bt_pool := s5\<rparr>)"
      "pool_layout (j_page j) (m + 2) s5 [(1, True), (0, True)] Map.empty" "node_on_disk s5 ?p (grown rt mid left q a)"
      "node_on_disk s5 a (new_leaf j n)" "node_on_disk s5 q (left_half n a)" "pool_size (p_bpm s5) = pool_size (p_bpm s2)"
      "\<forall>x y. node_on_disk s2 x y \<longrightarrow> x \<notin> {?p, a, q} \<longrightarrow> node_on_disk s5 x y" by auto
  have keep: "node_on_disk s5 x y" if "node_on_disk (bt_pool t) x y" "x \<notin> {0, ?p, a, q}" for x y
    using that w(9) allocated_node [OF f(3) that(1)] same(3) by (simp add: a_def)
  have "split_step j True n q [(?p, c)] t = Inr (left_half n a, grown rt mid left q a, ?t\<lparr>bt_pool := s5\<rparr>)"
    unfolding split_step_def mid(1) f(1) redistribute_leaf [OF ok(1)] and_then_simps prod.case Let_def
    using s(1,2) insert_separator [OF rt(3,4,5) mid(2,3), of q] key_eq_refl [OF mid(2)] ne(2) h w(1-3)
    by (simp add: at_def BTREE_METADATA_PAGE_ID_def grown_def new_leaf_def left_half_def rt(3))
  then have "splitNonRootNode j True n q [(?p, c)] t = Inr (left_half n a, ?t\<lparr>bt_pool := s5\<rparr>)"
    using max by (subst splitNonRootNode.simps) (simp add: grown_def rt(3))
  then show ?thesis using w(4-8) keep same(4) by (intro exI [of _ "?t\<lparr>bt_pool := s5\<rparr>"] exI [of _ s5]) simp
qed

section \<open>Inserting into a full right leaf\<close>

text \<open>The tree after the split: three leaves under a root with two separators.\<close>

definition three_leaves :: "nat \<Rightarrow> BTree \<Rightarrow> Two_Leaves \<Rightarrow> BTreeKey \<Rightarrow> page_id_t \<Rightarrow> BTreePage \<Rightarrow> BTreePage \<Rightarrow> bool" where
  "three_leaves L t v mid new l r \<longleftrightarrow>
     node_on_disk (bt_pool t) (root_pid t) (grown (root_node v) mid (left_pid v) (right_pid v) new) \<and>
     node_on_disk (bt_pool t) (left_pid v) (left_leaf v) \<and> node_on_disk (bt_pool t) (right_pid v) l \<and>
     node_on_disk (bt_pool t) new r \<and> leaf_ok L l \<and> leaf_ok L r \<and> next_pid l = new \<and> next_pid r = next_pid (right_leaf v) \<and>
     key_of_size L mid \<and> key_num (separator v) \<le> key_num mid \<and>
     (\<forall>x \<in> dom (leaf_map l). key_num (separator v) \<le> x \<and> x < key_num mid) \<and> (\<forall>x \<in> dom (leaf_map r). key_num mid \<le> x)"

text \<open>The search in that tree: the rightmost leaf for every key that is not below the first separator.\<close>

lemma search_skips_middle:
  assumes q: "quiet (j_page j) m (bt_pool t) (root_pid t)" "2 \<le> m" "m < 2 ^ 31 - 1" and three: "three_leaves L t v mid new l r"
    and p: "small_page (bt_pool t) (root_pid t)" "small_page (bt_pool t) new" "new \<noteq> root_pid t" "2 \<le> pool_size (p_bpm (bt_pool t))"
    and rt: "\<not> is_leaf (root_node v)" "keys (root_node v) = [separator v]" "key_of_size L (separator v)"
    and key: "key_of_size L key" "key_num (separator v) \<le> key_num key"
  shows "\<exists>t'. findLeaf (Suc fuel) j key [] t = Inr (r, [(root_pid t, - 1)], new, t')"
proof -
  let ?g = "grown (root_node v) mid (left_pid v) (right_pid v) new"
  note h = three [unfolded three_leaves_def]
  have g: "\<not> is_leaf ?g" "keys ?g \<noteq> []" "length (keys ?g) < 65536" "list_all (key_of_size L) (keys ?g)"
    "sorted (map key_num (keys ?g))" "vals ?g = InternalChildren (left_pid v # [right_pid v])"
    "new = (if key_num key < key_num (hd (keys ?g)) then left_pid v else rightmost_ptr ?g)" "hd (keys ?g) = separator v"
    using rt key(2) h by (simp_all add: grown_def)
  have root: "node_on_disk (bt_pool t) (root_pid t) ?g" and new: "node_on_disk (bt_pool t) new r" "is_leaf r"
    using h by (simp_all add: leaf_ok_def)
  from find_child [OF q p(1) root g(1-6) key(1) g(7) p(2) new p(3,4), of fuel] show ?thesis
    unfolding g(8) using key(2) by auto
qed

lemma leaf_dom: "leaf_ok L n \<Longrightarrow> dom (leaf_map n) = key_num ` set (keys n)"
  by (simp add: leaf_map_def leaf_ok_def dom_map_of_zip)

text \<open>The split and the last write of \<^verbatim>\<open>insert\<close>.\<close>

lemma split_then_persist:
  assumes rd: "split_ready L j m t q k" and ok: "leaf_ok L n" "2 \<le> length (keys n)" "leaf_fits L (length (keys n))"
    and rt: "node_on_disk (bt_pool t) (root_pid t) rt" "\<not> is_leaf rt" "keys rt = [sep]" "vals rt = InternalChildren [left]" "key_of_size L sep"
    and sep: "\<forall>x \<in> key_num ` set (keys n). key_num sep \<le> x" and max: "2 \<le> unat (max_size t)"
  defines "a \<equiv> ucast (k + 1) :: page_id_t" and "mid \<equiv> keys n ! (length (keys n) div 2)"
  shows "\<exists>t1 s. splitNonRootNode j True n q [(root_pid t, c)] t = Inr (left_half n a, t1) \<and>
    persist j q (left_half n a) t1 = Inr (t\<lparr>bt_pool := s, node_count := node_count t + 1\<rparr>) \<and>
    pool_layout (j_page j) (m + 2) s [(0, True), (1, True)] Map.empty \<and>
    node_on_disk s (root_pid t) (grown rt mid left q a) \<and> node_on_disk s a (new_leaf j n) \<and> node_on_disk s q (left_half n a) \<and>
    pool_size (p_bpm s) = pool_size (p_bpm (bt_pool t)) \<and>
    (\<forall>x y. node_on_disk (bt_pool t) x y \<longrightarrow> x \<notin> {0, root_pid t, a, q} \<longrightarrow> node_on_disk s x y)"
proof -
  note h = rd [unfolded split_ready_def] and ne = split_readyD [OF rd, folded a_def]
  from split_right_leaf [OF rd ok rt sep max, of c, folded a_def mid_def] obtain s1 where
    s1: "splitNonRootNode j True n q [(root_pid t, c)] t = Inr (left_half n a, t\<lparr>bt_pool := s1, node_count := node_count t + 1\<rparr>)"
      "pool_layout (j_page j) (m + 2) s1 [(1, True), (0, True)] Map.empty" "node_on_disk s1 (root_pid t) (grown rt mid left q a)"
      "node_on_disk s1 a (new_leaf j n)" "node_on_disk s1 q (left_half n a)" "pool_size (p_bpm s1) = pool_size (p_bpm (bt_pool t))"
      "\<forall>x y. node_on_disk (bt_pool t) x y \<longrightarrow> x \<notin> {0, root_pid t, a, q} \<longrightarrow> node_on_disk s1 x y" by blast
  let ?t = "t\<lparr>bt_pool := s1, node_count := node_count t + 1\<rparr>"
  note half = half_leaves(1,3) [OF ok(1), of a]
  have nf: "node_ok (left_half n a)" "node_fits (left_half n a)"
    using leaf_node_ok [OF half(1)] leaf_node_fits [OF half(1) leaf_fits_mono [OF ok(3) half(2)]] h by simp_all
  have "pool_layout (j_page j) (m + 2) (bt_pool ?t) [(1, True), (0, True)] Map.empty" "q \<notin> ran Map.empty"
    "unat q < pool_size (p_bpm (bt_pool ?t))" "unat q < 10000" "q \<in> disk_pages (bt_pool ?t)" "first_free (bt_pool ?t) Map.empty 0"
    using s1(2,5,6) h by (simp_all add: node_on_disk_def first_free_def)
  moreover have "pinnable 0 [(1, True), (0, True)] [(1, True)]"
    unfolding pinnable_def by (intro disjI2 exI [of _ "[(1, True)]"] exI [of _ True] exI [of _ "[]"]) simp
  ultimately obtain s d where
    s: "persist j q (left_half n a) ?t = Inr (?t\<lparr>bt_pool := s\<rparr>)" "pool_layout (j_page j) (m + 2) s [(0, True), (1, True)] Map.empty"
      "stored q d s1 s" "deserialize d = Inr (left_half n a)"
    using persist_absent [OF _ nf, of j "m + 2" ?t "[(1, True), (0, True)]" Map.empty q 0 "[(1, True)]"] by auto
  have pq: "root_pid t \<noteq> q" using h by blast
  have "node_on_disk s q (left_half n a)" using stored_node(1) [OF s(3,4)] .
  moreover have "node_on_disk s x y" if "node_on_disk s1 x y" "x \<noteq> q" for x y using stored_node(2) [OF s(3)] that by simp
  then have "node_on_disk s (root_pid t) (grown rt mid left q a)" "node_on_disk s a (new_leaf j n)"
    "\<forall>x y. node_on_disk (bt_pool t) x y \<longrightarrow> x \<notin> {0, root_pid t, a, q} \<longrightarrow> node_on_disk s x y"
    using s1(3,4,7) ne(4) pq by simp_all
  moreover have "pool_size (p_bpm s) = pool_size (p_bpm (bt_pool t))" using s(3) s1(6) by (simp add: stored_def)
  moreover have "?t\<lparr>bt_pool := s\<rparr> = t\<lparr>bt_pool := s, node_count := node_count t + 1\<rparr>" by (cases t) simp
  ultimately show ?thesis using s1(1) s(1,2) by (intro exI [of _ ?t] exI [of _ s]) simp
qed

text \<open>The two halves of the leaf that got the new key, under the old root.\<close>

lemma split_gives_three_leaves:
  assumes t: "two_leaf_tree L j m t v" and n: "leaf_ok L n" "2 \<le> length (keys n)" "next_pid n = next_pid (right_leaf v)"
    and map: "leaf_map n = (leaf_map (right_leaf v))(key_num key \<mapsto> val)" and key: "key_num (separator v) \<le> key_num key"
    and root: "root_pid t' = root_pid t" and disk: "node_on_disk (bt_pool t') (root_pid t) (grown (root_node v) mid (left_pid v) (right_pid v) new)"
      "node_on_disk (bt_pool t') (left_pid v) (left_leaf v)" "node_on_disk (bt_pool t') (right_pid v) (left_half n new)"
      "node_on_disk (bt_pool t') new (new_leaf j n)" and mid: "mid = keys n ! (length (keys n) div 2)"
  shows "three_leaves L t' v mid new (left_half n new) (new_leaf j n)"
    and "leaf_map (new_leaf j n) ++ leaf_map (left_half n new) ++ leaf_map (left_leaf v) = (tree_map v)(key_num key \<mapsto> val)"
proof -
  note nl = new_leaf_ok [OF n(1), of j] and sep = separated [OF t]
  have all: "leaf_map (new_leaf j n) ++ leaf_map (left_half n new) = leaf_map n"
    using half_leaves(5) [OF n(1), of j new] nl(2) by simp
  have low: "key_num (separator v) \<le> x" if "x \<in> dom (leaf_map n)" for x
    using that key sep(2) by (cases "x = key_num key") (auto simp: map)
  have "dom (leaf_map (left_half n new)) \<subseteq> dom (leaf_map n)" using arg_cong [OF all, of dom] by (auto simp: dom_map_add)
  then have l: "\<forall>x \<in> dom (leaf_map (left_half n new)). key_num (separator v) \<le> x \<and> x < key_num mid"
    using low halves_separated(1) [OF n(1,2), of _ new] unfolding mid by blast
  have r: "\<forall>x \<in> dom (leaf_map (new_leaf j n)). key_num mid \<le> x"
    using halves_separated(2) [OF n(1,2), of _ j] unfolding nl(2) mid by blast
  have m: "keys n ! (length (keys n) div 2) \<in> set (keys n)" using n(2) by (intro nth_mem) simp
  then have "key_of_size L mid" "key_num mid \<in> dom (leaf_map n)"
    using n(1) unfolding leaf_dom [OF n(1)] mid by (auto simp: leaf_ok_def list_all_iff)
  then show "three_leaves L t' v mid new (left_half n new) (new_leaf j n)"
    unfolding three_leaves_def root using disk l r low nl(1) half_leaves(1) [OF n(1), of new] n(3)
    by (simp add: left_half_def new_leaf_def)
  have "key_num key \<notin> dom (leaf_map (left_leaf v))" using sep(1) key by (meson linorder_not_le)
  then show "leaf_map (new_leaf j n) ++ leaf_map (left_half n new) ++ leaf_map (left_leaf v) = (tree_map v)(key_num key \<mapsto> val)"
    unfolding all map tree_map_def by (simp add: map_add_upd_left)
qed

text \<open>The state in which \<^verbatim>\<open>insert\<close> calls the split.\<close>

definition right_leaf_full :: "nat \<Rightarrow> Junk \<Rightarrow> nat \<Rightarrow> BTree \<Rightarrow> Two_Leaves \<Rightarrow> u16 \<Rightarrow> bool" where
  "right_leaf_full L j m t v k \<longleftrightarrow>
     two_leaf_tree L j m t v \<and> m < 2 ^ 31 - 5 \<and> length (keys (right_leaf v)) = unat (max_size t) \<and> 2 \<le> unat (max_size t) \<and>
     leaf_fits L (Suc (length (keys (right_leaf v)))) \<and> 0 \<in> disk_pages (bt_pool t) \<and> index_meta k (disk_page (bt_pool t) 0) \<and>
     unat k + 1 < pool_size (p_bpm (bt_pool t)) \<and> unat k + 1 < 10000 \<and>
     unat (root_pid t) \<le> unat k \<and> unat (left_pid v) \<le> unat k \<and> unat (right_pid v) \<le> unat k"

lemma full_split_ready:
  assumes f: "right_leaf_full L j m t v k" and lay: "pool_layout (j_page j) (Suc m) st [] [0 \<mapsto> root_pid t, 1 \<mapsto> right_pid v]"
    and same: "same_store (bt_pool t) st"
  shows "split_ready L j (Suc m) (t\<lparr>bt_pool := st\<rparr>) (right_pid v) k"
proof -
  note h = f [unfolded right_leaf_full_def] and s = same_storeD [OF same]
  have t: "two_leaf_tree L j m t v" using h by blast
  have "0 < L" "2 \<le> m" "root_pid t \<noteq> 0" "right_pid v \<noteq> 0" "right_pid v \<noteq> root_pid t"
    using t by (auto simp: two_leaf_tree_def small_page_def)
  then show ?thesis unfolding split_ready_def using h lay s by simp
qed

lemma insert_right_runs:
  assumes full: "right_leaf_full L j m t v k"
    and key: "key_of_size L key" "key_num (separator v) \<le> key_num key" "key_num key \<notin> dom (tree_map v)"
  defines "a \<equiv> ucast (k + 1) :: page_id_t"
  shows "\<exists>n s mid. btree_insert (Suc fuel) j key val t = Inr (right_pid v, t\<lparr>bt_pool := s, node_count := node_count t + 1\<rparr>) \<and>
    leaf_ok L n \<and> 2 \<le> length (keys n) \<and> next_pid n = next_pid (right_leaf v) \<and>
    leaf_map n = (leaf_map (right_leaf v))(key_num key \<mapsto> val) \<and> mid = keys n ! (length (keys n) div 2) \<and>
    pool_layout (j_page j) (Suc m + 2) s [(0, True), (1, True)] Map.empty \<and> pool_size (p_bpm s) = pool_size (p_bpm (bt_pool t)) \<and>
    node_on_disk s (root_pid t) (grown (root_node v) mid (left_pid v) (right_pid v) a) \<and>
    node_on_disk s a (new_leaf j n) \<and> node_on_disk s (right_pid v) (left_half n a) \<and>
    (\<forall>x y. node_on_disk (bt_pool t) x y \<longrightarrow> x \<notin> {0, root_pid t, a, right_pid v} \<longrightarrow> node_on_disk s x y)"
proof -
  let ?q = "right_pid v" and ?n = "right_leaf v"
  note f = full [unfolded right_leaf_full_def]
  have t: "two_leaf_tree L j m t v" and m: "m < 2 ^ 31 - 1" using f by simp_all
  note h = t [unfolded two_leaf_tree_def]
  have side: "leaf_of v key = ?n" "child_of v key = ?q" using key(2) by (simp_all add: leaf_of_def child_of_def)
  have rt: "\<not> is_leaf (root_node v)" "keys (root_node v) = [separator v]" "vals (root_node v) = InternalChildren [left_pid v]"
    "key_of_size L (separator v)" using h by blast+
  from find_leaf [OF t m key(1), of fuel] obtain st c where
    st: "findLeaf (Suc fuel) j key [] t = Inr (?n, [(root_pid t, c)], ?q, t\<lparr>bt_pool := st\<rparr>)"
      "pool_layout (j_page j) (Suc m) st [] [0 \<mapsto> root_pid t, 1 \<mapsto> ?q]" "same_store (bt_pool t) st" unfolding side by blast
  note rd = full_split_ready [OF full st(2,3)] and same = same_storeD [OF st(3)]
  have ok: "leaf_ok L ?n" "length (keys ?n) < 65535" using h f unat_bounds(1) [of "max_size t"] by simp_all
  then have fresh: "key_num key \<notin> key_num ` set (keys ?n)" "list_all (key_of_size L) (keys ?n)"
    using key(3) leaf_dom [OF ok(1)] by (auto simp: tree_map_def leaf_ok_def)
  from insert_leaf [OF ok(1) key(1) fresh(1) ok(2), of val] obtain n where
    n: "insertIntoNode_RID key val ?n = Inr n" "leaf_ok L n" "leaf_map n = (leaf_map ?n)(key_num key \<mapsto> val)"
      "length (keys n) = Suc (length (keys ?n))" "next_pid n = next_pid ?n" by blast
  let ?t = "t\<lparr>bt_pool := st\<rparr>" and ?mid = "keys n ! (length (keys n) div 2)"
  have len: "2 \<le> length (keys n)" "leaf_fits L (length (keys n))" "2 \<le> unat (max_size ?t)" using n(4) f by auto
  have low: "\<forall>x \<in> key_num ` set (keys n). key_num (separator v) \<le> x"
    unfolding leaf_dom [OF n(2), symmetric] n(3) using key(2) separated(2) [OF t] by (auto split: if_splits)
  have "node_on_disk (bt_pool ?t) (root_pid ?t) (root_node v)" using h same(3) by simp
  from split_then_persist [OF rd n(2) len(1,2) this rt low len(3), of c, folded a_def] obtain t1 s where
    s: "splitNonRootNode j True n ?q [(root_pid t, c)] ?t = Inr (left_half n a, t1)"
      "persist j ?q (left_half n a) t1 = Inr (t\<lparr>bt_pool := s, node_count := node_count t + 1\<rparr>)"
      "pool_layout (j_page j) (Suc m + 2) s [(0, True), (1, True)] Map.empty"
      "node_on_disk s (root_pid t) (grown (root_node v) ?mid (left_pid v) ?q a)" "node_on_disk s a (new_leaf j n)"
      "node_on_disk s ?q (left_half n a)" "pool_size (p_bpm s) = pool_size (p_bpm st)"
      "\<forall>x y. node_on_disk st x y \<longrightarrow> x \<notin> {0, root_pid t, a, ?q} \<longrightarrow> node_on_disk s x y" by auto
  have "btree_insert (Suc fuel) j key val t = Inr (?q, t\<lparr>bt_pool := s, node_count := node_count t + 1\<rparr>)"
    using h st(1) has_key_mem [OF fresh(2) key(1)] fresh(1) n(1,4) f s(1,2)
    by (simp add: btree_insert_def BTREE_METADATA_PAGE_ID_def small_page_def)
  then show ?thesis using n(2,3,5) len(1) s(3-8) same(3,4) by (intro exI [of _ n] exI [of _ s] exI [of _ ?mid]) simp
qed

text \<open>
  C38. Inserting a key into the full right leaf of a tree of two levels. \<^verbatim>\<open>splitNonRootNode\<close> leaves three sorted and
  linked leaves on disk that together hold the old entries and the new one, and the root has the separators
  between them. From then on the search for every key that is not below the first separator ends in the new leaf:
  the entries of the leaf in the middle are on disk but no search reaches them. All keys have the same
  length.
\<close>

theorem insert_splits_right_leaf:
  assumes full: "right_leaf_full L j m t v k"
    and key: "key_of_size L key" "key_num (separator v) \<le> key_num key" "key_num key \<notin> dom (tree_map v)"
  shows "\<exists>t' mid l r. btree_insert (Suc fuel) j key val t = Inr (right_pid v, t') \<and> root_pid t' = root_pid t \<and>
    three_leaves L t' v mid (ucast (k + 1)) l r \<and>
    leaf_map r ++ leaf_map l ++ leaf_map (left_leaf v) = (tree_map v)(key_num key \<mapsto> val) \<and> keys l \<noteq> [] \<and>
    (\<forall>key'. key_of_size L key' \<longrightarrow> key_num (separator v) \<le> key_num key' \<longrightarrow>
      (\<exists>t''. findLeaf (Suc fuel) j key' [] t' = Inr (r, [(root_pid t, - 1)], ucast (k + 1), t'')))"
proof -
  let ?q = "right_pid v" and ?a = "ucast (k + 1) :: page_id_t"
  note f = full [unfolded right_leaf_full_def]
  have t: "two_leaf_tree L j m t v" using f by blast
  note h = t [unfolded two_leaf_tree_def]
  have k: "unat ?a = unat k + 1" using f by (simp add: unat_ucast_wider unat_word_ariths)
  have ne: "x \<noteq> y" if "unat x \<noteq> unat y" for x y :: page_id_t using that by auto
  have a: "?a \<noteq> 0" "?a \<noteq> root_pid t" "?a \<noteq> left_pid v" using k f by (auto intro!: ne simp del: unat_eq_0 unsigned_eq_0_iff)
  from insert_right_runs [OF assms, of fuel val] obtain n s mid where
    run: "btree_insert (Suc fuel) j key val t = Inr (?q, t\<lparr>bt_pool := s, node_count := node_count t + 1\<rparr>)"
    and n: "leaf_ok L n" "2 \<le> length (keys n)" "next_pid n = next_pid (right_leaf v)" "leaf_map n = (leaf_map (right_leaf v))(key_num key \<mapsto> val)"
    and mid: "mid = keys n ! (length (keys n) div 2)" and lay: "pool_layout (j_page j) (Suc m + 2) s [(0, True), (1, True)] Map.empty"
    and N: "pool_size (p_bpm s) = pool_size (p_bpm (bt_pool t))" and s: "node_on_disk s (root_pid t) (grown (root_node v) mid (left_pid v) ?q ?a)"
      "node_on_disk s ?a (new_leaf j n)" "node_on_disk s ?q (left_half n ?a)"
      "\<forall>x y. node_on_disk (bt_pool t) x y \<longrightarrow> x \<notin> {0, root_pid t, ?a, ?q} \<longrightarrow> node_on_disk s x y" by blast
  let ?t = "t\<lparr>bt_pool := s, node_count := node_count t + 1\<rparr>"
  have "left_pid v \<notin> {0, root_pid t, ?a, ?q}" using h a(3) by (auto simp: small_page_def)
  then have "node_on_disk s (left_pid v) (left_leaf v)" using s(4) h by blast
  then have tl: "three_leaves L ?t v mid ?a (left_half n ?a) (new_leaf j n)"
    "leaf_map (new_leaf j n) ++ leaf_map (left_half n ?a) ++ leaf_map (left_leaf v) = (tree_map v)(key_num key \<mapsto> val)"
    using split_gives_three_leaves [OF t n key(2), of ?t mid ?a] s(1-3) mid by simp_all
  have "quiet (j_page j) (Suc m + 2) (bt_pool ?t) (root_pid ?t)" using lay by (simp add: quiet_def)
  moreover have "small_page (bt_pool ?t) (root_pid ?t)" "small_page (bt_pool ?t) ?a" "2 \<le> pool_size (p_bpm (bt_pool ?t))"
    using h f N k a(1) by (simp_all add: small_page_def)
  ultimately have "\<exists>t''. findLeaf (Suc fuel) j key' [] ?t = Inr (new_leaf j n, [(root_pid t, - 1)], ?a, t'')"
    if "key_of_size L key'" "key_num (separator v) \<le> key_num key'" for key'
    using search_skips_middle [OF _ _ _ tl(1), of j "Suc m + 2" key' fuel] that f h a(2) by simp
  moreover have "keys (left_half n ?a) \<noteq> []" using n(2) by (auto simp: left_half_def)
  ultimately show ?thesis using run tl
    by (intro exI [of _ ?t] exI [of _ mid] exI [of _ "left_half n ?a"] exI [of _ "new_leaf j n"]) simp
qed

section \<open>Witness\<close>

theorem insert_splits_right_leaf_witness:
  "\<exists>t v t' mid l r. btree_insert 1 demo_j (demo_key 11) demo_rid t = Inr (2, t') \<and> three_leaves 1 t' v mid 4 l r \<and>
    leaf_map r ++ leaf_map l ++ leaf_map (left_leaf v) = [5 \<mapsto> demo_rid, 7 \<mapsto> demo_rid, 9 \<mapsto> demo_rid, 11 \<mapsto> demo_rid] \<and>
    keys l \<noteq> [] \<and> (\<exists>t''. findLeaf 1 demo_j (demo_key 255) [] t' = Inr (r, [(3, - 1)], 4, t''))"
proof -
  from demo_two_leaves obtain t v where
    v: "two_leaf_tree 1 demo_j 2 t v" "max_size t = 2" "0 \<in> disk_pages (bt_pool t)" "left_pid v = 1"
      "tree_map v = [5 \<mapsto> demo_rid, 7 \<mapsto> demo_rid, 9 \<mapsto> demo_rid]" "length (keys (left_leaf v)) = 1" "length (keys (right_leaf v)) = 2"
      "right_pid v = 2" "root_pid t = 3" "index_meta 3 (disk_page (bt_pool t) 0)" "pool_size (p_bpm (bt_pool t)) = 8" by blast
  have ne: "keys (left_leaf v) \<noteq> []" "keys (right_leaf v) \<noteq> []" using v(6,7) by auto
  have "right_leaf_full 1 demo_j 2 t v 3" using v demo_fits [of 3] by (simp add: right_leaf_full_def)
  moreover have sep: "key_num (separator v) \<le> key_num (demo_key 11)" "key_num (separator v) \<le> key_num (demo_key 255)"
    using demo_separator(2) [OF v(1,5) ne] by (simp_all add: demo_key_ok)
  moreover have "key_num (demo_key 11) \<notin> dom (tree_map v)" by (simp add: v(5) demo_key_ok)
  ultimately obtain t' mid l r where
    t': "btree_insert (Suc 0) demo_j (demo_key 11) demo_rid t = Inr (2, t')" "three_leaves 1 t' v mid (ucast (3 + 1 :: u16)) l r"
      "leaf_map r ++ leaf_map l ++ leaf_map (left_leaf v) = (tree_map v)(key_num (demo_key 11) \<mapsto> demo_rid)" "keys l \<noteq> []"
      "\<exists>t''. findLeaf (Suc 0) demo_j (demo_key 255) [] t' = Inr (r, [(3, - 1)], ucast (3 + 1 :: u16), t'')"
    using insert_splits_right_leaf [of 1 demo_j 2 t v 3 "demo_key 11" 0 demo_rid] demo_key_ok(1) v(8,9) by metis
  have "(ucast (3 + 1 :: u16) :: page_id_t) = 4" by simp
  with t' show ?thesis by (intro exI [of _ t] exI [of _ v] exI [of _ t'] exI [of _ mid] exI [of _ l] exI [of _ r]) (simp add: v(5) demo_key_ok)
qed

end
