(* ===== verification/Spec2Isabelle.thy ===== *)
theory Spec2Isabelle
  imports Serialize Hash_Threads Clock_Threads Heap_Threads Index_Page Parser Logical_Plan Pool_States Btree_Index Btree_Grow
begin

text \<open>
  A verification development of somedb, a small relational storage engine in C and C++.

  \<^bold>\<open>The program.\<close> A table is a heap file and an index is a B+tree file. Both are sequences of pages of 4096 bytes
  that the disk manager reads and writes (\<^verbatim>\<open>src/disk/disk_manager.c\<close>). A heap file (\<^verbatim>\<open>src/disk/heapfile.c\<close>) has a page
  directory on page 0, the schema on page 1 and slotted pages of tuples from page 2 on. An index file has its
  metadata on page 0 and a serialized node on every other page (\<^verbatim>\<open>src/index/index_page.cpp\<close>). The tree
  (\<^verbatim>\<open>src/index/btree_index.cpp\<close>, \<^verbatim>\<open>btree_strategy.cpp\<close>) reads and writes nodes through the buffer pool (\<^verbatim>\<open>src/disk/bpm.c\<close>),
  which keeps pages in frames, finds them by a hash table from page numbers to frames (\<^verbatim>\<open>src/utils/hash.c\<close>) and chooses
  frames to reuse with the clock replacer (\<^verbatim>\<open>src/disk/clock_replacer.c\<close>), itself a circular list
  (\<^verbatim>\<open>src/utils/circular_list.c\<close>) and a second hash table. Numbers are laid out in pages by \<^verbatim>\<open>src/utils/serialize.c\<close>. The SQL
  side (\<^verbatim>\<open>src/sql/\<close>) has a lexer and a precedence parser for text, and typed values, schemas, expressions and plans
  over rows of a heap file.

  \<^bold>\<open>How it is modelled.\<close> Every operation is a function on explicit state that returns an error or a result
  (\<open>res\<close> of the prelude). Undefined behaviour (a null or freed pointer, an access outside a buffer, signed overflow), a failed
  assertion, an exit and a C++ exception are errors with a name, so a theorem that an operation returns \<open>Inr\<close> says
  that none of them happens. Unsigned integers are words of their width; an \<^verbatim>\<open>int\<close> that only counts is an integer with a guard.
  Memory the code does not initialise is a parameter. The theories and the code they model:

  \<^item> \<open>Somedb_Prelude\<close>: errors, results, byte buffers, words, decimal strings. \<open>C_Memory\<close>: the C heap of strings, integers and
    flags that components share by pointer; a freed cell is absent.
  \<^item> \<open>Serialize\<close>: \<^verbatim>\<open>serialize.c\<close>. \<open>Hash_Table\<close>: \<^verbatim>\<open>hash.c\<close>. \<open>Circular_List\<close>: \<^verbatim>\<open>circular_list.c\<close>. \<open>Clock_Replacer\<close>: \<^verbatim>\<open>clock_replacer.c\<close>.
  \<^item> \<open>Disk_Manager\<close>: \<^verbatim>\<open>disk_manager.c\<close>, with files as lists of bytes in a map from paths, and the allocation of index pages.
  \<^item> \<open>Heap_Page\<close> and \<open>Heapfile\<close>: \<^verbatim>\<open>heapfile.c\<close>, first on one page, then on files: table creation, adding, reading and
    removing tuples, defragmentation, the page directory.
  \<^item> \<open>Latches\<close>: the write locks of \<^verbatim>\<open>shared.h\<close>, threads that run latched operations in small steps, and all their
    interleavings. \<open>Hash_Threads\<close>, \<open>Clock_Threads\<close> and \<open>Heap_Threads\<close>: the latched operations of \<^verbatim>\<open>hash.c\<close>, \<^verbatim>\<open>clock_replacer.c\<close> and \<^verbatim>\<open>heapfile.c\<close>
    in such steps. Everywhere else an operation is one function.
  \<^item> \<open>Index_Page\<close>: \<^verbatim>\<open>index_page.cpp\<close>, the node of the tree, its bytes and the insertion into a node.
  \<^item> \<open>Buffer_Pool\<close>: \<^verbatim>\<open>bpm.c\<close>, a state \<open>Pool\<close> of C heap, files and manager. \<open>Pool_States\<close>: the pool as a state machine of client
    operations, and the invariant of the states it reaches.
  \<^item> \<open>Btree\<close>: the definitions of \<^verbatim>\<open>btree_index.cpp\<close>, \<^verbatim>\<open>btree_index.hpp\<close> and \<^verbatim>\<open>btree_strategy.cpp\<close>. \<open>Btree_Nodes\<close> reasons about nodes and metadata
    that pass through the pool, \<open>Btree_Insert\<close>, \<open>Btree_Split\<close> and \<open>Btree_Remove\<close> about the operations of a tree of one leaf, \<open>Btree_Index\<close>
    about sequences of them. \<open>Btree_Pages\<close> follows several nodes in several frames of the pool; \<open>Btree_Levels\<close> and \<open>Btree_Grow\<close>
    use it for trees of two levels.
  \<^item> \<open>Lexer\<close>: \<^verbatim>\<open>lexer.cpp\<close>. \<open>Parser\<close>: \<^verbatim>\<open>parser.cpp\<close> and \<^verbatim>\<open>sql_expression.hpp\<close>.
  \<^item> \<open>Ieee_Double\<close>: the binary64 arithmetic that \<^verbatim>\<open>primitive.cpp\<close> uses. \<open>Primitive\<close>: \<^verbatim>\<open>primitive.cpp\<close>.
  \<^item> \<open>Sql_Schema\<close>: \<^verbatim>\<open>schema.cpp\<close> and \<^verbatim>\<open>access_method.cpp\<close>. \<open>Logical_Expression\<close>: \<^verbatim>\<open>logical_expression.cpp\<close>. \<open>Logical_Plan\<close>: \<^verbatim>\<open>logical_plan.cpp\<close>.

  \<^bold>\<open>Interfaces.\<close> \<open>codec\<close> (decoding undoes encoding, at any offset of a buffer) is interpreted on the five exact
  encodings; \<open>dictionary\<close> (a lookup sees the last insertion, removal frees a key) on the hash table; \<open>page_store\<close> (a
  written page reads back, others stay) on the disk manager; \<open>sql_order\<close> (four comparisons that agree with the order of
  the numbers the values stand for) on booleans, integers and decimals; \<open>key_store\<close> (insertion and removal of keys update a finite map up to a capacity) on the
  tree of one leaf; \<open>latched_steps\<close> (small steps that make up a whole operation) on the replacer and its extension \<open>latched\<close>
  (every exit unlocks) on the hash table and the heap file. Client lemmas are proved once in the locale and used through the interpretation.

  \<^bold>\<open>What is shown.\<close>
  \<^item> Storage: what is encoded, written, inserted or flushed is read back and the rest stays, for fields, pages, hash
    tables, tuples, whole rows, schemas, nodes, tree metadata and pages of the pool.
  \<^item> The tree: insertion and removal on a tree of one leaf, and all sequences of them, refine a finite map; a full
    root splits into two linked sorted leaves under a new root that the metadata names. On two leaves under a
    root, insertion still refines a map, removal from the right leaf merges them into one leaf again, and a full
    right leaf splits into two, after which the search no longer reaches the middle one.
  \<^item> The pool: fetching, pinning, flushing and allocating on every branch that the replacer's frames allow, and the
    invariant \<open>pool_wf\<close> of page table, frames and replacer; every state that permitted operations reach is coherent, and
    no permitted operation fails. The replacer refines a list of frames with reference bits.
  \<^item> SQL: the lexer refines a reference lexer, the parser undoes printing and ends on every input; evaluation of
    well-typed expressions gives a value of the type and computes integer and exact decimal arithmetic; numbers
    are compared by value. Varchars are compared by pointer, and the order of unrelated pointers, which C++ does not
    specify, is a parameter of their comparisons.
  \<^item> All layers together: a row stored in a new table is found through the schema on disk and an expression over
    its columns has its mathematical value. This theorem and its definitions \<open>int_row\<close> and \<open>row_env\<close> are in this theory.
  \<^item> Threads: the latched operations are linearizable, that is, every interleaving has the effect of the functions that
    model them as a whole, one after another; threads that insert keys or add tuples never block and lose
    nothing. \<^verbatim>\<open>evict\<close> on an empty replacer keeps the latch and blocks all others.
  \<^item> Defects: where the code does not do what its comments say, a theorem shows what it does instead.

  \<^bold>\<open>Bounds and fuel.\<close> Page numbers are below 10000 where the page table is involved, since its key buffer has five
  bytes. Keys of the tree have one length, since \<^verbatim>\<open>cmpKeys\<close> compares the common length only (\<open>longer_key_refused\<close>
  shows what happens otherwise). A free frame is taken when the replacer can pin it (\<open>pinnable\<close>), which \<^verbatim>\<open>clock_replacer_pin\<close>
  does for one of its first two frames or when it has none (\<open>fetch_unpinnable_crashes\<close>). \<open>findLeaf\<close> takes the height of the tree as fuel and \<open>allocate_loop\<close> the number of rounds; without enough the
  result is \<open>Diverges\<close>, so a theorem with an \<open>Inr\<close> result shows that the fuel was enough, and the theorems hold for
  any fuel above the one named. The loops of the lexer take fuel for
  two positions more than the text has, and the theorem that they yield the tokens of the reference lexer shows that it is enough for
  texts below the wrap-around. The parser's fuel is one more than the number of tokens, which suffices for every token list. The loop of
  \<open>deserialize\<close> needs no fuel; it is \<open>Diverges\<close> exactly where the cursor stays in place.

  \<^bold>\<open>Not modelled.\<close> \<^verbatim>\<open>main.cpp\<close> is empty. \<^verbatim>\<open>hash_find\<close> and \<^verbatim>\<open>get_tuple\<close>, which take no latch, are not run
  beside other threads, and neither are the pool and the tree, which have none.
  \<^verbatim>\<open>close_table_file\<close> only closes a descriptor. \<^verbatim>\<open>BTree::getValues\<close> has no definition in the repository. Failing system calls
  (\<^verbatim>\<open>malloc\<close> returning null, short writes) are left out. Tests and build files are not part of the program.
\<close>

section \<open>From a new table to the value of an expression\<close>

text \<open>The arguments that store a row of integers, and the values its columns then have.\<close>

definition int_row :: "Column list \<Rightarrow> i32 list \<Rightarrow> AddTupleArgs" where
  "int_row cols xs = \<lparr>column_names = map col_name cols, column_values = map VInteger xs,
     column_types = replicate (length cols) INTEGER, num_columns = of_nat (length cols)\<rparr>"

definition row_env :: "Column list \<Rightarrow> i32 list \<Rightarrow> string \<Rightarrow> int option" where
  "row_env cols xs = map_of (zip (map col_name cols) (map sint xs))"

lemma columns_match_self: "columns_match cols (map col_name cols) (map col_type cols)"
  by (induction cols) simp_all

lemma length_int_values: "length (concat (map value_bytes (map VInteger xs))) = 4 * length xs"
  by (induction xs) simp_all

lemma find_nth_distinct:
  "distinct (map f xs) \<Longrightarrow> i < length xs \<Longrightarrow> find (\<lambda>x. f x = f (xs ! i)) xs = Some (xs ! i)"
proof (induction xs arbitrary: i)
  case (Cons x xs)
  show ?case
  proof (cases i)
    case (Suc j)
    then have "f (xs ! j) \<in> set (map f xs)" using Cons.prems(2) by simp
    with Cons.prems(1) have "f x \<noteq> f (xs ! j)" by auto
    with Suc Cons show ?thesis by simp
  qed simp
qed simp

lemma int_columns_row:
  assumes "distinct (map col_name cols)" and "length xs = length cols"
    and "\<And>i. i < length cols \<Longrightarrow> getValue s (sql_column (cols ! i)) \<lparr>st_name = name, st_columns = map sql_column cols\<rparr> =
      Inr (PrimitiveValue_int IntegerPrimitiveType (xs ! i))"
  shows "int_columns s \<lparr>st_name = name, st_columns = map sql_column cols\<rparr> (row_env cols xs)"
  unfolding int_columns_def
proof (intro allI impI)
  fix nm v assume "row_env cols xs nm = Some v"
  then obtain i where i: "i < length cols" "nm = col_name (cols ! i)" "v = sint (xs ! i)"
    using assms(2) by (auto simp: row_env_def dest!: map_of_SomeD simp: set_zip)
  have sc: "map sc_name (map sql_column cols) = map col_name cols" by (simp add: sql_column_def)
  have "find (\<lambda>c. sc_name c = nm) (map sql_column cols) = Some (sql_column (cols ! i))"
    using find_nth_distinct [of sc_name "map sql_column cols" i] assms(1) i(1,2) unfolding sc by (simp add: sql_column_def)
  then show "\<exists>w. Column_evaluate nm s \<lparr>st_name = name, st_columns = map sql_column cols\<rparr> =
      Inr (PrimitiveValue_int IntegerPrimitiveType w) \<and> sint w = v"
    using assms(3) [OF i(1)] i(3) by (auto simp: Column_evaluate_def)
qed

lemma new_table_with_page:
  assumes "length name < 15" and "files (DBFILES_DIR @ ''/'' @ name @ ''.db'') = None"
    and "cmem_wf m" and "65536 \<le> brk m" and "length junk = PAGE_SIZE"
    and "list_all col_readable cols" and "growing 0 cols" and "cols_end 0 0 cols \<le> PAGE_SIZE" and "unat n = length cols"
  shows "\<exists>dm m' files' t. create_table name cols n m files = Inr (Some dm, m', files') \<and>
    new_heap_page junk \<lparr>t_mem = m', t_dm = dm, t_files = files'\<rparr> = Inr (2, t) \<and> table_ok junk t \<and>
    1 \<in> tpages t \<and> 2 \<in> tpages t \<and> heap_page_wf (tpage 2 t) \<and> slot_count (tpage 2 t) = 0 \<and>
    free_bytes (tpage 2 t) = 4090 \<and> table_name (t_dm t) = name \<and>
    byte_at 0 (tpage 1 t) = Inr n \<and> columns_at 0 0 cols (tpage 1 t) \<and>
    (\<forall>args. num_columns args = n \<and> length cols \<le> length (column_names args) \<and>
        length cols \<le> length (column_types args) \<longrightarrow>
        check_schema (tpage 1 t) args = Inr (columns_match cols (column_names args) (column_types args)))"
proof -
  from create_table_ok [where name = name and files = files, OF assms] obtain dm m' files' where
    c: "create_table name cols n m files = Inr (Some dm, m', files')"
      "fresh_table_ok junk cols n \<lparr>t_mem = m', t_dm = dm, t_files = files'\<rparr>" by blast
  let ?t = "\<lparr>t_mem = m', t_dm = dm, t_files = files'\<rparr>"
  from c(2) have ok: "table_ok junk ?t" and pages: "tpages ?t = {0, 1}" by (simp_all add: fresh_table_ok_def)
  from new_heap_page_ok [OF ok] obtain t where t: "new_heap_page junk ?t = Inr (2, t)" "table_ok junk t"
    "insert 2 (tpages ?t) \<subseteq> tpages t" "\<forall>q \<in> tpages ?t. q \<noteq> 2 \<longrightarrow> tpage q t = tpage q ?t"
    "heap_page_wf (tpage 2 t)" "page_tuples (tpage 2 t) = []" "free_bytes (tpage 2 t) = 4090" "t_dm t = t_dm ?t" by blast
  have one: "tpage 1 t = tpage 1 ?t" using t(4) pages by simp
  have cnt: "slot_count (tpage 2 t) = 0" using t(6) by (simp add: page_tuples_def)
  show ?thesis
    by (intro exI [of _ dm] exI [of _ m'] exI [of _ files'] exI [of _ t])
      (use c t(1,2,3,5,7,8) pages one cnt create_table_name [OF c(1)] in \<open>simp add: fresh_table_ok_def\<close>)
qed

text \<open>
  C2. A query over stored data computes the right value. A table of integer columns is created on a new
  file, gets its page and one row; then the scan of the table yields the schema that was declared, the row
  is read from its slot, and an expression over the columns evaluates to its value over unbounded
  integers, when all of its intermediate results fit 32 bits. The conditions on the table are those under which its
  schema survives the disk: the column names differ, all of them but the last have the same length, the
  description of the columns fits 255 bytes, and the name of the table has fewer than 15 characters. Columns
  \<open>id\<close>, \<open>name\<close>, \<open>age\<close> do not meet them: \<^verbatim>\<open>create_table\<close> writes the third column where \<^verbatim>\<open>HeapfileAccess::schema\<close> does not read it.
\<close>

theorem query_computes_on_stored_rows:
  assumes "length name < 15" and "files (DBFILES_DIR @ ''/'' @ name @ ''.db'') = None"
    and "cmem_wf m" and "65536 \<le> brk m" and "length junk = PAGE_SIZE"
    and "list_all col_readable cols" and "growing 0 cols" and "uniform sz cols" and "total_size cols \<le> 255"
    and "cols_end 0 0 cols \<le> PAGE_SIZE" and "unat n = length cols"
    and ints: "cols \<noteq> []" "\<forall>c \<in> set cols. col_type c = INTEGER" and names: "distinct (map col_name cols)"
    and xs: "length xs = length cols" and e: "int_constants e" "int_value (row_env cols xs) e = Some i"
  shows "\<exists>dm m' files' t ptr t' schema row w.
    create_table name cols n m files = Inr (Some dm, m', files') \<and>
    new_heap_page junk \<lparr>t_mem = m', t_dm = dm, t_files = files'\<rparr> = Inr (2, t) \<and>
    add_tuple junk junk_pid (int_row cols xs) t = Inr (Some ptr, t') \<and>
    plan_schema junk (LogicalScan name) (t_files t') = Inr (schema, t_files t') \<and>
    get_tuple junk \<lparr>rid_pid = 2, slot_num = 0\<rparr> t' = Inr (Some row, t') \<and>
    evaluate e row schema = Inr (PrimitiveValue_int IntegerPrimitiveType w) \<and> sint w = i"
proof -
  let ?schema = "\<lparr>st_name = name, st_columns = map sql_column cols\<rparr>" and ?args = "int_row cols xs"
  from new_table_with_page [where name = name and files = files, OF assms(1-7,10,11)] obtain dm m' files' t where
    c: "create_table name cols n m files = Inr (Some dm, m', files')"
      "new_heap_page junk \<lparr>t_mem = m', t_dm = dm, t_files = files'\<rparr> = Inr (2, t)"
    and t: "table_ok junk t" "1 \<in> tpages t" "2 \<in> tpages t" "heap_page_wf (tpage 2 t)"
    and p: "slot_count (tpage 2 t) = 0" "free_bytes (tpage 2 t) = 4090" "table_name (t_dm t) = name"
      "byte_at 0 (tpage 1 t) = Inr n" "columns_at 0 0 cols (tpage 1 t)"
    and chk: "\<forall>args. num_columns args = n \<and> length cols \<le> length (column_names args) \<and>
        length cols \<le> length (column_types args) \<longrightarrow>
        check_schema (tpage 1 t) args = Inr (columns_match cols (column_names args) (column_types args))" by blast
  have tys: "map col_type cols = replicate (length cols) INTEGER" using ints(2) by (simp add: map_replicate_const [symmetric])
  have n: "of_nat (length cols) = n" unfolding assms(11) [symmetric] by simp
  have "check_schema (tpage 1 t) ?args = Inr True"
    using chk [rule_format, of ?args] columns_match_self [of cols] by (simp add: int_row_def tys n)
  moreover have "list_all2 has_type (column_types ?args) (column_values ?args)"
    using xs by (simp add: int_row_def list_all2_conv_all_nth)
  moreover have "length cols \<le> 255" using unsigned_less [of n, where ?'a = nat] assms(11) by simp
  then have "4 + length (concat (map value_bytes (column_values ?args))) \<le> free_bytes (tpage 2 t)"
    using xs unfolding int_row_def AddTupleArgs.simps length_int_values p(2) by simp
  moreover have "map data_type (st_columns ?schema) = replicate (length (column_types ?args)) (Some (prim_type INTEGER))"
    using ints(2) by (auto simp: sql_column_def int_row_def map_replicate_const [symmetric])
  moreover have "distinct (map sc_name (st_columns ?schema))" using names by (simp add: sql_column_def comp_def)
  moreover have "set (column_types ?args) = {INTEGER}" "unat (num_columns ?args) = length (column_types ?args)"
    using ints(1) assms(11) by (auto simp: int_row_def n)
  ultimately obtain ptr t' row where r: "add_tuple junk junk_pid ?args t = Inr (Some ptr, t')"
    "get_tuple junk \<lparr>rid_pid = 2, slot_num = of_nat (slot_count (tpage 2 t))\<rparr> t' = Inr (Some row, t')"
    "\<forall>i < length (column_types ?args). getValue row (st_columns ?schema ! i) ?schema = Inr (sql_value (column_values ?args ! i))"
    "table_ok junk t'" "1 \<in> tpages t'" "tpage 1 t' = tpage 1 t" "table_name (t_dm t') = table_name (t_dm t)"
    using stored_row [OF t, where ty = INTEGER and schema = ?schema and junk_pid = junk_pid and args = ?args] by blast
  have ok: "list_all col_ok cols" using assms(6) by (auto simp: list_all_iff col_readable_def)
  have "HeapfileAccess_schema junk name (t_files t') = Inr (?schema, t_files t')"
    using schema_of_table [OF r(4,5) _ _ ok assms(11,8)] p(3-5) r(6,7) assms(9) by simp
  moreover have "int_columns row ?schema (row_env cols xs)"
    using r(3) xs by (intro int_columns_row [OF names xs]) (simp add: int_row_def)
  from evaluate_int_value [OF this e] obtain w where
    "evaluate e row ?schema = Inr (PrimitiveValue_int IntegerPrimitiveType w)" "sint w = i" by blast
  ultimately show ?thesis
    using c r(1,2) p(1)
    by (intro exI [of _ dm] exI [of _ m'] exI [of _ files'] exI [of _ t] exI [of _ ptr] exI [of _ t'] exI [of _ ?schema]
        exI [of _ row] exI [of _ w]) simp
qed

theorem query_computes_on_stored_rows_witness:
  "\<exists>dm m' files' t ptr t' schema row w.
    create_table ''points'' point_columns 2 start_heap Map.empty = Inr (Some dm, m', files') \<and>
    new_heap_page demo_junk \<lparr>t_mem = m', t_dm = dm, t_files = files'\<rparr> = Inr (2, t) \<and>
    add_tuple demo_junk 0 (int_row point_columns [3, - 4]) t = Inr (Some ptr, t') \<and>
    plan_schema demo_junk (LogicalScan ''points'') (t_files t') = Inr (schema, t_files t') \<and>
    get_tuple demo_junk \<lparr>rid_pid = 2, slot_num = 0\<rparr> t' = Inr (Some row, t') \<and>
    evaluate (BinaryLogicalExpr (ColumnLogicalExpr ''x'' None) (ColumnLogicalExpr ''y'' None) MULTIPLY) row schema =
      Inr (PrimitiveValue_int IntegerPrimitiveType w) \<and> sint w = - 12"
  by (rule query_computes_on_stored_rows [where sz = 3])
    (simp_all add: start_heap_def cmem_wf_def demo_junk_def point_columns_def col_readable_def col_ok_def str_bytes_def
      SCHEMA_COLUMN_SIZE_def PAGE_SIZE_def row_env_def in_i32_def)

end
